(* ===== verification/Prelude.thy ===== *)
theory Prelude
  imports Main "HOL-Library.Word"
begin

text \<open>
  Shared vocabulary of the development: the names of the machine integer types the C code
  uses, a generic notion of reachable state with its invariant rule, and the small facts on
  words and lists that several components need.
\<close>

unbundle bit_operations_syntax

section \<open>Machine integers\<close>

type_synonym u8 = "8 word"
type_synonym u16 = "16 word"
type_synonym u32 = "32 word"
type_synonym u64 = "64 word"

named_theorems mem_simps
named_theorems rt_defs

abbreviation NULL :: u32 where
  "NULL \<equiv> 0"

text \<open>
  A C condition on an unsigned difference, \<open>x - y\<close> computed modulo \<open>2 ^ 32\<close>,
  read as a natural number.
\<close>

lemma unat_u32_less: "unat (x :: u32) < 4294967296"
  using unsigned_less [of x] by simp

lemma unat_of_nat_u32 [simp]: "n < 4294967296 \<Longrightarrow> unat (of_nat n :: u32) = n"
  by (simp add: unat_of_nat)

lemma sint_of_nat_u32: "n < 2147483648 \<Longrightarrow> sint (of_nat n :: u32) = int n"
  by (simp add: signed_of_nat signed_take_bit_int_eq_self)

lemma of_nat_u32_eq_iff:
  "m < 4294967296 \<Longrightarrow> n < 4294967296 \<Longrightarrow> (of_nat m = (of_nat n :: u32)) \<longleftrightarrow> m = n"
  by (metis unat_of_nat_u32)

lemma u32_eqI: "unat x = n \<Longrightarrow> x = (of_nat n :: u32)"
  by (metis unat_of_nat_u32 unat_u32_less word_unat_eq_iff)

lemma of_nat_div_u32:
  "m < 4294967296 \<Longrightarrow> n < 4294967296 \<Longrightarrow> (of_nat m :: u32) div of_nat n = of_nat (m div n)"
  by (rule u32_eqI) (simp add: unat_div)

lemma of_nat_mod_u32:
  "m < 4294967296 \<Longrightarrow> n < 4294967296 \<Longrightarrow> (of_nat m :: u32) mod of_nat n = of_nat (m mod n)"
  by (rule u32_eqI) (simp add: unat_mod)

lemma unat_add_u32: "unat (x + y :: u32) = (unat x + unat y) mod 4294967296"
  by (simp add: unat_word_ariths)

lemma unat_sub_u32:
  "unat (x - y :: u32) = (if unat y \<le> unat x then unat x - unat y else 4294967296 + unat x - unat y)"
  using unat_u32_less [of x] unat_u32_less [of y] by (auto simp: unat_sub_if' word_le_nat_alt)

lemma unat_diff_swap: "x \<noteq> y \<Longrightarrow> unat (x - y :: u32) = 4294967296 - unat (y - x)"
  using unat_u32_less [of x] unat_u32_less [of y]
  by (auto simp: unat_sub_u32 dest: word_unat_eq_iff [THEN iffD2])

lemma sint_word_of_int_u32:
  "- 2147483648 \<le> x \<Longrightarrow> x < 2147483648 \<Longrightarrow> sint (word_of_int x :: u32) = x"
  by (simp add: signed_of_int signed_take_bit_int_eq_self)

lemma sint_u32_bounds: "- 2147483648 \<le> sint (x :: u32)" "sint x < 2147483648"
  using sint_ge [of x] sint_lt [of x] by simp_all

lemma sint_add_nat:
  "sint x + int n < 2147483648 \<Longrightarrow> sint (x + of_nat n :: u32) = sint x + int n"
proof -
  assume a: "sint x + int n < 2147483648"
  have "x + of_nat n = word_of_int (sint x + int n)" by simp
  also have "sint \<dots> = sint x + int n"
    by (rule sint_word_of_int_u32) (use a sint_u32_bounds [of x] in linarith)+
  finally show ?thesis .
qed

text \<open>A non-decreasing sequence of boundaries cuts its range into disjoint blocks.\<close>

lemma ex1_block:
  fixes f :: "nat \<Rightarrow> nat"
  assumes "f 0 \<le> j" "j < f n" "\<And>t. f t \<le> f (Suc t)"
  shows "\<exists>!t. t < n \<and> f t \<le> j \<and> j < f (Suc t)"
proof (rule ex_ex1I)
  show "\<exists>t<n. f t \<le> j \<and> j < f (Suc t)"
    using assms(1,2)
  proof (induction n)
    case (Suc n)
    then show ?case by (cases "j < f n") (auto intro: less_SucI)
  qed simp
next
  fix t u
  assume "t < n \<and> f t \<le> j \<and> j < f (Suc t)" "u < n \<and> f u \<le> j \<and> j < f (Suc u)"
  then have "\<not> t < u" "\<not> u < t"
    using lift_Suc_mono_le [of f "Suc t" u, OF assms(3)] lift_Suc_mono_le [of f "Suc u" t, OF assms(3)]
    by auto
  then show "t = u" by simp
qed

section \<open>Reachable states and invariants\<close>

inductive reach :: "('s \<Rightarrow> bool) \<Rightarrow> ('s \<Rightarrow> 's \<Rightarrow> bool) \<Rightarrow> 's \<Rightarrow> bool"
  for start :: "'s \<Rightarrow> bool" and step :: "'s \<Rightarrow> 's \<Rightarrow> bool" where
  reach_start: "start s \<Longrightarrow> reach start step s"
| reach_step: "reach start step s \<Longrightarrow> step s t \<Longrightarrow> reach start step t"

text \<open>
  The interface of an inductive invariant: it holds at the start and every step keeps it.
  Each concurrent component interprets this locale on its own start predicate, step
  relation and invariant.
\<close>

locale inductive_invariant =
  fixes start :: "'s \<Rightarrow> bool"
    and step :: "'s \<Rightarrow> 's \<Rightarrow> bool"
    and inv :: "'s \<Rightarrow> bool"
  assumes inv_start: "start s \<Longrightarrow> inv s"
    and inv_step: "inv s \<Longrightarrow> step s t \<Longrightarrow> inv t"
begin

lemma reach_inv: "reach start step s \<Longrightarrow> inv s"
  by (induction rule: reach.induct) (auto intro: inv_start inv_step)

lemma rtranclp_inv: "step\<^sup>*\<^sup>* s t \<Longrightarrow> inv s \<Longrightarrow> inv t"
  by (induction rule: rtranclp_induct) (auto intro: inv_step)

end

lemma reach_rtranclp: "step\<^sup>*\<^sup>* s t \<Longrightarrow> reach start step s \<Longrightarrow> reach start step t"
  by (induction rule: rtranclp_induct) (auto intro: reach_step)

end
