(* ===== verification/Memory.thy ===== *)
theory Memory
  imports Prelude
begin

text \<open>
  The memory the C code runs on: one byte per 32-bit address, little endian, addresses
  wrapping at \<open>2 ^ 32\<close> as pointer arithmetic does on the 32-bit Snitch core. Every
  component that goes through a pointer (the page pool, the linked lists, the copy
  routines, the runtime structures) shares this memory, so aliasing is visible.
\<close>

type_synonym mem = "u32 \<Rightarrow> u8"

section \<open>Bytes and 32-bit words\<close>

definition byte_of :: "u32 \<Rightarrow> nat \<Rightarrow> u8" where
  "byte_of v i = ucast (drop_bit (8 * i) v)"

definition word_of_bytes :: "u8 \<Rightarrow> u8 \<Rightarrow> u8 \<Rightarrow> u8 \<Rightarrow> u32" where
  "word_of_bytes b0 b1 b2 b3 =
     ucast b0 OR push_bit 8 (ucast b1) OR push_bit 16 (ucast b2) OR push_bit 24 (ucast b3)"

definition load32 :: "mem \<Rightarrow> u32 \<Rightarrow> u32" where
  "load32 m a = word_of_bytes (m a) (m (a + 1)) (m (a + 2)) (m (a + 3))"

definition store32 :: "mem \<Rightarrow> u32 \<Rightarrow> u32 \<Rightarrow> mem" where
  "store32 m a v =
     m(a := byte_of v 0, a + 1 := byte_of v 1, a + 2 := byte_of v 2, a + 3 := byte_of v 3)"

lemma bit_byte_of: "bit (byte_of v i) n \<longleftrightarrow> n < 8 \<and> bit v (8 * i + n)"
  by (simp add: byte_of_def bit_simps)

lemma word_of_bytes_byte_of:
  "word_of_bytes (byte_of v 0) (byte_of v (Suc 0)) (byte_of v 2) (byte_of v 3) = v"
proof (rule bit_word_eqI)
  fix n assume "n < LENGTH(32)"
  then consider "n < 8" | "8 \<le> n" "n < 16" | "16 \<le> n" "n < 24" | "24 \<le> n" "n < 32"
    by force
  then show "bit (word_of_bytes (byte_of v 0) (byte_of v (Suc 0)) (byte_of v 2) (byte_of v 3)) n
      = bit v n"
    by cases (auto simp: word_of_bytes_def bit_byte_of bit_simps)
qed

lemma byte_of_word_of_bytes:
  "byte_of (word_of_bytes b0 b1 b2 b3) 0 = b0"
  "byte_of (word_of_bytes b0 b1 b2 b3) (Suc 0) = b1"
  "byte_of (word_of_bytes b0 b1 b2 b3) 2 = b2"
  "byte_of (word_of_bytes b0 b1 b2 b3) 3 = b3"
  by (rule bit_word_eqI, auto simp: word_of_bytes_def byte_of_def bit_simps dest: bit_imp_le_length)+

lemma load32_store32_same [simp]: "load32 (store32 m a v) a = v"
  by (simp add: load32_def store32_def word_of_bytes_byte_of)

text \<open>Two 4-byte cells are apart when neither start lies within 3 bytes after the other.\<close>

definition apart32 :: "u32 \<Rightarrow> u32 \<Rightarrow> bool" where
  "apart32 a b \<longleftrightarrow> 4 \<le> unat (a - b) \<and> 4 \<le> unat (b - a)"

lemma apart32_sym: "apart32 a b = apart32 b a"
  by (auto simp: apart32_def)

lemma store32_other: "4 \<le> unat (x - a) \<Longrightarrow> store32 m a v x = m x"
proof -
  assume *: "4 \<le> unat (x - a)"
  have "x \<noteq> a" "x \<noteq> a + 1" "x \<noteq> a + 2" "x \<noteq> a + 3"
    using * by auto
  then show ?thesis by (simp add: store32_def)
qed

lemma apart32_offset:
  assumes "apart32 a b" "k < 4"
  shows "4 \<le> unat (a + of_nat k - b)"
proof -
  have "unat (a - b) \<noteq> 0" using assms by (auto simp: apart32_def)
  then have "a \<noteq> b" by auto
  then have "unat (b - a) = 4294967296 - unat (a - b)"
    by (metis unat_diff_swap)
  then have lt: "unat (a - b) + k < 4294967296" and ge: "4 \<le> unat (a - b)"
    using assms by (auto simp: apart32_def)
  have e: "a + of_nat k - b = (a - b) + of_nat k" by (simp add: algebra_simps)
  have "unat (a + of_nat k - b) = unat (a - b) + k"
    unfolding e using lt assms(2) by (simp add: unat_add_u32)
  then show ?thesis using ge by simp
qed

lemma load32_store32_apart [mem_simps]:
  assumes "apart32 a b"
  shows "load32 (store32 m b v) a = load32 m a"
  using apart32_offset [OF assms, of 0] apart32_offset [OF assms, of 1]
    apart32_offset [OF assms, of 2] apart32_offset [OF assms, of 3]
  by (simp add: load32_def store32_other)

lemma load32_cong:
  assumes "\<And>k. k < 4 \<Longrightarrow> m (a + of_nat k) = m' (a + of_nat k)"
  shows "load32 m a = load32 m' a"
  using assms [of 0] assms [of 1] assms [of 2] assms [of 3] by (simp add: load32_def)

section \<open>Block copies\<close>

text \<open>
  \<open>copy_from m0 m d s n\<close> is \<open>m\<close> with the \<open>n\<close> bytes at \<open>d\<close> replaced
  by the \<open>n\<close> bytes at \<open>s\<close> of \<open>m0\<close>; with \<open>m0 = m\<close> it is the
  specification every copy routine of the repository is compared with.
\<close>

definition copy_from :: "mem \<Rightarrow> mem \<Rightarrow> u32 \<Rightarrow> u32 \<Rightarrow> nat \<Rightarrow> mem" where
  "copy_from m0 m d s n = (\<lambda>a. if unat (a - d) < n then m0 (s + (a - d)) else m a)"

definition copied :: "mem \<Rightarrow> u32 \<Rightarrow> u32 \<Rightarrow> nat \<Rightarrow> mem" where
  "copied m d s n = copy_from m m d s n"

text \<open>
  The \<open>n\<close>-byte regions at \<open>d\<close> and \<open>s\<close> do not overlap (modulo the address
  width); this is C's requirement on the arguments of \<open>memcpy\<close>.
\<close>

definition separated :: "u32 \<Rightarrow> u32 \<Rightarrow> nat \<Rightarrow> bool" where
  "separated d s n \<longleftrightarrow> n \<le> unat (d - s) \<and> n \<le> unat (s - d)"

lemma copy_from_0 [simp]: "copy_from m0 m d s 0 = m"
  by (simp add: copy_from_def)

lemma copied_0 [simp]: "copied m d s 0 = m"
  by (simp add: copied_def)

lemma separated_mono: "separated d s n \<Longrightarrow> k \<le> n \<Longrightarrow> separated d s k"
  by (auto simp: separated_def)

lemma copy_from_append:
  assumes "n + k \<le> 4294967296"
  shows "copy_from m0 (copy_from m0 m d s n) (d + of_nat n) (s + of_nat n) k
       = copy_from m0 m d s (n + k)"
proof (cases "k = 0")
  case False
  show ?thesis
  proof (rule ext)
    fix a
    define x where "x = a - d"
    have n: "unat (of_nat n :: u32) = n" using assms False by simp
    have e1: "a - (d + of_nat n) = x - of_nat n" by (simp add: x_def algebra_simps)
    have e2: "s + of_nat n + (x - of_nat n) = s + x" by simp
    have u: "unat (x - of_nat n) = (if n \<le> unat x then unat x - n else 4294967296 + unat x - n)"
      by (simp add: unat_sub_u32 n)
    show "copy_from m0 (copy_from m0 m d s n) (d + of_nat n) (s + of_nat n) k a
        = copy_from m0 m d s (n + k) a"
      unfolding copy_from_def e1 e2 x_def [symmetric] u using assms False by auto
  qed
qed simp

lemma store32_as_copy_from: "v = load32 m0 s \<Longrightarrow> store32 m d v = copy_from m0 m d s 4"
proof (rule ext)
  fix a
  assume v: "v = load32 m0 s"
  have b: "byte_of v 0 = m0 s" "byte_of v (Suc 0) = m0 (s + 1)" "byte_of v 2 = m0 (s + 2)"
      "byte_of v 3 = m0 (s + 3)"
    by (simp_all add: v load32_def byte_of_word_of_bytes)
  show "store32 m d v a = copy_from m0 m d s 4 a"
  proof (cases "unat (a - d) < 4")
    case True
    then have "unat (a - d) \<in> {0, 1, 2, 3}" by auto
    then have "a - d = 0 \<or> a - d = 1 \<or> a - d = 2 \<or> a - d = 3"
      by (auto simp: word_unat_eq_iff)
    then have "a = d \<or> a = d + 1 \<or> a = d + 2 \<or> a = d + 3"
      by (auto simp: algebra_simps)
    then show ?thesis
      by (elim disjE) (simp_all add: store32_def copy_from_def b)
  next
    case False
    then show ?thesis by (simp add: store32_other copy_from_def)
  qed
qed

text \<open>
  Separated regions: the source is not disturbed by copying a prefix, so a copy done in
  pieces is the copy of the whole.
\<close>

lemma separated_neq: "separated d s n \<Longrightarrow> 0 < n \<Longrightarrow> unat (s - d) = 4294967296 - unat (d - s)"
  unfolding separated_def by (metis cancel_comm_monoid_add_class.diff_cancel le_0_eq less_numeral_extra(3)
      unat_diff_swap unsigned_0)

lemma separated_bound: "separated d s n \<Longrightarrow> n \<le> 2147483648"
  using separated_neq [of d s n] by (cases "n = 0") (auto simp: separated_def)

lemma copied_source:
  assumes "separated d s n" "i < n" "k \<le> n"
  shows "copied m d s k (s + of_nat i) = m (s + of_nat i)"
proof -
  have e: "s + of_nat i - d = (s - d) + of_nat i" by (simp add: algebra_simps)
  have swap: "unat (s - d) = 4294967296 - unat (d - s)"
    using separated_neq [OF assms(1)] assms(2) by simp
  have bnd: "n \<le> unat (s - d)" "n \<le> unat (d - s)" "n \<le> 2147483648"
    using assms(1) separated_bound [OF assms(1)] by (auto simp: separated_def)
  then have "unat (s - d) + i < 4294967296" using swap assms(2) by linarith
  then have "unat (s + of_nat i - d) = unat (s - d) + i"
    unfolding e using bnd assms(2) by (simp add: unat_add_u32)
  then show ?thesis
    using bnd assms(3) by (simp add: copied_def copy_from_def)
qed

lemma copied_append:
  assumes sep: "separated d s (n + k)"
  shows "copied (copied m d s n) (d + of_nat n) (s + of_nat n) k = copied m d s (n + k)"
proof -
  have bnd: "n + k \<le> 2147483648" by (rule separated_bound [OF sep])
  have "copy_from (copied m d s n) (copied m d s n) (d + of_nat n) (s + of_nat n) k
      = copy_from m (copied m d s n) (d + of_nat n) (s + of_nat n) k"
  proof (rule ext)
    fix a
    show "copy_from (copied m d s n) (copied m d s n) (d + of_nat n) (s + of_nat n) k a
        = copy_from m (copied m d s n) (d + of_nat n) (s + of_nat n) k a"
    proof (cases "unat (a - (d + of_nat n)) < k")
      case True
      define j where "j = unat (a - (d + of_nat n))"
      have j: "j < k" "a - (d + of_nat n) = of_nat j" using True by (auto simp: j_def)
      have "copied m d s n (s + of_nat (n + j)) = m (s + of_nat (n + j))"
        by (rule copied_source [OF sep]) (use j in auto)
      then show ?thesis using j by (simp add: copy_from_def add.assoc)
    next
      case False
      then show ?thesis by (simp add: copy_from_def)
    qed
  qed
  then show ?thesis
    using copy_from_append [of n k m m d s] bnd by (simp add: copied_def)
qed

lemma copied_cell1: "m(d := m s) = copied m d s 1"
  by (rule ext) (auto simp: copied_def copy_from_def unat_eq_zero)

lemma copied_cell4: "store32 m d (load32 m s) = copied m d s 4"
  by (simp add: copied_def store32_as_copy_from)

lemma copied_get: "i < n \<Longrightarrow> n \<le> 4294967296 \<Longrightarrow> copied m d s n (d + of_nat i) = m (s + of_nat i)"
  by (simp add: copied_def copy_from_def)

lemma copied_outside: "n \<le> unat (a - d) \<Longrightarrow> copied m d s n a = m a"
  by (simp add: copied_def copy_from_def)

lemma copied_load32:
  assumes "i + 4 \<le> n" "n \<le> 4294967296"
  shows "load32 (copied m d s n) (d + of_nat i) = load32 m (s + of_nat i)"
proof -
  have "copied m d s n (d + of_nat i + of_nat k) = m (s + of_nat i + of_nat k)" if "k < 4" for k
    using copied_get [of "i + k" n m d s] assms that by (simp add: add.assoc)
  from this [of 0] this [of 1] this [of 2] this [of 3] show ?thesis
    by (simp add: load32_def)
qed

end
