(* ===== verification/Vector.thy ===== *)
theory Vector
  imports Memory
begin

text \<open>
  The RISC-V vector instructions the copy and compute kernels issue through inline
  assembly, for 32-bit elements and the 512-bit vector registers the kernels are written
  for (\<open>VLEN_BITS = 512\<close>, 16 elements per register). The register file is flat:
  element \<open>i\<close> of the group that starts at register \<open>v\<close> is element
  \<open>16 * v + i\<close>, so register groups of different \<open>LMUL\<close> overlap as they do in
  hardware. Elements beyond \<open>vl\<close> are left alone, which the tail-agnostic policy
  \<open>ta\<close> permits; no result below depends on them.
\<close>

record hart =
  hmem :: mem
  hvl :: nat
  hvrf :: "nat \<Rightarrow> u32"

definition vsetvli :: "nat \<Rightarrow> nat \<Rightarrow> hart \<Rightarrow> hart" where
  "vsetvli lmul avl h = h\<lparr>hvl := min avl (16 * lmul)\<rparr>"

definition vle32 :: "nat \<Rightarrow> u32 \<Rightarrow> hart \<Rightarrow> hart" where
  "vle32 vd a h = h\<lparr>hvrf := (\<lambda>k. if 16 * vd \<le> k \<and> k < 16 * vd + hvl h
      then load32 (hmem h) (a + 4 * of_nat (k - 16 * vd)) else hvrf h k)\<rparr>"

fun store_words :: "mem \<Rightarrow> u32 \<Rightarrow> u32 list \<Rightarrow> mem" where
  "store_words m a [] = m"
| "store_words m a (w # ws) = store_words (store32 m a w) (a + 4) ws"

definition vse32 :: "nat \<Rightarrow> u32 \<Rightarrow> hart \<Rightarrow> hart" where
  "vse32 vs a h =
     h\<lparr>hmem := store_words (hmem h) a (map (\<lambda>i. hvrf h (16 * vs + i)) [0..<hvl h])\<rparr>"

definition vslideup_vi :: "nat \<Rightarrow> nat \<Rightarrow> nat \<Rightarrow> hart \<Rightarrow> hart" where
  "vslideup_vi vd vs off h = h\<lparr>hvrf := (\<lambda>k. if 16 * vd + off \<le> k \<and> k < 16 * vd + hvl h
      then hvrf h (16 * vs + (k - 16 * vd - off)) else hvrf h k)\<rparr>"

definition vmv_s_x :: "nat \<Rightarrow> u32 \<Rightarrow> hart \<Rightarrow> hart" where
  "vmv_s_x vd x h = (if 0 < hvl h then h\<lparr>hvrf := (hvrf h)(16 * vd := x)\<rparr> else h)"

lemma vsetvli_simps [simp]:
  "hmem (vsetvli l avl h) = hmem h" "hvrf (vsetvli l avl h) = hvrf h"
  "hvl (vsetvli l avl h) = min avl (16 * l)"
  by (simp_all add: vsetvli_def)

lemma vle32_simps [simp]: "hmem (vle32 v a h) = hmem h" "hvl (vle32 v a h) = hvl h"
  by (simp_all add: vle32_def)

lemma vse32_simps [simp]: "hvrf (vse32 v a h) = hvrf h" "hvl (vse32 v a h) = hvl h"
  by (simp_all add: vse32_def)

section \<open>Groups that hold a piece of memory\<close>

text \<open>The first \<open>n\<close> elements of group \<open>v\<close> are the words at \<open>s\<close> of \<open>m0\<close>.\<close>

definition holds :: "mem \<Rightarrow> (nat \<Rightarrow> u32) \<Rightarrow> nat \<Rightarrow> u32 \<Rightarrow> nat \<Rightarrow> bool" where
  "holds m0 r v s n \<longleftrightarrow> (\<forall>i<n. r (16 * v + i) = load32 m0 (s + 4 * of_nat i))"

lemma holds_loaded: "holds (hmem h) (hvrf (vle32 v s h)) v s (hvl h)"
  by (simp add: holds_def vle32_def)

lemma holds_loaded': "m0 = hmem h \<Longrightarrow> n = hvl h \<Longrightarrow> holds m0 (hvrf (vle32 v s h)) v s n"
  by (simp add: holds_loaded)

lemma holds_kept:
  "holds m0 (hvrf h) v s n \<Longrightarrow> 16 * v + n \<le> 16 * vd \<or> 16 * vd + hvl h \<le> 16 * v
   \<Longrightarrow> holds m0 (hvrf (vle32 vd a h)) v s n"
  by (auto simp: holds_def vle32_def)

lemma store_words_copy:
  "(\<And>i. i < length ws \<Longrightarrow> ws ! i = load32 m0 (s + 4 * of_nat i)) \<Longrightarrow>
   4 * length ws \<le> 4294967296 \<Longrightarrow> store_words m d ws = copy_from m0 m d s (4 * length ws)"
proof (induction ws arbitrary: m d s)
  case Nil
  then show ?case by simp
next
  case (Cons w ws)
  have w: "w = load32 m0 s" using Cons.prems(1) [of 0] by simp
  have tl: "ws ! i = load32 m0 (s + 4 + 4 * of_nat i)" if "i < length ws" for i
    using Cons.prems(1) [of "Suc i"] that by (simp add: algebra_simps)
  have "store_words m d (w # ws)
      = copy_from m0 (copy_from m0 m d s 4) (d + 4) (s + 4) (4 * length ws)"
    using Cons.IH [OF tl] Cons.prems(2) by (simp add: store32_as_copy_from [OF w])
  also have "\<dots> = copy_from m0 m d s (4 + 4 * length ws)"
    using copy_from_append [of 4 "4 * length ws" m0 m d s] Cons.prems(2) by simp
  finally show ?case by simp
qed

lemma vse32_copy:
  assumes "holds m0 (hvrf h) v s (hvl h)" "hvl h \<le> 512"
  shows "hmem (vse32 v d h) = copy_from m0 (hmem h) d s (4 * hvl h)"
  using assms store_words_copy [of "map (\<lambda>i. hvrf h (16 * v + i)) [0..<hvl h]" m0 s "hmem h" d]
  by (simp add: vse32_def holds_def)

text \<open>One load followed by the store of the same group.\<close>

lemma vle32_vse32:
  "hvl h \<le> 512 \<Longrightarrow> hmem (vse32 v d (vle32 v s h)) = copied (hmem h) d s (4 * hvl h)"
  using vse32_copy [of "hmem h" "vle32 v s h" v s d] holds_loaded [of h v s]
  by (simp add: copied_def)

section \<open>Unrolled groups of loads and stores\<close>

text \<open>
  The unrolled bodies \<open>if (big > k) vle32.v v(M*k), (s32 + copied + k*elems)\<close> for
  \<open>k = lo, \<dots>, hi-1\<close>, and the stores of the same shape. A body without the
  guards is the case \<open>hi \<le> big\<close>.
\<close>

definition group_loads ::
    "nat \<Rightarrow> nat \<Rightarrow> nat \<Rightarrow> u32 \<Rightarrow> nat \<Rightarrow> nat \<Rightarrow> nat \<Rightarrow> hart \<Rightarrow> hart" where
  "group_loads M elems big s32 copied_w lo hi h =
     fold (\<lambda>k h. if k < big then vle32 (M * k) (s32 + 4 * of_nat (copied_w + k * elems)) h else h)
       [lo..<hi] h"

definition group_stores ::
    "nat \<Rightarrow> nat \<Rightarrow> nat \<Rightarrow> u32 \<Rightarrow> nat \<Rightarrow> nat \<Rightarrow> nat \<Rightarrow> hart \<Rightarrow> hart" where
  "group_stores M elems big d32 copied_w lo hi h =
     fold (\<lambda>k h. if k < big then vse32 (M * k) (d32 + 4 * of_nat (copied_w + k * elems)) h else h)
       [lo..<hi] h"

lemma group_loads_Suc:
  "lo \<le> hi \<Longrightarrow> group_loads M e big s c lo (Suc hi) h =
     (if hi < big then vle32 (M * hi) (s + 4 * of_nat (c + hi * e)) (group_loads M e big s c lo hi h)
      else group_loads M e big s c lo hi h)"
  by (simp add: group_loads_def)

lemma group_stores_Suc:
  "lo \<le> hi \<Longrightarrow> group_stores M e big d c lo (Suc hi) h =
     (if hi < big then vse32 (M * hi) (d + 4 * of_nat (c + hi * e)) (group_stores M e big d c lo hi h)
      else group_stores M e big d c lo hi h)"
  by (simp add: group_stores_def)

lemma group_loads_simps [simp]:
  "hmem (group_loads M e big s c lo hi h) = hmem h" "hvl (group_loads M e big s c lo hi h) = hvl h"
  by (induction hi) (auto simp: group_loads_def)

lemma group_loads_holds:
  assumes "hvl h = 16 * M" "lo \<le> k" "k < hi" "k < big"
  shows "holds (hmem h) (hvrf (group_loads M e big s c lo hi h)) (M * k)
      (s + 4 * of_nat (c + k * e)) (16 * M)"
  using assms(3)
proof (induction hi)
  case 0
  then show ?case by simp
next
  case (Suc G)
  let ?h = "group_loads M e big s c lo G h"
  have lo: "lo \<le> G" using Suc.prems assms(2) by simp
  show ?case
  proof (cases "k = G")
    case True
    then show ?thesis using assms holds_loaded [of ?h "M * G"] by (simp add: group_loads_Suc [OF lo])
  next
    case False
    then have "k < G" using Suc.prems by simp
    then have "Suc k \<le> G" by simp
    then have "M * Suc k \<le> M * G" by (rule mult_le_mono2)
    then have "16 * (M * k) + 16 * M \<le> 16 * (M * G)" by simp
    then show ?thesis using Suc.IH [OF \<open>k < G\<close>]
      by (auto simp: group_loads_Suc [OF lo] intro!: holds_kept)
  qed
qed

lemma group_stores_copy:
  assumes h: "\<And>k. lo \<le> k \<Longrightarrow> k < hi \<Longrightarrow> k < big \<Longrightarrow>
      holds m0 (hvrf h) (M * k) (s + 4 * of_nat (c + k * e)) (16 * M)"
    and "hvl h = 16 * M" "e = 16 * M" "hi * M \<le> 32"
  shows "hmem (group_stores M e big d c lo hi h)
      = copy_from m0 (hmem h) (d + 4 * of_nat (c + lo * e)) (s + 4 * of_nat (c + lo * e))
          (4 * ((min hi big - lo) * e))
    \<and> hvrf (group_stores M e big d c lo hi h) = hvrf h \<and> hvl (group_stores M e big d c lo hi h) = hvl h"
  using assms(1,4)
proof (induction hi)
  case 0
  then show ?case by (simp add: group_stores_def)
next
  case (Suc G)
  let ?h = "group_stores M e big d c lo G h"
  let ?d = "d + 4 * of_nat (c + lo * e)" and ?s = "s + 4 * of_nat (c + lo * e)"
  have IH: "hmem ?h = copy_from m0 (hmem h) ?d ?s (4 * ((min G big - lo) * e))"
      "hvrf ?h = hvrf h" "hvl ?h = hvl h"
    using Suc by auto
  consider "G < lo" | "lo \<le> G" "G < big" | "lo \<le> G" "big \<le> G" by linarith
  then show ?case
  proof cases
    case 1
    then show ?thesis by (auto simp: group_stores_def)
  next
    case 2
    define n where "n = (G - lo) * e"
    have hG: "holds m0 (hvrf ?h) (M * G) (s + 4 * of_nat (c + G * e)) (hvl ?h)"
      using Suc.prems(1) [of G] 2 IH assms(2) by simp
    have bG: "Suc G * e \<le> 512" using Suc.prems(2) assms(3) by simp
    have M: "16 * M \<le> 512" using bG assms(3) by simp
    have "n \<le> G * e" unfolding n_def by (rule mult_le_mono1) simp
    then have n: "n + e \<le> 512" using bG by simp
    have "lo * e + n = G * e"
      using 2 by (simp add: n_def diff_mult_distrib)
    then have G: "(of_nat (c + G * e) :: u32) = of_nat (c + lo * e) + of_nat n"
      by (metis add.assoc of_nat_add)
    have "hmem (vse32 (M * G) (d + 4 * of_nat (c + G * e)) ?h)
        = copy_from m0 (hmem ?h) (d + 4 * of_nat (c + G * e)) (s + 4 * of_nat (c + G * e)) (4 * e)"
      using vse32_copy [OF hG] M assms(2,3) IH(3) by simp
    also have "\<dots> = copy_from m0 (copy_from m0 (hmem h) ?d ?s (4 * n))
        (?d + of_nat (4 * n)) (?s + of_nat (4 * n)) (4 * e)"
      unfolding G using 2 by (simp add: IH(1) algebra_simps min_def n_def)
    also have "\<dots> = copy_from m0 (hmem h) ?d ?s (4 * n + 4 * e)"
      by (rule copy_from_append) (use n in simp)
    also have "4 * n + 4 * e = 4 * ((min (Suc G) big - lo) * e)"
      using 2 by (simp add: n_def Suc_diff_le)
    finally show ?thesis using 2 IH by (simp add: group_stores_Suc)
  next
    case 3
    then show ?thesis using IH by (simp add: group_stores_Suc min_def)
  qed
qed

lemma group_copy:
  assumes "hvl h = 16 * M" "e = 16 * M" "hi * M \<le> 32"
  shows "hmem (group_stores M e big d c lo hi (group_loads M e big s c lo hi h))
      = copied (hmem h) (d + 4 * of_nat (c + lo * e)) (s + 4 * of_nat (c + lo * e))
          (4 * ((min hi big - lo) * e))
    \<and> hvl (group_stores M e big d c lo hi (group_loads M e big s c lo hi h)) = hvl h"
proof -
  let ?l = "group_loads M e big s c lo hi h"
  have loaded: "holds (hmem h) (hvrf ?l) (M * k) (s + 4 * of_nat (c + k * e)) (16 * M)"
    if "lo \<le> k" "k < hi" "k < big" for k
    by (rule group_loads_holds [OF assms(1) that])
  have vl: "hvl ?l = 16 * M" using assms(1) by (simp only: group_loads_simps)
  have "hmem (group_stores M e big d c lo hi ?l)
      = copy_from (hmem h) (hmem ?l) (d + 4 * of_nat (c + lo * e)) (s + 4 * of_nat (c + lo * e))
          (4 * ((min hi big - lo) * e))
      \<and> hvl (group_stores M e big d c lo hi ?l) = hvl ?l"
    using group_stores_copy [OF loaded vl assms(2,3)] by blast
  then show ?thesis by (simp only: group_loads_simps copied_def)
qed

end
