(* ===== verification/DataMove.thy ===== *)
theory DataMove
  imports Vector
begin

text \<open>
  The copy routines: \<open>data_move_vec.c\<close> of the RLC test (scalar byte and word loops, the
  vectorised routines, the fixed-size copies of a 1360-byte packet) and \<open>memcpy\<close>,
  \<open>snrt_memset\<close> of the runtime. A counted \<open>for\<close> loop is a \<open>fold\<close>
  over its indices, a \<open>while\<close> loop a recursive function with the words still to be copied
  as measure. \<open>len_bytes\<close> is a 32-bit \<open>size_t\<close>; the word counters derived from
  it are natural numbers, which loses nothing because every loop keeps
  \<open>copied \<le> word_count\<close>, so that no subtraction of the code wraps.
\<close>

section \<open>Scalar loops\<close>

definition copy_bytes :: "u32 \<Rightarrow> u32 \<Rightarrow> nat \<Rightarrow> mem \<Rightarrow> mem" where
  "copy_bytes d s n m = fold (\<lambda>i m. m(d + of_nat i := m (s + of_nat i))) [0..<n] m"

definition copy_words :: "u32 \<Rightarrow> u32 \<Rightarrow> nat \<Rightarrow> nat \<Rightarrow> mem \<Rightarrow> mem" where
  "copy_words d32 s32 lo hi m =
     fold (\<lambda>i m. store32 m (d32 + 4 * of_nat i) (load32 m (s32 + 4 * of_nat i))) [lo..<hi] m"

definition scalar_memcpy32_8bit :: "u32 \<Rightarrow> u32 \<Rightarrow> u32 \<Rightarrow> hart \<Rightarrow> hart" where
  "scalar_memcpy32_8bit dst src len_bytes h =
     h\<lparr>hmem := copy_bytes dst src (unat len_bytes) (hmem h)\<rparr>"

definition scalar_memcpy32_32bit :: "u32 \<Rightarrow> u32 \<Rightarrow> u32 \<Rightarrow> hart \<Rightarrow> hart" where
  "scalar_memcpy32_32bit dst src len_bytes h =
     (let n_words = unat len_bytes div 4;
          m1 = copy_words dst src 0 n_words (hmem h);
          d8 = dst + 4 * of_nat n_words;
          s8 = src + 4 * of_nat n_words;
          tail = unat len_bytes - n_words * 4
      in h\<lparr>hmem := copy_bytes d8 s8 tail m1\<rparr>)"

fun copy_blocks4 :: "nat \<Rightarrow> mem \<times> u32 \<times> u32 \<Rightarrow> mem \<times> u32 \<times> u32" where
  "copy_blocks4 0 st = st"
| "copy_blocks4 (Suc blocks) (m, d32, s32) =
     (let m = store32 m d32 (load32 m s32);
          m = store32 m (d32 + 4) (load32 m (s32 + 4));
          m = store32 m (d32 + 8) (load32 m (s32 + 8));
          m = store32 m (d32 + 12) (load32 m (s32 + 12))
      in copy_blocks4 blocks (m, d32 + 16, s32 + 16))"

definition scalar_memcpy32_32bit_unrolled :: "u32 \<Rightarrow> u32 \<Rightarrow> u32 \<Rightarrow> hart \<Rightarrow> hart" where
  "scalar_memcpy32_32bit_unrolled dst src len_bytes h =
     (let n_words = unat len_bytes div 4;
          blocks = n_words div 4;
          rem_w = n_words mod 4;
          (m1, d32, s32) = copy_blocks4 blocks (hmem h, dst, src);
          m2 = copy_words d32 s32 0 rem_w m1;
          tail = unat len_bytes - n_words * 4
      in h\<lparr>hmem := copy_bytes (d32 + 4 * of_nat rem_w) (s32 + 4 * of_nat rem_w) tail m2\<rparr>)"

text \<open>\<open>memcpy\<close> of the runtime returns its first argument.\<close>

definition memcpy :: "u32 \<Rightarrow> u32 \<Rightarrow> u32 \<Rightarrow> mem \<Rightarrow> u32 \<times> mem" where
  "memcpy dest src n m = (dest, copy_bytes dest src (unat n) m)"

definition snrt_memcpy :: "u32 \<Rightarrow> u32 \<Rightarrow> u32 \<Rightarrow> mem \<Rightarrow> u32 \<times> mem" where
  "snrt_memcpy dst src n m = memcpy dst src n m"

definition snrt_memset :: "u32 \<Rightarrow> u32 \<Rightarrow> u32 \<Rightarrow> mem \<Rightarrow> u32 \<times> mem" where
  "snrt_memset ptr value num m =
     (ptr, fold (\<lambda>i m. m(ptr + of_nat i := ucast value)) [0..<unat num] m)"

section \<open>Vectorised routines\<close>

text \<open>\<open>rem & ~((size_t)3)\<close>.\<close>

definition round_down4 :: "nat \<Rightarrow> nat" where
  "round_down4 n = unat ((of_nat n :: u32) AND NOT 3)"

text \<open>
  The medium loop: at most one register group per turn; the transfer length is a multiple
  of 4 words. The code leaves the loop on \<open>avl = 0\<close>, and the guard
  \<open>copied + avl \<le> word_count\<close> of the recursion always holds then (lemma
  \<open>medium_avl\<close>); it only makes the termination evident.
\<close>

definition medium_avl :: "nat \<Rightarrow> nat \<Rightarrow> nat" where
  "medium_avl elems rest = (if elems < rest then elems else round_down4 rest)"

function medium_loop :: "nat \<Rightarrow> nat \<Rightarrow> u32 \<Rightarrow> u32 \<Rightarrow> nat \<Rightarrow> nat \<times> hart \<Rightarrow> nat \<times> hart" where
  "medium_loop M elems d32 s32 word_count (copied_w, h) =
     (if 4 \<le> word_count - copied_w then
        (let avl = medium_avl elems (word_count - copied_w) in
         if avl = 0 then (copied_w, h)
         else medium_loop M elems d32 s32 word_count
           (copied_w + avl,
            vse32 0 (d32 + 4 * of_nat copied_w)
              (vle32 0 (s32 + 4 * of_nat copied_w) (vsetvli M avl h))))
      else (copied_w, h))"
  by pat_completeness auto
termination
  by (relation "measure (\<lambda>(M, e, d, s, wc, c, h). wc - c)") auto

text \<open>
  The big loops. \<open>big_loop_m4\<close> is the loop of \<open>vector_memcpy32_m4_opt\<close> (eight
  groups of four registers, loads first), \<open>big_loop_m8\<close> the one of
  \<open>vector_memcpy32_m8_opt\<close> (four groups of eight registers, in two pairs), and
  \<open>big_loop\<close> the one the general routines share, with the number of groups computed
  from the word count.
\<close>

function big_loop_m4 :: "u32 \<Rightarrow> u32 \<Rightarrow> nat \<Rightarrow> nat \<times> hart \<Rightarrow> nat \<times> hart" where
  "big_loop_m4 d32 s32 word_count (copied_w, h) =
     (if 512 \<le> word_count - copied_w then
        (let h = vsetvli 4 512 h;
             h = group_loads 4 64 8 s32 copied_w 0 8 h;
             h = group_stores 4 64 8 d32 copied_w 0 8 h
         in big_loop_m4 d32 s32 word_count (copied_w + 512, h))
      else (copied_w, h))"
  by pat_completeness auto
termination
  by (relation "measure (\<lambda>(d, s, wc, c, h). wc - c)") auto

function big_loop_m8 :: "u32 \<Rightarrow> u32 \<Rightarrow> nat \<Rightarrow> nat \<times> hart \<Rightarrow> nat \<times> hart" where
  "big_loop_m8 d32 s32 word_count (copied_w, h) =
     (if 512 \<le> word_count - copied_w then
        (let h = vsetvli 8 512 h;
             h = group_loads 8 128 4 s32 copied_w 0 2 h;
             h = group_stores 8 128 4 d32 copied_w 0 2 h;
             h = group_loads 8 128 4 s32 copied_w 2 4 h;
             h = group_stores 8 128 4 d32 copied_w 2 4 h
         in big_loop_m8 d32 s32 word_count (copied_w + 512, h))
      else (copied_w, h))"
  by pat_completeness auto
termination
  by (relation "measure (\<lambda>(d, s, wc, c, h). wc - c)") auto

function big_loop :: "nat \<Rightarrow> nat \<Rightarrow> nat \<Rightarrow> nat \<Rightarrow> u32 \<Rightarrow> u32 \<Rightarrow> nat \<Rightarrow> nat \<times> hart \<Rightarrow> nat \<times> hart" where
  "big_loop M elems groups big d32 s32 word_count (copied_w, h) =
     (if 0 < big * elems \<and> big * elems \<le> word_count - copied_w then
        (let h = vsetvli M (big * elems) h;
             h = group_loads M elems big s32 copied_w 0 groups h;
             h = group_stores M elems big d32 copied_w 0 groups h
         in big_loop M elems groups big d32 s32 word_count (copied_w + big * elems, h))
      else (copied_w, h))"
  by pat_completeness auto
termination
proof (relation "measure (\<lambda>(M, e, g, b, d, s, wc, c, h). wc - c)", goal_cases)
  case (2 M elems groups big d32 s32 word_count copied_w h h1 h2 h3)
  from 2(1) have "word_count - (copied_w + big * elems) < word_count - copied_w" by linarith
  then show ?case by simp
qed simp

text \<open>The number of groups of one big chunk.\<close>

definition big_chunks :: "nat \<Rightarrow> nat \<Rightarrow> nat \<Rightarrow> nat" where
  "big_chunks words elems max_groups =
     (if max_groups < words div elems then max_groups else words div elems)"

text \<open>
  The tails written as one \<open>asm\<close> block per length: all loads precede all stores.
\<close>

definition word_tail :: "u32 \<Rightarrow> u32 \<Rightarrow> nat \<Rightarrow> mem \<Rightarrow> mem" where
  "word_tail d s k m =
     (let t0 = load32 m s; t1 = load32 m (s + 4); t2 = load32 m (s + 8) in
      if k = 3 then store32 (store32 (store32 m d t0) (d + 4) t1) (d + 8) t2
      else if k = 2 then store32 (store32 m d t0) (d + 4) t1
      else if k = 1 then store32 m d t0
      else m)"

definition byte_tail :: "u32 \<Rightarrow> u32 \<Rightarrow> nat \<Rightarrow> mem \<Rightarrow> mem" where
  "byte_tail d s k m =
     (let t0 = m s; t1 = m (s + 1); t2 = m (s + 2) in
      if k = 3 then m(d := t0, d + 1 := t1, d + 2 := t2)
      else if k = 2 then m(d := t0, d + 1 := t1)
      else if k = 1 then m(d := t0)
      else m)"

definition vector_memcpy32_m4_opt :: "u32 \<Rightarrow> u32 \<Rightarrow> u32 \<Rightarrow> hart \<Rightarrow> hart" where
  "vector_memcpy32_m4_opt dst src len_bytes h =
     (let word_count = unat len_bytes div 4;
          (c1, h1) = big_loop_m4 dst src word_count (0, h);
          (c2, h2) = medium_loop 4 64 dst src word_count (c1, h1);
          m1 = copy_words dst src c2 word_count (hmem h2);
          c3 = max c2 word_count;
          tail = unat len_bytes - word_count * 4
      in h2\<lparr>hmem := copy_bytes (dst + 4 * of_nat c3) (src + 4 * of_nat c3) tail m1\<rparr>)"

definition vector_memcpy32_m8_opt :: "u32 \<Rightarrow> u32 \<Rightarrow> u32 \<Rightarrow> hart \<Rightarrow> hart" where
  "vector_memcpy32_m8_opt dst src len_bytes h =
     (let word_count = unat len_bytes div 4;
          (c1, h1) = big_loop_m8 dst src word_count (0, h);
          (c2, h2) = medium_loop 8 128 dst src word_count (c1, h1);
          m1 = copy_words dst src c2 word_count (hmem h2);
          c3 = max c2 word_count;
          tail = unat len_bytes - word_count * 4
      in h2\<lparr>hmem := copy_bytes (dst + 4 * of_nat c3) (src + 4 * of_nat c3) tail m1\<rparr>)"

definition vector_memcpy32_m4_general_opt :: "u32 \<Rightarrow> u32 \<Rightarrow> u32 \<Rightarrow> hart \<Rightarrow> hart" where
  "vector_memcpy32_m4_general_opt dst src len_bytes h =
     (let word_count = unat len_bytes div 4;
          big = big_chunks word_count 64 8;
          (c1, h1) = big_loop 4 64 8 big dst src word_count (0, h);
          (c2, h2) = medium_loop 4 64 dst src word_count (c1, h1);
          k = word_count - c2;
          m1 = word_tail (dst + 4 * of_nat c2) (src + 4 * of_nat c2) k (hmem h2);
          c3 = (if k \<in> {1, 2, 3} then c2 + k else c2);
          bytes = unat len_bytes - word_count * 4
      in h2\<lparr>hmem := byte_tail (dst + 4 * of_nat c3) (src + 4 * of_nat c3) bytes m1\<rparr>)"

definition vector_memcpy32_m8_m4_general_opt :: "u32 \<Rightarrow> u32 \<Rightarrow> u32 \<Rightarrow> hart \<Rightarrow> hart" where
  "vector_memcpy32_m8_m4_general_opt dst src len_bytes h =
     (let word_count = unat len_bytes div 4;
          big8 = big_chunks word_count 128 4;
          (c0, h0) = big_loop 8 128 4 big8 dst src word_count (0, h);
          big4 = big_chunks (word_count - c0) 64 8;
          (c1, h1) = big_loop 4 64 8 big4 dst src word_count (c0, h0);
          (c2, h2) = medium_loop 4 64 dst src word_count (c1, h1);
          k = word_count - c2;
          m1 = word_tail (dst + 4 * of_nat c2) (src + 4 * of_nat c2) k (hmem h2);
          c3 = (if k \<in> {1, 2, 3} then c2 + k else c2);
          bytes = unat len_bytes - word_count * 4
      in h2\<lparr>hmem := byte_tail (dst + 4 * of_nat c3) (src + 4 * of_nat c3) bytes m1\<rparr>)"

text \<open>The two fixed-size copies of a 1360-byte RLC packet (340 words).\<close>

definition vector_memcpy32_1360B_opt :: "u32 \<Rightarrow> u32 \<Rightarrow> hart \<Rightarrow> hart" where
  "vector_memcpy32_1360B_opt dst src h =
     (let h = vsetvli 8 128 h;
          h = vle32 0 src h;
          h = vle32 8 (src + 4 * 128) h;
          h = vsetvli 8 84 h;
          h = vle32 16 (src + 4 * 256) h;
          h = vsetvli 8 84 h;
          h = vse32 16 (dst + 4 * 256) h;
          h = vsetvli 8 128 h;
          h = vse32 0 dst h
      in vse32 8 (dst + 4 * 128) h)"

definition vector_memcpy32_1360B_opt_with_header :: "u32 \<Rightarrow> u32 \<Rightarrow> u32 \<Rightarrow> hart \<Rightarrow> hart" where
  "vector_memcpy32_1360B_opt_with_header dst src SN h =
     (let s32 = src + 4;
          h = vsetvli 8 84 h;
          h = vle32 16 s32 h;
          h = vsetvli 8 128 h;
          h = vle32 0 (s32 + 4 * (84 - 1)) h;
          h = vle32 8 (s32 + 4 * (84 - 1 + 128)) h;
          h = vslideup_vi 24 16 1 h;
          h = vmv_s_x 24 SN h;
          h = vsetvli 8 84 h;
          h = vse32 24 dst h;
          h = vsetvli 8 128 h;
          h = vse32 0 (dst + 4 * 84) h
      in vse32 8 (dst + 4 * (84 + 128)) h)"

declare medium_loop.simps [simp del] big_loop_m4.simps [simp del] big_loop_m8.simps [simp del]
  big_loop.simps [simp del]

section \<open>The loops copy a prefix\<close>

text \<open>
  \<open>prefix_copied m0 d s c m\<close>: the memory is the original one with the first \<open>c\<close>
  words copied. It is the invariant of every loop of this component.
\<close>

definition prefix_copied :: "mem \<Rightarrow> u32 \<Rightarrow> u32 \<Rightarrow> nat \<Rightarrow> mem \<Rightarrow> bool" where
  "prefix_copied m0 d s c m \<longleftrightarrow> m = copied m0 d s (4 * c)"

lemma prefix_copied_0: "prefix_copied m d s 0 m"
  by (simp add: prefix_copied_def)

lemma prefix_copied_step:
  assumes "prefix_copied m0 d s c m" "separated d s (4 * (c + k))"
    "m' = copied m (d + 4 * of_nat c) (s + 4 * of_nat c) (4 * k)"
  shows "prefix_copied m0 d s (c + k) m'"
  using copied_append [of d s "4 * c" "4 * k" m0] assms
  by (simp add: prefix_copied_def algebra_simps)

lemma copy_bytes_copied: "separated d s n \<Longrightarrow> copy_bytes d s n m = copied m d s n"
proof (induction n)
  case 0
  then show ?case by (simp add: copy_bytes_def)
next
  case (Suc n)
  have IH: "copy_bytes d s n m = copied m d s n"
    using Suc separated_mono by (metis le_add2 plus_1_eq_Suc)
  have "copy_bytes d s (Suc n) m
      = copied (copied m d s n) (d + of_nat n) (s + of_nat n) 1"
    using IH by (simp add: copy_bytes_def copied_cell1)
  then show ?case using copied_append [of d s n 1 m] Suc.prems by simp
qed

lemma copy_words_prefix:
  "prefix_copied m0 d s lo m \<Longrightarrow> lo \<le> hi \<Longrightarrow> separated d s (4 * hi) \<Longrightarrow>
   prefix_copied m0 d s hi (copy_words d s lo hi m)"
proof (induction hi)
  case 0
  then show ?case by (simp add: copy_words_def)
next
  case (Suc n)
  show ?case
  proof (cases "lo = Suc n")
    case True
    then show ?thesis using Suc.prems by (simp add: copy_words_def)
  next
    case False
    then have lo: "lo \<le> n" using Suc.prems by simp
    have sep: "separated d s (4 * n)" by (rule separated_mono [OF Suc.prems(3)]) simp
    have "prefix_copied m0 d s n (copy_words d s lo n m)"
      by (rule Suc.IH [OF Suc.prems(1) lo sep])
    from prefix_copied_step [OF this, of 1] Suc.prems(3)
    show ?thesis using lo by (simp add: copy_words_def copied_cell4 del: upt_Suc) (simp add: copied_cell4)
  qed
qed


lemma round_down4_eq: "n < 4294967296 \<Longrightarrow> round_down4 n = 4 * (n div 4)"
proof -
  assume n: "n < 4294967296"
  have "NOT (3 :: u32) = NOT (mask 2)" by (simp add: mask_eq_exp_minus_1)
  moreover have "(of_nat n :: u32) AND NOT (mask 2) = push_bit 2 (drop_bit 2 (of_nat n))"
    by (rule bit_word_eqI) (auto simp: bit_simps simp del: add_2_eq_Suc add_2_eq_Suc')
  moreover have "drop_bit 2 (of_nat n :: u32) = of_nat (n div 4)"
    using n by (simp add: word_unat_eq_iff drop_bit_eq_div unat_div_distrib del: of_nat_div)
  moreover have "push_bit 2 (of_nat (n div 4) :: u32) = of_nat (4 * (n div 4))"
    by (simp add: push_bit_eq_mult mult.commute)
  ultimately have "round_down4 n = unat (of_nat (4 * (n div 4)) :: u32)"
    by (simp only: round_down4_def)
  also have "\<dots> = 4 * (n div 4)" by (rule unat_of_nat_u32) (use n in simp)
  finally show ?thesis .
qed

lemma medium_avl_bounds:
  assumes "4 \<le> rest" "rest < 4294967296" "0 < elems"
  shows "0 < medium_avl elems rest" "medium_avl elems rest \<le> rest"
    "medium_avl elems rest \<le> elems"
  using assms by (auto simp: medium_avl_def round_down4_eq)

text \<open>Every loop keeps the prefix invariant and stays within the word count.\<close>

abbreviation moved :: "mem \<Rightarrow> u32 \<Rightarrow> u32 \<Rightarrow> nat \<Rightarrow> nat \<times> hart \<Rightarrow> bool" where
  "moved m0 d s wc st \<equiv> prefix_copied m0 d s (fst st) (hmem (snd st)) \<and> fst st \<le> wc"

lemma medium_turn:
  assumes "prefix_copied m0 d s c (hmem h)" "separated d s (4 * wc)" "avl \<le> wc - c" "c \<le> wc"
    "avl \<le> 16 * M" "M \<le> 32"
  shows "prefix_copied m0 d s (c + avl) (hmem (vse32 v (d + 4 * of_nat c)
      (vle32 v (s + 4 * of_nat c) (vsetvli M avl h))))"
proof (rule prefix_copied_step [OF assms(1)])
  show "separated d s (4 * (c + avl))" by (rule separated_mono [OF assms(2)]) (use assms in simp)
  show "hmem (vse32 v (d + 4 * of_nat c) (vle32 v (s + 4 * of_nat c) (vsetvli M avl h)))
      = copied (hmem h) (d + 4 * of_nat c) (s + 4 * of_nat c) (4 * avl)"
    using vle32_vse32 [of "vsetvli M avl h" v "d + 4 * of_nat c" "s + 4 * of_nat c"] assms by simp
qed

lemma medium_loop_moved:
  assumes "separated d s (4 * wc)" "elems = 16 * M" "0 < M" "M \<le> 32"
  shows "moved m0 d s wc st \<Longrightarrow> moved m0 d s wc (medium_loop M elems d s wc st)
    \<and> wc - fst (medium_loop M elems d s wc st) < 4"
  using assms
proof (induction M elems d s wc st rule: medium_loop.induct)
  case (1 M elems d s wc c h)
  let ?a = "medium_avl elems (wc - c)"
  show ?case
  proof (cases "4 \<le> wc - c")
    case True
    have "4 * wc \<le> 2147483648" by (rule separated_bound [OF "1.prems"(2)])
    then have b: "0 < ?a" "?a \<le> wc - c" "?a \<le> 16 * M"
      using medium_avl_bounds [of "wc - c" elems] True "1.prems"(3,4) by auto
    have "moved m0 d s wc (c + ?a, vse32 0 (d + 4 * of_nat c)
        (vle32 0 (s + 4 * of_nat c) (vsetvli M ?a h)))"
      using medium_turn [of m0 d s c h wc ?a M 0] "1.prems" b by simp
    then have "moved m0 d s wc (medium_loop M elems d s wc (c + ?a, vse32 0 (d + 4 * of_nat c)
        (vle32 0 (s + 4 * of_nat c) (vsetvli M ?a h))))
      \<and> wc - fst (medium_loop M elems d s wc (c + ?a, vse32 0 (d + 4 * of_nat c)
        (vle32 0 (s + 4 * of_nat c) (vsetvli M ?a h)))) < 4"
      using "1.IH" [OF True refl] b(1) "1.prems"(2-5) by blast
    moreover have "medium_loop M elems d s wc (c, h) = medium_loop M elems d s wc (c + ?a,
        vse32 0 (d + 4 * of_nat c) (vle32 0 (s + 4 * of_nat c) (vsetvli M ?a h)))"
      using True b(1) by (subst medium_loop.simps) (simp only: Let_def if_True if_False neq0_conv [symmetric])
    ultimately show ?thesis by (simp only:)
  next
    case False
    then have "medium_loop M elems d s wc (c, h) = (c, h)" by (subst medium_loop.simps) simp
    then show ?thesis using "1.prems" False by simp
  qed
qed


lemma big_turn:
  assumes "prefix_copied m0 d s (c + lo * e) (hmem h)" "separated d s (4 * wc)"
    "hvl h = 16 * M" "e = 16 * M" "hi * M \<le> 32" "hi \<le> big" "lo \<le> hi" "c + hi * e \<le> wc"
  shows "prefix_copied m0 d s (c + hi * e)
      (hmem (group_stores M e big d c lo hi (group_loads M e big s c lo hi h)))"
    "hvl (group_stores M e big d c lo hi (group_loads M e big s c lo hi h)) = 16 * M"
proof -
  have split: "c + lo * e + (hi - lo) * e = c + hi * e"
    using assms(7) by (simp add: diff_mult_distrib)
  have sep: "separated d s (4 * (c + lo * e + (hi - lo) * e))"
    by (rule separated_mono [OF assms(2)]) (use assms(8) split in simp)
  have m: "min hi big - lo = hi - lo" using assms(6) by simp
  note gc = group_copy [OF assms(3,4,5), of big d c lo s, unfolded m]
  show "prefix_copied m0 d s (c + hi * e)
      (hmem (group_stores M e big d c lo hi (group_loads M e big s c lo hi h)))"
    using prefix_copied_step [OF assms(1) sep conjunct1 [OF gc]] by (simp only: split)
  show "hvl (group_stores M e big d c lo hi (group_loads M e big s c lo hi h)) = 16 * M"
    using conjunct2 [OF gc] assms(3) by (simp only:)
qed


lemma big_loop_m4_moved:
  "moved m0 d s wc st \<Longrightarrow> separated d s (4 * wc) \<Longrightarrow> moved m0 d s wc (big_loop_m4 d s wc st)"
proof (induction d s wc st rule: big_loop_m4.induct)
  case (1 d s wc c h)
  let ?h = "group_stores 4 64 8 d c 0 8 (group_loads 4 64 8 s c 0 8 (vsetvli 4 512 h))"
  show ?case
  proof (cases "512 \<le> wc - c")
    case True
    have "prefix_copied m0 d s (c + 8 * 64) (hmem ?h)"
      by (rule big_turn [where wc = wc]) (use "1.prems" True in auto)
    then have mv: "moved m0 d s wc (c + 512, ?h)" using True by simp
    have "moved m0 d s wc (big_loop_m4 d s wc (c + 512, ?h))"
      by (rule "1.IH" [OF True refl refl refl mv "1.prems"(2)])
    moreover have "big_loop_m4 d s wc (c, h) = big_loop_m4 d s wc (c + 512, ?h)"
      using True by (subst big_loop_m4.simps) (simp add: Let_def)
    ultimately show ?thesis by (simp only:)
  next
    case False
    then show ?thesis using "1.prems" by (simp add: big_loop_m4.simps)
  qed
qed

lemma big_loop_m8_moved:
  "moved m0 d s wc st \<Longrightarrow> separated d s (4 * wc) \<Longrightarrow> moved m0 d s wc (big_loop_m8 d s wc st)"
proof (induction d s wc st rule: big_loop_m8.induct)
  case (1 d s wc c h)
  let ?h1 = "group_stores 8 128 4 d c 0 2 (group_loads 8 128 4 s c 0 2 (vsetvli 8 512 h))"
  let ?h2 = "group_stores 8 128 4 d c 2 4 (group_loads 8 128 4 s c 2 4 ?h1)"
  show ?case
  proof (cases "512 \<le> wc - c")
    case True
    have p1: "prefix_copied m0 d s (c + 2 * 128) (hmem ?h1)" "hvl ?h1 = 16 * 8"
      by (rule big_turn [where wc = wc]; use "1.prems" True in auto)+
    have "prefix_copied m0 d s (c + 4 * 128) (hmem ?h2)"
      by (rule big_turn [where wc = wc]) (use "1.prems" True p1 in auto)
    then have mv: "moved m0 d s wc (c + 512, ?h2)" using True by simp
    have "moved m0 d s wc (big_loop_m8 d s wc (c + 512, ?h2))"
      by (rule "1.IH" [OF True refl refl refl refl refl mv "1.prems"(2)])
    moreover have "big_loop_m8 d s wc (c, h) = big_loop_m8 d s wc (c + 512, ?h2)"
      using True by (subst big_loop_m8.simps) (simp add: Let_def)
    ultimately show ?thesis by (simp only:)
  next
    case False
    then show ?thesis using "1.prems" by (simp add: big_loop_m8.simps)
  qed
qed

lemma big_loop_moved:
  "moved m0 d s wc st \<Longrightarrow> separated d s (4 * wc) \<Longrightarrow> elems = 16 * M \<Longrightarrow> G * M \<le> 32 \<Longrightarrow> big \<le> G \<Longrightarrow>
   moved m0 d s wc (big_loop M elems G big d s wc st)"
proof (induction M elems G big d s wc st rule: big_loop.induct)
  case (1 M elems G big d s wc c h)
  let ?g = "vsetvli M (big * elems) h"
  let ?h = "group_stores M elems big d c 0 G (group_loads M elems big s c 0 G ?g)"
  show ?case
  proof (cases "0 < big * elems \<and> big * elems \<le> wc - c")
    case True
    have "16 * M \<le> big * elems" using True "1.prems"(3) by (cases big) auto
    then have vl: "hvl ?g = 16 * M" by simp
    have m: "min G big - 0 = big" using "1.prems"(5) by simp
    note gc = group_copy [OF vl "1.prems"(3,4), of big d c 0 s, unfolded m]
    have sep: "separated d s (4 * (c + big * elems))"
      by (rule separated_mono [OF "1.prems"(2)]) (use True "1.prems"(1) in auto)
    have "prefix_copied m0 d s (c + big * elems) (hmem ?h)"
      by (rule prefix_copied_step [OF _ sep]) (use gc "1.prems"(1) in auto)
    then have mv: "moved m0 d s wc (c + big * elems, ?h)" using True "1.prems"(1) by auto
    have "moved m0 d s wc (big_loop M elems G big d s wc (c + big * elems, ?h))"
      by (rule "1.IH" [OF True refl refl refl mv "1.prems"(2-5)])
    moreover have "big_loop M elems G big d s wc (c, h)
        = big_loop M elems G big d s wc (c + big * elems, ?h)"
      using True by (subst big_loop.simps) (simp add: Let_def)
    ultimately show ?thesis by (simp only:)
  next
    case False
    then have "big_loop M elems G big d s wc (c, h) = (c, h)"
      by (subst big_loop.simps) (simp only: if_False)
    then show ?thesis using "1.prems" by simp
  qed
qed

lemma copy_blocks4_copied:
  "copy_blocks4 b (m, d, s) = (m', d', s') \<Longrightarrow> separated d0 s0 (n + 16 * b) \<Longrightarrow>
   m = copied m0 d0 s0 n \<Longrightarrow> d = d0 + of_nat n \<Longrightarrow> s = s0 + of_nat n \<Longrightarrow>
   m' = copied m0 d0 s0 (n + 16 * b) \<and> d' = d0 + of_nat (n + 16 * b) \<and> s' = s0 + of_nat (n + 16 * b)"
proof (induction b arbitrary: m d s n)
  case 0
  then show ?case by simp
next
  case (Suc b)
  have cell: "store32 (copied m0 d0 s0 k) (d0 + of_nat k) (load32 (copied m0 d0 s0 k) (s0 + of_nat k))
      = copied m0 d0 s0 (k + 4)" if "k \<le> n + 12" for k
    using copied_append [of d0 s0 k 4 m0] separated_mono [OF Suc.prems(2), of "k + 4"] that
    by (simp add: copied_cell4)
  note c = cell [of n] cell [of "n + 4"] cell [of "n + 8"] cell [of "n + 12"]
  have "copy_blocks4 b (copied m0 d0 s0 (n + 16), d0 + of_nat (n + 16), s0 + of_nat (n + 16)) = (m', d', s')"
    using Suc.prems(1,3-5) c by (simp add: Let_def add.assoc)
  from Suc.IH [OF this _ refl refl refl] Suc.prems(2) show ?case
    by (simp add: algebra_simps)
qed


lemma copy_from_cell:
  "copy_from m0 (copy_from m0 m d s n) (d + of_nat n) (s + of_nat n) k = copy_from m0 m d s (n + k)"
  if "n + k \<le> 12"
  by (rule copy_from_append) (use that in simp)

lemma word_tail_copied: "k \<le> 3 \<Longrightarrow> word_tail d s k m = copied m d s (4 * k)"
proof -
  assume "k \<le> 3"
  then consider "k = 0" | "k = 1" | "k = 2" | "k = 3" by linarith
  then show ?thesis
  proof cases
    case 3
    have "store32 (store32 m d (load32 m s)) (d + 4) (load32 m (s + 4)) = copied m d s 8"
      using copy_from_cell [of 4 4 m m d s]
      by (simp add: copied_def store32_as_copy_from [OF refl])
    then show ?thesis using 3 by (simp add: word_tail_def Let_def)
  next
    case 4
    have "store32 (store32 (store32 m d (load32 m s)) (d + 4) (load32 m (s + 4))) (d + 8)
        (load32 m (s + 8)) = copied m d s 12"
      using copy_from_cell [of 4 4 m m d s] copy_from_cell [of 8 4 m m d s]
      by (simp add: copied_def store32_as_copy_from [OF refl])
    then show ?thesis using 4 by (simp add: word_tail_def Let_def)
  qed (simp_all add: word_tail_def copied_cell4)
qed

lemma cell_as_copy_from: "v = m0 s \<Longrightarrow> m(d := v) = copy_from m0 m d s 1"
  by (rule ext) (auto simp: copy_from_def unat_eq_zero)

lemma byte_tail_copied: "k \<le> 3 \<Longrightarrow> byte_tail d s k m = copied m d s k"
proof -
  assume "k \<le> 3"
  then consider "k = 0" | "k = 1" | "k = 2" | "k = 3" by linarith
  then show ?thesis
  proof cases
    case 3
    then show ?thesis using copy_from_cell [of 1 1 m m d s]
      by (simp add: byte_tail_def copied_def cell_as_copy_from [OF refl] numeral_2_eq_2)
  next
    case 4
    then show ?thesis using copy_from_cell [of 1 1 m m d s] copy_from_cell [of 2 1 m m d s]
      by (simp add: byte_tail_def copied_def cell_as_copy_from [OF refl] numeral_2_eq_2 numeral_3_eq_3)
  qed (simp_all add: byte_tail_def copied_cell1)
qed

text \<open>After the whole words, the bytes that are left complete the copy.\<close>

lemma words_and_tail:
  assumes "prefix_copied m0 d s (n div 4) m" "separated d s n"
  shows "copied m (d + 4 * of_nat (n div 4)) (s + 4 * of_nat (n div 4)) (n - n div 4 * 4) = copied m0 d s n"
proof -
  have n: "n = 4 * (n div 4) + (n - n div 4 * 4)" by simp
  have "separated d s (4 * (n div 4) + (n - n div 4 * 4))" using assms(2) n by metis
  from copied_append [OF this, of m0] assms(1) n show ?thesis
    by (simp add: prefix_copied_def del: div_mult_mod_eq)
qed

lemma bytes_and_tail:
  assumes "prefix_copied m0 d s (n div 4) m" "separated d s n"
  shows "copy_bytes (d + 4 * of_nat (n div 4)) (s + 4 * of_nat (n div 4)) (n - n div 4 * 4) m
      = copied m0 d s n"
proof -
  have "separated (d + 4 * of_nat (n div 4)) (s + 4 * of_nat (n div 4)) (n - n div 4 * 4)"
    using separated_mono [OF assms(2), of "n - n div 4 * 4"] by (simp add: separated_def)
  then show ?thesis using words_and_tail [OF assms] by (simp add: copy_bytes_copied)
qed

lemma sep_words: "separated d s n \<Longrightarrow> separated d s (4 * (n div 4))"
  by (rule separated_mono) auto

lemma vector_scalar_rest:
  assumes sep: "separated d s n" and mv: "moved m0 d s (n div 4) (c, h)"
  shows "copy_bytes (d + 4 * of_nat (max c (n div 4))) (s + 4 * of_nat (max c (n div 4)))
      (n - n div 4 * 4) (copy_words d s c (n div 4) (hmem h)) = copied m0 d s n"
proof -
  have "max c (n div 4) = n div 4" using mv by simp
  moreover have "prefix_copied m0 d s (n div 4) (copy_words d s c (n div 4) (hmem h))"
    by (rule copy_words_prefix) (use mv sep_words [OF sep] in auto)
  ultimately show ?thesis using bytes_and_tail [OF _ sep] by simp
qed

lemma vector_asm_rest:
  assumes sep: "separated d s n" and mv: "moved m0 d s (n div 4) (c, h)" and k: "n div 4 - c < 4"
  shows "byte_tail (d + 4 * of_nat (if n div 4 - c \<in> {1, 2, 3} then c + (n div 4 - c) else c))
      (s + 4 * of_nat (if n div 4 - c \<in> {1, 2, 3} then c + (n div 4 - c) else c))
      (n - n div 4 * 4)
      (word_tail (d + 4 * of_nat c) (s + 4 * of_nat c) (n div 4 - c) (hmem h)) = copied m0 d s n"
proof -
  let ?k = "n div 4 - c"
  have c: "(if ?k \<in> {1, 2, 3} then c + ?k else c) = n div 4"
  proof -
    have "c \<le> n div 4" using mv by simp
    moreover have "?k \<in> {1, 2, 3} \<or> ?k = 0" using k by auto
    ultimately show ?thesis by auto
  qed
  have cw: "c + ?k = n div 4" using mv by simp
  have "prefix_copied m0 d s (c + ?k) (word_tail (d + 4 * of_nat c) (s + 4 * of_nat c) ?k (hmem h))"
    by (rule prefix_copied_step) (use mv k sep_words [OF sep] cw word_tail_copied in auto)
  then show ?thesis
    unfolding c using words_and_tail [OF _ sep] byte_tail_copied [of "n - n div 4 * 4"]
    by (simp add: cw)
qed


section \<open>The contract of a copy routine\<close>

text \<open>
  What a caller of a copy routine relies on, for every routine of this component:
  separated regions, and then exactly the destination bytes change. The routines are
  compared with each other through this interface.
\<close>

locale copy_routine =
  fixes cp :: "u32 \<Rightarrow> u32 \<Rightarrow> u32 \<Rightarrow> hart \<Rightarrow> hart"
  assumes cp_mem: "separated d s (unat n) \<Longrightarrow> hmem (cp d s n h) = copied (hmem h) d s (unat n)"
begin

lemma cp_delivers:
  assumes "separated d s (unat n)" "i < unat n"
  shows "hmem (cp d s n h) (d + of_nat i) = hmem h (s + of_nat i)"
  using copied_get [OF assms(2)] unat_u32_less [of n] cp_mem [OF assms(1)] by simp

lemma cp_keeps_source:
  assumes "separated d s (unat n)" "i < unat n"
  shows "hmem (cp d s n h) (s + of_nat i) = hmem h (s + of_nat i)"
  using copied_source [OF assms order_refl] cp_mem [OF assms(1)] by simp

lemma cp_frame:
  assumes "separated d s (unat n)" "unat n \<le> unat (a - d)"
  shows "hmem (cp d s n h) a = hmem h a"
  using copied_outside [OF assms(2)] cp_mem [OF assms(1)] by simp

lemma cp_words:
  assumes "separated d s (unat n)" "i + 4 \<le> unat n"
  shows "load32 (hmem (cp d s n h)) (d + of_nat i) = load32 (hmem h) (s + of_nat i)"
  using copied_load32 [OF assms(2)] unat_u32_less [of n] cp_mem [OF assms(1)] by simp

lemma cp_relay:
  assumes "separated d s (unat n)" "separated e d (unat n)" "i < unat n"
  shows "hmem (cp e d n (cp d s n h)) (e + of_nat i) = hmem h (s + of_nat i)"
  using copied_get [OF assms(3), of "hmem (cp d s n h)" e d] unat_u32_less [of n]
    cp_mem [OF assms(2), of "cp d s n h"] cp_delivers [OF assms(1,3)] by simp

end

lemma scalar_memcpy32_8bit_copied:
  "separated d s (unat n) \<Longrightarrow> hmem (scalar_memcpy32_8bit d s n h) = copied (hmem h) d s (unat n)"
  by (simp add: scalar_memcpy32_8bit_def copy_bytes_copied)

lemma scalar_memcpy32_32bit_copied:
  assumes "separated d s (unat n)"
  shows "hmem (scalar_memcpy32_32bit d s n h) = copied (hmem h) d s (unat n)"
proof -
  have "prefix_copied (hmem h) d s (unat n div 4) (copy_words d s 0 (unat n div 4) (hmem h))"
    by (rule copy_words_prefix [OF prefix_copied_0 _ sep_words [OF assms]]) simp
  from bytes_and_tail [OF this assms] show ?thesis
    by (simp add: scalar_memcpy32_32bit_def Let_def)
qed

lemma scalar_memcpy32_32bit_unrolled_copied:
  assumes "separated d s (unat n)"
  shows "hmem (scalar_memcpy32_32bit_unrolled d s n h) = copied (hmem h) d s (unat n)"
proof -
  define w where "w = unat n div 4"
  obtain m1 d32 s32 where b: "copy_blocks4 (w div 4) (hmem h, d, s) = (m1, d32, s32)"
    by (cases "copy_blocks4 (w div 4) (hmem h, d, s)") auto
  have w: "4 * w \<le> unat n" "16 * (w div 4) + 4 * (w mod 4) = 4 * w"
    using mult_div_mod_eq [of 4 w] unfolding w_def by linarith+
  have sep: "separated d s (0 + 16 * (w div 4))"
    by (rule separated_mono [OF assms]) (use w in linarith)
  have blocks: "m1 = copied (hmem h) d s (16 * (w div 4))" "d32 = d + of_nat (16 * (w div 4))"
      "s32 = s + of_nat (16 * (w div 4))"
    using copy_blocks4_copied [OF b sep, of "hmem h"] by auto
  have "separated d32 s32 (4 * (w mod 4))"
    unfolding blocks(2,3) using separated_mono [OF assms, of "4 * (w mod 4)"] w(1)
    by (simp add: separated_def)
  from copy_words_prefix [OF prefix_copied_0 [of m1] _ this]
  have "copy_words d32 s32 0 (w mod 4) m1 = copied m1 d32 s32 (4 * (w mod 4))"
    by (simp add: prefix_copied_def)
  also have "\<dots> = copied (hmem h) d s (4 * w)"
    using copied_append [of d s "16 * (w div 4)" "4 * (w mod 4)" "hmem h"]
      separated_mono [OF assms w(1)] by (simp only: blocks w(2))
  finally have p: "prefix_copied (hmem h) d s (unat n div 4) (copy_words d32 s32 0 (w mod 4) m1)"
    by (simp add: prefix_copied_def w_def)
  have ends: "d32 + 4 * of_nat (w mod 4) = d + 4 * of_nat w" "s32 + 4 * of_nat (w mod 4) = s + 4 * of_nat w"
    using arg_cong [OF w(2), of "of_nat :: nat \<Rightarrow> u32"] by (simp_all add: blocks add.assoc)
  show ?thesis
    using bytes_and_tail [OF p assms] b ends
    by (simp add: scalar_memcpy32_32bit_unrolled_def Let_def w_def)
qed

lemma vector_memcpy32_m4_opt_copied:
  assumes "separated d s (unat n)"
  shows "hmem (vector_memcpy32_m4_opt d s n h) = copied (hmem h) d s (unat n)"
proof -
  let ?wc = "unat n div 4"
  note sw = sep_words [OF assms]
  obtain c1 h1 where 1: "big_loop_m4 d s ?wc (0, h) = (c1, h1)" by fastforce
  obtain c2 h2 where 2: "medium_loop 4 64 d s ?wc (c1, h1) = (c2, h2)" by fastforce
  have "moved (hmem h) d s ?wc (c1, h1)"
    using big_loop_m4_moved [OF _ sw, of "hmem h" "(0, h)"] 1 prefix_copied_0 by simp
  then have "moved (hmem h) d s ?wc (c2, h2)"
    using medium_loop_moved [OF sw, of 64 4 "hmem h" "(c1, h1)"] 2 by simp
  from vector_scalar_rest [OF assms this] show ?thesis
    by (simp add: vector_memcpy32_m4_opt_def 1 2)
qed

lemma vector_memcpy32_m8_opt_copied:
  assumes "separated d s (unat n)"
  shows "hmem (vector_memcpy32_m8_opt d s n h) = copied (hmem h) d s (unat n)"
proof -
  let ?wc = "unat n div 4"
  note sw = sep_words [OF assms]
  obtain c1 h1 where 1: "big_loop_m8 d s ?wc (0, h) = (c1, h1)" by fastforce
  obtain c2 h2 where 2: "medium_loop 8 128 d s ?wc (c1, h1) = (c2, h2)" by fastforce
  have "moved (hmem h) d s ?wc (c1, h1)"
    using big_loop_m8_moved [OF _ sw, of "hmem h" "(0, h)"] 1 prefix_copied_0 by simp
  then have "moved (hmem h) d s ?wc (c2, h2)"
    using medium_loop_moved [OF sw, of 128 8 "hmem h" "(c1, h1)"] 2 by simp
  from vector_scalar_rest [OF assms this] show ?thesis
    by (simp add: vector_memcpy32_m8_opt_def 1 2)
qed

lemma big_chunks_le: "big_chunks w e g \<le> g"
  by (simp add: big_chunks_def)

lemma vector_memcpy32_m4_general_opt_copied:
  assumes "separated d s (unat n)"
  shows "hmem (vector_memcpy32_m4_general_opt d s n h) = copied (hmem h) d s (unat n)"
proof -
  let ?wc = "unat n div 4"
  let ?b = "big_chunks ?wc 64 8"
  note sw = sep_words [OF assms]
  obtain c1 h1 where 1: "big_loop 4 64 8 ?b d s ?wc (0, h) = (c1, h1)" by fastforce
  obtain c2 h2 where 2: "medium_loop 4 64 d s ?wc (c1, h1) = (c2, h2)" by fastforce
  have "moved (hmem h) d s ?wc (c1, h1)"
    using big_loop_moved [OF _ sw, of "hmem h" "(0, h)" 64 4 8 ?b] 1 prefix_copied_0 big_chunks_le
    by simp
  then have "moved (hmem h) d s ?wc (c2, h2)" "?wc - c2 < 4"
    using medium_loop_moved [OF sw, of 64 4 "hmem h" "(c1, h1)"] 2 by simp_all
  from vector_asm_rest [OF assms this] show ?thesis
    by (simp only: vector_memcpy32_m4_general_opt_def Let_def 1 2 case_prod_conv) simp
qed

lemma vector_memcpy32_m8_m4_general_opt_copied:
  assumes "separated d s (unat n)"
  shows "hmem (vector_memcpy32_m8_m4_general_opt d s n h) = copied (hmem h) d s (unat n)"
proof -
  let ?wc = "unat n div 4"
  let ?b = "big_chunks ?wc 128 4"
  note sw = sep_words [OF assms]
  obtain c0 g where 0: "big_loop 8 128 4 ?b d s ?wc (0, h) = (c0, g)" by fastforce
  let ?b4 = "big_chunks (?wc - c0) 64 8"
  obtain c1 h1 where 1: "big_loop 4 64 8 ?b4 d s ?wc (c0, g) = (c1, h1)" by fastforce
  obtain c2 h2 where 2: "medium_loop 4 64 d s ?wc (c1, h1) = (c2, h2)" by fastforce
  have "moved (hmem h) d s ?wc (c0, g)"
    using big_loop_moved [OF _ sw, of "hmem h" "(0, h)" 128 8 4 ?b] 0 prefix_copied_0 big_chunks_le
    by simp
  then have "moved (hmem h) d s ?wc (c1, h1)"
    using big_loop_moved [OF _ sw, of "hmem h" "(c0, g)" 64 4 8 ?b4] 1 big_chunks_le by simp
  then have "moved (hmem h) d s ?wc (c2, h2)" "?wc - c2 < 4"
    using medium_loop_moved [OF sw, of 64 4 "hmem h" "(c1, h1)"] 2 by simp_all
  from vector_asm_rest [OF assms this] show ?thesis
    by (simp only: vector_memcpy32_m8_m4_general_opt_def Let_def 0 1 2 case_prod_conv) simp
qed


interpretation cp_bytes: copy_routine scalar_memcpy32_8bit
  by unfold_locales (rule scalar_memcpy32_8bit_copied)

interpretation cp_words32: copy_routine scalar_memcpy32_32bit
  by unfold_locales (rule scalar_memcpy32_32bit_copied)

interpretation cp_unrolled: copy_routine scalar_memcpy32_32bit_unrolled
  by unfold_locales (rule scalar_memcpy32_32bit_unrolled_copied)

interpretation cp_m4: copy_routine vector_memcpy32_m4_opt
  by unfold_locales (rule vector_memcpy32_m4_opt_copied)

interpretation cp_m8: copy_routine vector_memcpy32_m8_opt
  by unfold_locales (rule vector_memcpy32_m8_opt_copied)

interpretation cp_m4_general: copy_routine vector_memcpy32_m4_general_opt
  by unfold_locales (rule vector_memcpy32_m4_general_opt_copied)

interpretation cp_m8_m4_general: copy_routine vector_memcpy32_m8_m4_general_opt
  by unfold_locales (rule vector_memcpy32_m8_m4_general_opt_copied)

section \<open>The fixed-size packet copies\<close>

text \<open>
  Both routines issue all their loads before the first store, so their result does not
  depend on the regions being separated.
\<close>

lemma copy_from_prepend:
  assumes "n + k \<le> 4294967296"
  shows "copy_from m0 (copy_from m0 m (d + of_nat n) (s + of_nat n) k) d s n = copy_from m0 m d s (n + k)"
proof (cases "k = 0")
  case False
  show ?thesis
  proof (rule ext)
    fix a
    define x where "x = a - d"
    have n: "unat (of_nat n :: u32) = n" using assms False by simp
    have e1: "a - (d + of_nat n) = x - of_nat n" by (simp add: x_def algebra_simps)
    have e2: "s + of_nat n + (x - of_nat n) = s + x" by simp
    have u: "unat (x - of_nat n) = (if n \<le> unat x then unat x - n else 4294967296 + unat x - n)"
      by (simp add: unat_sub_u32 n)
    show "copy_from m0 (copy_from m0 m (d + of_nat n) (s + of_nat n) k) d s n a
        = copy_from m0 m d s (n + k) a"
      unfolding copy_from_def e1 e2 x_def [symmetric] u using assms False by auto
  qed
qed simp

lemma vector_memcpy32_1360B_opt_copied:
  "hmem (vector_memcpy32_1360B_opt d s h) = copied (hmem h) d s 1360"
proof -
  let ?m = "hmem h"
  define h1 where "h1 = vle32 8 (s + 512) (vle32 0 s (vsetvli 8 128 h))"
  define h2 where "h2 = vle32 16 (s + 1024) (vsetvli 8 84 h1)"
  define h3 where "h3 = vse32 16 (d + 1024) (vsetvli 8 84 h2)"
  define h4 where "h4 = vse32 0 d (vsetvli 8 128 h3)"
  have m2: "hmem h2 = ?m" by (simp add: h2_def h1_def)
  have g0: "holds ?m (hvrf h1) 0 s 128" "holds ?m (hvrf h1) 8 (s + 512) 128"
    by (auto simp: h1_def intro!: holds_kept holds_loaded')
  have g: "holds ?m (hvrf h2) 0 s 128" "holds ?m (hvrf h2) 8 (s + 512) 128"
      "holds ?m (hvrf h2) 16 (s + 1024) 84"
    using g0 by (auto simp: h2_def h1_def intro!: holds_kept holds_loaded')
  have r: "hvrf h3 = hvrf h2" "hvrf h4 = hvrf h2" by (simp_all add: h3_def h4_def)
  have "hmem h3 = copy_from ?m ?m (d + 1024) (s + 1024) 336"
    using vse32_copy [of ?m "vsetvli 8 84 h2" 16 "s + 1024" "d + 1024"] g(3) m2
    by (simp add: h3_def)
  moreover have "hmem h4 = copy_from ?m (hmem h3) d s 512"
    using vse32_copy [of ?m "vsetvli 8 128 h3" 0 s d] g(1) r by (simp add: h4_def)
  moreover have "hmem (vse32 8 (d + 512) h4) = copy_from ?m (hmem h4) (d + 512) (s + 512) 512"
    using vse32_copy [of ?m h4 8 "s + 512" "d + 512"] g(2) r by (simp add: h4_def)
  ultimately have "hmem (vse32 8 (d + 512) h4) = copy_from ?m ?m d s 1360"
    using copy_from_append [of 512 512 ?m "copy_from ?m ?m (d + 1024) (s + 1024) 336" d s]
      copy_from_prepend [of 1024 336 ?m ?m d s] by simp
  then show ?thesis
    by (simp add: vector_memcpy32_1360B_opt_def copied_def h4_def h3_def h2_def h1_def Let_def)
qed

lemma vector_memcpy32_1360B_opt_with_header_copied:
  "hmem (vector_memcpy32_1360B_opt_with_header d s SN h)
     = store32 (copied (hmem h) d s 1360) d SN"
proof -
  let ?m = "hmem h"
  define h1 where "h1 = vle32 8 (s + 848) (vle32 0 (s + 336) (vsetvli 8 128
      (vle32 16 (s + 4) (vsetvli 8 84 h))))"
  define h2 where "h2 = vmv_s_x 24 SN (vslideup_vi 24 16 1 h1)"
  define h3 where "h3 = vse32 24 d (vsetvli 8 84 h2)"
  define h4 where "h4 = vse32 0 (d + 336) (vsetvli 8 128 h3)"
  have m2: "hmem h2 = ?m" "hvl h1 = 128" by (simp_all add: h2_def h1_def vmv_s_x_def vslideup_vi_def)
  have g: "holds ?m (hvrf h1) 16 (s + 4) 84" "holds ?m (hvrf h1) 0 (s + 336) 128"
      "holds ?m (hvrf h1) 8 (s + 848) 128"
    by (auto simp: h1_def intro!: holds_kept holds_loaded')
  have hd: "hvrf h2 384 = SN" by (simp add: h2_def m2 vmv_s_x_def vslideup_vi_def)
  have body: "hvrf h2 (384 + Suc i) = load32 ?m (s + 4 + 4 * of_nat i)" if "i < 83" for i
    using g(1) that by (simp add: h2_def m2 vmv_s_x_def vslideup_vi_def holds_def)
  have low: "hvrf h2 k = hvrf h1 k" if "k < 384" for k
    using that by (simp add: h2_def m2 vmv_s_x_def vslideup_vi_def)
  have v: "holds ?m (hvrf h2) 0 (s + 336) 128" "holds ?m (hvrf h2) 8 (s + 848) 128"
    using g(2,3) low by (auto simp: holds_def)
  have r: "hvrf h3 = hvrf h2" "hvrf h4 = hvrf h2" by (simp_all add: h3_def h4_def)
  have "map (\<lambda>i. hvrf h2 (384 + i)) [0..<84] = SN # map (\<lambda>i. hvrf h2 (384 + Suc i)) [0..<83]"
    using hd map_upt_Suc [of "\<lambda>i. hvrf h2 (384 + i)" 83] by simp
  then have "hmem h3 = copy_from ?m (store32 ?m d SN) (d + 4) (s + 4) 332"
    using store_words_copy [of "map (\<lambda>i. hvrf h2 (384 + Suc i)) [0..<83]" ?m "s + 4"
        "store32 ?m d SN" "d + 4"] body m2
    by (simp add: h3_def vse32_def)
  moreover have "hmem h4 = copy_from ?m (hmem h3) (d + 336) (s + 336) 512"
    using vse32_copy [of ?m "vsetvli 8 128 h3" 0 "s + 336" "d + 336"] v(1) r by (simp add: h4_def)
  moreover have "hmem (vse32 8 (d + 848) h4) = copy_from ?m (hmem h4) (d + 848) (s + 848) 512"
    using vse32_copy [of ?m h4 8 "s + 848" "d + 848"] v(2) r by (simp add: h4_def)
  ultimately have "hmem (vse32 8 (d + 848) h4) = copy_from ?m (store32 ?m d SN) (d + 4) (s + 4) 1356"
    using copy_from_append [of 332 512 ?m "store32 ?m d SN" "d + 4" "s + 4"]
      copy_from_append [of 844 512 ?m "store32 ?m d SN" "d + 4" "s + 4"]
    by (simp add: add.commute)
  also have "\<dots> = store32 (copy_from ?m ?m d s 1360) d SN"
  proof (rule ext)
    fix a
    show "copy_from ?m (store32 ?m d SN) (d + 4) (s + 4) 1356 a
        = store32 (copy_from ?m ?m d s 1360) d SN a"
    proof (cases "unat (a - d) < 4")
      case True
      then have "unat (a - d) \<in> {0, 1, 2, 3}" by auto
      then have "a - d = 0 \<or> a - d = 1 \<or> a - d = 2 \<or> a - d = 3"
        by (auto simp: word_unat_eq_iff)
      then have "a = d \<or> a = d + 1 \<or> a = d + 2 \<or> a = d + 3"
        by (auto simp: algebra_simps)
      then show ?thesis
        by (elim disjE) (simp_all add: copy_from_def store32_def unsigned_minus_1_eq_mask mask_eq_exp_minus_1)
    next
      case False
      have "unat (a - (d + 4)) = unat (a - d) - 4"
        using False unat_sub_u32 [of "a - d" "word_of_nat 4"] unat_of_nat_u32 [of 4]
        by (simp only: of_nat_numeral diff_diff_eq) simp
      then show ?thesis
        using False by (auto simp: copy_from_def store32_other algebra_simps)
    qed
  qed
  finally show ?thesis
    by (simp add: vector_memcpy32_1360B_opt_with_header_def copied_def h4_def h3_def h2_def h1_def
        Let_def add.assoc)
qed


lemma packet_copy:
  "load32 (hmem (vector_memcpy32_1360B_opt_with_header dst src SN h)) dst = SN \<and>
   (\<forall>i. 1 \<le> i \<longrightarrow> i < 340 \<longrightarrow>
      load32 (hmem (vector_memcpy32_1360B_opt_with_header dst src SN h)) (dst + 4 * of_nat i)
        = load32 (hmem h) (src + 4 * of_nat i)) \<and>
   (\<forall>a. 1360 \<le> unat (a - dst) \<longrightarrow>
      hmem (vector_memcpy32_1360B_opt_with_header dst src SN h) a = hmem h a)"
proof (intro conjI allI impI)
  show "load32 (hmem (vector_memcpy32_1360B_opt_with_header dst src SN h)) dst = SN"
    by (simp add: vector_memcpy32_1360B_opt_with_header_copied)
next
  fix i :: nat assume i: "1 \<le> i" "i < 340"
  have u: "unat (4 * of_nat i :: u32) = 4 * i"
    using unat_of_nat_u32 [of "4 * i"] i by simp
  have "unat (- (4 * of_nat i) :: u32) = 4294967296 - 4 * i"
    using unat_diff_swap [of 0 "4 * of_nat i"] u i by (auto simp: word_unat_eq_iff)
  then have "apart32 (dst + 4 * of_nat i) dst"
    using u i by (simp add: apart32_def)
  then show "load32 (hmem (vector_memcpy32_1360B_opt_with_header dst src SN h)) (dst + 4 * of_nat i)
      = load32 (hmem h) (src + 4 * of_nat i)"
    using copied_load32 [of "4 * i" 1360 "hmem h" dst src] i
    by (simp add: vector_memcpy32_1360B_opt_with_header_copied load32_store32_apart)
next
  fix a assume "1360 \<le> unat (a - dst)"
  then show "hmem (vector_memcpy32_1360B_opt_with_header dst src SN h) a = hmem h a"
    by (simp add: vector_memcpy32_1360B_opt_with_header_copied store32_other copied_outside)
qed

section \<open>Properties\<close>

definition hart0 :: hart where
  "hart0 = \<lparr>hmem = (\<lambda>a. ucast (a XOR drop_bit 8 a)), hvl = 0, hvrf = (\<lambda>_. 0)\<rparr>"

text \<open>
  C10: the six word-wise and vectorised copy routines of \<open>data_move_vec.c\<close> leave the
  same memory as the byte loop, whatever the length, the alignment and the register
  contents, as long as source and destination do not overlap.
\<close>

theorem copy_routines_agree:
  assumes "separated dst src (unat len)"
  shows "hmem (scalar_memcpy32_32bit dst src len h) = hmem (scalar_memcpy32_8bit dst src len h) \<and>
    hmem (scalar_memcpy32_32bit_unrolled dst src len h) = hmem (scalar_memcpy32_8bit dst src len h) \<and>
    hmem (vector_memcpy32_m4_opt dst src len h) = hmem (scalar_memcpy32_8bit dst src len h) \<and>
    hmem (vector_memcpy32_m8_opt dst src len h) = hmem (scalar_memcpy32_8bit dst src len h) \<and>
    hmem (vector_memcpy32_m4_general_opt dst src len h) = hmem (scalar_memcpy32_8bit dst src len h) \<and>
    hmem (vector_memcpy32_m8_m4_general_opt dst src len h) = hmem (scalar_memcpy32_8bit dst src len h)"
  using assms by (simp add: cp_bytes.cp_mem cp_words32.cp_mem cp_unrolled.cp_mem cp_m4.cp_mem
      cp_m8.cp_mem cp_m4_general.cp_mem cp_m8_m4_general.cp_mem)

theorem copy_routines_agree_witness:
  "separated 0x1000 0x2000 (unat (1359 :: u32)) \<and>
   hmem (vector_memcpy32_m8_m4_general_opt 0x1000 0x2000 1359 hart0)
     = hmem (scalar_memcpy32_8bit 0x1000 0x2000 1359 hart0)"
proof -
  have "separated 0x1000 0x2000 (unat (1359 :: u32))" by (simp add: separated_def)
  with copy_routines_agree [of "0x1000" "0x2000" 1359 hart0] show ?thesis by blast
qed

text \<open>
  C14: \<open>vector_memcpy32_m8_m4_general_opt\<close> delivers every source byte at its place,
  leaves the source as it was, and writes no byte outside the destination region.
\<close>

theorem vector_memcpy32_m8_m4_general_opt_correct:
  assumes "separated dst src (unat len)" "i < unat len" "unat len \<le> unat (a - dst)"
  shows "hmem (vector_memcpy32_m8_m4_general_opt dst src len h) (dst + of_nat i) = hmem h (src + of_nat i)
    \<and> hmem (vector_memcpy32_m8_m4_general_opt dst src len h) (src + of_nat i) = hmem h (src + of_nat i)
    \<and> hmem (vector_memcpy32_m8_m4_general_opt dst src len h) a = hmem h a"
  using cp_m8_m4_general.cp_delivers [OF assms(1,2)] cp_m8_m4_general.cp_keeps_source [OF assms(1,2)]
    cp_m8_m4_general.cp_frame [OF assms(1,3)] by blast

theorem vector_memcpy32_m8_m4_general_opt_witness:
  "hmem (vector_memcpy32_m8_m4_general_opt 0x1000 0x2000 1359 hart0) (0x1000 + of_nat 1358)
     = hmem hart0 (0x2000 + of_nat 1358) \<and>
   hmem (vector_memcpy32_m8_m4_general_opt 0x1000 0x2000 1359 hart0) (0x1000 + 1359)
     = hmem hart0 (0x1000 + 1359)"
proof -
  have "separated 0x1000 0x2000 (unat (1359 :: u32))" "1358 < unat (1359 :: u32)"
    "unat (1359 :: u32) \<le> unat (0x1000 + 1359 - 0x1000 :: u32)" by (simp_all add: separated_def)
  from vector_memcpy32_m8_m4_general_opt_correct [OF this, of hart0] show ?thesis by blast
qed

text \<open>
  The copy that builds an RLC packet writes the sequence number as the first word, then
  words 1 to 339 of the source page at their own offsets, and nothing beyond the 1360
  bytes. It needs no assumption on overlap: every load precedes the first store. The word
  the source page has at offset 0 is not used.
\<close>

theorem packet_with_header_correct:
  "load32 (hmem (vector_memcpy32_1360B_opt_with_header dst src SN h)) dst = SN \<and>
   (\<forall>i. 1 \<le> i \<longrightarrow> i < 340 \<longrightarrow>
      load32 (hmem (vector_memcpy32_1360B_opt_with_header dst src SN h)) (dst + 4 * of_nat i)
        = load32 (hmem h) (src + 4 * of_nat i)) \<and>
   (\<forall>a. 1360 \<le> unat (a - dst) \<longrightarrow>
      hmem (vector_memcpy32_1360B_opt_with_header dst src SN h) a = hmem h a)"
  by (rule packet_copy)

theorem packet_with_header_witness:
  "load32 (hmem (vector_memcpy32_1360B_opt_with_header 0x1000 0x2000 77 hart0)) (0x1000 + 4 * of_nat 339)
     = load32 (hmem hart0) (0x2000 + 4 * of_nat 339)"
proof -
  have "(1 :: nat) \<le> 339" "(339 :: nat) < 340" by simp_all
  with packet_with_header_correct [of "0x1000" "0x2000" 77 hart0] show ?thesis by blast
qed

end
