(* ===== verification/Node.thy ===== *)
theory Node
  imports Memory
begin

text \<open>
  The page layout that \<open>mm.c\<close> and \<open>llist.c\<close> share. A page holds exactly one
  \<open>Node\<close> (\<open>PAGE_SIZE = sizeof(Node) = 24\<close> bytes on the 32-bit core); a page on
  the free list is read as an \<open>MM_FreePage\<close>, whose only field lies over
  \<open>Node.prev\<close>. Fields are accessed in the shared memory at their offsets, so the overlay
  is the one the C code has.
\<close>

section \<open>The fields of a node\<close>

datatype node_field = Prev | Next | Data | Tgt | DataSize | NLock

fun field_offset :: "node_field \<Rightarrow> nat" where
  "field_offset Prev = 0"
| "field_offset Next = 4"
| "field_offset Data = 8"
| "field_offset Tgt = 12"
| "field_offset DataSize = 16"
| "field_offset NLock = 20"

text \<open>Fields are ordered as they lie in the structure.\<close>

instantiation node_field :: linorder
begin

definition less_eq_node_field :: "node_field \<Rightarrow> node_field \<Rightarrow> bool" where
  "less_eq_node_field f g \<longleftrightarrow> field_offset f \<le> field_offset g"

definition less_node_field :: "node_field \<Rightarrow> node_field \<Rightarrow> bool" where
  "less_node_field f g \<longleftrightarrow> field_offset f < field_offset g"

instance
proof
  fix f g :: node_field
  show "f \<le> g \<Longrightarrow> g \<le> f \<Longrightarrow> f = g"
    by (cases f; cases g; simp add: less_eq_node_field_def)
qed (auto simp: less_eq_node_field_def less_node_field_def)

end

definition get_field :: "mem \<Rightarrow> u32 \<Rightarrow> node_field \<Rightarrow> u32" where
  "get_field m n f = load32 m (n + of_nat (field_offset f))"

definition set_field :: "mem \<Rightarrow> u32 \<Rightarrow> node_field \<Rightarrow> u32 \<Rightarrow> mem" where
  "set_field m n f v = store32 m (n + of_nat (field_offset f)) v"

text \<open>\<open>((MM_FreePage *)p)->next\<close>, the word at the start of the page.\<close>

definition free_page_next :: "mem \<Rightarrow> u32 \<Rightarrow> u32" where
  "free_page_next m p = load32 m p"

definition set_free_page_next :: "mem \<Rightarrow> u32 \<Rightarrow> u32 \<Rightarrow> mem" where
  "set_free_page_next m p v = store32 m p v"

lemma free_page_next_field: "free_page_next m p = get_field m p Prev"
  by (simp add: free_page_next_def get_field_def)

lemma set_free_page_next_field: "set_free_page_next m p v = set_field m p Prev v"
  by (simp add: set_free_page_next_def set_field_def)

section \<open>Pages that do not overlap\<close>

definition node_apart :: "u32 \<Rightarrow> u32 \<Rightarrow> bool" where
  "node_apart x y \<longleftrightarrow> 24 \<le> unat (x - y) \<and> 24 \<le> unat (y - x)"

lemma node_apart_sym: "node_apart x y \<Longrightarrow> node_apart y x"
  by (auto simp: node_apart_def)

lemma node_apart_neq: "node_apart x y \<Longrightarrow> x \<noteq> y"
  by (auto simp: node_apart_def)

lemma unat_shift_diff:
  assumes "b \<le> unat (x - y) + a" "unat (x - y) + a < 4294967296" "b < 4294967296"
  shows "unat (x + of_nat a - (y + of_nat b) :: u32) = unat (x - y) + a - b"
proof -
  have e: "x + of_nat a - (y + of_nat b) = (x - y + of_nat a) - of_nat b"
    by (simp add: algebra_simps)
  have "unat (x - y + of_nat a) = unat (x - y) + a"
    using assms by (simp add: unat_add_u32)
  then show ?thesis unfolding e using assms by (simp add: unat_sub_u32)
qed

lemma node_apart_cells:
  assumes "node_apart x y" "a \<le> 20" "b \<le> 20"
  shows "apart32 (x + of_nat a) (y + of_nat b)"
proof -
  have ne: "x \<noteq> y" by (rule node_apart_neq [OF assms(1)])
  have s: "unat (x - y) = 4294967296 - unat (y - x)" by (rule unat_diff_swap [OF ne])
  have b: "24 \<le> unat (x - y)" "24 \<le> unat (y - x)" "unat (y - x) < 4294967296"
    using assms(1) by (auto simp: node_apart_def unat_u32_less)
  have "unat (x + of_nat a - (y + of_nat b)) = unat (x - y) + a - b"
    by (rule unat_shift_diff) (use b s assms in auto)
  moreover have "unat (y + of_nat b - (x + of_nat a)) = unat (y - x) + b - a"
    by (rule unat_shift_diff) (use b s assms in auto)
  ultimately show ?thesis using b assms(2,3) unfolding apart32_def by linarith
qed

lemma fields_apart:
  assumes "a + 4 \<le> b \<or> b + 4 \<le> a" "a \<le> 20" "b \<le> 20"
  shows "apart32 (x + of_nat a) (x + of_nat b)"
proof -
  have *: "unat (x + of_nat i - (x + of_nat j) :: u32) = i - j \<and>
      unat (x + of_nat j - (x + of_nat i) :: u32) = 4294967296 - (i - j)"
    if "j < i" "i \<le> 20" for i j
  proof -
    have "unat (x + of_nat i - (x + of_nat j) :: u32) = i - j"
      using unat_shift_diff [of j x x i] that by simp
    moreover from this that have "x + of_nat j \<noteq> (x + of_nat i :: u32)" by auto
    ultimately show ?thesis
      using unat_diff_swap [of "x + of_nat j" "x + of_nat i"] by simp
  qed
  show ?thesis
    using assms *[of b a] *[of a b] by (auto simp: apart32_def)
qed

lemma field_offset_le: "field_offset f \<le> 20"
  by (cases f) auto

lemma field_offset_apart: "f \<noteq> g \<Longrightarrow> field_offset f + 4 \<le> field_offset g \<or> field_offset g + 4 \<le> field_offset f"
  by (cases f; cases g; simp)

lemma get_set_same [simp]: "get_field (set_field m n f v) n f = v"
  by (simp add: get_field_def set_field_def)

lemma get_set_field [simp]: "f \<noteq> g \<Longrightarrow> get_field (set_field m n f v) n g = get_field m n g"
  using fields_apart [OF field_offset_apart [of g f]] field_offset_le
  by (simp add: get_field_def set_field_def load32_store32_apart)

lemma get_set_node: "node_apart x n \<Longrightarrow> get_field (set_field m n f v) x g = get_field m x g"
  using node_apart_cells field_offset_le
  by (simp add: get_field_def set_field_def load32_store32_apart)

lemma set_field_outside: "24 \<le> unat (a - n) \<Longrightarrow> set_field m n f v a = m a"
proof -
  assume a: "24 \<le> unat (a - n)"
  have "unat (a + of_nat 0 - (n + of_nat (field_offset f))) = unat (a - n) + 0 - field_offset f"
    by (rule unat_shift_diff) (use a field_offset_le [of f] unat_u32_less [of "a - n"] in auto)
  then show ?thesis
    using a field_offset_le [of f] by (simp add: set_field_def store32_other)
qed

text \<open>A list of pages, pairwise apart.\<close>

definition pages_apart :: "u32 list \<Rightarrow> bool" where
  "pages_apart ns \<longleftrightarrow> (\<forall>x\<in>set ns. \<forall>y\<in>set ns. x \<noteq> y \<longrightarrow> node_apart x y)"

lemma pages_apartD: "pages_apart ns \<Longrightarrow> x \<in> set ns \<Longrightarrow> y \<in> set ns \<Longrightarrow> x \<noteq> y \<Longrightarrow> node_apart x y"
  by (simp add: pages_apart_def)

lemma pages_apart_subset: "pages_apart ns \<Longrightarrow> set ms \<subseteq> set ns \<Longrightarrow> pages_apart ms"
  by (auto simp: pages_apart_def)

end
