(* ===== verification/PageAlloc.thy ===== *)
theory PageAlloc
  imports Node DataMove "HOL-Library.Multiset"
begin

text \<open>
  The page allocator \<open>mm.c\<close>, \<open>mm.h\<close>: a bump pointer over the static
  \<open>bulk_buffer\<close> and a LIFO list of recycled pages threaded through the pages
  themselves. The operations are the critical sections between
  \<open>mm_lock_acquire(&mm_lock)\<close> and \<open>mm_lock_release(&mm_lock)\<close> (theory
  \<open>SpinLock\<close> models the lock); the cycle counters and the disabled debug output have no
  effect on the state and are left out.
\<close>

definition PAGE_SIZE :: u32 where "PAGE_SIZE = 24"

definition BUFFER_SIZE :: u32 where "BUFFER_SIZE = PAGE_SIZE * 1024"

record mm_context =
  buffer :: u32
  alloc_offset :: u32
  free_list :: u32
  ctx_lock :: u32

type_synonym mm_state = "mm_context \<times> mem"

text \<open>The argument is the address of \<open>bulk_buffer\<close>, which the linker chooses.\<close>

definition mm_init :: "u32 \<Rightarrow> mm_context" where
  "mm_init bulk_buffer =
     \<lparr>buffer = bulk_buffer, alloc_offset = 0, free_list = NULL, ctx_lock = 0\<rparr>"

definition mm_alloc :: "u32 \<Rightarrow> mm_state \<Rightarrow> u32 \<times> mm_state" where
  "mm_alloc bulk_buffer s = (case s of (c, m) \<Rightarrow>
     if alloc_offset c + PAGE_SIZE \<le> BUFFER_SIZE then
       (bulk_buffer + 4 * (alloc_offset c div 4),
        c\<lparr>alloc_offset := alloc_offset c + PAGE_SIZE\<rparr>, m)
     else if free_list c \<noteq> NULL then
       (free_list c, c\<lparr>free_list := free_page_next m (free_list c)\<rparr>, m)
     else (NULL, c, m))"

definition mm_free :: "u32 \<Rightarrow> mm_state \<Rightarrow> mm_state" where
  "mm_free p s = (case s of (c, m) \<Rightarrow>
     if p = NULL then (c, m)
     else (c\<lparr>free_list := p\<rparr>, set_free_page_next m p (free_list c)))"

fun mm_memset_loop :: "nat \<Rightarrow> u32 \<Rightarrow> u8 \<Rightarrow> mem \<Rightarrow> mem" where
  "mm_memset_loop 0 p b m = m"
| "mm_memset_loop (Suc n) p b m = mm_memset_loop n (p + 1) b (m(p := b))"

definition mm_memset :: "u32 \<Rightarrow> u32 \<Rightarrow> u32 \<Rightarrow> mem \<Rightarrow> u32 \<times> mem" where
  "mm_memset dest value n m = (dest, mm_memset_loop (unat n) dest (ucast value) m)"

definition mm_cleanup :: "mm_context \<Rightarrow> mm_context" where
  "mm_cleanup c = c\<lparr>alloc_offset := 0, free_list := NULL\<rparr>"

section \<open>The pages of the pool\<close>

definition page :: "u32 \<Rightarrow> nat \<Rightarrow> u32" where
  "page bulk i = bulk + of_nat (24 * i)"

definition pool_pages :: "u32 \<Rightarrow> u32 set" where
  "pool_pages bulk = page bulk ` {..<1024}"

text \<open>
  What the linker guarantees of \<open>bulk_buffer\<close>: it is not at address 0 and does not wrap
  around the address space.
\<close>

definition pool_ok :: "u32 \<Rightarrow> bool" where
  "pool_ok bulk \<longleftrightarrow> bulk \<noteq> 0 \<and> unat bulk + 24576 \<le> 4294967296"

lemma page_apart:
  assumes "i < 1024" "j < 1024" "i \<noteq> j"
  shows "node_apart (page b i) (page b j)"
proof -
  have *: "unat (page b i - page b j) = 24 * (i - j) \<and>
      unat (page b j - page b i) = 4294967296 - 24 * (i - j)"
    if "j < i" "i < 1024" for i j
  proof -
    have "unat (b + of_nat (24 * i) - (b + of_nat (24 * j))) = unat (b - b) + 24 * i - 24 * j"
      by (rule unat_shift_diff) (use that in auto)
    then have 1: "unat (page b i - page b j) = 24 * (i - j)" by (simp add: page_def)
    then have "page b j \<noteq> page b i" using that by auto
    from unat_diff_swap [OF this] 1 show ?thesis by simp
  qed
  show ?thesis
    using *[of i j] *[of j i] assms by (cases "i < j") (auto simp: node_apart_def)
qed

lemma page_inj: "i < 1024 \<Longrightarrow> j < 1024 \<Longrightarrow> page b i = page b j \<longleftrightarrow> i = j"
  using page_apart node_apart_neq by metis

lemma page_nonzero:
  assumes "pool_ok b" "i < 1024"
  shows "page b i \<noteq> NULL"
proof
  assume z: "page b i = NULL"
  have "0 < unat b" using assms(1) by (auto simp: pool_ok_def unat_gt_0)
  have "unat (page b i) = unat b + 24 * i"
    using assms unat_of_nat_u32 [of "24 * i"]
    by (simp add: page_def unat_add_u32 pool_ok_def del: of_nat_mult)
  with z \<open>0 < unat b\<close> show False by simp
qed

lemma pool_pages_apart: "set ns \<subseteq> pool_pages b \<Longrightarrow> pages_apart ns"
proof -
  assume "set ns \<subseteq> pool_pages b"
  then have "node_apart x y" if "x \<in> set ns" "y \<in> set ns" "x \<noteq> y" for x y
    using that page_apart unfolding pool_pages_def by blast
  then show ?thesis by (simp add: pages_apart_def)
qed

lemma pool_apart: "x \<in> pool_pages b \<Longrightarrow> y \<in> pool_pages b \<Longrightarrow> x \<noteq> y \<Longrightarrow> node_apart x y"
  using page_apart by (auto simp: pool_pages_def)

section \<open>Representation of the free pages\<close>

text \<open>\<open>free_chain m p ps\<close>: the free list that starts at \<open>p\<close> consists of the pages \<open>ps\<close>.\<close>

fun free_chain :: "mem \<Rightarrow> u32 \<Rightarrow> u32 list \<Rightarrow> bool" where
  "free_chain m p [] \<longleftrightarrow> p = NULL"
| "free_chain m p (x # xs) \<longleftrightarrow> p = x \<and> x \<noteq> NULL \<and> free_chain m (free_page_next m x) xs"

lemma free_chain_frame:
  "free_chain m p ps \<Longrightarrow> (\<And>x. x \<in> set ps \<Longrightarrow> free_page_next m' x = free_page_next m x) \<Longrightarrow>
   free_chain m' p ps"
  by (induction ps arbitrary: p) auto

text \<open>
  \<open>mm_rep bulk s k fs\<close>: the first \<open>k\<close> pages of the pool have been handed out at
  least once, and \<open>fs\<close> is the free list. The pages that are available, in the order in
  which \<open>mm_alloc\<close> hands them out, are \<open>available bulk k fs\<close>.
\<close>

definition mm_rep :: "u32 \<Rightarrow> mm_state \<Rightarrow> nat \<Rightarrow> u32 list \<Rightarrow> bool" where
  "mm_rep bulk s k fs \<longleftrightarrow> pool_ok bulk \<and> k \<le> 1024 \<and> alloc_offset (fst s) = of_nat (24 * k) \<and>
     free_chain (snd s) (free_list (fst s)) fs \<and> distinct fs \<and> set fs \<subseteq> page bulk ` {..<k}"

definition available :: "u32 \<Rightarrow> nat \<Rightarrow> u32 list \<Rightarrow> u32 list" where
  "available bulk k fs = map (page bulk) [k..<1024] @ fs"

lemma mm_rep_init: "pool_ok bulk \<Longrightarrow> mm_rep bulk (mm_init bulk, m) 0 []"
  by (simp add: mm_rep_def mm_init_def)

lemma mm_rep_cleanup: "pool_ok bulk \<Longrightarrow> mm_rep bulk (mm_cleanup c, m) 0 []"
  by (simp add: mm_rep_def mm_cleanup_def)

lemma offset_fits: "k \<le> 1024 \<Longrightarrow> (of_nat (24 * k) + PAGE_SIZE \<le> BUFFER_SIZE) \<longleftrightarrow> k < 1024"
proof -
  assume k: "k \<le> 1024"
  have "unat (of_nat (24 * k) + PAGE_SIZE) = 24 * k + 24"
    using k unat_of_nat_u32 [of "24 * k + 24"] by (simp add: PAGE_SIZE_def)
  moreover have "unat BUFFER_SIZE = 24576" by (simp add: BUFFER_SIZE_def PAGE_SIZE_def)
  ultimately show ?thesis by (simp only: word_le_nat_alt) (use k in auto)
qed

lemma fresh_page: "k < 1024 \<Longrightarrow> bulk + 4 * (of_nat (24 * k) div 4) = page bulk k"
proof -
  assume k: "k < 1024"
  have "(of_nat (24 * k) div 4 :: u32) = of_nat (6 * k)"
    using k unat_of_nat_u32 [of "24 * k"] unat_of_nat_u32 [of "6 * k"]
    by (simp only: word_unat_eq_iff unat_div_distrib) simp
  then show ?thesis by (simp add: page_def)
qed


lemma mm_alloc_fresh:
  assumes "mm_rep bulk s k fs" "k < 1024"
  shows "\<exists>s'. mm_alloc bulk s = (page bulk k, s') \<and> mm_rep bulk s' (Suc k) fs \<and> snd s' = snd s"
proof -
  obtain c m where s: "s = (c, m)" by fastforce
  have o: "alloc_offset c = of_nat (24 * k)" using assms(1) by (simp add: mm_rep_def s)
  have off: "alloc_offset c + PAGE_SIZE \<le> BUFFER_SIZE"
    unfolding o using offset_fits [of k] assms(2) by simp
  have "mm_alloc bulk s = (page bulk k, c\<lparr>alloc_offset := alloc_offset c + PAGE_SIZE\<rparr>, m)"
    using off fresh_page [OF assms(2), of bulk] by (simp only: mm_alloc_def s case_prod_conv if_True o)
  moreover have "mm_rep bulk (c\<lparr>alloc_offset := alloc_offset c + PAGE_SIZE\<rparr>, m) (Suc k) fs"
    using assms by (auto simp: mm_rep_def s PAGE_SIZE_def algebra_simps)
  ultimately show ?thesis using s by simp
qed

lemma mm_alloc_recycled:
  assumes "mm_rep bulk s 1024 (f # fs)"
  shows "\<exists>s'. mm_alloc bulk s = (f, s') \<and> mm_rep bulk s' 1024 fs \<and> snd s' = snd s"
proof -
  obtain c m where s: "s = (c, m)" by fastforce
  have o: "alloc_offset c = of_nat (24 * 1024)" using assms(1) by (simp add: mm_rep_def s)
  have off: "\<not> alloc_offset c + PAGE_SIZE \<le> BUFFER_SIZE"
    unfolding o using offset_fits [of 1024] by simp
  have f: "free_list c = f" "f \<noteq> NULL" using assms by (auto simp: mm_rep_def s)
  have "mm_alloc bulk s = (f, c\<lparr>free_list := free_page_next m f\<rparr>, m)"
    using off f by (simp add: mm_alloc_def s)
  moreover have "mm_rep bulk (c\<lparr>free_list := free_page_next m f\<rparr>, m) 1024 fs"
    using assms by (auto simp: mm_rep_def s)
  ultimately show ?thesis using s by simp
qed

lemma mm_alloc_exhausted:
  assumes "mm_rep bulk s 1024 []"
  shows "mm_alloc bulk s = (NULL, s)"
proof -
  obtain c m where s: "s = (c, m)" by fastforce
  have o: "alloc_offset c = of_nat (24 * 1024)" using assms(1) by (simp add: mm_rep_def s)
  have off: "\<not> alloc_offset c + PAGE_SIZE \<le> BUFFER_SIZE"
    unfolding o using offset_fits [of 1024] by simp
  show ?thesis using assms off by (simp add: mm_alloc_def s mm_rep_def)
qed

lemma mm_free_rep:
  assumes "mm_rep bulk s k fs" "p \<in> page bulk ` {..<k}" "p \<notin> set fs"
  shows "mm_rep bulk (mm_free p s) k (p # fs)"
proof -
  obtain c m where s: "s = (c, m)" by fastforce
  have k: "k \<le> 1024" "set fs \<subseteq> page bulk ` {..<k}" "pool_ok bulk"
    using assms(1) by (auto simp: mm_rep_def)
  have p: "p \<noteq> NULL" using page_nonzero [OF k(3)] assms(2) k(1) by auto
  have "page bulk ` {..<k} \<subseteq> pool_pages bulk" using k(1) by (auto simp: pool_pages_def)
  then have sub: "set fs \<subseteq> pool_pages bulk" "p \<in> pool_pages bulk"
    using k(2) assms(2) by (auto intro: subsetD)
  have ap: "node_apart x p" if "x \<in> set fs" for x
    by (rule pool_apart [of _ bulk]) (use that assms(3) sub in auto)
  have fr: "free_page_next (set_field m p Prev (free_list c)) x = free_page_next m x"
    if "x \<in> set fs" for x
    using ap [OF that] by (simp add: free_page_next_field get_set_node)
  have ch: "free_chain m (free_list c) fs" using assms(1) by (simp add: mm_rep_def s)
  from free_chain_frame [OF ch fr]
  have "free_chain (set_field m p Prev (free_list c)) (free_list c) fs" .
  then show ?thesis
    using assms p by (simp add: mm_rep_def mm_free_def s set_free_page_next_field free_page_next_field)
qed

lemma mm_free_frame: "24 \<le> unat (a - p) \<Longrightarrow> snd (mm_free p (c, m)) a = m a"
  by (simp add: mm_free_def set_free_page_next_field set_field_outside)

text \<open>Writes to pages that are not on the free list do not disturb the allocator.\<close>

lemma mm_rep_write:
  assumes "mm_rep bulk (c, m) k fs" "n \<in> pool_pages bulk" "n \<notin> set fs"
  shows "mm_rep bulk (c, set_field m n f v) k fs"
proof -
  have "set fs \<subseteq> pool_pages bulk" using assms(1) by (auto simp: mm_rep_def pool_pages_def)
  then have "node_apart x n" if "x \<in> set fs" for x
    by (intro pool_apart [of _ bulk]) (use that assms in auto)
  then have fr: "free_page_next (set_field m n f v) x = free_page_next m x" if "x \<in> set fs" for x
    using that by (simp add: free_page_next_field get_set_node)
  have ch: "free_chain m (free_list c) fs" using assms(1) by (simp add: mm_rep_def)
  from free_chain_frame [OF ch fr] show ?thesis using assms(1) by (simp add: mm_rep_def)
qed

section \<open>The contract of the allocator\<close>

text \<open>
  A page allocator, as its callers see it: a list of available pages in the order in which
  they will be handed out, NULL when there is none, and freed pages become available again.
\<close>

locale page_allocator =
  fixes alloc :: "'s \<Rightarrow> u32 \<times> 's"
    and free :: "u32 \<Rightarrow> 's \<Rightarrow> 's"
    and rep :: "'s \<Rightarrow> u32 list \<Rightarrow> bool"
    and pool :: "u32 set"
  assumes rep_pages: "rep s ps \<Longrightarrow> distinct ps \<and> set ps \<subseteq> pool \<and> NULL \<notin> set ps"
    and alloc_page: "rep s (p # ps) \<Longrightarrow> \<exists>s'. alloc s = (p, s') \<and> rep s' ps"
    and alloc_empty: "rep s [] \<Longrightarrow> alloc s = (NULL, s)"
    and free_page: "rep s ps \<Longrightarrow> p \<in> pool \<Longrightarrow> p \<notin> set ps \<Longrightarrow>
      \<exists>qs. rep (free p s) qs \<and> mset qs = add_mset p (mset ps)"

datatype alloc_op = Alloc | Free u32

text \<open>
  A client that keeps the pages it holds in a multiset and frees only pages it holds; the
  result of an allocation is recorded as it comes.
\<close>

fun serve :: "('s \<Rightarrow> u32 \<times> 's) \<Rightarrow> (u32 \<Rightarrow> 's \<Rightarrow> 's) \<Rightarrow> alloc_op list \<Rightarrow> 's \<times> u32 multiset \<Rightarrow> 's \<times> u32 multiset"
where
  "serve alloc free [] st = st"
| "serve alloc free (Alloc # ops) (s, held) =
     (case alloc s of (p, s') \<Rightarrow>
        serve alloc free ops (s', if p = NULL then held else add_mset p held))"
| "serve alloc free (Free p # ops) (s, held) =
     serve alloc free ops (if p \<in># held then (free p s, held - {#p#}) else (s, held))"

context page_allocator
begin

text \<open>Every page is available or held, never both and never twice.\<close>

lemma serve_conserves:
  "rep s ps \<Longrightarrow> mset ps + held = mset_set P \<Longrightarrow> finite P \<Longrightarrow> P \<subseteq> pool \<Longrightarrow>
   \<exists>qs. rep (fst (serve alloc free ops (s, held))) qs \<and>
     mset qs + snd (serve alloc free ops (s, held)) = mset_set P"
proof (induction ops arbitrary: s ps held)
  case Nil
  then show ?case by auto
next
  case (Cons oper ops)
  show ?case
  proof (cases oper)
    case Alloc
    show ?thesis
    proof (cases ps)
      case Nil
      then show ?thesis using Cons.IH [of s ps held] Cons.prems alloc_empty [of s] Alloc by auto
    next
      case (Cons p ps')
      obtain s' where s': "alloc s = (p, s')" "rep s' ps'"
        using alloc_page Cons.prems(1) Cons by blast
      have "p \<noteq> NULL" using rep_pages [OF Cons.prems(1)] Cons by auto
      moreover have "mset ps' + add_mset p held = mset_set P" using Cons.prems(2) Cons by simp
      ultimately show ?thesis
        using Cons.IH [OF s'(2) _ Cons.prems(3,4), of "add_mset p held"] s'(1) Alloc by simp
    qed
  next
    case (Free p)
    show ?thesis
    proof (cases "p \<in># held")
      case True
      then have "p \<in># mset_set P" using Cons.prems(2) by (metis union_iff)
      then have P: "p \<in> P" "count (mset_set P) p = 1" using Cons.prems(3) by auto
      have "count (mset ps) p + count held p = 1"
        using arg_cong [OF Cons.prems(2), of "\<lambda>M. count M p"] P(2) by simp
      moreover have "0 < count held p" using True by simp
      ultimately have "count (mset ps) p = 0" by linarith
      then have "p \<notin> set ps" by (simp add: count_eq_zero_iff)
      then obtain qs where qs: "rep (free p s) qs" "mset qs = add_mset p (mset ps)"
        using free_page [OF Cons.prems(1)] P(1) Cons.prems(4) by blast
      have "mset qs + (held - {#p#}) = mset ps + add_mset p (held - {#p#})"
        by (simp only: qs(2) union_mset_add_mset_left union_mset_add_mset_right)
      then have "mset qs + (held - {#p#}) = mset_set P"
        using True Cons.prems(2) by (simp only: insert_DiffM)
      from Cons.IH [OF qs(1) this Cons.prems(3,4)] show ?thesis using True Free by simp
    next
      case False
      then show ?thesis using Cons.IH [OF Cons.prems] Free by simp
    qed
  qed
qed

lemma serve_no_double_handout:
  assumes "rep s ps"
  shows "count (snd (serve alloc free ops (s, {#}))) p \<le> 1 \<and>
    size (snd (serve alloc free ops (s, {#}))) \<le> length ps \<and>
    (fst (alloc (fst (serve alloc free ops (s, {#})))) = NULL \<longleftrightarrow>
       size (snd (serve alloc free ops (s, {#}))) = length ps)"
proof -
  let ?r = "serve alloc free ops (s, {#})"
  have d: "distinct ps" "set ps \<subseteq> pool" using rep_pages [OF assms] by auto
  obtain qs where qs: "rep (fst ?r) qs" "mset qs + snd ?r = mset_set (set ps)"
    using serve_conserves [OF assms, of "{#}" "set ps" ops] d by (auto simp: mset_set_set)
  have "count (snd ?r) p \<le> count (mset_set (set ps)) p" using qs(2) by (metis count_union le_add2)
  also have "\<dots> \<le> 1" by (simp add: count_mset_set')
  finally have c: "count (snd ?r) p \<le> 1" .
  have sz: "length qs + size (snd ?r) = length ps"
    using arg_cong [OF qs(2), of size] d(1) by (simp add: distinct_card)
  have "fst (alloc (fst ?r)) = NULL \<longleftrightarrow> qs = []"
  proof (cases qs)
    case Nil
    then show ?thesis using alloc_empty [of "fst ?r"] qs(1) by simp
  next
    case (Cons q qs')
    obtain s' where "alloc (fst ?r) = (q, s')" using alloc_page qs(1) Cons by blast
    moreover have "q \<noteq> NULL" using rep_pages [OF qs(1)] Cons by auto
    ultimately show ?thesis using Cons by simp
  qed
  then show ?thesis using c sz by auto
qed

end

definition mm_available :: "u32 \<Rightarrow> mm_state \<Rightarrow> u32 list \<Rightarrow> bool" where
  "mm_available bulk s ps \<longleftrightarrow> (\<exists>k fs. mm_rep bulk s k fs \<and> ps = available bulk k fs)"

lemma available_Suc: "k < 1024 \<Longrightarrow> available bulk k fs = page bulk k # available bulk (Suc k) fs"
  by (simp add: available_def upt_conv_Cons)

lemma available_1024: "available bulk 1024 fs = fs"
  by (simp add: available_def)

interpretation mm: page_allocator "mm_alloc bulk" mm_free "mm_available bulk" "pool_pages bulk" for bulk
proof
  fix s ps p
  assume "mm_available bulk s ps"
  then obtain k fs where k: "mm_rep bulk s k fs" "ps = available bulk k fs"
    by (auto simp: mm_available_def)
  have P: "pool_ok bulk" "k \<le> 1024" "distinct fs" "set fs \<subseteq> page bulk ` {..<k}"
    using k(1) by (auto simp: mm_rep_def)
  have "distinct (map (page bulk) [k..<1024])"
    by (auto simp: distinct_map inj_on_def page_inj)
  moreover have "set (map (page bulk) [k..<1024]) \<inter> set fs = {}"
  proof -
    have "page bulk i \<notin> page bulk ` {..<k}" if "k \<le> i" "i < 1024" for i
      using that page_inj P(2) by auto
    then show ?thesis using P(4) by (fastforce dest: subsetD)
  qed
  moreover have "set ps \<subseteq> pool_pages bulk"
    using P(2,4) by (auto simp: k(2) available_def pool_pages_def)
  ultimately show "distinct ps \<and> set ps \<subseteq> pool_pages bulk \<and> NULL \<notin> set ps"
    using P(3) page_nonzero [OF P(1)] by (auto simp: k(2) available_def pool_pages_def)
  show "\<exists>qs. mm_available bulk (mm_free p s) qs \<and> mset qs = add_mset p (mset ps)"
    if "p \<in> pool_pages bulk" "p \<notin> set ps"
  proof -
    have "p \<in> page bulk ` {..<k}"
      using that by (force simp: k(2) available_def pool_pages_def not_le)
    moreover have "p \<notin> set fs" using that by (simp add: k(2) available_def)
    ultimately have "mm_rep bulk (mm_free p s) k (p # fs)" by (rule mm_free_rep [OF k(1)])
    then show ?thesis
      by (intro exI [of _ "available bulk k (p # fs)"])
        (auto simp: mm_available_def available_def k(2))
  qed
next
  fix s p ps
  assume "mm_available bulk s (p # ps)"
  then obtain k fs where k: "mm_rep bulk s k fs" "p # ps = available bulk k fs"
    by (auto simp: mm_available_def)
  show "\<exists>s'. mm_alloc bulk s = (p, s') \<and> mm_available bulk s' ps"
  proof (cases "k < 1024")
    case True
    then show ?thesis
      using mm_alloc_fresh [OF k(1) True] k(2) by (auto simp: available_Suc mm_available_def)
  next
    case False
    then have e: "k = 1024" using k(1) by (simp add: mm_rep_def)
    then have "fs = p # ps" using k(2) by (simp add: available_1024)
    then show ?thesis
      using mm_alloc_recycled [of bulk s p ps] k(1) e
      by (metis available_1024 mm_available_def)
  qed
next
  fix s
  assume "mm_available bulk s []"
  then obtain k fs where k: "mm_rep bulk s k fs" "[] = available bulk k fs"
    by (auto simp: mm_available_def)
  then have "k = 1024 \<and> fs = []" by (auto simp: available_def mm_rep_def)
  then show "mm_alloc bulk s = (NULL, s)" using mm_alloc_exhausted k(1) by blast
qed


section \<open>Filling memory\<close>

definition filled :: "mem \<Rightarrow> u32 \<Rightarrow> nat \<Rightarrow> u8 \<Rightarrow> mem" where
  "filled m d n b = (\<lambda>a. if unat (a - d) < n then b else m a)"

lemma filled_Suc:
  assumes "n < 4294967296"
  shows "(filled m d n b)(d + of_nat n := b) = filled m d (Suc n) b"
proof (rule ext)
  fix a
  have "a - d = of_nat n \<longleftrightarrow> unat (a - d) = n"
    by (simp only: word_unat_eq_iff unat_of_nat_u32 [OF assms])
  moreover have "a = d + of_nat n \<longleftrightarrow> a - d = of_nat n"
    by (auto simp: algebra_simps)
  ultimately have "a = d + of_nat n \<longleftrightarrow> unat (a - d) = n" by blast
  then show "((filled m d n b)(d + of_nat n := b)) a = filled m d (Suc n) b a"
    by (auto simp: filled_def less_Suc_eq)
qed

lemma memset_fold_filled:
  "n \<le> 4294967296 \<Longrightarrow> fold (\<lambda>i m. m(d + of_nat i := b)) [0..<n] m = filled m d n b"
proof (induction n)
  case 0
  then show ?case by (simp add: filled_def)
next
  case (Suc n)
  then have "fold (\<lambda>i m. m(d + of_nat i := b)) [0..<n] m = filled m d n b"
    by (intro Suc.IH) simp
  then have "fold (\<lambda>i m. m(d + of_nat i := b)) [0..<Suc n] m = (filled m d n b)(d + of_nat n := b)"
    by (simp only: upt_Suc_append le0 fold_append fold_simps comp_apply)
  moreover have "n < 4294967296" using Suc.prems by simp
  ultimately show ?case by (simp only: filled_Suc)
qed

lemma filled_shift:
  assumes "n < 4294967296"
  shows "filled (m(d := b)) (d + 1) n b = filled m d (Suc n) b"
proof (rule ext)
  fix a
  show "filled (m(d := b)) (d + 1) n b a = filled m d (Suc n) b a"
  proof (cases "a = d")
    case True
    then show ?thesis by (simp add: filled_def)
  next
    case False
    then have "unat (a - d) \<noteq> 0" by (simp add: unat_eq_zero)
    moreover have "unat (a - (d + 1)) = unat (a - d) - 1"
      using calculation unat_sub_u32 [of "a - d" 1] by (simp add: diff_diff_add)
    ultimately show ?thesis using False by (auto simp: filled_def)
  qed
qed

lemma mm_memset_loop_filled: "n \<le> 4294967296 \<Longrightarrow> mm_memset_loop n d b m = filled m d n b"
proof (induction n arbitrary: d m)
  case 0
  then show ?case by (simp add: filled_def)
next
  case (Suc n)
  then show ?case by (simp add: filled_shift)
qed

section \<open>Properties\<close>

text \<open>
  C15: \<open>mm_alloc\<close> hands out the pages of the pool in address order while the bump
  pointer has room, then the most recently freed page, and NULL exactly when both are
  exhausted; NULL leaves the allocator unchanged.
\<close>

theorem mm_alloc_order:
  assumes "mm_rep bulk s k fs"
  shows "if k < 1024 then \<exists>s'. mm_alloc bulk s = (page bulk k, s') \<and> mm_rep bulk s' (Suc k) fs
    else case fs of [] \<Rightarrow> mm_alloc bulk s = (NULL, s)
      | f # fs' \<Rightarrow> \<exists>s'. mm_alloc bulk s = (f, s') \<and> mm_rep bulk s' 1024 fs'"
proof (cases "k < 1024")
  case True
  then show ?thesis using mm_alloc_fresh [OF assms True] by auto
next
  case False
  then have "k = 1024" using assms by (simp add: mm_rep_def)
  with assms have r: "mm_rep bulk s 1024 fs" by simp
  show ?thesis
  proof (cases fs)
    case Nil
    then show ?thesis using mm_alloc_exhausted r False by simp
  next
    case (Cons f fs')
    then have "\<exists>s'. mm_alloc bulk s = (f, s') \<and> mm_rep bulk s' 1024 fs'"
      using mm_alloc_recycled r by blast
    then show ?thesis using Cons False by simp
  qed
qed

definition bulk0 :: u32 where "bulk0 = 0x80001000"

lemma pool_ok_bulk0: "pool_ok bulk0"
  by (simp add: pool_ok_def bulk0_def)

theorem mm_alloc_order_witness:
  "\<exists>s'. mm_alloc bulk0 (mm_init bulk0, \<lambda>_. 0) = (page bulk0 0, s') \<and> mm_rep bulk0 s' 1 []"
  using mm_alloc_order [OF mm_rep_init [OF pool_ok_bulk0, of "\<lambda>_. 0"]] by simp

text \<open>
  Whatever sequence of allocations and frees a client issues after \<open>mm_init\<close>, as
  long as it frees only pages it holds: no page is held twice, at most 1024 pages are held,
  and the next allocation fails exactly when all 1024 pages are held.
\<close>

theorem mm_no_double_handout:
  assumes "pool_ok bulk"
  shows "count (snd (serve (mm_alloc bulk) mm_free ops ((mm_init bulk, m), {#}))) p \<le> 1 \<and>
    size (snd (serve (mm_alloc bulk) mm_free ops ((mm_init bulk, m), {#}))) \<le> 1024 \<and>
    (fst (mm_alloc bulk (fst (serve (mm_alloc bulk) mm_free ops ((mm_init bulk, m), {#})))) = NULL \<longleftrightarrow>
       size (snd (serve (mm_alloc bulk) mm_free ops ((mm_init bulk, m), {#}))) = 1024)"
proof -
  have "mm_available bulk (mm_init bulk, m) (map (page bulk) [0..<1024])"
    using mm_rep_init [OF assms, of m] by (auto simp: mm_available_def available_def)
  from mm.serve_no_double_handout [OF this, of ops p] show ?thesis by simp
qed

theorem mm_no_double_handout_witness:
  "count (snd (serve (mm_alloc bulk0) mm_free [Alloc, Free bulk0, Alloc, Alloc] ((mm_init bulk0, \<lambda>_. 0), {#}))) bulk0 \<le> 1"
  using mm_no_double_handout [OF pool_ok_bulk0, of "[Alloc, Free bulk0, Alloc, Alloc]" "\<lambda>_. 0" bulk0] by blast

text \<open>
  Freeing a page puts it first in line: once the bump pointer is exhausted the next
  allocation returns the page freed last, and the older free pages stay as they were.
  Freeing NULL changes nothing.
\<close>

theorem mm_free_lifo:
  assumes "mm_rep bulk s 1024 fs" "p \<in> pool_pages bulk" "p \<notin> set fs"
  shows "(\<exists>s'. mm_alloc bulk (mm_free p s) = (p, s') \<and> mm_rep bulk s' 1024 fs) \<and> mm_free NULL s = s"
proof
  have "mm_rep bulk (mm_free p s) 1024 (p # fs)"
    by (rule mm_free_rep [OF assms(1) _ assms(3)]) (use assms(2) in \<open>simp add: pool_pages_def\<close>)
  from mm_alloc_recycled [OF this]
  show "\<exists>s'. mm_alloc bulk (mm_free p s) = (p, s') \<and> mm_rep bulk s' 1024 fs" by blast
  show "mm_free NULL s = s" by (cases s) (simp add: mm_free_def)
qed

theorem mm_free_lifo_witness:
  "\<exists>s'. mm_alloc bulk0 (mm_free bulk0 ((mm_init bulk0)\<lparr>alloc_offset := 24576\<rparr>, \<lambda>_. 0)) = (bulk0, s') \<and>
     mm_rep bulk0 s' 1024 []"
proof -
  have r: "mm_rep bulk0 ((mm_init bulk0)\<lparr>alloc_offset := 24576\<rparr>, \<lambda>_. 0) 1024 []"
    using pool_ok_bulk0 by (simp add: mm_rep_def mm_init_def)
  have p: "bulk0 \<in> pool_pages bulk0"
    unfolding pool_pages_def by (rule image_eqI [of _ _ 0]) (simp_all add: page_def)
  from mm_free_lifo [OF r p] show ?thesis by simp
qed

text \<open>
  The down-counting \<open>mm_memset\<close> of the allocator and the indexed
  \<open>snrt_memset\<close> of the runtime are the same function, for every length: they return
  the destination and set exactly the \<open>count\<close> bytes there to the low byte of the value.
\<close>

theorem memset_variants_agree:
  "mm_memset d v n m = snrt_memset d v n m \<and>
   snrt_memset d v n m = (d, \<lambda>a. if unat (a - d) < unat n then ucast v else m a)"
  using memset_fold_filled [of "unat n" d "ucast v" m] mm_memset_loop_filled [of "unat n" d "ucast v" m]
    unat_u32_less [of n]
  by (simp add: mm_memset_def snrt_memset_def filled_def)

end
