(* ===== verification/FifoQueue.thy ===== *)
theory FifoQueue
  imports Prelude
begin

text \<open>
  The contract of a first-in first-out queue, shared by the packet lists of the RLC layer
  and the task ring of the data mover. \<open>rep s xs\<close>: the state \<open>s\<close> holds the
  elements \<open>xs\<close>, oldest first; \<open>can_push e xs\<close> is what the implementation needs of
  a caller that inserts \<open>e\<close>.
\<close>

datatype 'e queue_op = Push 'e | Pop

fun queue_run :: "('e \<Rightarrow> 's \<Rightarrow> 's) \<Rightarrow> ('s \<Rightarrow> 'e option \<times> 's) \<Rightarrow> 'e queue_op list \<Rightarrow> 's \<Rightarrow> 'e option list \<times> 's" where
  "queue_run push pop [] s = ([], s)"
| "queue_run push pop (Push e # ops) s = queue_run push pop ops (push e s)"
| "queue_run push pop (Pop # ops) s =
     (case pop s of (r, s') \<Rightarrow> (case queue_run push pop ops s' of (rs, s'') \<Rightarrow> (r # rs, s'')))"

text \<open>The same on the abstract queue, a list.\<close>

fun list_pop :: "'e list \<Rightarrow> 'e option \<times> 'e list" where
  "list_pop [] = (None, [])"
| "list_pop (x # xs) = (Some x, xs)"

abbreviation spec_run :: "'e queue_op list \<Rightarrow> 'e list \<Rightarrow> 'e option list \<times> 'e list" where
  "spec_run \<equiv> queue_run (\<lambda>e xs. xs @ [e]) list_pop"

fun legal :: "('e \<Rightarrow> 'e list \<Rightarrow> bool) \<Rightarrow> 'e queue_op list \<Rightarrow> 'e list \<Rightarrow> bool" where
  "legal can_push [] xs \<longleftrightarrow> True"
| "legal can_push (Push e # ops) xs \<longleftrightarrow> can_push e xs \<and> legal can_push ops (xs @ [e])"
| "legal can_push (Pop # ops) xs \<longleftrightarrow> legal can_push ops (snd (list_pop xs))"

fun pushed :: "'e queue_op list \<Rightarrow> 'e list" where
  "pushed [] = []"
| "pushed (Push e # ops) = e # pushed ops"
| "pushed (Pop # ops) = pushed ops"

fun delivered :: "'e option list \<Rightarrow> 'e list" where
  "delivered [] = []"
| "delivered (None # rs) = delivered rs"
| "delivered (Some x # rs) = x # delivered rs"

text \<open>What comes out of a queue, followed by what is left, is what went in, in order.\<close>

lemma spec_run_fifo: "delivered (fst (spec_run ops xs)) @ snd (spec_run ops xs) = xs @ pushed ops"
proof (induction ops arbitrary: xs)
  case (Cons oper ops)
  show ?case
  proof (cases oper)
    case (Push e)
    then show ?thesis using Cons.IH [of "xs @ [e]"] by simp
  next
    case Pop
    then show ?thesis
    proof (cases xs)
      case Nil
      then show ?thesis using Cons.IH [of "[]"] Pop by (auto split: prod.splits)
    next
      case (Cons x xs')
      then show ?thesis using Cons.IH [of xs'] Pop by (auto split: prod.splits)
    qed
  qed
qed simp

locale fifo_queue =
  fixes push :: "'e \<Rightarrow> 's \<Rightarrow> 's"
    and pop :: "'s \<Rightarrow> 'e option \<times> 's"
    and rep :: "'s \<Rightarrow> 'e list \<Rightarrow> bool"
    and can_push :: "'e \<Rightarrow> 'e list \<Rightarrow> bool"
  assumes push_rep: "rep s xs \<Longrightarrow> can_push e xs \<Longrightarrow> rep (push e s) (xs @ [e])"
    and pop_empty: "rep s [] \<Longrightarrow> pop s = (None, s)"
    and pop_first: "rep s (x # xs) \<Longrightarrow> \<exists>s'. pop s = (Some x, s') \<and> rep s' xs"
begin

lemma run_refines:
  "rep s xs \<Longrightarrow> legal can_push ops xs \<Longrightarrow>
   fst (queue_run push pop ops s) = fst (spec_run ops xs) \<and>
   rep (snd (queue_run push pop ops s)) (snd (spec_run ops xs))"
proof (induction ops arbitrary: s xs)
  case (Cons oper ops)
  show ?case
  proof (cases oper)
    case (Push e)
    then show ?thesis using Cons.IH [OF push_rep, of s xs e] Cons.prems by simp
  next
    case Pop
    show ?thesis
    proof (cases xs)
      case Nil
      then show ?thesis
        using Cons.IH [of s "[]"] Cons.prems pop_empty [of s] Pop by (auto split: prod.splits)
    next
      case (Cons x xs')
      then obtain s' where "pop s = (Some x, s')" "rep s' xs'" using pop_first Cons.prems by blast
      then show ?thesis using Cons.IH [of s' xs'] Cons.prems Pop Cons by (auto split: prod.splits)
    qed
  qed
qed simp

lemma run_fifo:
  "rep s xs \<Longrightarrow> legal can_push ops xs \<Longrightarrow>
   \<exists>rest. rep (snd (queue_run push pop ops s)) rest \<and>
     delivered (fst (queue_run push pop ops s)) @ rest = xs @ pushed ops"
  using run_refines [of s xs ops] spec_run_fifo [of ops xs] by auto

end

end
