(* ===== verification/LList.thy ===== *)
theory LList
  imports Node FifoQueue
begin

text \<open>
  The doubly linked packet lists of \<open>llist.c\<close>. The list header is a global structure,
  a record here; the nodes are pages of the shared memory. As in \<open>PageAlloc\<close>, an
  operation is the critical section between \<open>spin_lock\<close> and \<open>spin_unlock\<close>.
  \<open>sduNum\<close> and \<open>sduBytes\<close> are 32-bit counters.
\<close>

record linked_list =
  list_head :: u32
  list_tail :: u32
  sduNum :: u32
  sduBytes :: u32
  list_lock :: u32

type_synonym list_state = "linked_list \<times> mem"

definition list_init :: linked_list where
  "list_init = \<lparr>list_head = NULL, list_tail = NULL, sduNum = 0, sduBytes = 0, list_lock = 0\<rparr>"

definition list_push_back :: "u32 \<Rightarrow> list_state \<Rightarrow> list_state" where
  "list_push_back node s = (case s of (l, m) \<Rightarrow>
     let m = set_field m node Next NULL;
         m = set_field m node Prev (list_tail l);
         (l, m) = (if list_tail l \<noteq> NULL then (l, set_field m (list_tail l) Next node)
                   else (l\<lparr>list_head := node\<rparr>, m));
         l = l\<lparr>list_tail := node\<rparr>;
         l = l\<lparr>sduNum := sduNum l + 1\<rparr>;
         l = l\<lparr>sduBytes := sduBytes l + get_field m node DataSize\<rparr>
     in (l, m))"

definition list_pop_front :: "list_state \<Rightarrow> u32 \<times> list_state" where
  "list_pop_front s = (case s of (l, m) \<Rightarrow>
     if list_head l \<noteq> NULL then
       let node = list_head l;
           l = l\<lparr>list_head := get_field m node Next\<rparr>;
           (l, m) = (if list_head l \<noteq> NULL then (l, set_field m (list_head l) Prev NULL)
                     else (l\<lparr>list_tail := NULL\<rparr>, m));
           m = set_field m node Next NULL;
           m = set_field m node Prev NULL;
           l = l\<lparr>sduNum := sduNum l - 1\<rparr>;
           l = l\<lparr>sduBytes := sduBytes l - get_field m node DataSize\<rparr>
       in (node, (l, m))
     else (NULL, (l, m)))"

definition list_remove :: "u32 \<Rightarrow> list_state \<Rightarrow> list_state" where
  "list_remove node s = (case s of (l, m) \<Rightarrow>
     let (l, m) = (if get_field m node Prev \<noteq> NULL
                   then (l, set_field m (get_field m node Prev) Next (get_field m node Next))
                   else (l\<lparr>list_head := get_field m node Next\<rparr>, m));
         (l, m) = (if get_field m node Next \<noteq> NULL
                   then (l, set_field m (get_field m node Next) Prev (get_field m node Prev))
                   else (l\<lparr>list_tail := get_field m node Prev\<rparr>, m));
         m = set_field m node Prev NULL;
         m = set_field m node Next NULL
     in (l, m))"

section \<open>Representation\<close>

definition hd_or :: "u32 \<Rightarrow> u32 list \<Rightarrow> u32" where
  "hd_or d xs = (case xs of [] \<Rightarrow> d | x # _ \<Rightarrow> x)"

fun last_or :: "u32 \<Rightarrow> u32 list \<Rightarrow> u32" where
  "last_or d [] = d"
| "last_or d (x # xs) = last_or x xs"

lemma hd_or_simps [simp]: "hd_or d [] = d" "hd_or d (x # xs) = x"
  by (simp_all add: hd_or_def)

lemma last_or_snoc [simp]: "last_or d (xs @ [x]) = x"
  by (induction xs arbitrary: d) auto

lemma last_or_append: "last_or d (xs @ ys) = last_or (last_or d xs) ys"
  by (induction xs arbitrary: d) auto

text \<open>
  \<open>dll m pv ns nx\<close>: the nodes \<open>ns\<close> are linked in both directions, the first one's
  \<open>prev\<close> is \<open>pv\<close> and the last one's \<open>next\<close> is \<open>nx\<close>.
\<close>

fun dll :: "mem \<Rightarrow> u32 \<Rightarrow> u32 list \<Rightarrow> u32 \<Rightarrow> bool" where
  "dll m pv [] nx \<longleftrightarrow> True"
| "dll m pv (n # ns) nx \<longleftrightarrow>
     get_field m n Prev = pv \<and> get_field m n Next = hd_or nx ns \<and> dll m n ns nx"

lemma hd_or_append: "hd_or d (xs @ ys) = hd_or (hd_or d ys) xs"
  by (cases xs) auto

lemma dll_append:
  "dll m pv (xs @ ys) nx \<longleftrightarrow> dll m pv xs (hd_or nx ys) \<and> dll m (last_or pv xs) ys nx"
  by (induction xs arbitrary: pv) (auto simp: hd_or_append)

lemma dll_frame:
  "dll m pv ns nx \<Longrightarrow> (\<And>x. x \<in> set ns \<Longrightarrow>
     get_field m' x Prev = get_field m x Prev \<and> get_field m' x Next = get_field m x Next) \<Longrightarrow>
   dll m' pv ns nx"
  by (induction ns arbitrary: pv) auto

text \<open>Writing a node that is apart from the nodes of a segment keeps the segment.\<close>

lemma dll_set_apart:
  "dll m pv ns nx \<Longrightarrow> (\<And>x. x \<in> set ns \<Longrightarrow> node_apart x n) \<Longrightarrow> dll (set_field m n f v) pv ns nx"
  by (erule dll_frame) (simp add: get_set_node)

definition list_rep :: "list_state \<Rightarrow> u32 list \<Rightarrow> bool" where
  "list_rep s ns \<longleftrightarrow> list_head (fst s) = hd_or NULL ns \<and> list_tail (fst s) = last_or NULL ns \<and>
     dll (snd s) NULL ns NULL \<and> distinct ns \<and> NULL \<notin> set ns \<and> pages_apart ns"

text \<open>The counters agree with the nodes on the list.\<close>

definition counts :: "list_state \<Rightarrow> u32 list \<Rightarrow> bool" where
  "counts s ns \<longleftrightarrow> sduNum (fst s) = of_nat (length ns) \<and>
     sduBytes (fst s) = sum_list (map (\<lambda>n. get_field (snd s) n DataSize) ns)"

definition can_link :: "u32 \<Rightarrow> u32 list \<Rightarrow> bool" where
  "can_link node ns \<longleftrightarrow> node \<noteq> NULL \<and> (\<forall>x\<in>set ns. node_apart x node)"

lemma last_or_in: "xs \<noteq> [] \<Longrightarrow> last_or d xs \<in> set xs"
  by (cases xs rule: rev_cases) auto

lemma list_init_rep: "list_rep (list_init, m) [] \<and> counts (list_init, m) []"
  by (simp add: list_rep_def counts_def list_init_def pages_apart_def)

section \<open>Pushing\<close>

lemma can_linkD: "can_link node ns \<Longrightarrow> node \<notin> set ns"
  using node_apart_neq by (auto simp: can_link_def)

lemma pages_apart_snoc: "pages_apart ns \<Longrightarrow> can_link node ns \<Longrightarrow> pages_apart (ns @ [node])"
  by (auto simp: pages_apart_def can_link_def intro: node_apart_sym)

lemma list_push_back_rep:
  assumes rep: "list_rep (l, m) ns" and ok: "can_link node ns"
  shows "list_rep (list_push_back node (l, m)) (ns @ [node])"
proof (cases ns rule: rev_cases)
  case Nil
  then show ?thesis
    using rep ok by (simp add: list_rep_def list_push_back_def can_link_def pages_apart_def Let_def)
next
  case (snoc us t)
  have t: "list_tail l = t" "t \<noteq> NULL" "node_apart t node" and us: "\<And>x. x \<in> set us \<Longrightarrow> node_apart x node"
    using rep ok snoc by (auto simp: list_rep_def can_link_def)
  have tus: "node_apart x t" if "x \<in> set us" for x
    using rep snoc that pages_apartD [of ns x t] by (auto simp: list_rep_def)
  let ?m = "set_field (set_field (set_field m node Next NULL) node Prev t) t Next node"
  have old: "dll m NULL us t" "get_field m t Prev = last_or NULL us"
    using rep snoc by (auto simp: list_rep_def dll_append)
  have "dll ?m NULL us t" by (intro dll_set_apart old us tus)
  moreover have "get_field ?m t Prev = last_or NULL us" using t(3) old by (simp add: get_set_node)
  moreover have "get_field ?m node Prev = t" "get_field ?m node Next = NULL"
    using node_apart_sym [OF t(3)] by (simp_all add: get_set_node)
  ultimately have "dll ?m NULL (ns @ [node]) NULL"
    by (simp add: snoc dll_append)
  moreover have "list_push_back node (l, m) = (l\<lparr>list_tail := node, sduNum := sduNum l + 1,
      sduBytes := sduBytes l + get_field ?m node DataSize\<rparr>, ?m)"
    using t by (simp add: list_push_back_def Let_def)
  moreover have "list_head l = hd_or NULL (ns @ [node])"
    using rep snoc by (simp add: list_rep_def hd_or_append)
  ultimately show ?thesis
    using rep pages_apart_snoc [OF _ ok] can_linkD [OF ok] ok
    by (simp add: list_rep_def can_link_def)
qed


lemma sizes_set_other:
  "f \<noteq> DataSize \<Longrightarrow> (\<And>x. x \<in> set ns \<Longrightarrow> x \<noteq> n \<Longrightarrow> node_apart x n) \<Longrightarrow>
   map (\<lambda>x. get_field (set_field m n f v) x DataSize) ns = map (\<lambda>x. get_field m x DataSize) ns"
  by (rule map_cong [OF refl]) (metis get_set_field get_set_node)

lemma list_push_back_counts:
  assumes rep: "list_rep (l, m) ns" and cnt: "counts (l, m) ns" and ok: "can_link node ns"
  shows "counts (list_push_back node (l, m)) (ns @ [node])"
proof -
  define m2 where "m2 = set_field (set_field m node Next NULL) node Prev (list_tail l)"
  define m3 where "m3 = (if list_tail l \<noteq> NULL then set_field m2 (list_tail l) Next node else m2)"
  have ap: "node_apart x node" if "x \<in> set ns" for x using ok that by (simp add: can_link_def)
  have s2: "get_field m2 x DataSize = get_field m x DataSize" if "x \<in> set (ns @ [node])" for x
    using that ap [of x] by (cases "x = node") (auto simp: m2_def get_set_node)
  have t: "list_tail l \<in> set ns" if "list_tail l \<noteq> NULL"
    using rep that last_or_in [of ns NULL] by (cases ns) (auto simp: list_rep_def)
  have "get_field m3 x DataSize = get_field m2 x DataSize" if x: "x \<in> set (ns @ [node])" for x
  proof (cases "list_tail l = NULL \<or> x = list_tail l")
    case False
    then have "list_tail l \<in> set ns" using t by simp
    then have "node_apart x (list_tail l)"
      using x False rep ap node_apart_sym pages_apartD [of ns x "list_tail l"]
      by (auto simp: list_rep_def)
    then show ?thesis by (simp add: m3_def get_set_node)
  qed (auto simp: m3_def)
  then have same: "get_field m3 x DataSize = get_field m x DataSize" if "x \<in> set (ns @ [node])" for x
    using s2 that by simp
  have "snd (list_push_back node (l, m)) = m3"
    "sduNum (fst (list_push_back node (l, m))) = sduNum l + 1"
    "sduBytes (fst (list_push_back node (l, m))) = sduBytes l + get_field m3 node DataSize"
    by (simp_all add: list_push_back_def Let_def m2_def m3_def)
  moreover have "sum_list (map (\<lambda>x. get_field m3 x DataSize) ns)
      = sum_list (map (\<lambda>x. get_field m x DataSize) ns)"
    using same by (intro arg_cong [of _ _ sum_list] map_cong) auto
  ultimately show ?thesis
    using cnt unfolding counts_def by simp
qed

section \<open>Popping and removing\<close>

lemma pages_apart_append:
  "pages_apart (xs @ ys) \<Longrightarrow> pages_apart xs \<and> pages_apart ys"
  by (auto simp: pages_apart_def)

lemma list_pop_front_empty: "list_rep (l, m) [] \<Longrightarrow> list_pop_front (l, m) = (NULL, (l, m))"
  by (simp add: list_rep_def list_pop_front_def)

lemma list_pop_front_rep:
  assumes rep: "list_rep (l, m) (n # ns)"
  shows "\<exists>s'. list_pop_front (l, m) = (n, s') \<and> list_rep s' ns \<and>
    (counts (l, m) (n # ns) \<longrightarrow> counts s' ns) \<and>
    get_field (snd s') n Next = NULL \<and> get_field (snd s') n Prev = NULL"
proof -
  have h: "list_head l = n" "n \<noteq> NULL" "get_field m n Next = hd_or NULL ns" "n \<notin> set ns"
    "dll m n ns NULL" "pages_apart (n # ns)" "distinct ns" "NULL \<notin> set ns"
    "list_tail l = last_or n ns"
    using rep by (auto simp: list_rep_def)
  have ap: "node_apart x n" if "x \<in> set ns" for x
    using h(4,6) that pages_apartD [of "n # ns" x n] by auto
  define m1 where "m1 = (if ns \<noteq> [] then set_field m (hd_or NULL ns) Prev NULL else m)"
  define m3 where "m3 = set_field (set_field m1 n Next NULL) n Prev NULL"
  define l' where "l' = l\<lparr>list_head := hd_or NULL ns, list_tail := (if ns \<noteq> [] then list_tail l else NULL),
      sduNum := sduNum l - 1, sduBytes := sduBytes l - get_field m3 n DataSize\<rparr>"
  have hd: "hd_or NULL ns \<noteq> NULL \<longleftrightarrow> ns \<noteq> []" using h(8) by (cases ns) auto
  have run: "list_pop_front (l, m) = (n, (l', m3))"
    using h(1,2,3) hd by (simp add: list_pop_front_def Let_def m3_def m1_def l'_def)
  have d1: "dll m1 NULL ns NULL"
  proof (cases ns)
    case (Cons y ys)
    have y: "get_field m y Next = hd_or NULL ys" "dll m y ys NULL" using h(5) Cons by auto
    have "node_apart x y" if "x \<in> set ys" for x
      using h(6,7) that Cons pages_apartD [of "n # ns" x y] by auto
    then have "dll m1 y ys NULL" using y(2) Cons by (simp add: m1_def dll_set_apart)
    then show ?thesis using y(1) Cons by (simp add: m1_def)
  qed simp
  have d3: "dll m3 NULL ns NULL" unfolding m3_def by (intro dll_set_apart d1 ap)
  have sz: "get_field m3 x DataSize = get_field m x DataSize" if "x \<in> set (n # ns)" for x
  proof -
    have "get_field m1 x DataSize = get_field m x DataSize"
    proof (cases "ns \<noteq> [] \<and> x \<noteq> hd_or NULL ns")
      case True
      then have "hd_or NULL ns \<in> set ns" by (cases ns) auto
      then have "node_apart x (hd_or NULL ns)"
        using pages_apartD [OF h(6), of x "hd_or NULL ns"] that True by simp
      then show ?thesis by (simp add: m1_def get_set_node)
    qed (auto simp: m1_def)
    moreover have "get_field m3 x DataSize = get_field m1 x DataSize"
      using that ap by (cases "x = n") (auto simp: m3_def get_set_node)
    ultimately show ?thesis by simp
  qed
  have "list_rep (l', m3) ns"
    using d3 h(7,8,9) pages_apart_append [of "[n]" ns] h(6)
    by (cases ns) (auto simp: list_rep_def l'_def)
  moreover have "counts (l', m3) ns" if c: "counts (l, m) (n # ns)"
  proof -
    have "sum_list (map (\<lambda>x. get_field m3 x DataSize) ns)
        = sum_list (map (\<lambda>x. get_field m x DataSize) ns)"
      using sz by (intro arg_cong [of _ _ sum_list] map_cong) auto
    then show ?thesis using c sz [of n] unfolding counts_def l'_def by simp
  qed
  moreover have "get_field m3 n Next = NULL" "get_field m3 n Prev = NULL" by (simp_all add: m3_def)
  ultimately show ?thesis using run by auto
qed

lemma list_remove_rep:
  assumes rep: "list_rep (l, m) (xs @ n # ys)"
  shows "list_rep (list_remove n (l, m)) (xs @ ys) \<and>
    sduNum (fst (list_remove n (l, m))) = sduNum l \<and> sduBytes (fst (list_remove n (l, m))) = sduBytes l"
proof -
  let ?p = "last_or NULL xs" and ?q = "hd_or NULL ys"
  have r: "dll m NULL xs n" "get_field m n Prev = ?p" "get_field m n Next = ?q" "dll m n ys NULL"
    "distinct (xs @ n # ys)" "NULL \<notin> set (xs @ n # ys)" "pages_apart (xs @ n # ys)"
    "list_head l = hd_or n xs" "list_tail l = last_or n ys"
    using rep by (auto simp: list_rep_def dll_append hd_or_append last_or_append)
  have ap: "node_apart x y" if "x \<in> set (xs @ n # ys)" "y \<in> set (xs @ n # ys)" "x \<noteq> y" for x y
    by (rule pages_apartD [OF r(7) that])
  have p: "?p \<noteq> NULL \<longleftrightarrow> xs \<noteq> []" using r(6) last_or_in [of xs NULL] by (cases "xs = []") auto
  have q: "?q \<noteq> NULL \<longleftrightarrow> ys \<noteq> []" using r(6) by (cases ys) auto
  define m1 where "m1 = (if xs \<noteq> [] then set_field m ?p Next ?q else m)"
  define m2 where "m2 = (if ys \<noteq> [] then set_field m1 ?q Prev ?p else m1)"
  define m4 where "m4 = set_field (set_field m2 n Prev NULL) n Next NULL"
  have pn: "node_apart n ?p" if "xs \<noteq> []"
    using last_or_in [OF that, of NULL] r(5) by (intro ap) auto
  have n1: "get_field m1 n Prev = ?p" "get_field m1 n Next = ?q"
    using r(2,3) pn by (auto simp: m1_def get_set_node)
  have run: "list_remove n (l, m) =
      (l\<lparr>list_head := (if xs \<noteq> [] then list_head l else ?q),
         list_tail := (if ys \<noteq> [] then list_tail l else ?p)\<rparr>, m4)"
  proof (cases "xs = []")
    case True
    then show ?thesis using r(2,3) p q by (auto simp: list_remove_def Let_def m4_def m2_def m1_def)
  next
    case False
    have "get_field (set_field m ?p Next ?q) n Prev = ?p" "get_field (set_field m ?p Next ?q) n Next = ?q"
      using n1 False by (simp_all add: m1_def)
    then show ?thesis
      using r(2,3) p q False by (cases "ys = []") (simp_all add: list_remove_def Let_def m4_def m2_def m1_def)
  qed
  have dx: "dll m1 NULL xs ?q"
  proof (cases xs rule: rev_cases)
    case (snoc us t)
    have "dll m NULL us t" "get_field m t Prev = last_or NULL us" using r(1) snoc by (auto simp: dll_append)
    moreover have "node_apart x t" if "x \<in> set us" for x
      using that snoc r(5) by (intro ap) auto
    ultimately show ?thesis using snoc by (simp add: m1_def dll_append dll_set_apart)
  qed simp
  have dy1: "dll m1 n ys NULL"
    unfolding m1_def using r(4,5) last_or_in [of xs NULL]
    by (auto intro!: dll_set_apart ap)
  have dy: "dll m2 ?p ys NULL"
  proof (cases ys)
    case (Cons y ys')
    have "get_field m1 y Next = hd_or NULL ys'" "dll m1 y ys' NULL" using dy1 Cons by auto
    moreover have "node_apart x y" if "x \<in> set ys'" for x
      using that Cons r(5) by (intro ap) auto
    ultimately show ?thesis using Cons by (simp add: m2_def dll_set_apart)
  qed simp
  have dx2: "dll m2 NULL xs ?q"
    unfolding m2_def using dx r(5)
    by (cases ys) (auto intro!: dll_set_apart ap)
  have "dll m2 NULL (xs @ ys) NULL" using dx2 dy by (simp add: dll_append)
  then have "dll m4 NULL (xs @ ys) NULL"
    unfolding m4_def using r(5) by (intro dll_set_apart ap) auto
  moreover have "pages_apart (xs @ ys)" by (rule pages_apart_subset [OF r(7)]) auto
  moreover have "(if xs \<noteq> [] then list_head l else ?q) = hd_or NULL (xs @ ys)"
    "(if ys \<noteq> [] then list_tail l else ?p) = last_or NULL (xs @ ys)"
    using r(8,9) by (cases xs; cases ys; auto simp: hd_or_append last_or_append)+
  ultimately show ?thesis using r(5,6) by (simp add: run list_rep_def)
qed


section \<open>The lists as queues\<close>

text \<open>The caller's test \<open>node != NULL\<close> on the result of \<open>list_pop_front\<close>.\<close>

definition list_pop_opt :: "list_state \<Rightarrow> u32 option \<times> list_state" where
  "list_pop_opt s = (case list_pop_front s of (n, s') \<Rightarrow> (if n = NULL then None else Some n, s'))"

definition list_ok :: "list_state \<Rightarrow> u32 list \<Rightarrow> bool" where
  "list_ok s ns \<longleftrightarrow> list_rep s ns \<and> counts s ns"

interpretation llq: fifo_queue list_push_back list_pop_opt list_ok can_link
proof
  fix s :: list_state and ns node
  obtain l m where s: "s = (l, m)" by fastforce
  show "list_ok (list_push_back node s) (ns @ [node])" if "list_ok s ns" "can_link node ns"
    using that list_push_back_rep list_push_back_counts unfolding s list_ok_def by blast
  show "list_pop_opt s = (None, s)" if "list_ok s []"
    using that list_pop_front_empty unfolding s by (simp add: list_ok_def list_pop_opt_def)
  show "\<exists>s'. list_pop_opt s = (Some node, s') \<and> list_ok s' ns" if *: "list_ok s (node # ns)"
  proof -
    have "node \<noteq> NULL" using * by (auto simp: list_ok_def list_rep_def)
    then show ?thesis
      using list_pop_front_rep [of l m node ns] * unfolding s by (auto simp: list_ok_def list_pop_opt_def)
  qed
qed

section \<open>Properties\<close>

text \<open>
  A packet list is a queue: for every sequence of \<open>list_push_back\<close> and
  \<open>list_pop_front\<close> in which each pushed node is a page apart from those on the list,
  the popped nodes followed by the nodes still linked are the pushed nodes in order; the
  links are intact and \<open>sduNum\<close>, \<open>sduBytes\<close> count what is linked.
\<close>

theorem list_fifo:
  assumes "legal can_link ops []"
  shows "\<exists>rest. list_rep (snd (queue_run list_push_back list_pop_opt ops (list_init, m))) rest \<and>
    counts (snd (queue_run list_push_back list_pop_opt ops (list_init, m))) rest \<and>
    delivered (fst (queue_run list_push_back list_pop_opt ops (list_init, m))) @ rest = pushed ops"
  using llq.run_fifo [OF _ assms, of "(list_init, m)"] list_init_rep by (auto simp: list_ok_def)

theorem list_fifo_witness:
  "\<exists>rest. delivered (fst (queue_run list_push_back list_pop_opt
      [Push 0x1000, Push 0x1018, Pop, Push 0x1030, Pop] (list_init, \<lambda>_. 0))) @ rest
    = [0x1000, 0x1018, 0x1030]"
proof -
  have "legal can_link [Push 0x1000, Push 0x1018, Pop, Push 0x1030, Pop] []"
    by (simp add: can_link_def node_apart_def)
  from list_fifo [OF this, of "\<lambda>_. 0"] show ?thesis by auto
qed

text \<open>
  C17: \<open>list_pop_front\<close> on a non-empty list returns the head, clears both links of the
  returned node, leaves the rest linked in order, and reduces the counters by that node;
  on an empty list it returns NULL and changes nothing.
\<close>

theorem list_pop_front_correct:
  assumes "list_rep s ns"
  shows "case ns of [] \<Rightarrow> list_pop_front s = (NULL, s)
    | n # ns' \<Rightarrow> \<exists>s'. list_pop_front s = (n, s') \<and> list_rep s' ns' \<and>
        (counts s ns \<longrightarrow> counts s' ns') \<and>
        get_field (snd s') n Next = NULL \<and> get_field (snd s') n Prev = NULL"
proof -
  obtain l m where s: "s = (l, m)" by fastforce
  show ?thesis
    using assms list_pop_front_empty list_pop_front_rep unfolding s by (cases ns) simp_all
qed

lemma two_node_list:
  "list_rep (list_push_back 0x1018 (list_push_back 0x1000 (list_init, \<lambda>_. 0))) [0x1000, 0x1018] \<and>
   counts (list_push_back 0x1018 (list_push_back 0x1000 (list_init, \<lambda>_. 0))) [0x1000, 0x1018]"
  using llq.run_refines [of "(list_init, \<lambda>_. 0)" "[]" "[Push 0x1000, Push 0x1018]"] list_init_rep [of "\<lambda>_. 0"]
  by (simp add: list_ok_def can_link_def node_apart_def)

theorem list_pop_front_witness:
  "\<exists>s'. list_pop_front (list_push_back 0x1018 (list_push_back 0x1000 (list_init, \<lambda>_. 0))) = (0x1000, s') \<and>
     list_rep s' [0x1018] \<and> counts s' [0x1018]"
  using list_pop_front_correct [OF conjunct1 [OF two_node_list]] two_node_list by auto

text \<open>
  C18: \<open>list_remove\<close> unlinks a node from anywhere in the list, leaving the other
  nodes linked in order, but it does not touch \<open>sduNum\<close> and \<open>sduBytes\<close>: after it
  the counters no longer agree with the list.
\<close>

theorem list_remove_unlinks_but_miscounts:
  assumes "list_rep s (xs @ n # ys)" "counts s (xs @ n # ys)"
  shows "list_rep (list_remove n s) (xs @ ys) \<and> \<not> counts (list_remove n s) (xs @ ys) \<and>
    sduNum (fst (list_remove n s)) = sduNum (fst s)"
proof -
  obtain l m where s: "s = (l, m)" by fastforce
  have "sduNum l = of_nat (length (xs @ ys)) + 1" using assms(2) by (simp add: s counts_def)
  then have "sduNum l \<noteq> of_nat (length (xs @ ys))" by simp
  then show ?thesis
    using list_remove_rep [of l m xs n ys] assms(1) unfolding s counts_def by simp
qed

theorem list_remove_witness:
  "list_rep (list_remove 0x1018 (list_push_back 0x1018 (list_push_back 0x1000 (list_init, \<lambda>_. 0)))) [0x1000] \<and>
   sduNum (fst (list_remove 0x1018 (list_push_back 0x1018 (list_push_back 0x1000 (list_init, \<lambda>_. 0)))))
     = sduNum (fst (list_push_back 0x1018 (list_push_back 0x1000 (list_init, \<lambda>_. 0))))"
  using list_remove_unlinks_but_miscounts
    [of "list_push_back 0x1018 (list_push_back 0x1000 (list_init, \<lambda>_. 0))" "[0x1000]" "0x1018" "[]"]
    two_node_list by simp

end
