(* ===== verification/SpinLock.thy ===== *)
theory SpinLock
  imports Prelude
begin

text \<open>
  The test-and-set locks of the repository: \<open>spin_lock\<close>/\<open>spin_unlock\<close> of
  \<open>llist.h\<close> (and, with the same body, \<open>mm_lock_acquire\<close>/\<open>mm_lock_release\<close>
  of \<open>mm.c\<close> and \<open>printf_lock_acquire\<close>/\<open>printf_lock_release\<close> of
  \<open>printf_lock.c\<close>), the variant without a release fence in
  \<open>benchmark/spin_lock.c\<close>, and \<open>snrt_mutex_lock\<close>,
  \<open>snrt_mutex_ttas_lock\<close>, \<open>snrt_mutex_release\<close> of \<open>snrt.h\<close>.
  A hart is described by its position in the code; each function below performs one
  indivisible action (a load or an atomic exchange of the lock word) of the hart. Busy-wait
  delays between attempts have no effect on the lock and are left out.
\<close>

section \<open>One action of a hart\<close>

text \<open>
  \<open>Swap t0\<close>: about to exchange the register value \<open>t0\<close> with the lock word;
  \<open>Test\<close>: about to read the lock word; \<open>Fenced\<close>: past the release fence, about
  to exchange zero.
\<close>

datatype lock_pc = Outside | Test | Swap u32 | Inside | Fenced

text \<open>The atomic exchange: the old value and the new memory word.\<close>

definition amoswap :: "u32 \<Rightarrow> u32 \<Rightarrow> u32 \<times> u32" where
  "amoswap x l = (l, x)"

fun spin_lock :: "lock_pc \<times> u32 \<Rightarrow> lock_pc \<times> u32" where
  "spin_lock (Swap x, l) = (case amoswap 1 l of (old, l') \<Rightarrow> (if old \<noteq> 0 then Swap 1 else Inside, l'))"
| "spin_lock (_, l) = (Swap 1, l)"

fun spin_unlock :: "lock_pc \<times> u32 \<Rightarrow> lock_pc \<times> u32" where
  "spin_unlock (Inside, l) = (Fenced, l)"
| "spin_unlock (pc, l) = (case amoswap 0 l of (_, l') \<Rightarrow> (Outside, l'))"

fun bench_spin_unlock :: "lock_pc \<times> u32 \<Rightarrow> lock_pc \<times> u32" where
  "bench_spin_unlock (pc, l) = (case amoswap 0 l of (_, l') \<Rightarrow> (Outside, l'))"

text \<open>
  The runtime mutex keeps the old lock value in the register and exchanges it again, so a
  waiting hart writes back what it read.
\<close>

fun snrt_mutex_lock :: "lock_pc \<times> u32 \<Rightarrow> lock_pc \<times> u32" where
  "snrt_mutex_lock (Swap t0, l) =
     (case amoswap t0 l of (old, l') \<Rightarrow> (if old \<noteq> 0 then Swap old else Inside, l'))"
| "snrt_mutex_lock (_, l) = (Swap 1, l)"

fun snrt_mutex_ttas_lock :: "lock_pc \<times> u32 \<Rightarrow> lock_pc \<times> u32" where
  "snrt_mutex_ttas_lock (Test, l) = (if l \<noteq> 0 then Test else Swap 1, l)"
| "snrt_mutex_ttas_lock (Swap t0, l) =
     (case amoswap t0 l of (old, l') \<Rightarrow> (if old \<noteq> 0 then Swap old else Inside, l'))"
| "snrt_mutex_ttas_lock (_, l) = (Test, l)"

fun snrt_mutex_release :: "lock_pc \<times> u32 \<Rightarrow> lock_pc \<times> u32" where
  "snrt_mutex_release (pc, l) = (case amoswap 0 l of (_, l') \<Rightarrow> (Outside, l'))"

section \<open>Any number of harts\<close>

record lock_sys =
  lword :: u32
  lpc :: "nat \<Rightarrow> lock_pc"

definition holder :: "lock_pc \<Rightarrow> bool" where
  "holder pc \<longleftrightarrow> pc = Inside \<or> pc = Fenced"

text \<open>
  A hart that does not hold the lock runs the acquire code, one that holds it the release
  code (after as many own actions inside the critical section as it likes).
\<close>

inductive lock_step ::
    "(lock_pc \<times> u32 \<Rightarrow> lock_pc \<times> u32) \<Rightarrow> (lock_pc \<times> u32 \<Rightarrow> lock_pc \<times> u32) \<Rightarrow> lock_sys \<Rightarrow> lock_sys \<Rightarrow> bool"
  for acq rel where
  lock_acq: "\<not> holder (lpc s t) \<Longrightarrow> acq (lpc s t, lword s) = (pc, l) \<Longrightarrow>
     lock_step acq rel s (s\<lparr>lword := l, lpc := (lpc s)(t := pc)\<rparr>)"
| lock_rel: "holder (lpc s t) \<Longrightarrow> rel (lpc s t, lword s) = (pc, l) \<Longrightarrow>
     lock_step acq rel s (s\<lparr>lword := l, lpc := (lpc s)(t := pc)\<rparr>)"

inductive_cases lock_stepE: "lock_step acq rel s s'"

definition lock_start :: "lock_sys \<Rightarrow> bool" where
  "lock_start s \<longleftrightarrow> lword s = 0 \<and> (\<forall>t. lpc s t = Outside)"

text \<open>Registers about to be exchanged into the lock are never zero.\<close>

fun pc_ok :: "lock_pc \<Rightarrow> bool" where
  "pc_ok (Swap t0) \<longleftrightarrow> t0 \<noteq> 0"
| "pc_ok _ \<longleftrightarrow> True"

definition lock_inv :: "lock_sys \<Rightarrow> bool" where
  "lock_inv s \<longleftrightarrow> (\<forall>t. pc_ok (lpc s t)) \<and>
     (\<forall>t u. holder (lpc s t) \<longrightarrow> holder (lpc s u) \<longrightarrow> t = u) \<and>
     (lword s \<noteq> 0 \<longleftrightarrow> (\<exists>t. holder (lpc s t)))"

text \<open>
  What a pair of acquire and release routines must do for mutual exclusion: acquiring
  enters only on a zero word and leaves it non-zero, never clears the word, and releasing
  clears the word when it leaves.
\<close>

locale spin_lock_impl =
  fixes acq :: "lock_pc \<times> u32 \<Rightarrow> lock_pc \<times> u32"
    and rel :: "lock_pc \<times> u32 \<Rightarrow> lock_pc \<times> u32"
  assumes acq_safe: "\<not> holder pc \<Longrightarrow> pc_ok pc \<Longrightarrow> acq (pc, l) = (pc', l') \<Longrightarrow>
      pc_ok pc' \<and> (if holder pc' then l = 0 \<and> l' \<noteq> 0 else l' = 0 \<longleftrightarrow> l = 0)"
    and rel_safe: "holder pc \<Longrightarrow> rel (pc, l) = (pc', l') \<Longrightarrow>
      pc_ok pc' \<and> (if holder pc' then l' = l else l' = 0)"

sublocale spin_lock_impl \<subseteq> locks: inductive_invariant lock_start "lock_step acq rel" lock_inv
proof
  fix s assume "lock_start s"
  then show "lock_inv s" by (auto simp: lock_start_def lock_inv_def holder_def)
next
  fix s s' assume inv: "lock_inv s" and step: "lock_step acq rel s s'"
  from step obtain t pc l where s': "s' = s\<lparr>lword := l, lpc := (lpc s)(t := pc)\<rparr>"
    and run: "if holder (lpc s t) then rel (lpc s t, lword s) = (pc, l) else acq (lpc s t, lword s) = (pc, l)"
    by cases auto
  have ok: "pc_ok (lpc s t)" and one: "\<And>v w. holder (lpc s v) \<Longrightarrow> holder (lpc s w) \<Longrightarrow> v = w"
    and word: "lword s \<noteq> 0 \<longleftrightarrow> (\<exists>v. holder (lpc s v))"
    using inv by (auto simp: lock_inv_def)
  have hs: "holder (lpc s' v) \<longleftrightarrow> (if v = t then holder pc else holder (lpc s v))" for v
    by (simp add: s')
  have "pc_ok pc \<and> (if holder (lpc s t) then (if holder pc then l = lword s else l = 0)
      else (if holder pc then lword s = 0 \<and> l \<noteq> 0 else l = 0 \<longleftrightarrow> lword s = 0))"
    using acq_safe [OF _ ok, of "lword s" pc l] rel_safe [of "lpc s t" "lword s" pc l] run
    by (cases "holder (lpc s t)") simp_all
  then have pc: "pc_ok pc" and l: "l \<noteq> 0 \<longleftrightarrow> holder pc \<or> (lword s \<noteq> 0 \<and> \<not> holder (lpc s t))"
    and enter: "holder pc \<Longrightarrow> \<not> holder (lpc s t) \<Longrightarrow> lword s = 0"
    using word by (auto split: if_splits)
  have others: "\<not> holder (lpc s v)" if "v \<noteq> t" "holder pc" for v
    using that one [of v t] enter word by blast
  have "\<forall>v w. holder (lpc s' v) \<longrightarrow> holder (lpc s' w) \<longrightarrow> v = w"
    unfolding hs using others one by metis
  moreover have "lword s' \<noteq> 0 \<longleftrightarrow> (\<exists>v. holder (lpc s' v))"
  proof -
    have "(\<exists>v. holder (lpc s' v)) \<longleftrightarrow> holder pc \<or> (\<exists>v. v \<noteq> t \<and> holder (lpc s v))"
      unfolding hs by auto
    also have "\<dots> \<longleftrightarrow> holder pc \<or> (lword s \<noteq> 0 \<and> \<not> holder (lpc s t))"
      using word one by metis
    finally show ?thesis using l by (simp add: s')
  qed
  moreover have "\<forall>v. pc_ok (lpc s' v)" using inv pc by (simp add: s' lock_inv_def)
  ultimately show "lock_inv s'" by (simp add: lock_inv_def)
qed

context spin_lock_impl
begin

lemma mutual_exclusion:
  "reach lock_start (lock_step acq rel) s \<Longrightarrow> holder (lpc s t) \<Longrightarrow> holder (lpc s u) \<Longrightarrow> t = u"
  using locks.reach_inv by (auto simp: lock_inv_def)

lemma never_stuck:
  "reach lock_start (lock_step acq rel) s \<Longrightarrow> \<forall>t. \<not> holder (lpc s t) \<Longrightarrow> lword s = 0"
  using locks.reach_inv [of s] by (auto simp: lock_inv_def)

end

interpretation list_spin: spin_lock_impl spin_lock spin_unlock
proof
  fix pc l pc' l'
  show "pc_ok pc' \<and> (if holder pc' then l = 0 \<and> l' \<noteq> 0 else l' = 0 \<longleftrightarrow> l = 0)"
    if "\<not> holder pc" "pc_ok pc" "spin_lock (pc, l) = (pc', l')"
    using that by (cases pc) (auto simp: holder_def amoswap_def split: if_splits)
  show "pc_ok pc' \<and> (if holder pc' then l' = l else l' = 0)"
    if "holder pc" "spin_unlock (pc, l) = (pc', l')"
    using that by (cases pc) (auto simp: holder_def amoswap_def)
qed

interpretation bench_spin: spin_lock_impl spin_lock bench_spin_unlock
  using list_spin.acq_safe
  by unfold_locales (blast | auto simp: holder_def amoswap_def)+

interpretation mutex: spin_lock_impl snrt_mutex_lock snrt_mutex_release
proof
  fix pc l pc' l'
  show "pc_ok pc' \<and> (if holder pc' then l = 0 \<and> l' \<noteq> 0 else l' = 0 \<longleftrightarrow> l = 0)"
    if "\<not> holder pc" "pc_ok pc" "snrt_mutex_lock (pc, l) = (pc', l')"
    using that by (cases pc) (auto simp: holder_def amoswap_def split: if_splits)
qed (auto simp: holder_def amoswap_def)

interpretation ttas: spin_lock_impl snrt_mutex_ttas_lock snrt_mutex_release
proof
  fix pc l pc' l'
  show "pc_ok pc' \<and> (if holder pc' then l = 0 \<and> l' \<noteq> 0 else l' = 0 \<longleftrightarrow> l = 0)"
    if "\<not> holder pc" "pc_ok pc" "snrt_mutex_ttas_lock (pc, l) = (pc', l')"
    using that by (cases pc) (auto simp: holder_def amoswap_def split: if_splits)
qed (auto simp: holder_def amoswap_def)

section \<open>Properties\<close>

text \<open>
  C13: for any number of harts and any interleaving, at most one hart is between acquiring
  and releasing a lock, for the list/page/printf spin locks, the fence-less benchmark
  variant, the runtime mutex and its test-and-test-and-set variant; and when no hart holds
  a lock its word is zero, so the lock is never left taken.
\<close>

theorem locks_exclude:
  assumes "(acq, rel) \<in> {(spin_lock, spin_unlock), (spin_lock, bench_spin_unlock),
      (snrt_mutex_lock, snrt_mutex_release), (snrt_mutex_ttas_lock, snrt_mutex_release)}"
    and "reach lock_start (lock_step acq rel) s"
  shows "(\<forall>t u. holder (lpc s t) \<longrightarrow> holder (lpc s u) \<longrightarrow> t = u) \<and>
    (lword s = 0 \<longleftrightarrow> (\<forall>t. \<not> holder (lpc s t)))"
proof -
  have "lock_inv s"
    using assms list_spin.locks.reach_inv bench_spin.locks.reach_inv mutex.locks.reach_inv
      ttas.locks.reach_inv by auto
  then show ?thesis by (auto simp: lock_inv_def)
qed

text \<open>A run in which hart 0 takes the lock and hart 1 fails to.\<close>

definition lock_run :: lock_sys where
  "lock_run = \<lparr>lword = 1, lpc = (\<lambda>_. Outside)(0 := Inside, 1 := Swap 1)\<rparr>"

lemma lock_run_reach: "reach lock_start (lock_step spin_lock spin_unlock) lock_run"
proof -
  let ?R = "reach lock_start (lock_step spin_lock spin_unlock)"
  have 0: "?R \<lparr>lword = 0, lpc = \<lambda>_. Outside\<rparr>"
    by (rule reach_start) (simp add: lock_start_def)
  have 1: "?R \<lparr>lword = 0, lpc = (\<lambda>_. Outside)(0 := Swap 1)\<rparr>"
    using reach_step [OF 0 lock_acq [of _ 0 _ "Swap 1" 0]] by (simp add: holder_def)
  have 2: "?R \<lparr>lword = 1, lpc = (\<lambda>_. Outside)(0 := Inside)\<rparr>"
    using reach_step [OF 1 lock_acq [of _ 0 _ Inside 1]] by (simp add: holder_def amoswap_def)
  show ?thesis
    using reach_step [OF 2 lock_acq [of _ 1 _ "Swap 1" 1]] by (simp add: holder_def lock_run_def)
qed

theorem locks_exclude_witness:
  "holder (lpc lock_run 0) \<and> \<not> holder (lpc lock_run 7) \<and> lword lock_run \<noteq> 0"
proof -
  have "(spin_lock, spin_unlock) \<in> {(spin_lock, spin_unlock), (spin_lock, bench_spin_unlock),
      (snrt_mutex_lock, snrt_mutex_release), (snrt_mutex_ttas_lock, snrt_mutex_release)}" by simp
  from locks_exclude [OF this lock_run_reach]
  have *: "\<forall>t u. holder (lpc lock_run t) \<longrightarrow> holder (lpc lock_run u) \<longrightarrow> t = u"
    "lword lock_run = 0 \<longleftrightarrow> (\<forall>t. \<not> holder (lpc lock_run t))" by auto
  have "holder (lpc lock_run 0)" by (simp add: lock_run_def holder_def)
  with * show ?thesis by (metis num.distinct numeral_eq_iff zero_neq_numeral)
qed

end
