(* ===== verification/Rlc.thy ===== *)
theory Rlc
  imports DataMove PageAlloc LList
begin

text \<open>
  The RLC kernel \<open>rlc.c\<close>, \<open>rlc.h\<close>: the context, the producer and the consumer
  as step functions of one core, and the self test. A step is one indivisible action on the
  shared state: an atomic operation, or a critical section between lock and unlock (theory
  \<open>SpinLock\<close>). Filling a freshly allocated node and copying a packet are one step
  each: no other core accesses the page, or the target buffer, in between. The table
  \<open>pdcp_pkgs\<close> comes from a generated data header and is a parameter.
\<close>

record pdcp_pkg =
  user_id :: int
  src_addr :: u32
  tgt_addr :: u32
  pkg_length :: u32

record rlc_context =
  rlcId :: u32
  cellId :: u32
  pollPdu :: u32
  pollByte :: u32
  pduWithoutPoll :: u32
  byteWithoutPoll :: u32
  to_send :: linked_list
  vtNextAck :: u32
  vtNext :: u32
  sent_list :: linked_list
  mm_ctx_ptr :: u32

text \<open>
  The shared state: the context, the index of the next PDCP package, the done flag, the
  allocator, the memory, and the vector state of each core.
\<close>

record rlc_world =
  rlc_ctx :: rlc_context
  pdcp_pkd_ptr :: int
  producer_done :: u32
  mm_ctx :: mm_context
  gmem :: mem
  vstate :: "nat \<Rightarrow> nat \<times> (nat \<Rightarrow> u32)"

definition rlc_init :: "u32 \<Rightarrow> u32 \<Rightarrow> u32 \<Rightarrow> rlc_world \<Rightarrow> rlc_world" where
  "rlc_init rlc_id cell_id mm_ctx_p w =
     w\<lparr>rlc_ctx := \<lparr>rlcId = rlc_id, cellId = cell_id, pollPdu = 32, pollByte = 25000,
         pduWithoutPoll = 0, byteWithoutPoll = 0, to_send = list_init, vtNextAck = 0, vtNext = 0,
         sent_list = list_init, mm_ctx_ptr = mm_ctx_p\<rparr>,
       pdcp_pkd_ptr := 0, producer_done := 0\<rparr>"

definition pdcp_receive_pkg :: "pdcp_pkg list \<Rightarrow> rlc_world \<Rightarrow> int \<times> rlc_world" where
  "pdcp_receive_pkg pkgs w =
     (if pdcp_pkd_ptr w < int (length pkgs)
      then (pdcp_pkd_ptr w, w\<lparr>pdcp_pkd_ptr := pdcp_pkd_ptr w + 1\<rparr>)
      else (-1, w))"

section \<open>The consumer\<close>

text \<open>
  Positions in the loop of \<open>consumer\<close>; the arguments are the live local variables
  (node, sequence number, \<open>ACK_SN\<close> and the loop index).
\<close>

datatype consumer_pc =
    CPop | CDone | CSn u32 | CCopy u32 u32 | CPdu u32 | CByte u32 | CSent u32
  | CAckTest | CAck u32 u32 | CFree u32 u32 u32 | CAckStore u32 | CExit

definition copy_packet :: "nat \<Rightarrow> u32 \<Rightarrow> u32 \<Rightarrow> u32 \<Rightarrow> rlc_world \<Rightarrow> rlc_world" where
  "copy_packet core tgt src sn w =
     (let h = vector_memcpy32_1360B_opt_with_header tgt src sn
                \<lparr>hmem = gmem w, hvl = fst (vstate w core), hvrf = snd (vstate w core)\<rparr>
      in w\<lparr>gmem := hmem h, vstate := (vstate w)(core := (hvl h, hvrf h))\<rparr>)"

fun consumer_step :: "nat \<Rightarrow> consumer_pc \<Rightarrow> rlc_world \<Rightarrow> consumer_pc \<times> rlc_world" where
  "consumer_step core CPop w =
     (case list_pop_front (to_send (rlc_ctx w), gmem w) of (node, (l, m)) \<Rightarrow>
        (if node \<noteq> 0 then CSn node else CDone,
         w\<lparr>rlc_ctx := (rlc_ctx w)\<lparr>to_send := l\<rparr>, gmem := m\<rparr>))"
| "consumer_step core CDone w = (if producer_done w = 1 then CExit else CPop, w)"
| "consumer_step core (CSn node) w =
     (CCopy node (vtNext (rlc_ctx w)),
      w\<lparr>rlc_ctx := (rlc_ctx w)\<lparr>vtNext := vtNext (rlc_ctx w) + 1\<rparr>\<rparr>)"
| "consumer_step core (CCopy node sn) w =
     (CPdu node, copy_packet core (get_field (gmem w) node Tgt) (get_field (gmem w) node Data) sn w)"
| "consumer_step core (CPdu node) w =
     (CByte node, w\<lparr>rlc_ctx := (rlc_ctx w)\<lparr>pduWithoutPoll := pduWithoutPoll (rlc_ctx w) + 1\<rparr>\<rparr>)"
| "consumer_step core (CByte node) w =
     (CSent node, w\<lparr>rlc_ctx := (rlc_ctx w)\<lparr>byteWithoutPoll :=
        byteWithoutPoll (rlc_ctx w) + get_field (gmem w) node DataSize\<rparr>\<rparr>)"
| "consumer_step core (CSent node) w =
     (case list_push_back node (sent_list (rlc_ctx w), gmem w) of (l, m) \<Rightarrow>
        (CAckTest, w\<lparr>rlc_ctx := (rlc_ctx w)\<lparr>sent_list := l\<rparr>, gmem := m\<rparr>))"
| "consumer_step core CAckTest w =
     (if 10000 \<le> sint (sduNum (sent_list (rlc_ctx w)))
      then CAck (vtNextAck (rlc_ctx w) + 2) (vtNextAck (rlc_ctx w)) else CPop, w)"
| "consumer_step core (CAck ack_sn i) w =
     (if sint i < sint ack_sn then
        (case list_pop_front (sent_list (rlc_ctx w), gmem w) of (node, (l, m)) \<Rightarrow>
           (CFree node ack_sn i, w\<lparr>rlc_ctx := (rlc_ctx w)\<lparr>sent_list := l\<rparr>, gmem := m\<rparr>))
      else (CAckStore ack_sn, w))"
| "consumer_step core (CFree node ack_sn i) w =
     (case mm_free node (mm_ctx w, gmem w) of (c, m) \<Rightarrow>
        (CAck ack_sn (i + 1), w\<lparr>mm_ctx := c, gmem := m\<rparr>))"
| "consumer_step core (CAckStore ack_sn) w =
     (CPop, w\<lparr>rlc_ctx := (rlc_ctx w)\<lparr>vtNextAck := ack_sn\<rparr>\<rparr>)"
| "consumer_step core CExit w = (CExit, w)"

section \<open>The producer\<close>

datatype producer_pc = PRecv | PAlloc int | PFill int u32 | PPush u32 | PDone | PExit

definition fill_node :: "pdcp_pkg \<Rightarrow> u32 \<Rightarrow> mem \<Rightarrow> mem" where
  "fill_node pkg node m =
     (let m = set_field m node NLock 0;
          m = set_field m node Prev 0;
          m = set_field m node Next 0;
          m = set_field m node Data (src_addr pkg);
          m = set_field m node Tgt (tgt_addr pkg)
      in set_field m node DataSize (pkg_length pkg))"

fun producer_step :: "u32 \<Rightarrow> pdcp_pkg list \<Rightarrow> producer_pc \<Rightarrow> rlc_world \<Rightarrow> producer_pc \<times> rlc_world" where
  "producer_step bulk pkgs PRecv w =
     (case pdcp_receive_pkg pkgs w of (i, w') \<Rightarrow> (if 0 \<le> i then PAlloc i else PDone, w'))"
| "producer_step bulk pkgs (PAlloc i) w =
     (case mm_alloc bulk (mm_ctx w, gmem w) of (node, (c, m)) \<Rightarrow>
        (if node = NULL then PAlloc i else PFill i node, w\<lparr>mm_ctx := c, gmem := m\<rparr>))"
| "producer_step bulk pkgs (PFill i node) w =
     (PPush node, w\<lparr>gmem := fill_node (pkgs ! nat i) node (gmem w)\<rparr>)"
| "producer_step bulk pkgs (PPush node) w =
     (case list_push_back node (to_send (rlc_ctx w), gmem w) of (l, m) \<Rightarrow>
        (PRecv, w\<lparr>rlc_ctx := (rlc_ctx w)\<lparr>to_send := l\<rparr>, gmem := m\<rparr>))"
| "producer_step bulk pkgs PDone w = (PExit, w\<lparr>producer_done := 1\<rparr>)"
| "producer_step bulk pkgs PExit w = (PExit, w)"

text \<open>\<open>cluster_entry\<close>: cores 0 and 1 consume, the others produce.\<close>

datatype core_pc = Consumer consumer_pc | Producer producer_pc

definition cluster_entry :: "nat \<Rightarrow> core_pc" where
  "cluster_entry core_id = (if core_id < 2 then Consumer CPop else Producer PRecv)"

fun core_step :: "u32 \<Rightarrow> pdcp_pkg list \<Rightarrow> nat \<Rightarrow> core_pc \<Rightarrow> rlc_world \<Rightarrow> core_pc \<times> rlc_world" where
  "core_step bulk pkgs t (Consumer pc) w = (case consumer_step t pc w of (pc', w') \<Rightarrow> (Consumer pc', w'))"
| "core_step bulk pkgs t (Producer pc) w = (case producer_step bulk pkgs pc w of (pc', w') \<Rightarrow> (Producer pc', w'))"

section \<open>The self test\<close>

text \<open>
  \<open>memdiff32\<close>: the first loop runs over single bytes until both pointers are aligned,
  the second over words, the third over the rest. \<open>Some i\<close> is a return out of the loop.
\<close>

function memdiff_head :: "mem \<Rightarrow> u32 \<Rightarrow> u32 \<Rightarrow> nat \<Rightarrow> nat \<Rightarrow> nat option \<times> nat" where
  "memdiff_head m p q n i =
     (if i < n \<and> ((p + of_nat i) OR (q + of_nat i)) AND 3 \<noteq> 0 then
        (if m (p + of_nat i) \<noteq> m (q + of_nat i) then (Some i, i) else memdiff_head m p q n (i + 1))
      else (None, i))"
  by pat_completeness auto
termination by (relation "measure (\<lambda>(m, p, q, n, i). n - i)") auto

fun memdiff_words :: "mem \<Rightarrow> u32 \<Rightarrow> u32 \<Rightarrow> nat \<Rightarrow> nat list \<Rightarrow> nat option" where
  "memdiff_words m p q i [] = None"
| "memdiff_words m p q i (k # ks) =
     (let x = load32 m (p + of_nat i + 4 * of_nat k) XOR load32 m (q + of_nat i + 4 * of_nat k);
          base = i + k * 4
      in if x \<noteq> 0 \<and> load32 m (p + 4 * of_nat base) \<noteq> load32 m (q + 4 * of_nat base) then Some base
         else memdiff_words m p q i ks)"

function memdiff_tail :: "mem \<Rightarrow> u32 \<Rightarrow> u32 \<Rightarrow> nat \<Rightarrow> nat \<Rightarrow> nat" where
  "memdiff_tail m p q n i =
     (if i < n then
        (if m (p + of_nat i) \<noteq> m (q + of_nat i) then i else memdiff_tail m p q n (i + 1))
      else n)"
  by pat_completeness auto
termination by (relation "measure (\<lambda>(m, p, q, n, i). n - i)") auto

declare memdiff_head.simps [simp del] memdiff_tail.simps [simp del]

definition memdiff32 :: "mem \<Rightarrow> u32 \<Rightarrow> u32 \<Rightarrow> u32 \<Rightarrow> nat" where
  "memdiff32 m a b len_bytes =
     (let n = unat len_bytes in
      case memdiff_head m a b n 0 of
        (Some r, _) \<Rightarrow> r
      | (None, i) \<Rightarrow>
          (let n_words = (n - i) div 4 in
           case memdiff_words m a b i [0..<n_words] of
             Some r \<Rightarrow> r
           | None \<Rightarrow> memdiff_tail m a b n (i + n_words * 4)))"

text \<open>\<open>self_check\<close>: the indices it reports as failed.\<close>

definition self_check :: "mem \<Rightarrow> pdcp_pkg list \<Rightarrow> int \<Rightarrow> nat list" where
  "self_check m meta sz =
     filter (\<lambda>i. memdiff32 m (src_addr (meta ! i)) (tgt_addr (meta ! i)) (pkg_length (meta ! i))
                 \<noteq> unat (pkg_length (meta ! i)))
       [0..<nat sz]"

lemma memdiff_head_equal:
  "(\<And>j. j < n \<Longrightarrow> m (p + of_nat j) = m (q + of_nat j)) \<Longrightarrow> i \<le> n \<Longrightarrow>
   \<exists>k\<le>n. memdiff_head m p q n i = (None, k)"
proof (induction m p q n i rule: memdiff_head.induct)
  case (1 m p q n i)
  show ?case
  proof (cases "i < n \<and> ((p + of_nat i) OR (q + of_nat i)) AND 3 \<noteq> 0")
    case True
    then have eq: "m (p + of_nat i) = m (q + of_nat i)" using "1.prems"(1) by simp
    then have "memdiff_head m p q n i = memdiff_head m p q n (i + 1)"
      using True by (subst memdiff_head.simps) simp
    moreover have "\<exists>k\<le>n. memdiff_head m p q n (i + 1) = (None, k)"
      by (rule "1.IH") (use True eq "1.prems" in auto)
    ultimately show ?thesis by simp
  next
    case False
    then have "memdiff_head m p q n i = (None, i)" by (subst memdiff_head.simps) (simp only: if_False)
    then show ?thesis using "1.prems"(2) by blast
  qed
qed

lemma memdiff_words_equal:
  "(\<And>k. k \<in> set ks \<Longrightarrow> load32 m (p + of_nat i + 4 * of_nat k) = load32 m (q + of_nat i + 4 * of_nat k)) \<Longrightarrow>
   memdiff_words m p q i ks = None"
  by (induction ks) (auto simp: Let_def)

lemma memdiff_tail_equal:
  "(\<And>j. j < n \<Longrightarrow> m (p + of_nat j) = m (q + of_nat j)) \<Longrightarrow> memdiff_tail m p q n i = n"
proof (induction m p q n i rule: memdiff_tail.induct)
  case (1 m p q n i)
  show ?case
  proof (cases "i < n")
    case True
    then have eq: "m (p + of_nat i) = m (q + of_nat i)" using "1.prems" by simp
    then show ?thesis using "1.IH" [OF True] "1.prems" True by (subst memdiff_tail.simps) simp
  next
    case False
    then show ?thesis by (subst memdiff_tail.simps) simp
  qed
qed

lemma load32_bytes_equal:
  assumes "\<And>j. j < n \<Longrightarrow> m (p + of_nat j) = m (q + of_nat j)" "i + 4 \<le> n"
  shows "load32 m (p + of_nat i) = load32 m (q + of_nat i)"
proof -
  have "m (p + of_nat i + of_nat k) = m (q + of_nat i + of_nat k)" if "k < 4" for k
    using assms(1) [of "i + k"] assms(2) that by (simp add: add.assoc)
  from this [of 0] this [of 1] this [of 2] this [of 3] show ?thesis by (simp add: load32_def)
qed

section \<open>Properties\<close>

text \<open>
  A packet that arrived intact is never reported by the self test: on equal buffers
  \<open>memdiff32\<close> returns the length, for every length and alignment.
\<close>

theorem memdiff32_equal:
  assumes "\<And>j. j < unat len \<Longrightarrow> m (a + of_nat j) = m (b + of_nat j)"
  shows "memdiff32 m a b len = unat len"
proof -
  obtain i where i: "i \<le> unat len" "memdiff_head m a b (unat len) 0 = (None, i)"
    using memdiff_head_equal [OF assms, of "unat len" 0] by auto
  have "load32 m (a + of_nat i + 4 * of_nat k) = load32 m (b + of_nat i + 4 * of_nat k)"
    if "k \<in> set [0..<(unat len - i) div 4]" for k
  proof -
    have "i + 4 * k + 4 \<le> unat len" using that i(1) by auto
    from load32_bytes_equal [OF assms this] show ?thesis by (simp add: add.assoc)
  qed
  then have "memdiff_words m a b i [0..<(unat len - i) div 4] = None" by (rule memdiff_words_equal)
  then show ?thesis using memdiff_tail_equal [OF assms] i(2) by (simp add: memdiff32_def Let_def)
qed

theorem memdiff32_equal_witness: "memdiff32 (\<lambda>_. 7) 0x1001 0x2002 1360 = 1360"
  using memdiff32_equal [of 1360 "\<lambda>_. 7" "0x1001" "0x2002"] by simp

definition blind_mem :: mem where
  "blind_mem = (\<lambda>a. if a = 0x1004 then 1 else 0)"

text \<open>
  C12: \<open>memdiff32\<close> misses differences: after it has found two words that differ it
  compares the words at four times that byte offset, outside the buffers, and when those
  agree it goes on. Here two 8-byte buffers that differ in byte 4 are reported as equal.
\<close>

theorem memdiff32_misses_difference:
  "blind_mem 0x1004 \<noteq> blind_mem 0x2004 \<and> memdiff32 blind_mem 0x1000 0x2000 8 = 8 \<and>
   self_check blind_mem [\<lparr>user_id = 0, src_addr = 0x1000, tgt_addr = 0x2000, pkg_length = 8\<rparr>] 1 = []"
proof -
  have h: "memdiff_head blind_mem 0x1000 0x2000 8 0 = (None, 0)"
    by (subst memdiff_head.simps) simp
  have w: "memdiff_words blind_mem 0x1000 0x2000 0 [0, 1] = None"
    by (simp add: load32_def blind_mem_def word_of_bytes_def Let_def)
  have t: "memdiff_tail blind_mem 0x1000 0x2000 8 8 = 8"
    by (subst memdiff_tail.simps) simp
  have u: "[0..<2] = [0, 1 :: nat]" by (simp add: upt_conv_Cons)
  have d: "memdiff32 blind_mem 0x1000 0x2000 8 = 8"
    using h w t u by (simp add: memdiff32_def Let_def)
  then show ?thesis by (simp add: self_check_def blind_mem_def)
qed

fun receive_times :: "pdcp_pkg list \<Rightarrow> nat \<Rightarrow> rlc_world \<Rightarrow> int list" where
  "receive_times pkgs 0 w = []"
| "receive_times pkgs (Suc k) w =
     (case pdcp_receive_pkg pkgs w of (i, w') \<Rightarrow> i # receive_times pkgs k w')"

lemma receive_times_from:
  "0 \<le> pdcp_pkd_ptr w \<Longrightarrow> pdcp_pkd_ptr w \<le> int (length pkgs) \<Longrightarrow> receive_times pkgs k w =
     map (\<lambda>j. if pdcp_pkd_ptr w + int j < int (length pkgs) then pdcp_pkd_ptr w + int j else -1) [0..<k]"
proof (induction k arbitrary: w)
  case 0
  then show ?case by simp
next
  case (Suc k)
  show ?case
  proof (cases "pdcp_pkd_ptr w < int (length pkgs)")
    case True
    then show ?thesis
      using Suc.IH [of "w\<lparr>pdcp_pkd_ptr := pdcp_pkd_ptr w + 1\<rparr>"] Suc.prems
      by (simp add: pdcp_receive_pkg_def map_upt_Suc algebra_simps del: upt_Suc)
  next
    case False
    then show ?thesis
      using Suc.IH [of w] Suc.prems
      by (simp add: pdcp_receive_pkg_def map_upt_Suc del: upt_Suc)
  qed
qed

text \<open>
  C11: \<open>pdcp_receive_pkg\<close> hands out the package indices in order, each one once, and
  then \<open>-1\<close> for ever: the results of \<open>k\<close> calls after \<open>rlc_init\<close> are
  \<open>0, 1, \<dots>\<close> up to the number of packages, followed by \<open>-1\<close>.
\<close>

theorem pdcp_receive_each_once:
  "receive_times pkgs k (rlc_init r c p w) =
     map (\<lambda>j. if j < length pkgs then int j else -1) [0..<k]"
  using receive_times_from [of "rlc_init r c p w" pkgs k] by (simp add: rlc_init_def)

end
