(* ===== verification/RlcFrames.thy ===== *)
theory RlcFrames
  imports Rlc
begin

text \<open>
  What each memory-changing action of the RLC kernel leaves alone: the list operations and
  the node initialisation stay inside the page pool, the packet copy inside one target
  buffer. The invariants of the system (theory \<open>RlcSystem\<close>) are carried across the
  steps by these frames.
\<close>

section \<open>Writes inside the page pool\<close>

text \<open>
  Only the fields \<open>F\<close> of the pages \<open>X\<close> may differ, and nothing outside the pool.
\<close>

definition touches :: "u32 \<Rightarrow> u32 set \<Rightarrow> node_field set \<Rightarrow> mem \<Rightarrow> mem \<Rightarrow> bool" where
  "touches bulk X F m m' \<longleftrightarrow>
     (\<forall>y\<in>pool_pages bulk. \<forall>f. y \<notin> X \<or> f \<notin> F \<longrightarrow> get_field m' y f = get_field m y f) \<and>
     (\<forall>a. 24576 \<le> unat (a - bulk) \<longrightarrow> m' a = m a)"

lemma touches_refl [intro]: "touches bulk X F m m"
  by (simp add: touches_def)

lemma touches_trans: "touches bulk X F m m' \<Longrightarrow> touches bulk X F m' m'' \<Longrightarrow> touches bulk X F m m''"
  by (simp add: touches_def)

lemma touches_field:
  "touches bulk X F m m' \<Longrightarrow> y \<in> pool_pages bulk \<Longrightarrow> y \<notin> X \<or> f \<notin> F \<Longrightarrow> get_field m' y f = get_field m y f"
  by (simp add: touches_def)

lemma touches_outside: "touches bulk X F m m' \<Longrightarrow> 24576 \<le> unat (a - bulk) \<Longrightarrow> m' a = m a"
  by (simp add: touches_def)

lemma outside_page:
  assumes "x \<in> pool_pages bulk" "24576 \<le> unat (a - bulk)"
  shows "24 \<le> unat (a - x)"
proof -
  obtain i where i: "x = bulk + of_nat (24 * i)" "i < 1024"
    using assms(1) by (auto simp: pool_pages_def page_def)
  have "unat (a + of_nat 0 - (bulk + of_nat (24 * i))) = unat (a - bulk) + 0 - 24 * i"
    by (rule unat_shift_diff) (use i assms(2) unat_u32_less [of "a - bulk"] in auto)
  then show ?thesis using i assms(2) by simp
qed

lemma touches_set_field:
  assumes "x \<in> pool_pages bulk" "x \<in> X" "f \<in> F"
  shows "touches bulk X F m (set_field m x f v)"
proof -
  have "get_field (set_field m x f v) y g = get_field m y g"
    if "y \<in> pool_pages bulk" "y \<notin> X \<or> g \<notin> F" for y g
  proof (cases "y = x")
    case True
    then show ?thesis using that assms get_set_field by metis
  next
    case False
    then show ?thesis using pool_apart [OF that(1) assms(1)] by (simp add: get_set_node)
  qed
  then show ?thesis
    using set_field_outside outside_page [OF assms(1)] by (simp add: touches_def)
qed

lemma touches_set_trans:
  "touches bulk X F m m' \<Longrightarrow> x \<in> pool_pages bulk \<Longrightarrow> x \<in> X \<Longrightarrow> f \<in> F \<Longrightarrow>
   touches bulk X F m (set_field m' x f v)"
  by (rule touches_trans [OF _ touches_set_field])

lemma touches_push:
  assumes "list_rep (l, m) ns" "node \<in> pool_pages bulk" "set ns \<subseteq> pool_pages bulk"
  shows "touches bulk (insert node (set ns)) {Prev, Next} m (snd (list_push_back node (l, m)))"
proof -
  let ?X = "insert node (set ns)" and ?F = "{Prev, Next}"
  have t: "list_tail l \<in> set ns" if "list_tail l \<noteq> NULL"
    using assms(1) that last_or_in [of ns NULL] by (cases ns) (auto simp: list_rep_def)
  define m2 where "m2 = set_field (set_field m node Next NULL) node Prev (list_tail l)"
  have 2: "touches bulk ?X ?F m m2"
    unfolding m2_def using assms(2) by (intro touches_set_trans touches_refl) auto
  have e: "snd (list_push_back node (l, m))
      = (if list_tail l \<noteq> NULL then set_field m2 (list_tail l) Next node else m2)"
    by (simp add: list_push_back_def Let_def m2_def)
  show ?thesis
  proof (cases "list_tail l = NULL")
    case False
    then have "list_tail l \<in> ?X" "list_tail l \<in> pool_pages bulk" using t assms(3) by auto
    then show ?thesis using False 2 by (simp add: e touches_set_trans)
  qed (use 2 e in simp)
qed

lemma touches_pop:
  assumes "list_rep (l, m) ns" "set ns \<subseteq> pool_pages bulk"
  shows "touches bulk (set ns) {Prev, Next} m (snd (snd (list_pop_front (l, m))))"
proof (cases ns)
  case Nil
  then show ?thesis using list_pop_front_empty [of l m] assms(1) by auto
next
  case (Cons n ns')
  have h: "list_head l = n" "n \<noteq> NULL" "get_field m n Next = hd_or NULL ns'"
    using assms(1) Cons by (auto simp: list_rep_def)
  have y: "hd_or NULL ns' \<in> set ns" if "hd_or NULL ns' \<noteq> NULL"
    using that Cons by (cases ns') auto
  define m1 where "m1 = (if hd_or NULL ns' \<noteq> NULL then set_field m (hd_or NULL ns') Prev NULL else m)"
  have 1: "touches bulk (set ns) {Prev, Next} m m1"
  proof (cases "hd_or NULL ns' = NULL")
    case False
    then have "hd_or NULL ns' \<in> set ns" "hd_or NULL ns' \<in> pool_pages bulk" using y assms(2) by auto
    then show ?thesis using False by (simp add: m1_def touches_set_field)
  qed (simp add: m1_def touches_refl)
  have "n \<in> set ns" "n \<in> pool_pages bulk" using Cons assms(2) by auto
  then have "touches bulk (set ns) {Prev, Next} m (set_field (set_field m1 n Next NULL) n Prev NULL)"
    using 1 by (simp add: touches_set_trans)
  moreover have "snd (snd (list_pop_front (l, m))) = set_field (set_field m1 n Next NULL) n Prev NULL"
    using h by (simp add: list_pop_front_def Let_def m1_def)
  ultimately show ?thesis by simp
qed

lemma touches_fill:
  "node \<in> pool_pages bulk \<Longrightarrow> touches bulk {node} UNIV m (fill_node p node m)"
  unfolding fill_node_def Let_def by (intro touches_set_trans touches_refl) auto

section \<open>What is kept\<close>

lemma mm_rep_touches:
  assumes "mm_rep bulk (c, m) k fs" "touches bulk X F m m'" "X \<inter> set fs = {}"
  shows "mm_rep bulk (c, m') k fs"
proof -
  have "set fs \<subseteq> pool_pages bulk" using assms(1) by (auto simp: mm_rep_def pool_pages_def)
  then have fr: "free_page_next m' x = free_page_next m x" if "x \<in> set fs" for x
    using that assms(3) touches_field [OF assms(2)] by (auto simp: free_page_next_field)
  have ch: "free_chain m (free_list c) fs" using assms(1) by (simp add: mm_rep_def)
  from free_chain_frame [OF ch fr] show ?thesis using assms(1) by (simp add: mm_rep_def)
qed

lemma list_ok_touches:
  assumes "list_ok (l, m) ns" "touches bulk X F m m'" "set ns \<subseteq> pool_pages bulk" "X \<inter> set ns = {}"
  shows "list_ok (l, m') ns"
proof -
  have same: "get_field m' x f = get_field m x f" if "x \<in> set ns" for x f
    using that assms(3,4) touches_field [OF assms(2)] by blast
  have "dll m NULL ns NULL" using assms(1) by (simp add: list_ok_def list_rep_def)
  then have "dll m' NULL ns NULL" by (rule dll_frame) (simp add: same)
  moreover have "sum_list (map (\<lambda>n. get_field m' n DataSize) ns) = sum_list (map (\<lambda>n. get_field m n DataSize) ns)"
    using same by (intro arg_cong [of _ _ sum_list] map_cong) auto
  ultimately show ?thesis
    using assms(1) by (simp add: list_ok_def list_rep_def counts_def)
qed

definition node_pkg :: "mem \<Rightarrow> u32 \<Rightarrow> pdcp_pkg \<Rightarrow> bool" where
  "node_pkg m x p \<longleftrightarrow> get_field m x Data = src_addr p \<and> get_field m x Tgt = tgt_addr p \<and>
     get_field m x DataSize = pkg_length p"

lemma node_pkg_touches:
  "node_pkg m x p \<Longrightarrow> touches bulk X F m m' \<Longrightarrow> x \<in> pool_pages bulk \<Longrightarrow>
   x \<notin> X \<or> F \<subseteq> {Prev, Next} \<Longrightarrow> node_pkg m' x p"
proof -
  assume a: "node_pkg m x p" "touches bulk X F m m'" "x \<in> pool_pages bulk" "x \<notin> X \<or> F \<subseteq> {Prev, Next}"
  have "get_field m' x f = get_field m x f" if "f \<notin> {Prev, Next}" for f
    by (rule touches_field [OF a(2,3)]) (use a(4) that in blast)
  then show ?thesis using a(1) by (simp add: node_pkg_def)
qed

lemma node_pkg_fill: "node_pkg (fill_node p x m) x p"
  by (simp add: node_pkg_def fill_node_def Let_def)

section \<open>Buffers\<close>

definition region :: "u32 \<Rightarrow> nat \<Rightarrow> u32 set" where
  "region a n = {x. unat (x - a) < n}"

text \<open>
  A packet has arrived: the target holds the sequence number in its first word and the
  source page's words 1 to 339 at their places.
\<close>

definition arrived :: "mem \<Rightarrow> pdcp_pkg \<Rightarrow> u32 \<Rightarrow> bool" where
  "arrived m p sn \<longleftrightarrow> load32 m (tgt_addr p) = sn \<and>
     (\<forall>i. 1 \<le> i \<longrightarrow> i < 340 \<longrightarrow>
        load32 m (tgt_addr p + 4 * of_nat i) = load32 m (src_addr p + 4 * of_nat i))"

text \<open>
  The memory map the data header and the linker script set up: the pool, the source pages
  and the target buffers do not overlap, except that sources may be shared.
\<close>

definition pkgs_ok :: "u32 \<Rightarrow> pdcp_pkg list \<Rightarrow> bool" where
  "pkgs_ok bulk pkgs \<longleftrightarrow> length pkgs < 2147483648 \<and>
     (\<forall>p\<in>set pkgs. region (tgt_addr p) 1360 \<inter> region bulk 24576 = {} \<and>
        region (src_addr p) 1360 \<inter> region bulk 24576 = {} \<and>
        (\<forall>q\<in>set pkgs. region (tgt_addr p) 1360 \<inter> region (src_addr q) 1360 = {})) \<and>
     (\<forall>i<length pkgs. \<forall>j<length pkgs. i \<noteq> j \<longrightarrow>
        region (tgt_addr (pkgs ! i)) 1360 \<inter> region (tgt_addr (pkgs ! j)) 1360 = {})"

lemma load32_region:
  assumes "\<And>x. x \<in> region a 1360 \<Longrightarrow> m' x = m x" "i < 340"
  shows "load32 m' (a + 4 * of_nat i) = load32 m (a + 4 * of_nat i)"
proof (rule load32_cong)
  fix k :: nat assume "k < 4"
  then have "unat (a + 4 * of_nat i + of_nat k - a :: u32) = 4 * i + k"
    using unat_of_nat_u32 [of "4 * i + k"] assms(2) by simp
  then show "m' (a + 4 * of_nat i + of_nat k) = m (a + 4 * of_nat i + of_nat k)"
    using assms \<open>k < 4\<close> by (simp add: region_def)
qed

lemma arrived_frame:
  assumes "arrived m p sn" "\<And>x. x \<in> region (tgt_addr p) 1360 \<Longrightarrow> m' x = m x"
    "\<And>x. x \<in> region (src_addr p) 1360 \<Longrightarrow> m' x = m x"
  shows "arrived m' p sn"
proof -
  have "load32 m' (tgt_addr p + 4 * of_nat i) = load32 m (tgt_addr p + 4 * of_nat i)"
    "load32 m' (src_addr p + 4 * of_nat i) = load32 m (src_addr p + 4 * of_nat i)" if "i < 340" for i
    using load32_region assms(2,3) that by blast+
  from this(1) [of 0] this show ?thesis using assms(1) by (simp add: arrived_def)
qed

lemma arrived_touches:
  assumes "arrived m p sn" "touches bulk X F m m'" "pkgs_ok bulk pkgs" "p \<in> set pkgs"
  shows "arrived m' p sn"
proof (rule arrived_frame [OF assms(1)])
  have out: "m' x = m x" if "x \<notin> region bulk 24576" for x
    using touches_outside [OF assms(2)] that by (simp add: region_def)
  have "region (tgt_addr p) 1360 \<inter> region bulk 24576 = {}" "region (src_addr p) 1360 \<inter> region bulk 24576 = {}"
    using assms(3,4) by (auto simp: pkgs_ok_def)
  then show "m' x = m x" if "x \<in> region (tgt_addr p) 1360" for x using out that by blast
  show "m' x = m x" if "x \<in> region (src_addr p) 1360" for x
    using out that \<open>region (src_addr p) 1360 \<inter> region bulk 24576 = {}\<close> by blast
qed

text \<open>The copy of a packet changes its target buffer only, and makes the packet arrive.\<close>

lemma copy_packet_outside:
  "x \<notin> region tgt 1360 \<Longrightarrow> gmem (copy_packet t tgt src sn w) x = gmem w x"
  using packet_copy [of tgt src sn] by (simp add: copy_packet_def Let_def region_def)

lemma copy_packet_arrived:
  assumes "pkgs_ok bulk pkgs" "p \<in> set pkgs"
  shows "arrived (gmem (copy_packet t (tgt_addr p) (src_addr p) sn w)) p sn"
proof -
  let ?w = "copy_packet t (tgt_addr p) (src_addr p) sn w"
  have disj: "region (tgt_addr p) 1360 \<inter> region (src_addr p) 1360 = {}"
    using assms by (auto simp: pkgs_ok_def)
  have "load32 (gmem ?w) (src_addr p + 4 * of_nat i) = load32 (gmem w) (src_addr p + 4 * of_nat i)"
    if "i < 340" for i
    by (rule load32_region [OF _ that]) (use disj copy_packet_outside in blast)
  then show ?thesis
    using packet_copy [of "tgt_addr p" "src_addr p" sn "\<lparr>hmem = gmem w, hvl = fst (vstate w t), hvrf = snd (vstate w t)\<rparr>"]
    by (simp add: arrived_def copy_packet_def Let_def)
qed

lemma copy_packet_other:
  assumes "pkgs_ok bulk pkgs" "i < length pkgs" "j < length pkgs" "i \<noteq> j" "arrived (gmem w) (pkgs ! j) s"
  shows "arrived (gmem (copy_packet t (tgt_addr (pkgs ! i)) src sn w)) (pkgs ! j) s"
proof (rule arrived_frame [OF assms(5)])
  have "pkgs ! i \<in> set pkgs" "pkgs ! j \<in> set pkgs" using assms(2,3) by auto
  then have "region (tgt_addr (pkgs ! i)) 1360 \<inter> region (tgt_addr (pkgs ! j)) 1360 = {}"
    "region (tgt_addr (pkgs ! i)) 1360 \<inter> region (src_addr (pkgs ! j)) 1360 = {}"
    using assms(1-4) unfolding pkgs_ok_def by blast+
  then show "gmem (copy_packet t (tgt_addr (pkgs ! i)) src sn w) x = gmem w x"
    if "x \<in> region (tgt_addr (pkgs ! j)) 1360" for x
    using copy_packet_outside that by blast
  show "gmem (copy_packet t (tgt_addr (pkgs ! i)) src sn w) x = gmem w x"
    if "x \<in> region (src_addr (pkgs ! j)) 1360" for x
    using copy_packet_outside that
      \<open>region (tgt_addr (pkgs ! i)) 1360 \<inter> region (src_addr (pkgs ! j)) 1360 = {}\<close> by blast
qed

lemma load32_pool:
  assumes "x \<in> pool_pages bulk" "\<And>a. a \<in> region bulk 24576 \<Longrightarrow> m' a = m a"
  shows "get_field m' x f = get_field m x f"
  unfolding get_field_def
proof (rule load32_cong)
  fix k :: nat assume k: "k < 4"
  obtain i where i: "x = bulk + of_nat (24 * i)" "i < 1024"
    using assms(1) by (auto simp: pool_pages_def page_def)
  have o: "field_offset f \<le> 20" by (rule field_offset_le)
  have "x + of_nat (field_offset f) + of_nat k - bulk = of_nat (24 * i + field_offset f + k)"
    by (simp add: i)
  moreover have "unat (of_nat (24 * i + field_offset f + k) :: u32) = 24 * i + field_offset f + k"
    by (rule unat_of_nat_u32) (use i o k in simp)
  ultimately have "unat (x + of_nat (field_offset f) + of_nat k - bulk) = 24 * i + field_offset f + k"
    by (simp only:)
  then have "unat (x + of_nat (field_offset f) + of_nat k - bulk) < 24576" using i o k by linarith
  then show "m' (x + of_nat (field_offset f) + of_nat k) = m (x + of_nat (field_offset f) + of_nat k)"
    using assms(2) by (simp add: region_def)
qed

lemma copy_packet_pool:
  assumes "pkgs_ok bulk pkgs" "p \<in> set pkgs" "x \<in> pool_pages bulk"
  shows "get_field (gmem (copy_packet t (tgt_addr p) src sn w)) x f = get_field (gmem w) x f"
proof (rule load32_pool [OF assms(3)])
  fix a assume "a \<in> region bulk 24576"
  then have "a \<notin> region (tgt_addr p) 1360" using assms(1,2) by (auto simp: pkgs_ok_def)
  then show "gmem (copy_packet t (tgt_addr p) src sn w) a = gmem w a" by (rule copy_packet_outside)
qed

text \<open>So the copy keeps everything that lives in the pool.\<close>

definition same_pool :: "u32 \<Rightarrow> mem \<Rightarrow> mem \<Rightarrow> bool" where
  "same_pool bulk m m' \<longleftrightarrow> (\<forall>x\<in>pool_pages bulk. \<forall>f. get_field m' x f = get_field m x f)"

lemma mm_rep_same_pool: "mm_rep bulk (c, m) k fs \<Longrightarrow> same_pool bulk m m' \<Longrightarrow> mm_rep bulk (c, m') k fs"
proof -
  assume r: "mm_rep bulk (c, m) k fs" and s: "same_pool bulk m m'"
  have "set fs \<subseteq> pool_pages bulk" using r by (auto simp: mm_rep_def pool_pages_def)
  then have fr: "free_page_next m' x = free_page_next m x" if "x \<in> set fs" for x
    using that s by (auto simp: free_page_next_field same_pool_def)
  have ch: "free_chain m (free_list c) fs" using r by (simp add: mm_rep_def)
  from free_chain_frame [OF ch fr] show ?thesis using r by (simp add: mm_rep_def)
qed

lemma list_ok_same_pool:
  assumes "list_ok (l, m) ns" "same_pool bulk m m'" "set ns \<subseteq> pool_pages bulk"
  shows "list_ok (l, m') ns"
proof -
  have same: "get_field m' x f = get_field m x f" if "x \<in> set ns" for x f
    using that assms(2,3) by (auto simp: same_pool_def)
  have "dll m NULL ns NULL" using assms(1) by (simp add: list_ok_def list_rep_def)
  then have "dll m' NULL ns NULL" by (rule dll_frame) (simp add: same)
  moreover have "sum_list (map (\<lambda>n. get_field m' n DataSize) ns) = sum_list (map (\<lambda>n. get_field m n DataSize) ns)"
    using same by (intro arg_cong [of _ _ sum_list] map_cong) auto
  ultimately show ?thesis
    using assms(1) by (simp add: list_ok_def list_rep_def counts_def)
qed

end
