(* ===== verification/RlcSystem.thy ===== *)
theory RlcSystem
  imports RlcFrames
begin

text \<open>
  The RLC kernel as a system of \<open>n\<close> cores: the interleaving semantics of
  \<open>cluster_entry\<close> between the two cluster barriers, its invariant, and what follows for
  the packets: no page and no sequence number is used twice, every node on the sent list
  carries a packet that has arrived, and nothing is lost when the lists drain.
\<close>

section \<open>The system\<close>

type_synonym rlc_sys = "rlc_world \<times> (nat \<Rightarrow> core_pc)"

text \<open>
  After \<open>mm_init\<close> and \<open>rlc_init\<close> on core 0, each core enters
  \<open>cluster_entry\<close>.
\<close>

definition rlc_initial :: "u32 \<Rightarrow> rlc_sys \<Rightarrow> bool" where
  "rlc_initial bulk s \<longleftrightarrow> (\<exists>w0 r c p. fst s = rlc_init r c p (w0\<lparr>mm_ctx := mm_init bulk\<rparr>)) \<and>
     snd s = cluster_entry"

inductive rlc_step :: "u32 \<Rightarrow> pdcp_pkg list \<Rightarrow> nat \<Rightarrow> rlc_sys \<Rightarrow> rlc_sys \<Rightarrow> bool"
  for bulk pkgs n where
  core_moves: "t < n \<Longrightarrow> core_step bulk pkgs t (pcs t) w = (pc', w') \<Longrightarrow>
     rlc_step bulk pkgs n (w, pcs) (w', pcs(t := pc'))"

inductive_cases rlc_stepE: "rlc_step bulk pkgs n s s'"

section \<open>What a core holds\<close>

datatype hold = Idle | Pkg nat | Raw nat u32 | Full u32 | Numbered u32 u32 | Moved u32

fun holding :: "core_pc \<Rightarrow> hold" where
  "holding (Consumer (CSn x)) = Full x"
| "holding (Consumer (CCopy x sn)) = Numbered x sn"
| "holding (Consumer (CPdu x)) = Moved x"
| "holding (Consumer (CByte x)) = Moved x"
| "holding (Consumer (CSent x)) = Moved x"
| "holding (Producer (PAlloc i)) = Pkg (nat i)"
| "holding (Producer (PFill i x)) = Raw (nat i) x"
| "holding (Producer (PPush x)) = Full x"
| "holding _ = Idle"

fun node_of :: "hold \<Rightarrow> u32 option" where
  "node_of (Raw i x) = Some x"
| "node_of (Full x) = Some x"
| "node_of (Numbered x sn) = Some x"
| "node_of (Moved x) = Some x"
| "node_of _ = None"

fun pkg_of :: "hold \<Rightarrow> nat option" where
  "pkg_of (Pkg i) = Some i"
| "pkg_of (Raw i x) = Some i"
| "pkg_of _ = None"

text \<open>A node whose fields describe a packet, and one whose packet has a sequence number.\<close>

fun full_of :: "hold \<Rightarrow> u32 option" where
  "full_of (Full x) = Some x"
| "full_of (Numbered x sn) = Some x"
| "full_of (Moved x) = Some x"
| "full_of _ = None"

fun numb_of :: "hold \<Rightarrow> u32 option" where
  "numb_of (Numbered x sn) = Some x"
| "numb_of (Moved x) = Some x"
| "numb_of _ = None"

text \<open>Where a page is, and where a package is.\<close>

datatype node_loc = Unused | InToSend | InSent | HeldBy nat

datatype pkg_loc = NotYet | InHand nat | On u32

section \<open>The invariant\<close>

definition mem_inv :: "u32 \<Rightarrow> rlc_world \<Rightarrow> nat \<Rightarrow> u32 list \<Rightarrow> u32 list \<Rightarrow> bool" where
  "mem_inv bulk w k ts ss \<longleftrightarrow> mm_rep bulk (mm_ctx w, gmem w) k [] \<and>
     list_ok (to_send (rlc_ctx w), gmem w) ts \<and> list_ok (sent_list (rlc_ctx w), gmem w) ss"

definition loc_inv ::
    "u32 \<Rightarrow> (nat \<Rightarrow> hold) \<Rightarrow> nat \<Rightarrow> u32 list \<Rightarrow> u32 list \<Rightarrow> (u32 \<Rightarrow> node_loc) \<Rightarrow> bool" where
  "loc_inv bulk H k ts ss L \<longleftrightarrow>
     (\<forall>x. (L x = InToSend \<longleftrightarrow> x \<in> set ts) \<and> (L x = InSent \<longleftrightarrow> x \<in> set ss) \<and>
        (\<forall>t. L x = HeldBy t \<longleftrightarrow> node_of (H t) = Some x) \<and>
        (L x \<noteq> Unused \<longrightarrow> x \<in> page bulk ` {..<k}))"

text \<open>
  A node is live when its fields describe a package, numbered when that package has a
  sequence number, copied when the package is in its target buffer.
\<close>

definition live :: "(nat \<Rightarrow> hold) \<Rightarrow> (u32 \<Rightarrow> node_loc) \<Rightarrow> u32 \<Rightarrow> bool" where
  "live H L x \<longleftrightarrow> L x = InToSend \<or> L x = InSent \<or> (\<exists>t. full_of (H t) = Some x)"

definition numbered :: "(nat \<Rightarrow> hold) \<Rightarrow> (u32 \<Rightarrow> node_loc) \<Rightarrow> u32 \<Rightarrow> bool" where
  "numbered H L x \<longleftrightarrow> L x = InSent \<or> (\<exists>t. numb_of (H t) = Some x)"

definition moved_node :: "(nat \<Rightarrow> hold) \<Rightarrow> (u32 \<Rightarrow> node_loc) \<Rightarrow> u32 \<Rightarrow> bool" where
  "moved_node H L x \<longleftrightarrow> L x = InSent \<or> (\<exists>t. H t = Moved x)"

definition pkg_inv ::
    "pdcp_pkg list \<Rightarrow> int \<Rightarrow> mem \<Rightarrow> (nat \<Rightarrow> hold) \<Rightarrow> (u32 \<Rightarrow> node_loc) \<Rightarrow> (nat \<Rightarrow> pkg_loc) \<Rightarrow> bool" where
  "pkg_inv pkgs ptr m H L P \<longleftrightarrow> 0 \<le> ptr \<and> ptr \<le> int (length pkgs) \<and>
     (\<forall>i. (P i = NotYet \<longleftrightarrow> ptr \<le> int i) \<and> (\<forall>t. P i = InHand t \<longleftrightarrow> pkg_of (H t) = Some i)) \<and>
     (\<forall>i x. P i = On x \<longrightarrow> node_pkg m x (pkgs ! i)) \<and>
     (\<forall>i j x. P i = On x \<longrightarrow> P j = On x \<longrightarrow> i = j) \<and>
     (\<forall>x. (\<exists>i. P i = On x) \<longleftrightarrow> live H L x)"

text \<open>\<open>ord\<close> lists the packages in the order of their sequence numbers.\<close>

definition num_inv ::
    "u32 \<Rightarrow> (nat \<Rightarrow> hold) \<Rightarrow> (u32 \<Rightarrow> node_loc) \<Rightarrow> (nat \<Rightarrow> pkg_loc) \<Rightarrow> nat list \<Rightarrow> bool" where
  "num_inv vn H L P ord \<longleftrightarrow> distinct ord \<and> vn = of_nat (length ord) \<and>
     (\<forall>i. i \<in> set ord \<longleftrightarrow> (\<exists>x. P i = On x \<and> numbered H L x))"

definition copy_inv ::
    "pdcp_pkg list \<Rightarrow> mem \<Rightarrow> (nat \<Rightarrow> hold) \<Rightarrow> (u32 \<Rightarrow> node_loc) \<Rightarrow> (nat \<Rightarrow> pkg_loc) \<Rightarrow> nat list \<Rightarrow> bool" where
  "copy_inv pkgs m H L P ord \<longleftrightarrow>
     (\<forall>j<length ord. \<forall>x. P (ord ! j) = On x \<longrightarrow>
        (\<forall>t sn. H t = Numbered x sn \<longrightarrow> sn = of_nat j) \<and>
        (moved_node H L x \<longrightarrow> arrived m (pkgs ! (ord ! j)) (of_nat j)))"

text \<open>
  The acknowledgement branch is never entered, and a producer that has given up found no
  package left.
\<close>

fun pc_ok :: "pdcp_pkg list \<Rightarrow> int \<Rightarrow> core_pc \<Rightarrow> bool" where
  "pc_ok pkgs ptr (Consumer (CAck a i)) \<longleftrightarrow> False"
| "pc_ok pkgs ptr (Consumer (CFree x a i)) \<longleftrightarrow> False"
| "pc_ok pkgs ptr (Consumer (CAckStore a)) \<longleftrightarrow> False"
| "pc_ok pkgs ptr (Producer PDone) \<longleftrightarrow> ptr = int (length pkgs)"
| "pc_ok pkgs ptr (Producer PExit) \<longleftrightarrow> ptr = int (length pkgs)"
| "pc_ok pkgs ptr (Producer (PAlloc i)) \<longleftrightarrow> 0 \<le> i"
| "pc_ok pkgs ptr (Producer (PFill i x)) \<longleftrightarrow> 0 \<le> i"
| "pc_ok pkgs ptr _ \<longleftrightarrow> True"

definition rlc_J ::
    "u32 \<Rightarrow> pdcp_pkg list \<Rightarrow> rlc_sys \<Rightarrow> nat \<Rightarrow> u32 list \<Rightarrow> u32 list \<Rightarrow> (u32 \<Rightarrow> node_loc) \<Rightarrow> (nat \<Rightarrow> pkg_loc)
     \<Rightarrow> nat list \<Rightarrow> bool" where
  "rlc_J bulk pkgs s k ts ss L P ord \<longleftrightarrow> (case s of (w, pcs) \<Rightarrow>
     mem_inv bulk w k ts ss \<and> loc_inv bulk (holding \<circ> pcs) k ts ss L \<and>
     pkg_inv pkgs (pdcp_pkd_ptr w) (gmem w) (holding \<circ> pcs) L P \<and>
     num_inv (vtNext (rlc_ctx w)) (holding \<circ> pcs) L P ord \<and>
     copy_inv pkgs (gmem w) (holding \<circ> pcs) L P ord \<and>
     (\<forall>t. pc_ok pkgs (pdcp_pkd_ptr w) (pcs t)))"

definition rlc_inv :: "u32 \<Rightarrow> pdcp_pkg list \<Rightarrow> rlc_sys \<Rightarrow> bool" where
  "rlc_inv bulk pkgs s \<longleftrightarrow> (\<exists>k ts ss L P ord. rlc_J bulk pkgs s k ts ss L P ord)"

lemma rlc_invI: "rlc_J bulk pkgs s k ts ss L P ord \<Longrightarrow> rlc_inv bulk pkgs s"
  unfolding rlc_inv_def by blast

lemma holding_upd: "holding \<circ> pcs(t := pc) = (holding \<circ> pcs)(t := holding pc)"
  by (rule ext) simp

section \<open>The location of pages\<close>

lemma loc_page: "loc_inv bulk H k ts ss L \<Longrightarrow> k \<le> 1024 \<Longrightarrow> L x \<noteq> Unused \<Longrightarrow> x \<in> pool_pages bulk"
  by (auto simp: loc_inv_def pool_pages_def)

lemma loc_lists:
  "loc_inv bulk H k ts ss L \<Longrightarrow> k \<le> 1024 \<Longrightarrow> set ts \<subseteq> pool_pages bulk \<and> set ss \<subseteq> pool_pages bulk \<and>
   set ts \<inter> set ss = {}"
proof -
  assume a: "loc_inv bulk H k ts ss L" "k \<le> 1024"
  have t: "L x = InToSend \<longleftrightarrow> x \<in> set ts" and s: "L x = InSent \<longleftrightarrow> x \<in> set ss" for x
    using a(1) by (auto simp: loc_inv_def)
  have "x \<in> pool_pages bulk" if "x \<in> set ts \<or> x \<in> set ss" for x
    by (rule loc_page [OF a]) (use that t [of x] s [of x] in auto)
  moreover have "\<not> (x \<in> set ts \<and> x \<in> set ss)" for x using t [of x] s [of x] by auto
  ultimately show ?thesis by blast
qed

lemma loc_keep:
  "loc_inv bulk H k ts ss L \<Longrightarrow> node_of h = node_of (H t) \<Longrightarrow> loc_inv bulk (H(t := h)) k ts ss L"
  by (simp add: loc_inv_def)

lemma loc_take:
  assumes "loc_inv bulk H k (x # ts) ss L" "distinct (x # ts)" "node_of (H t) = None" "node_of h = Some x"
  shows "loc_inv bulk (H(t := h)) k ts ss (L(x := HeldBy t))"
proof -
  have L: "L y = InToSend \<longleftrightarrow> y = x \<or> y \<in> set ts" "L y = InSent \<longleftrightarrow> y \<in> set ss"
    "L y = HeldBy u \<longleftrightarrow> node_of (H u) = Some y" "L y \<noteq> Unused \<Longrightarrow> y \<in> page bulk ` {..<k}" for y u
    using assms(1) by (auto simp: loc_inv_def)
  have x: "L x = InToSend" "x \<notin> set ts" "x \<notin> set ss" "\<And>u. node_of (H u) \<noteq> Some x" "x \<in> page bulk ` {..<k}"
    using L(1-4) [of x] assms(2) by auto
  show ?thesis
    unfolding loc_inv_def using L x assms(3,4) by auto
qed

lemma loc_give_sent:
  assumes "loc_inv bulk H k ts ss L" "node_of (H t) = Some x" "node_of h = None"
  shows "loc_inv bulk (H(t := h)) k ts (ss @ [x]) (L(x := InSent))"
proof -
  have L: "L y = InToSend \<longleftrightarrow> y \<in> set ts" "L y = InSent \<longleftrightarrow> y \<in> set ss"
    "L y = HeldBy u \<longleftrightarrow> node_of (H u) = Some y" "L y \<noteq> Unused \<Longrightarrow> y \<in> page bulk ` {..<k}" for y u
    using assms(1) by (auto simp: loc_inv_def)
  have held: "L x = HeldBy t" using L(3) assms(2) by blast
  then have x: "L x = HeldBy t" "x \<notin> set ts" "x \<notin> set ss" "x \<in> page bulk ` {..<k}"
    "node_of (H u) = Some x \<Longrightarrow> u = t" for u
    using L(1,2,4) [of x] L(3) [of x u] by auto
  have nx: "node_of ((H(t := h)) u) \<noteq> Some x" for u
    using x(5) [of u] assms(3) by (cases "u = t") auto
  have ny: "node_of ((H(t := h)) u) = Some y \<longleftrightarrow> node_of (H u) = Some y" if "y \<noteq> x" for u y
    using that assms(2,3) by (cases "u = t") auto
  show ?thesis
    unfolding loc_inv_def
  proof (intro allI)
    fix y
    show "((L(x := InSent)) y = InToSend \<longleftrightarrow> y \<in> set (ts)) \<and> ((L(x := InSent)) y = InSent \<longleftrightarrow> y \<in> set (ss @ [x])) \<and>
        (\<forall>u. (L(x := InSent)) y = HeldBy u \<longleftrightarrow> node_of ((H(t := h)) u) = Some y) \<and>
        ((L(x := InSent)) y \<noteq> Unused \<longrightarrow> y \<in> page bulk ` {..<k})"
      using nx ny [of y] L [of y] x(2-4) by (cases "y = x") (simp_all del: fun_upd_apply add: fun_upd_same fun_upd_other)
  qed
qed

lemma loc_give_to_send:
  assumes "loc_inv bulk H k ts ss L" "node_of (H t) = Some x" "node_of h = None"
  shows "loc_inv bulk (H(t := h)) k (ts @ [x]) ss (L(x := InToSend))"
proof -
  have L: "L y = InToSend \<longleftrightarrow> y \<in> set ts" "L y = InSent \<longleftrightarrow> y \<in> set ss"
    "L y = HeldBy u \<longleftrightarrow> node_of (H u) = Some y" "L y \<noteq> Unused \<Longrightarrow> y \<in> page bulk ` {..<k}" for y u
    using assms(1) by (auto simp: loc_inv_def)
  have held: "L x = HeldBy t" using L(3) assms(2) by blast
  then have x: "L x = HeldBy t" "x \<notin> set ts" "x \<notin> set ss" "x \<in> page bulk ` {..<k}"
    "node_of (H u) = Some x \<Longrightarrow> u = t" for u
    using L(1,2,4) [of x] L(3) [of x u] by auto
  have nx: "node_of ((H(t := h)) u) \<noteq> Some x" for u
    using x(5) [of u] assms(3) by (cases "u = t") auto
  have ny: "node_of ((H(t := h)) u) = Some y \<longleftrightarrow> node_of (H u) = Some y" if "y \<noteq> x" for u y
    using that assms(2,3) by (cases "u = t") auto
  show ?thesis
    unfolding loc_inv_def
  proof (intro allI)
    fix y
    show "((L(x := InToSend)) y = InToSend \<longleftrightarrow> y \<in> set (ts @ [x])) \<and> ((L(x := InToSend)) y = InSent \<longleftrightarrow> y \<in> set ss) \<and>
        (\<forall>u. (L(x := InToSend)) y = HeldBy u \<longleftrightarrow> node_of ((H(t := h)) u) = Some y) \<and>
        ((L(x := InToSend)) y \<noteq> Unused \<longrightarrow> y \<in> page bulk ` {..<k})"
      using nx ny [of y] L [of y] x(2-4) by (cases "y = x") (simp_all del: fun_upd_apply add: fun_upd_same fun_upd_other)
  qed
qed

lemma loc_fresh:
  assumes "loc_inv bulk H k ts ss L" "k < 1024" "node_of (H t) = None" "node_of h = Some (page bulk k)"
  shows "loc_inv bulk (H(t := h)) (Suc k) ts ss (L(page bulk k := HeldBy t)) \<and> L (page bulk k) = Unused"
proof -
  have L: "L y = InToSend \<longleftrightarrow> y \<in> set ts" "L y = InSent \<longleftrightarrow> y \<in> set ss"
    "L y = HeldBy u \<longleftrightarrow> node_of (H u) = Some y" "L y \<noteq> Unused \<Longrightarrow> y \<in> page bulk ` {..<k}" for y u
    using assms(1) by (auto simp: loc_inv_def)
  have "page bulk k \<notin> page bulk ` {..<k}" using page_inj assms(2) by auto
  then have u: "L (page bulk k) = Unused" using L(4) by blast
  then have x: "page bulk k \<notin> set ts" "page bulk k \<notin> set ss" "\<And>u. node_of (H u) \<noteq> Some (page bulk k)"
    using L(1-3) [of "page bulk k"] by auto
  have "page bulk ` {..<k} \<subseteq> page bulk ` {..<Suc k}" by auto
  then have "\<And>y. L y \<noteq> Unused \<Longrightarrow> y \<in> page bulk ` {..<Suc k}" using L(4) by blast
  then show ?thesis
    unfolding loc_inv_def using L(1-3) x u assms(3,4) by auto
qed


section \<open>Packages, numbers and copies under a step\<close>

lemma numb_full: "numb_of h = Some x \<Longrightarrow> full_of h = Some x"
  by (cases h) auto

lemma full_node: "full_of h = Some x \<Longrightarrow> node_of h = Some x"
  by (cases h) auto

lemma held_iff: "loc_inv bulk H k ts ss L \<Longrightarrow> L x = HeldBy t \<longleftrightarrow> node_of (H t) = Some x"
  by (simp add: loc_inv_def)

lemma loc_held_off: "loc_inv bulk H k ts ss L \<Longrightarrow> L x = HeldBy t \<Longrightarrow> x \<notin> set ts \<and> x \<notin> set ss"
  unfolding loc_inv_def by (metis node_loc.distinct(10) node_loc.distinct(12) node_loc.distinct(8))

lemma held_unique:
  "loc_inv bulk H k ts ss L \<Longrightarrow> node_of (H t) = Some x \<Longrightarrow> node_of (H u) = Some x \<Longrightarrow> t = u"
  using held_iff by (metis node_loc.inject)

lemma live_upd:
  "live (H(t := h)) (L(x := l)) y \<longleftrightarrow> (if y = x then l = InToSend \<or> l = InSent else L y = InToSend \<or> L y = InSent)
     \<or> full_of h = Some y \<or> (\<exists>u. u \<noteq> t \<and> full_of (H u) = Some y)"
  by (auto simp: live_def)

lemma numbered_upd:
  "numbered (H(t := h)) (L(x := l)) y \<longleftrightarrow> (if y = x then l = InSent else L y = InSent)
     \<or> numb_of h = Some y \<or> (\<exists>u. u \<noteq> t \<and> numb_of (H u) = Some y)"
  by (auto simp: numbered_def)

lemma moved_upd:
  "moved_node (H(t := h)) (L(x := l)) y \<longleftrightarrow> (if y = x then l = InSent else L y = InSent)
     \<or> h = Moved y \<or> (\<exists>u. u \<noteq> t \<and> H u = Moved y)"
  by (auto simp: moved_node_def)

lemma live_at:
  "live H L y \<longleftrightarrow> L y = InToSend \<or> L y = InSent \<or> full_of (H t) = Some y
     \<or> (\<exists>u. u \<noteq> t \<and> full_of (H u) = Some y)"
  by (auto simp: live_def)

lemma numbered_at:
  "numbered H L y \<longleftrightarrow> L y = InSent \<or> numb_of (H t) = Some y \<or> (\<exists>u. u \<noteq> t \<and> numb_of (H u) = Some y)"
  by (auto simp: numbered_def)

lemma moved_at:
  "moved_node H L y \<longleftrightarrow> L y = InSent \<or> H t = Moved y \<or> (\<exists>u. u \<noteq> t \<and> H u = Moved y)"
  by (auto simp: moved_node_def)

lemma live_keep: "full_of h = full_of (H t) \<Longrightarrow> live (H(t := h)) L y = live H L y"
  using live_at [of H L y t] live_at [of "H(t := h)" L y t] by auto

lemma numbered_keep: "numb_of h = numb_of (H t) \<Longrightarrow> numbered (H(t := h)) L y = numbered H L y"
  using numbered_at [of H L y t] numbered_at [of "H(t := h)" L y t] by auto

lemma pkg_live: "pkg_inv pkgs ptr m H L P \<Longrightarrow> (\<exists>i. P i = On x) \<longleftrightarrow> live H L x"
  by (simp add: pkg_inv_def)

lemma pkg_uniq: "pkg_inv pkgs ptr m H L P \<Longrightarrow> P i = On x \<Longrightarrow> P j = On x \<Longrightarrow> i = j"
  unfolding pkg_inv_def by blast

lemma pkg_node: "pkg_inv pkgs ptr m H L P \<Longrightarrow> P i = On x \<Longrightarrow> node_pkg m x (pkgs ! i)"
  by (simp add: pkg_inv_def)

lemma pkg_notyet: "pkg_inv pkgs ptr m H L P \<Longrightarrow> P i = NotYet \<longleftrightarrow> ptr \<le> int i"
  by (simp add: pkg_inv_def)

lemma pkg_hand: "pkg_inv pkgs ptr m H L P \<Longrightarrow> P i = InHand t \<longleftrightarrow> pkg_of (H t) = Some i"
  by (simp add: pkg_inv_def)

text \<open>A step that neither receives a package nor initialises a node.\<close>

lemma pkg_move:
  assumes "pkg_inv pkgs ptr m H L P" "pkg_of h = pkg_of (H t)"
    "\<And>y. live (H(t := h)) L' y = live H L y"
    "\<And>i y. P i = On y \<Longrightarrow> node_pkg m y (pkgs ! i) \<Longrightarrow> node_pkg m' y (pkgs ! i)"
  shows "pkg_inv pkgs ptr m' (H(t := h)) L' P"
  using assms unfolding pkg_inv_def by simp

lemma num_move:
  assumes "num_inv vn H L P ord" "\<And>y i. P i = On y \<Longrightarrow> numbered (H(t := h)) L' y = numbered H L y"
  shows "num_inv vn (H(t := h)) L' P ord"
  using assms unfolding num_inv_def by simp blast

lemma copy_move:
  assumes "copy_inv pkgs m H L P ord" "length ord \<le> length pkgs" "set ord \<subseteq> {..<length pkgs}"
    "\<And>y. moved_node (H(t := h)) L' y \<Longrightarrow> moved_node H L y"
    "\<And>y sn. h = Numbered y sn \<Longrightarrow> H t = Numbered y sn"
    "\<And>i sn. i < length pkgs \<Longrightarrow> arrived m (pkgs ! i) sn \<Longrightarrow> arrived m' (pkgs ! i) sn"
  shows "copy_inv pkgs m' (H(t := h)) L' P ord"
  unfolding copy_inv_def
proof (intro allI impI conjI)
  fix j x assume j: "j < length ord" and x: "P (ord ! j) = On x"
  have i: "ord ! j < length pkgs" using nth_mem [OF j] assms(3) by auto
  show "sn = of_nat j" if "(H(t := h)) u = Numbered x sn" for u sn
  proof -
    have "\<exists>v. H v = Numbered x sn" using that assms(5) by (cases "u = t") auto
    then show ?thesis using assms(1) j x by (auto simp: copy_inv_def)
  qed
  show "arrived m' (pkgs ! (ord ! j)) (of_nat j)" if "moved_node (H(t := h)) L' x"
    using assms(1) j x assms(4) [OF that] assms(6) [OF i] by (auto simp: copy_inv_def)
qed


section \<open>The steps keep the invariant\<close>

lemma J_facts:
  assumes "rlc_J bulk pkgs (w, pcs) k ts ss L P ord"
  shows "k \<le> 1024" "pool_ok bulk" "set ts \<subseteq> pool_pages bulk" "set ss \<subseteq> pool_pages bulk"
    "set ts \<inter> set ss = {}" "P i = On y \<Longrightarrow> y \<in> pool_pages bulk" "P i = On y \<Longrightarrow> i < length pkgs"
    "set ord \<subseteq> {..<length pkgs}" "length ord \<le> length pkgs"
proof -
  have mm: "mm_rep bulk (mm_ctx w, gmem w) k []" and loc: "loc_inv bulk (holding \<circ> pcs) k ts ss L"
    and pkg: "pkg_inv pkgs (pdcp_pkd_ptr w) (gmem w) (holding \<circ> pcs) L P"
    and num: "num_inv (vtNext (rlc_ctx w)) (holding \<circ> pcs) L P ord"
    using assms by (auto simp: rlc_J_def mem_inv_def)
  show k: "k \<le> 1024" and "pool_ok bulk" using mm by (auto simp: mm_rep_def)
  show "set ts \<subseteq> pool_pages bulk" "set ss \<subseteq> pool_pages bulk" "set ts \<inter> set ss = {}"
    using loc_lists [OF loc k] by auto
  show "y \<in> pool_pages bulk" if "P i = On y" for i y
  proof -
    have "live (holding \<circ> pcs) L y" using pkg that by (auto simp: pkg_inv_def)
    then have "L y \<noteq> Unused"
      unfolding live_def using held_iff [OF loc, of y] full_node by (metis node_loc.distinct(1,3,5))
    then show ?thesis by (rule loc_page [OF loc k])
  qed
  have lt: "i < length pkgs" if "P i \<noteq> NotYet" for i
  proof -
    have "pdcp_pkd_ptr w \<le> int (length pkgs)" "\<not> pdcp_pkd_ptr w \<le> int i"
      using pkg that by (auto simp: pkg_inv_def)
    then show ?thesis by linarith
  qed
  show "i < length pkgs" if "P i = On y" for i y using lt [of i] that by simp
  show so: "set ord \<subseteq> {..<length pkgs}" using num lt by (force simp: num_inv_def)
  have "card (set ord) \<le> card {..<length pkgs}" by (rule card_mono [OF _ so]) simp
  then show "length ord \<le> length pkgs" using num by (simp add: num_inv_def distinct_card)
qed

lemma J_same:
  assumes "rlc_J bulk pkgs (w, pcs) k ts ss L P ord" "holding pc = holding (pcs t)"
    "pc_ok pkgs (pdcp_pkd_ptr w) pc" "mm_ctx w' = mm_ctx w" "gmem w' = gmem w"
    "to_send (rlc_ctx w') = to_send (rlc_ctx w)" "sent_list (rlc_ctx w') = sent_list (rlc_ctx w)"
    "vtNext (rlc_ctx w') = vtNext (rlc_ctx w)" "pdcp_pkd_ptr w' = pdcp_pkd_ptr w"
  shows "rlc_J bulk pkgs (w', pcs(t := pc)) k ts ss L P ord"
proof -
  have "(holding \<circ> pcs)(t := holding pc) = holding \<circ> pcs"
    using assms(2) by auto
  then show ?thesis
    using assms by (simp add: rlc_J_def mem_inv_def holding_upd)
qed

lemma J_pop:
  assumes J: "rlc_J bulk pkgs (w, pcs) k (x # ts) ss L P ord" and ok: "pkgs_ok bulk pkgs"
    and pc: "holding (pcs t) = Idle"
    and pop: "list_pop_front (to_send (rlc_ctx w), gmem w) = (x, (l, m))"
  shows "rlc_J bulk pkgs (w\<lparr>rlc_ctx := (rlc_ctx w)\<lparr>to_send := l\<rparr>, gmem := m\<rparr>, pcs(t := Consumer (CSn x)))
    k ts ss (L(x := HeldBy t)) P ord"
proof -
  let ?H = "holding \<circ> pcs" and ?L = "L(x := HeldBy t)"
  note f = J_facts [OF J]
  have mem: "mem_inv bulk w k (x # ts) ss" and loc: "loc_inv bulk ?H k (x # ts) ss L"
    and pkg: "pkg_inv pkgs (pdcp_pkd_ptr w) (gmem w) ?H L P"
    and num: "num_inv (vtNext (rlc_ctx w)) ?H L P ord" and cp: "copy_inv pkgs (gmem w) ?H L P ord"
    and po: "\<forall>t. pc_ok pkgs (pdcp_pkd_ptr w) (pcs t)"
    using J by (auto simp: rlc_J_def)
  have lr: "list_ok (to_send (rlc_ctx w), gmem w) (x # ts)" using mem by (simp add: mem_inv_def)
  then have rep: "list_rep (to_send (rlc_ctx w), gmem w) (x # ts)" by (simp add: list_ok_def)
  have tch: "touches bulk (set (x # ts)) {Prev, Next} (gmem w) m"
    using touches_pop [OF rep f(3)] pop by simp
  have "list_ok (l, m) ts"
    using list_pop_front_rep [OF rep] lr pop by (auto simp: list_ok_def)
  then have mem': "mem_inv bulk (w\<lparr>rlc_ctx := (rlc_ctx w)\<lparr>to_send := l\<rparr>, gmem := m\<rparr>) k ts ss"
    using mem mm_rep_touches [OF _ tch, of "mm_ctx w" k "[]"] f(5)
      list_ok_touches [OF _ tch f(4), of "sent_list (rlc_ctx w)"] by (simp add: mem_inv_def Int_commute)
  have d: "distinct (x # ts)" using rep by (simp add: list_rep_def)
  have Ht: "?H t = Idle" using pc by simp
  have loc': "loc_inv bulk (?H(t := Full x)) k ts ss ?L"
    by (rule loc_take [OF loc d]) (simp_all add: pc)
  have Lx: "L x = InToSend" using loc by (simp add: loc_inv_def)
  have no: "full_of (?H u) \<noteq> Some x" for u
    using held_iff [OF loc, of x u] Lx full_node by auto
  have pkg': "pkg_inv pkgs (pdcp_pkd_ptr w) m (?H(t := Full x)) ?L P"
  proof (rule pkg_move [OF pkg])
    show "pkg_of (Full x) = pkg_of (?H t)" by (simp add: pc)
    show "live (?H(t := Full x)) ?L y = live ?H L y" for y
      using live_at [of ?H L y t] Lx no pc by (auto simp: live_upd)
    show "node_pkg m y (pkgs ! i)" if "P i = On y" "node_pkg (gmem w) y (pkgs ! i)" for i y
      by (rule node_pkg_touches [OF that(2) tch f(6) [OF that(1)]]) simp
  qed
  have num': "num_inv (vtNext (rlc_ctx w)) (?H(t := Full x)) ?L P ord"
  proof (rule num_move [OF num])
    show "numbered (?H(t := Full x)) ?L y = numbered ?H L y" for y
      using numbered_at [of ?H L y t] Lx no numb_full pc by (auto simp: numbered_upd)
  qed
  have cp': "copy_inv pkgs m (?H(t := Full x)) ?L P ord"
  proof (rule copy_move [OF cp f(9,8)])
    show "moved_node ?H L y" if "moved_node (?H(t := Full x)) ?L y" for y
      using that no unfolding moved_upd moved_node_def by (auto split: if_splits)
    show "arrived m (pkgs ! i) sn" if "i < length pkgs" "arrived (gmem w) (pkgs ! i) sn" for i sn
      using arrived_touches [OF that(2) tch ok] that(1) by simp
  qed simp
  show ?thesis
    using mem' loc' pkg' num' cp' po by (simp add: rlc_J_def holding_upd)
qed

lemma J_sn:
  assumes J: "rlc_J bulk pkgs (w, pcs) k ts ss L P ord" and ok: "pkgs_ok bulk pkgs"
    and pc: "pcs t = Consumer (CSn x)"
  shows "\<exists>ord'. rlc_J bulk pkgs (w\<lparr>rlc_ctx := (rlc_ctx w)\<lparr>vtNext := vtNext (rlc_ctx w) + 1\<rparr>\<rparr>,
    pcs(t := Consumer (CCopy x (vtNext (rlc_ctx w))))) k ts ss L P ord'"
proof -
  let ?H = "holding \<circ> pcs" and ?n = "vtNext (rlc_ctx w)"
  let ?H' = "?H(t := Numbered x ?n)"
  note f = J_facts [OF J]
  have mem: "mem_inv bulk w k ts ss" and loc: "loc_inv bulk ?H k ts ss L"
    and pkg: "pkg_inv pkgs (pdcp_pkd_ptr w) (gmem w) ?H L P"
    and num: "num_inv ?n ?H L P ord" and cp: "copy_inv pkgs (gmem w) ?H L P ord"
    and po: "\<forall>t. pc_ok pkgs (pdcp_pkd_ptr w) (pcs t)"
    using J by (auto simp: rlc_J_def)
  have Ht: "?H t = Full x" using pc by simp
  have Lx: "L x = HeldBy t" using held_iff [OF loc, of x t] Ht by simp
  have only: "u = t" if "node_of (?H u) = Some x" for u
    using held_unique [OF loc that, of t] Ht by simp
  have "live ?H L x" unfolding live_def using pc by (intro disjI2 exI [of _ t]) simp
  then obtain i where i: "P i = On x" using pkg_live [OF pkg] by blast
  have nx: "\<not> numbered ?H L x"
    using Lx only Ht full_node numb_full by (fastforce simp: numbered_def)
  have nn: "i \<notin> set ord"
    using num i nx by (auto simp: num_inv_def)
  have n: "?n = of_nat (length ord)" using num by (simp add: num_inv_def)
  have loc': "loc_inv bulk ?H' k ts ss L"
    by (rule loc_keep [OF loc]) (simp add: pc)
  have lv: "live ?H' L y = live ?H L y" for y
    by (rule live_keep) (simp add: pc)
  have pkg': "pkg_inv pkgs (pdcp_pkd_ptr w) (gmem w) ?H' L P"
    by (rule pkg_move [OF pkg _ lv]) (simp_all add: pc)
  have nb: "numbered ?H' L y \<longleftrightarrow> y = x \<or> numbered ?H L y" for y
    using numbered_at [of ?H L y t] numbered_at [of ?H' L y t] pc by auto
  have num': "num_inv (?n + 1) ?H' L P (ord @ [i])"
    unfolding num_inv_def
  proof (intro conjI allI)
    show "distinct (ord @ [i])" using num nn by (simp add: num_inv_def)
    show "?n + 1 = of_nat (length (ord @ [i]))" by (simp add: n)
    fix a
    show "a \<in> set (ord @ [i]) \<longleftrightarrow> (\<exists>y. P a = On y \<and> numbered ?H' L y)"
      using num i pkg unfolding num_inv_def pkg_inv_def nb by auto
  qed
  have cp': "copy_inv pkgs (gmem w) ?H' L P (ord @ [i])"
    unfolding copy_inv_def
  proof (intro allI impI conjI)
    fix j y assume j: "j < length (ord @ [i])" and y: "P ((ord @ [i]) ! j) = On y"
    show "sn = of_nat j" if "?H' u = Numbered y sn" for u sn
    proof (cases "j = length ord")
      case True
      then have "y = x" using y i by simp
      then have "u = t" using that only [of u] by (cases "u = t") (auto simp del: comp_apply)
      then show ?thesis using that True n by simp
    next
      case False
      then have jl: "j < length ord" "P (ord ! j) = On y" using j y by (auto simp: nth_append)
      have "y \<noteq> x" using jl nn i pkg_uniq [OF pkg, of i x "ord ! j"] nth_mem [OF jl(1)] by auto
      then have "?H u = Numbered y sn" using that by (cases "u = t") auto
      then show ?thesis using cp jl by (auto simp: copy_inv_def)
    qed
    show "arrived (gmem w) (pkgs ! ((ord @ [i]) ! j)) (of_nat j)" if "moved_node ?H' L y"
    proof (cases "j = length ord")
      case True
      then have "y = x" using y i by simp
      then have False using that Lx only Ht by (auto simp: moved_node_def split: if_splits)
      then show ?thesis ..
    next
      case False
      then have jl: "j < length ord" "P (ord ! j) = On y" using j y by (auto simp: nth_append)
      have "moved_node ?H L y" using that by (auto simp: moved_node_def split: if_splits)
      then show ?thesis using cp jl by (auto simp: copy_inv_def nth_append)
    qed
  qed
  show ?thesis
    using mem loc' pkg' num' cp' po
    by (intro exI [of _ "ord @ [i]"]) (simp add: rlc_J_def holding_upd mem_inv_def)
qed


lemma J_copy:
  assumes J: "rlc_J bulk pkgs (w, pcs) k ts ss L P ord" and ok: "pkgs_ok bulk pkgs"
    and pc: "pcs t = Consumer (CCopy x sn)"
  shows "rlc_J bulk pkgs (copy_packet t (get_field (gmem w) x Tgt) (get_field (gmem w) x Data) sn w,
    pcs(t := Consumer (CPdu x))) k ts ss L P ord"
proof -
  define H where "H = holding \<circ> pcs"
  let ?H' = "H(t := Moved x)"
  let ?w = "copy_packet t (get_field (gmem w) x Tgt) (get_field (gmem w) x Data) sn w"
  note f = J_facts [OF J]
  have mem: "mem_inv bulk w k ts ss" and loc: "loc_inv bulk H k ts ss L"
    and pkg: "pkg_inv pkgs (pdcp_pkd_ptr w) (gmem w) H L P"
    and num: "num_inv (vtNext (rlc_ctx w)) H L P ord" and cp: "copy_inv pkgs (gmem w) H L P ord"
    and po: "\<forall>t. pc_ok pkgs (pdcp_pkd_ptr w) (pcs t)"
    using J by (auto simp: rlc_J_def H_def)
  have Ht: "H t = Numbered x sn" using pc by (simp add: H_def)
  have only: "u = t" if "node_of (H u) = Some x" for u
    using held_unique [OF loc that, of t] Ht by simp
  have "live H L x" unfolding live_def using Ht by (intro disjI2 exI [of _ t]) simp
  then obtain i where i: "P i = On x" using pkg_live [OF pkg] by blast
  have il: "i < length pkgs" "pkgs ! i \<in> set pkgs" using f(7) [OF i] by auto
  have flds: "get_field (gmem w) x Tgt = tgt_addr (pkgs ! i)" "get_field (gmem w) x Data = src_addr (pkgs ! i)"
    using pkg_node [OF pkg i] by (auto simp: node_pkg_def)
  have sp: "same_pool bulk (gmem w) (gmem ?w)"
    using copy_packet_pool [OF ok il(2)] by (simp add: same_pool_def flds)
  have ctx: "rlc_ctx ?w = rlc_ctx w" "mm_ctx ?w = mm_ctx w" "pdcp_pkd_ptr ?w = pdcp_pkd_ptr w"
    by (simp_all add: copy_packet_def Let_def)
  have mem': "mem_inv bulk ?w k ts ss"
    using mem mm_rep_same_pool [OF _ sp] list_ok_same_pool [OF _ sp] f(3,4)
    by (simp add: mem_inv_def ctx)
  have loc': "loc_inv bulk ?H' k ts ss L" by (rule loc_keep [OF loc]) (simp add: Ht)
  have pkg': "pkg_inv pkgs (pdcp_pkd_ptr w) (gmem ?w) ?H' L P"
  proof (rule pkg_move [OF pkg])
    show "pkg_of (Moved x) = pkg_of (H t)" by (simp add: Ht)
    show "live ?H' L y = live H L y" for y
      by (rule live_keep) (simp add: Ht)
    show "node_pkg (gmem ?w) y (pkgs ! a)" if "P a = On y" "node_pkg (gmem w) y (pkgs ! a)" for a y
      using that sp f(6) [OF that(1)] by (simp add: node_pkg_def same_pool_def)
  qed
  have num': "num_inv (vtNext (rlc_ctx w)) ?H' L P ord"
  proof (rule num_move [OF num])
    show "numbered ?H' L y = numbered H L y" for y
      by (rule numbered_keep) (simp add: Ht)
  qed
  have cp': "copy_inv pkgs (gmem ?w) ?H' L P ord"
    unfolding copy_inv_def
  proof (intro allI impI conjI)
    fix j y assume j: "j < length ord" and y: "P (ord ! j) = On y"
    have a: "ord ! j < length pkgs" by (rule f(7) [OF y])
    show "s = of_nat j" if "?H' u = Numbered y s" for u s
    proof -
      have "H u = Numbered y s" using that by (auto split: if_splits)
      then show ?thesis using cp j y by (auto simp: copy_inv_def)
    qed
    show "arrived (gmem ?w) (pkgs ! (ord ! j)) (of_nat j)" if mv: "moved_node ?H' L y"
    proof (cases "y = x")
      case True
      then have "ord ! j = i" using pkg_uniq [OF pkg] y i by blast
      moreover have "sn = of_nat j" using cp j y Ht True by (auto simp: copy_inv_def)
      ultimately show ?thesis using copy_packet_arrived [OF ok il(2)] by (simp add: flds)
    next
      case False
      then have "moved_node H L y" using mv by (auto simp: moved_node_def split: if_splits)
      then have "arrived (gmem w) (pkgs ! (ord ! j)) (of_nat j)" using cp j y by (auto simp: copy_inv_def)
      moreover have "i \<noteq> ord ! j" using False y i by auto
      ultimately show ?thesis using copy_packet_other [OF ok il(1) a] by (simp add: flds)
    qed
  qed
  show ?thesis
    using mem' loc' pkg' num' cp' po by (simp add: rlc_J_def holding_upd ctx flip: H_def)
qed

lemma can_link_pool:
  assumes "pool_ok bulk" "x \<in> pool_pages bulk" "set ns \<subseteq> pool_pages bulk" "x \<notin> set ns"
  shows "can_link x ns"
  unfolding can_link_def
proof (intro conjI ballI)
  show "x \<noteq> NULL" using assms(1,2) page_nonzero by (auto simp: pool_pages_def)
  fix y assume "y \<in> set ns"
  then show "node_apart y x" by (intro pool_apart [of _ bulk]) (use assms in auto)
qed

lemma J_sent:
  assumes J: "rlc_J bulk pkgs (w, pcs) k ts ss L P ord" and ok: "pkgs_ok bulk pkgs"
    and pc: "pcs t = Consumer (CSent x)"
    and push: "list_push_back x (sent_list (rlc_ctx w), gmem w) = (l, m)"
  shows "rlc_J bulk pkgs (w\<lparr>rlc_ctx := (rlc_ctx w)\<lparr>sent_list := l\<rparr>, gmem := m\<rparr>, pcs(t := Consumer CAckTest))
    k ts (ss @ [x]) (L(x := InSent)) P ord"
proof -
  define H where "H = holding \<circ> pcs"
  let ?H' = "H(t := Idle)" and ?L = "L(x := InSent)"
  note f = J_facts [OF J]
  have mem: "mem_inv bulk w k ts ss" and loc: "loc_inv bulk H k ts ss L"
    and pkg: "pkg_inv pkgs (pdcp_pkd_ptr w) (gmem w) H L P"
    and num: "num_inv (vtNext (rlc_ctx w)) H L P ord" and cp: "copy_inv pkgs (gmem w) H L P ord"
    and po: "\<forall>t. pc_ok pkgs (pdcp_pkd_ptr w) (pcs t)"
    using J by (auto simp: rlc_J_def H_def)
  have Ht: "H t = Moved x" using pc by (simp add: H_def)
  have only: "u = t" if "node_of (H u) = Some x" for u
    using held_unique [OF loc that, of t] Ht by simp
  have Lx: "L x = HeldBy t" using held_iff [OF loc, of x t] Ht by simp
  have xp: "x \<in> pool_pages bulk" by (rule loc_page [OF loc f(1)]) (simp add: Lx)
  have xn: "x \<notin> set ts" "x \<notin> set ss" using loc_held_off [OF loc Lx] by auto
  have can: "can_link x ss"
    by (rule can_link_pool [OF f(2) xp f(4) xn(2)])
  have lr: "list_ok (sent_list (rlc_ctx w), gmem w) ss" using mem by (simp add: mem_inv_def)
  then have rep: "list_rep (sent_list (rlc_ctx w), gmem w) ss" by (simp add: list_ok_def)
  have tch: "touches bulk (insert x (set ss)) {Prev, Next} (gmem w) m"
    using touches_push [OF rep xp f(4)] push by simp
  have "list_ok (l, m) (ss @ [x])" using llq.push_rep [OF lr can] push by simp
  then have mem': "mem_inv bulk (w\<lparr>rlc_ctx := (rlc_ctx w)\<lparr>sent_list := l\<rparr>, gmem := m\<rparr>) k ts (ss @ [x])"
    using mem mm_rep_touches [OF _ tch, of "mm_ctx w" k "[]"] f(5) xn
      list_ok_touches [OF _ tch f(3), of "to_send (rlc_ctx w)"] by (simp add: mem_inv_def Int_commute)
  have loc': "loc_inv bulk ?H' k ts (ss @ [x]) ?L"
    by (rule loc_give_sent [OF loc]) (simp_all add: Ht)
  have pkg': "pkg_inv pkgs (pdcp_pkd_ptr w) m ?H' ?L P"
  proof (rule pkg_move [OF pkg])
    show "pkg_of Idle = pkg_of (H t)" by (simp add: Ht)
    show "live ?H' ?L y = live H L y" for y
      using live_at [of H L y t] Ht Lx by (auto simp: live_upd)
    show "node_pkg m y (pkgs ! a)" if "P a = On y" "node_pkg (gmem w) y (pkgs ! a)" for a y
      by (rule node_pkg_touches [OF that(2) tch f(6) [OF that(1)]]) simp
  qed
  have num': "num_inv (vtNext (rlc_ctx w)) ?H' ?L P ord"
  proof (rule num_move [OF num])
    show "numbered ?H' ?L y = numbered H L y" for y
      using numbered_at [of H L y t] Ht Lx by (auto simp: numbered_upd)
  qed
  have cp': "copy_inv pkgs m ?H' ?L P ord"
  proof (rule copy_move [OF cp f(9,8)])
    show "moved_node H L y" if "moved_node ?H' ?L y" for y
      using that Ht unfolding moved_upd moved_node_def by (auto split: if_splits)
    show "arrived m (pkgs ! i) sn" if "i < length pkgs" "arrived (gmem w) (pkgs ! i) sn" for i sn
      using arrived_touches [OF that(2) tch ok] that(1) by simp
  qed simp
  show ?thesis
    using mem' loc' pkg' num' cp' po by (simp add: rlc_J_def holding_upd flip: H_def)
qed

lemma J_push:
  assumes J: "rlc_J bulk pkgs (w, pcs) k ts ss L P ord" and ok: "pkgs_ok bulk pkgs"
    and pc: "pcs t = Producer (PPush x)"
    and push: "list_push_back x (to_send (rlc_ctx w), gmem w) = (l, m)"
  shows "rlc_J bulk pkgs (w\<lparr>rlc_ctx := (rlc_ctx w)\<lparr>to_send := l\<rparr>, gmem := m\<rparr>, pcs(t := Producer PRecv))
    k (ts @ [x]) ss (L(x := InToSend)) P ord"
proof -
  define H where "H = holding \<circ> pcs"
  let ?H' = "H(t := Idle)" and ?L = "L(x := InToSend)"
  note f = J_facts [OF J]
  have mem: "mem_inv bulk w k ts ss" and loc: "loc_inv bulk H k ts ss L"
    and pkg: "pkg_inv pkgs (pdcp_pkd_ptr w) (gmem w) H L P"
    and num: "num_inv (vtNext (rlc_ctx w)) H L P ord" and cp: "copy_inv pkgs (gmem w) H L P ord"
    and po: "\<forall>t. pc_ok pkgs (pdcp_pkd_ptr w) (pcs t)"
    using J by (auto simp: rlc_J_def H_def)
  have Ht: "H t = Full x" using pc by (simp add: H_def)
  have only: "u = t" if "node_of (H u) = Some x" for u
    using held_unique [OF loc that, of t] Ht by simp
  have Lx: "L x = HeldBy t" using held_iff [OF loc, of x t] Ht by simp
  have xp: "x \<in> pool_pages bulk" by (rule loc_page [OF loc f(1)]) (simp add: Lx)
  have xn: "x \<notin> set ts" "x \<notin> set ss" using loc_held_off [OF loc Lx] by auto
  have can: "can_link x ts"
    by (rule can_link_pool [OF f(2) xp f(3) xn(1)])
  have lr: "list_ok (to_send (rlc_ctx w), gmem w) ts" using mem by (simp add: mem_inv_def)
  then have rep: "list_rep (to_send (rlc_ctx w), gmem w) ts" by (simp add: list_ok_def)
  have tch: "touches bulk (insert x (set ts)) {Prev, Next} (gmem w) m"
    using touches_push [OF rep xp f(3)] push by simp
  have "list_ok (l, m) (ts @ [x])" using llq.push_rep [OF lr can] push by simp
  then have mem': "mem_inv bulk (w\<lparr>rlc_ctx := (rlc_ctx w)\<lparr>to_send := l\<rparr>, gmem := m\<rparr>) k (ts @ [x]) ss"
    using mem mm_rep_touches [OF _ tch, of "mm_ctx w" k "[]"] f(5) xn
      list_ok_touches [OF _ tch f(4), of "sent_list (rlc_ctx w)"] by (simp add: mem_inv_def Int_commute)
  have loc': "loc_inv bulk ?H' k (ts @ [x]) ss ?L"
    by (rule loc_give_to_send [OF loc]) (simp_all add: Ht)
  have pkg': "pkg_inv pkgs (pdcp_pkd_ptr w) m ?H' ?L P"
  proof (rule pkg_move [OF pkg])
    show "pkg_of Idle = pkg_of (H t)" by (simp add: Ht)
    show "live ?H' ?L y = live H L y" for y
      using live_at [of H L y t] Ht Lx by (auto simp: live_upd)
    show "node_pkg m y (pkgs ! a)" if "P a = On y" "node_pkg (gmem w) y (pkgs ! a)" for a y
      by (rule node_pkg_touches [OF that(2) tch f(6) [OF that(1)]]) simp
  qed
  have nox: "numb_of (H u) \<noteq> Some x" for u
    using only [of u] Ht numb_full full_node by fastforce
  have num': "num_inv (vtNext (rlc_ctx w)) ?H' ?L P ord"
  proof (rule num_move [OF num])
    show "numbered ?H' ?L y = numbered H L y" for y
      using numbered_at [of H L y t] Ht Lx nox by (auto simp: numbered_upd)
  qed
  have cp': "copy_inv pkgs m ?H' ?L P ord"
  proof (rule copy_move [OF cp f(9,8)])
    show "moved_node H L y" if "moved_node ?H' ?L y" for y
      using that Ht unfolding moved_upd moved_node_def by (auto split: if_splits)
    show "arrived m (pkgs ! i) sn" if "i < length pkgs" "arrived (gmem w) (pkgs ! i) sn" for i sn
      using arrived_touches [OF that(2) tch ok] that(1) by simp
  qed simp
  show ?thesis
    using mem' loc' pkg' num' cp' po by (simp add: rlc_J_def holding_upd flip: H_def)
qed


lemma J_recv:
  assumes J: "rlc_J bulk pkgs (w, pcs) k ts ss L P ord"
    and pc: "pcs t = Producer PRecv" and lt: "pdcp_pkd_ptr w < int (length pkgs)"
  shows "rlc_J bulk pkgs (w\<lparr>pdcp_pkd_ptr := pdcp_pkd_ptr w + 1\<rparr>, pcs(t := Producer (PAlloc (pdcp_pkd_ptr w))))
    k ts ss L (P(nat (pdcp_pkd_ptr w) := InHand t)) ord \<and> 0 \<le> pdcp_pkd_ptr w"
proof -
  define H where "H = holding \<circ> pcs"
  define i where "i = nat (pdcp_pkd_ptr w)"
  let ?H' = "H(t := Pkg i)" and ?P = "P(i := InHand t)"
  have mem: "mem_inv bulk w k ts ss" and loc: "loc_inv bulk H k ts ss L"
    and pkg: "pkg_inv pkgs (pdcp_pkd_ptr w) (gmem w) H L P"
    and num: "num_inv (vtNext (rlc_ctx w)) H L P ord" and cp: "copy_inv pkgs (gmem w) H L P ord"
    and po: "\<forall>t. pc_ok pkgs (pdcp_pkd_ptr w) (pcs t)"
    using J by (auto simp: rlc_J_def H_def)
  have Ht: "H t = Idle" using pc by (simp add: H_def)
  have p0: "0 \<le> pdcp_pkd_ptr w" using pkg by (simp add: pkg_inv_def)
  then have ptr: "pdcp_pkd_ptr w = int i" by (simp add: i_def)
  have Pi: "P i = NotYet" using pkg ptr by (simp add: pkg_inv_def)
  have noi: "pkg_of (H u) \<noteq> Some i" for u using pkg_hand [OF pkg, of i u] Pi by simp
  have loc': "loc_inv bulk ?H' k ts ss L" by (rule loc_keep [OF loc]) (simp add: Ht)
  have lv: "live ?H' L y = live H L y" for y by (rule live_keep) (simp add: Ht)
  have nb: "numbered ?H' L y = numbered H L y" for y by (rule numbered_keep) (simp add: Ht)
  have onP: "?P a = On y \<longleftrightarrow> P a = On y" for a y using Pi by simp
  have pkg': "pkg_inv pkgs (pdcp_pkd_ptr w + 1) (gmem w) ?H' L ?P"
    unfolding pkg_inv_def
  proof (intro conjI allI impI)
    show "0 \<le> pdcp_pkd_ptr w + 1" using p0 by simp
    show "pdcp_pkd_ptr w + 1 \<le> int (length pkgs)" using lt by simp
    fix a y b
    show "?P a = NotYet \<longleftrightarrow> pdcp_pkd_ptr w + 1 \<le> int a"
      using pkg ptr by (cases "a = i") (auto simp: pkg_inv_def)
    show "?P a = InHand u \<longleftrightarrow> pkg_of (?H' u) = Some a" for u
      using pkg_hand [OF pkg, of a u] noi [of u] Ht by (cases "a = i"; cases "u = t") auto
    show "node_pkg (gmem w) y (pkgs ! a)" if "?P a = On y"
      using pkg_node [OF pkg] that onP by blast
    show "a = b" if "?P a = On y" "?P b = On y"
      using pkg_uniq [OF pkg] that onP by blast
    show "(\<exists>i. ?P i = On y) \<longleftrightarrow> live ?H' L y"
      unfolding lv using pkg_live [OF pkg, of y] onP by blast
  qed
  have num': "num_inv (vtNext (rlc_ctx w)) ?H' L ?P ord"
    using num unfolding num_inv_def onP nb .
  have cp': "copy_inv pkgs (gmem w) ?H' L ?P ord"
    using cp Ht unfolding copy_inv_def onP moved_node_def by (auto split: if_splits)
  have po': "pc_ok pkgs (pdcp_pkd_ptr w + 1) (pcs u)" for u
    using po lt by (cases "(pkgs, pdcp_pkd_ptr w, pcs u)" rule: pc_ok.cases) (auto dest: spec [of _ u])
  show ?thesis
    using mem loc' pkg' num' cp' po' p0
    by (simp add: rlc_J_def holding_upd mem_inv_def flip: H_def i_def)
qed

lemma J_alloc:
  assumes J: "rlc_J bulk pkgs (w, pcs) k ts ss L P ord"
    and pc: "pcs t = Producer (PAlloc i)" and k: "k < 1024"
    and al: "mm_alloc bulk (mm_ctx w, gmem w) = (x, (c, m))"
  shows "rlc_J bulk pkgs (w\<lparr>mm_ctx := c, gmem := m\<rparr>, pcs(t := Producer (PFill i x)))
    (Suc k) ts ss (L(x := HeldBy t)) P ord"
proof -
  define H where "H = holding \<circ> pcs"
  let ?H' = "H(t := Raw (nat i) x)" and ?L = "L(x := HeldBy t)"
  have mem: "mem_inv bulk w k ts ss" and loc: "loc_inv bulk H k ts ss L"
    and pkg: "pkg_inv pkgs (pdcp_pkd_ptr w) (gmem w) H L P"
    and num: "num_inv (vtNext (rlc_ctx w)) H L P ord" and cp: "copy_inv pkgs (gmem w) H L P ord"
    and po: "\<forall>t. pc_ok pkgs (pdcp_pkd_ptr w) (pcs t)"
    using J by (auto simp: rlc_J_def H_def)
  have Ht: "H t = Pkg (nat i)" using pc by (simp add: H_def)
  have mm: "mm_rep bulk (mm_ctx w, gmem w) k []" using mem by (simp add: mem_inv_def)
  from mm_alloc_fresh [OF mm k] al have x: "x = page bulk k" "mm_rep bulk (c, m) (Suc k) []" "m = gmem w"
    by auto
  have mem': "mem_inv bulk (w\<lparr>mm_ctx := c, gmem := m\<rparr>) (Suc k) ts ss"
    using mem x by (simp add: mem_inv_def)
  have loc': "loc_inv bulk ?H' (Suc k) ts ss ?L" and Lx: "L x = Unused"
    using loc_fresh [OF loc k, of t "Raw (nat i) x"] Ht x(1) by simp_all
  have no: "full_of (H u) \<noteq> Some x" for u
    using held_iff [OF loc, of x u] Lx full_node by auto
  have pkg': "pkg_inv pkgs (pdcp_pkd_ptr w) (gmem w) ?H' ?L P"
  proof (rule pkg_move [OF pkg])
    show "pkg_of (Raw (nat i) x) = pkg_of (H t)" by (simp add: Ht)
    show "live ?H' ?L y = live H L y" for y
      using live_at [of H L y t] Lx no Ht by (auto simp: live_upd)
  qed
  have num': "num_inv (vtNext (rlc_ctx w)) ?H' ?L P ord"
  proof (rule num_move [OF num])
    show "numbered ?H' ?L y = numbered H L y" for y
      using numbered_at [of H L y t] Lx no numb_full Ht by (auto simp: numbered_upd)
  qed
  have cp': "copy_inv pkgs (gmem w) ?H' ?L P ord"
  proof (rule copy_move [OF cp J_facts(9,8) [OF J]])
    show "moved_node H L y" if "moved_node ?H' ?L y" for y
      using that unfolding moved_upd moved_node_def by (auto split: if_splits)
  qed simp_all
  have "0 \<le> i" using po pc by (metis pc_ok.simps(6))
  then show ?thesis
    using mem' loc' pkg' num' cp' po x(3) by (simp add: rlc_J_def holding_upd flip: H_def)
qed

lemma J_fill:
  assumes J: "rlc_J bulk pkgs (w, pcs) k ts ss L P ord" and ok: "pkgs_ok bulk pkgs"
    and pc: "pcs t = Producer (PFill i x)"
  shows "rlc_J bulk pkgs (w\<lparr>gmem := fill_node (pkgs ! nat i) x (gmem w)\<rparr>, pcs(t := Producer (PPush x)))
    k ts ss L (P(nat i := On x)) ord"
proof -
  define H where "H = holding \<circ> pcs"
  let ?a = "nat i" and ?m = "fill_node (pkgs ! nat i) x (gmem w)"
  let ?H' = "H(t := Full x)" and ?P = "P(nat i := On x)"
  note f = J_facts [OF J]
  have mem: "mem_inv bulk w k ts ss" and loc: "loc_inv bulk H k ts ss L"
    and pkg: "pkg_inv pkgs (pdcp_pkd_ptr w) (gmem w) H L P"
    and num: "num_inv (vtNext (rlc_ctx w)) H L P ord" and cp: "copy_inv pkgs (gmem w) H L P ord"
    and po: "\<forall>t. pc_ok pkgs (pdcp_pkd_ptr w) (pcs t)"
    using J by (auto simp: rlc_J_def H_def)
  have Ht: "H t = Raw ?a x" using pc by (simp add: H_def)
  have Lx: "L x = HeldBy t" using held_iff [OF loc, of x t] Ht by simp
  have xp: "x \<in> pool_pages bulk" by (rule loc_page [OF loc f(1)]) (simp add: Lx)
  have xn: "x \<notin> set ts" "x \<notin> set ss" using loc_held_off [OF loc Lx] by auto
  have only: "u = t" if "node_of (H u) = Some x" for u
    using held_unique [OF loc that, of t] Ht by simp
  have notlive: "\<not> live H L x" using Lx only Ht full_node unfolding live_def by fastforce
  have notnum: "\<not> numbered H L x"
    using notlive numb_full unfolding live_def numbered_def by blast
  have off: "P b \<noteq> On x" for b using notlive pkg_live [OF pkg, of x] by blast
  have Pa: "P ?a = InHand t" using pkg_hand [OF pkg, of ?a t] Ht by simp
  have tch: "touches bulk {x} UNIV (gmem w) ?m" by (rule touches_fill [OF xp])
  have mem': "mem_inv bulk (w\<lparr>gmem := ?m\<rparr>) k ts ss"
    using mem mm_rep_touches [OF _ tch, of "mm_ctx w" k "[]"] xn
      list_ok_touches [OF _ tch f(3), of "to_send (rlc_ctx w)"]
      list_ok_touches [OF _ tch f(4), of "sent_list (rlc_ctx w)"] by (simp add: mem_inv_def)
  have loc': "loc_inv bulk ?H' k ts ss L" by (rule loc_keep [OF loc]) (simp add: Ht)
  have lv: "live ?H' L y \<longleftrightarrow> y = x \<or> live H L y" for y
    using live_at [of H L y t] live_at [of ?H' L y t] Ht by auto
  have nb: "numbered ?H' L y = numbered H L y" for y by (rule numbered_keep) (simp add: Ht)
  have onP: "?P b = On y \<longleftrightarrow> (if b = ?a then y = x else P b = On y)" for b y by auto
  have pkg': "pkg_inv pkgs (pdcp_pkd_ptr w) ?m ?H' L ?P"
    unfolding pkg_inv_def
  proof (intro conjI allI impI)
    show "0 \<le> pdcp_pkd_ptr w" "pdcp_pkd_ptr w \<le> int (length pkgs)" using pkg by (auto simp: pkg_inv_def)
    fix b y b'
    show "?P b = NotYet \<longleftrightarrow> pdcp_pkd_ptr w \<le> int b"
      using pkg_notyet [OF pkg, of b] pkg_notyet [OF pkg, of ?a] Pa by (cases "b = ?a") auto
    show "?P b = InHand u \<longleftrightarrow> pkg_of (?H' u) = Some b" for u
      using pkg_hand [OF pkg, of b u] pkg_hand [OF pkg, of ?a u] Pa Ht
      by (cases "b = ?a"; cases "u = t") auto
    show "node_pkg ?m y (pkgs ! b)" if "?P b = On y"
    proof (cases "b = ?a")
      case True
      then show ?thesis using that node_pkg_fill by simp
    next
      case False
      then have b: "P b = On y" using that by simp
      then have "y \<noteq> x" using off by auto
      then show ?thesis using node_pkg_touches [OF pkg_node [OF pkg b] tch f(6) [OF b]] by simp
    qed
    show "b = b'" if "?P b = On y" "?P b' = On y"
      using that off pkg_uniq [OF pkg, of b y b'] by (auto simp: onP split: if_splits)
    show "(\<exists>b. ?P b = On y) \<longleftrightarrow> live ?H' L y"
    proof -
      have "(\<exists>b. ?P b = On y) \<longleftrightarrow> y = x \<or> (\<exists>b. P b = On y)"
      proof
        assume "y = x \<or> (\<exists>b. P b = On y)"
        then show "\<exists>b. ?P b = On y"
        proof
          assume "\<exists>b. P b = On y"
          then obtain b where "P b = On y" ..
          moreover from this have "b \<noteq> ?a" using Pa by auto
          ultimately show ?thesis by (intro exI [of _ b]) simp
        qed (intro exI [of _ ?a], simp)
      qed (auto simp: onP split: if_splits)
      then show ?thesis unfolding lv using pkg_live [OF pkg, of y] by blast
    qed
  qed
  have nn: "?a \<notin> set ord" using num Pa by (auto simp: num_inv_def)
  have num': "num_inv (vtNext (rlc_ctx w)) ?H' L ?P ord"
    unfolding num_inv_def
  proof (intro conjI allI)
    show "distinct ord" "vtNext (rlc_ctx w) = of_nat (length ord)" using num by (auto simp: num_inv_def)
    fix b
    have "b \<in> set ord \<longleftrightarrow> (\<exists>y. P b = On y \<and> numbered H L y)" using num by (simp add: num_inv_def)
    then show "b \<in> set ord \<longleftrightarrow> (\<exists>y. ?P b = On y \<and> numbered ?H' L y)"
      using nn notnum by (cases "b = ?a") (auto simp: nb simp del: fun_upd_apply, auto)
  qed
  have cp': "copy_inv pkgs ?m ?H' L ?P ord"
    unfolding copy_inv_def
  proof (intro allI impI conjI)
    fix j y assume j: "j < length ord" and "?P (ord ! j) = On y"
    moreover have "ord ! j \<noteq> ?a" using nn nth_mem [OF j] by auto
    ultimately have y: "P (ord ! j) = On y" by simp
    show "sn = of_nat j" if "?H' u = Numbered y sn" for u sn
      using cp j y that by (auto simp: copy_inv_def split: if_splits)
    show "arrived ?m (pkgs ! (ord ! j)) (of_nat j)" if "moved_node ?H' L y"
    proof -
      have "moved_node H L y" using that Ht unfolding moved_node_def by (auto split: if_splits)
      then have "arrived (gmem w) (pkgs ! (ord ! j)) (of_nat j)" using cp j y by (auto simp: copy_inv_def)
      then show ?thesis using arrived_touches [OF _ tch ok] f(7) [OF y] by simp
    qed
  qed
  show ?thesis
    using mem' loc' pkg' num' cp' po by (simp add: rlc_J_def holding_upd flip: H_def)
qed


section \<open>The system keeps the invariant\<close>

lemma rlc_inv_initial:
  assumes "pool_ok bulk" "rlc_initial bulk s"
  shows "rlc_inv bulk pkgs s"
proof -
  obtain w0 r c p where w: "fst s = rlc_init r c p (w0\<lparr>mm_ctx := mm_init bulk\<rparr>)" and pcs: "snd s = cluster_entry"
    using assms(2) by (auto simp: rlc_initial_def)
  have idle: "holding (cluster_entry t) = Idle" for t by (simp add: cluster_entry_def)
  have "rlc_J bulk pkgs (fst s, snd s) 0 [] [] (\<lambda>_. Unused) (\<lambda>_. NotYet) []"
    using mm_rep_init [OF assms(1), of "gmem w0"] list_init_rep [of "gmem w0"] idle
    by (auto simp: rlc_J_def w pcs rlc_init_def mem_inv_def list_ok_def loc_inv_def pkg_inv_def
        live_def num_inv_def copy_inv_def cluster_entry_def)
  then show ?thesis by (auto intro: rlc_invI)
qed

lemma page_card: "card (pool_pages bulk) \<le> 1024"
  using card_image_le [of "{..<1024}" "page bulk"] by (simp add: pool_pages_def)

lemma pool_finite: "finite (pool_pages bulk)"
  by (simp add: pool_pages_def)

text \<open>At most 1024 nodes can be on the sent list, so the acknowledgement test never fires.\<close>

lemma sent_small:
  assumes J: "rlc_J bulk pkgs (w, pcs) k ts ss L P ord"
  shows "sint (sduNum (sent_list (rlc_ctx w))) < 10000"
proof -
  have ok: "list_ok (sent_list (rlc_ctx w), gmem w) ss" using J by (simp add: rlc_J_def mem_inv_def)
  have "length ss = card (set ss)" using ok by (simp add: list_ok_def list_rep_def distinct_card)
  also have "\<dots> \<le> card (pool_pages bulk)" by (rule card_mono [OF pool_finite J_facts(4) [OF J]])
  finally have l: "length ss \<le> 1024" using page_card [of bulk] by simp
  have "sduNum (sent_list (rlc_ctx w)) = of_nat (length ss)" using ok by (simp add: list_ok_def counts_def)
  moreover have "sint (of_nat (length ss) :: u32) = int (length ss)"
    by (rule sint_of_nat_u32) (use l in simp)
  ultimately show ?thesis using l by simp
qed

lemma consumer_keeps:
  assumes J: "rlc_J bulk pkgs (w, pcs) k ts ss L P ord" and ok: "pkgs_ok bulk pkgs"
    and pc: "pcs t = Consumer pc" and step: "consumer_step t pc w = (pc', w')"
  shows "rlc_inv bulk pkgs (w', pcs(t := Consumer pc'))"
proof -
  have po: "pc_ok pkgs (pdcp_pkd_ptr w) (Consumer pc)" using J pc by (auto simp: rlc_J_def dest: spec [of _ t])
  have same: "rlc_inv bulk pkgs (w', pcs(t := Consumer pc'))"
    if "holding (Consumer pc') = holding (Consumer pc)" "pc_ok pkgs (pdcp_pkd_ptr w) (Consumer pc')"
      "mm_ctx w' = mm_ctx w" "gmem w' = gmem w" "to_send (rlc_ctx w') = to_send (rlc_ctx w)"
      "sent_list (rlc_ctx w') = sent_list (rlc_ctx w)" "vtNext (rlc_ctx w') = vtNext (rlc_ctx w)"
      "pdcp_pkd_ptr w' = pdcp_pkd_ptr w"
    using J_same [OF J, of "Consumer pc'" t w'] that pc by (auto intro: rlc_invI)
  show ?thesis
  proof (cases pc)
    case CPop
    have lr: "list_rep (to_send (rlc_ctx w), gmem w) ts" using J by (simp add: rlc_J_def mem_inv_def list_ok_def)
    show ?thesis
    proof (cases ts)
      case Nil
      then have "list_pop_front (to_send (rlc_ctx w), gmem w) = (NULL, (to_send (rlc_ctx w), gmem w))"
        using list_pop_front_empty lr by simp
      then show ?thesis by (intro same) (use step CPop in auto)
    next
      case (Cons x ts')
      obtain l m where pop: "list_pop_front (to_send (rlc_ctx w), gmem w) = (x, (l, m))"
        using list_pop_front_rep [of "to_send (rlc_ctx w)" "gmem w" x ts'] lr Cons by fastforce
      have "x \<noteq> NULL" using lr Cons by (auto simp: list_rep_def)
      moreover have "rlc_J bulk pkgs (w\<lparr>rlc_ctx := (rlc_ctx w)\<lparr>to_send := l\<rparr>, gmem := m\<rparr>,
          pcs(t := Consumer (CSn x))) k ts' ss (L(x := HeldBy t)) P ord"
        by (rule J_pop [OF _ ok _ pop]) (use J Cons pc CPop in auto)
      ultimately show ?thesis using step CPop pop by (auto intro: rlc_invI)
    qed
  next
    case (CSn x)
    then show ?thesis using J_sn [OF J ok, of t x] step pc by (auto intro: rlc_invI)
  next
    case (CCopy x sn)
    then show ?thesis using J_copy [OF J ok, of t x sn] step pc by (auto intro: rlc_invI)
  next
    case (CSent x)
    obtain l m where push: "list_push_back x (sent_list (rlc_ctx w), gmem w) = (l, m)" by fastforce
    then show ?thesis using J_sent [OF J ok _ push, of t] CSent step pc by (auto intro: rlc_invI)
  next
    case CAckTest
    show ?thesis by (intro same) (use step CAckTest sent_small [OF J] in auto)
  next
    case CDone
    show ?thesis by (intro same) (use step CDone in \<open>auto split: if_splits\<close>)
  next
    case (CPdu x)
    show ?thesis by (intro same) (use step CPdu in auto)
  next
    case (CByte x)
    show ?thesis by (intro same) (use step CByte in auto)
  next
    case CExit
    show ?thesis by (intro same) (use step CExit in auto)
  qed (use po in simp_all)
qed

lemma producer_keeps:
  assumes J: "rlc_J bulk pkgs (w, pcs) k ts ss L P ord" and ok: "pkgs_ok bulk pkgs"
    and pc: "pcs t = Producer pc" and step: "producer_step bulk pkgs pc w = (pc', w')"
  shows "rlc_inv bulk pkgs (w', pcs(t := Producer pc'))"
proof -
  have po: "pc_ok pkgs (pdcp_pkd_ptr w) (Producer pc)" using J pc by (auto simp: rlc_J_def dest: spec [of _ t])
  have ptr: "0 \<le> pdcp_pkd_ptr w" "pdcp_pkd_ptr w \<le> int (length pkgs)"
    using J by (auto simp: rlc_J_def pkg_inv_def)
  have same: "rlc_inv bulk pkgs (w', pcs(t := Producer pc'))"
    if "holding (Producer pc') = holding (Producer pc)" "pc_ok pkgs (pdcp_pkd_ptr w) (Producer pc')"
      "mm_ctx w' = mm_ctx w" "gmem w' = gmem w" "to_send (rlc_ctx w') = to_send (rlc_ctx w)"
      "sent_list (rlc_ctx w') = sent_list (rlc_ctx w)" "vtNext (rlc_ctx w') = vtNext (rlc_ctx w)"
      "pdcp_pkd_ptr w' = pdcp_pkd_ptr w"
    using J_same [OF J, of "Producer pc'" t w'] that pc by (auto intro: rlc_invI)
  show ?thesis
  proof (cases pc)
    case PRecv
    show ?thesis
    proof (cases "pdcp_pkd_ptr w < int (length pkgs)")
      case True
      then show ?thesis
        using J_recv [OF J _ True, of t] step pc PRecv ptr by (auto simp: pdcp_receive_pkg_def intro: rlc_invI)
    next
      case False
      show ?thesis by (intro same) (use step PRecv False ptr in \<open>auto simp: pdcp_receive_pkg_def\<close>)
    qed
  next
    case (PAlloc i)
    have mm: "mm_rep bulk (mm_ctx w, gmem w) k []" and kb: "k \<le> 1024"
      using J J_facts(1) [OF J] by (auto simp: rlc_J_def mem_inv_def)
    show ?thesis
    proof (cases "k < 1024")
      case True
      obtain x c m where al: "mm_alloc bulk (mm_ctx w, gmem w) = (x, (c, m))" by (metis prod.collapse)
      have "x \<noteq> NULL"
        using mm_alloc_fresh [OF mm True] al page_nonzero [OF J_facts(2) [OF J] True] by auto
      then show ?thesis
        using J_alloc [OF J _ True al, of t i] step pc PAlloc al by (auto intro: rlc_invI)
    next
      case False
      then have "mm_alloc bulk (mm_ctx w, gmem w) = (NULL, mm_ctx w, gmem w)"
        using mm_alloc_exhausted mm kb by (metis le_neq_implies_less)
      then show ?thesis by (intro same) (use step PAlloc po in auto)
    qed
  next
    case (PFill i x)
    then show ?thesis using J_fill [OF J ok, of t i x] step pc by (auto intro: rlc_invI)
  next
    case (PPush x)
    obtain l m where push: "list_push_back x (to_send (rlc_ctx w), gmem w) = (l, m)" by fastforce
    then show ?thesis using J_push [OF J ok _ push, of t] PPush step pc by (auto intro: rlc_invI)
  next
    case PDone
    show ?thesis by (intro same) (use step PDone po in auto)
  next
    case PExit
    show ?thesis by (intro same) (use step PExit po in auto)
  qed
qed

lemma rlc_inv_step:
  assumes "pkgs_ok bulk pkgs" "rlc_inv bulk pkgs s" "rlc_step bulk pkgs n s s'"
  shows "rlc_inv bulk pkgs s'"
  using assms(3)
proof cases
  case (core_moves t pcs w pc' w')
  obtain k ts ss L P ord where J: "rlc_J bulk pkgs (w, pcs) k ts ss L P ord"
    using assms(2) core_moves(1) by (auto simp: rlc_inv_def)
  show ?thesis
    using consumer_keeps [OF J assms(1), of t] producer_keeps [OF J assms(1), of t] core_moves
    by (cases "pcs t") (auto split: prod.splits)
qed

definition rlc_start :: "u32 \<Rightarrow> pdcp_pkg list \<Rightarrow> rlc_sys \<Rightarrow> bool" where
  "rlc_start bulk pkgs s \<longleftrightarrow> pool_ok bulk \<and> pkgs_ok bulk pkgs \<and> rlc_initial bulk s"

interpretation rlc: inductive_invariant "rlc_start bulk pkgs" "rlc_step bulk pkgs n"
    "\<lambda>s. pkgs_ok bulk pkgs \<and> rlc_inv bulk pkgs s" for bulk pkgs n
  by unfold_locales (auto simp: rlc_start_def intro: rlc_inv_initial rlc_inv_step)

end
