(* ===== verification/RlcCorrect.thy ===== *)
theory RlcCorrect
  imports RlcSystem
begin

text \<open>
  What the invariant of the RLC system says about packets: delivery and sequence numbers in
  every reachable state, completeness when the system drains, and the two ways in which it
  does not: a consumer may stop before the last packet is queued, and a pool smaller than
  the number of packages stops the producers.
\<close>

section \<open>Roles of the cores\<close>

definition roles :: "nat \<Rightarrow> rlc_sys \<Rightarrow> bool" where
  "roles n s \<longleftrightarrow> (\<forall>t. (2 \<le> t \<longrightarrow> (\<exists>pc. snd s t = Producer pc)) \<and> (t < 2 \<longrightarrow> (\<exists>pc. snd s t = Consumer pc)) \<and>
     (n \<le> t \<longrightarrow> snd s t = cluster_entry t))"

lemma roles_step: "roles n s \<Longrightarrow> rlc_step bulk pkgs n s s' \<Longrightarrow> roles n s'"
proof -
  assume r: "roles n s" and st: "rlc_step bulk pkgs n s s'"
  from st show ?thesis
  proof cases
    case (core_moves t pcs w pc' w')
    have "(\<exists>pc. pcs t = Producer pc) = (\<exists>pc. pc' = Producer pc)"
      using core_moves(4) by (cases "pcs t") (auto split: prod.splits)
    moreover have "(\<exists>pc. pcs t = Consumer pc) = (\<exists>pc. pc' = Consumer pc)"
      using core_moves(4) by (cases "pcs t") (auto split: prod.splits)
    ultimately show ?thesis using r core_moves(1-3) by (auto simp: roles_def)
  qed
qed

lemma roles_initial: "rlc_initial bulk s \<Longrightarrow> roles n s"
  by (auto simp: rlc_initial_def roles_def cluster_entry_def)

interpretation role: inductive_invariant "rlc_start bulk pkgs" "rlc_step bulk pkgs n" "roles n"
  for bulk pkgs n
  by unfold_locales (auto simp: rlc_start_def intro: roles_initial roles_step)

lemma reach_J:
  assumes "reach (rlc_start bulk pkgs) (rlc_step bulk pkgs n) (w, pcs)"
  obtains k ts ss L P ord where "rlc_J bulk pkgs (w, pcs) k ts ss L P ord" "pkgs_ok bulk pkgs" "roles n (w, pcs)"
  using rlc.reach_inv [OF assms] role.reach_inv [OF assms] by (auto simp: rlc_inv_def)

lemma consumer_no_pkg: "pkg_of (holding (Consumer pc)) = None"
  by (cases pc) auto

text \<open>Once every producer has finished, every package is on a node.\<close>

lemma all_placed:
  assumes J: "rlc_J bulk pkgs (w, pcs) k ts ss L P ord" and r: "roles n (w, pcs)" and n: "2 < n"
    and fin: "\<And>t. 2 \<le> t \<Longrightarrow> t < n \<Longrightarrow> pcs t = Producer PExit" and i: "i < length pkgs"
  shows "\<exists>x. P i = On x"
proof -
  have pkg: "pkg_inv pkgs (pdcp_pkd_ptr w) (gmem w) (holding \<circ> pcs) L P"
    and po: "\<forall>t. pc_ok pkgs (pdcp_pkd_ptr w) (pcs t)" using J by (auto simp: rlc_J_def)
  have "pcs 2 = Producer PExit" by (rule fin) (use n in auto)
  then have "pdcp_pkd_ptr w = int (length pkgs)" using po by (metis pc_ok.simps(5))
  then have "P i \<noteq> NotYet" using pkg_notyet [OF pkg, of i] i by simp
  moreover have "P i \<noteq> InHand t" for t
  proof -
    have "pkg_of (holding (pcs t)) = None"
    proof (cases "t < 2")
      case True
      then show ?thesis using r consumer_no_pkg by (auto simp: roles_def)
    next
      case False
      show ?thesis
      proof (cases "t < n")
        case True
        then show ?thesis using fin False by simp
      next
        case False2: False
        then have "pcs t = cluster_entry t" using r by (simp add: roles_def)
        then show ?thesis by (simp add: cluster_entry_def)
      qed
    qed
    then show ?thesis using pkg_hand [OF pkg, of i t] by simp
  qed
  ultimately show ?thesis by (cases "P i") auto
qed

section \<open>Properties\<close>

text \<open>
  C1: in every reachable state of the RLC system, with any number of cores and any
  interleaving, each node on the sent list describes a package whose 1360 bytes are in its
  target buffer: the sequence number in the first word and the source words behind it; and
  different nodes on the sent list carry different sequence numbers below \<open>vtNext\<close>.
\<close>

theorem rlc_sent_packets_arrived:
  assumes "reach (rlc_start bulk pkgs) (rlc_step bulk pkgs n) (w, pcs)"
  shows "\<exists>ss sn. list_rep (sent_list (rlc_ctx w), gmem w) ss \<and> counts (sent_list (rlc_ctx w), gmem w) ss \<and>
    inj_on sn (set ss) \<and>
    (\<forall>x\<in>set ss. sn x < unat (vtNext (rlc_ctx w)) \<and>
       (\<exists>i<length pkgs. node_pkg (gmem w) x (pkgs ! i) \<and> arrived (gmem w) (pkgs ! i) (of_nat (sn x))))"
proof -
  obtain k ts ss L P ord where J: "rlc_J bulk pkgs (w, pcs) k ts ss L P ord" and ok: "pkgs_ok bulk pkgs"
    and r: "roles n (w, pcs)"
    by (rule reach_J [OF assms])
  note f = J_facts [OF J]
  have ss: "list_ok (sent_list (rlc_ctx w), gmem w) ss" and loc: "loc_inv bulk (holding \<circ> pcs) k ts ss L"
    and pkg: "pkg_inv pkgs (pdcp_pkd_ptr w) (gmem w) (holding \<circ> pcs) L P"
    and num: "num_inv (vtNext (rlc_ctx w)) (holding \<circ> pcs) L P ord"
    and cp: "copy_inv pkgs (gmem w) (holding \<circ> pcs) L P ord"
    using J by (auto simp: rlc_J_def mem_inv_def)
  have len: "unat (vtNext (rlc_ctx w)) = length ord"
    using num f(9) ok by (simp add: num_inv_def pkgs_ok_def)
  have Lx: "L x = InSent" if "x \<in> set ss" for x using loc that by (simp add: loc_inv_def)
  have ex: "\<exists>j<length ord. P (ord ! j) = On x" if "x \<in> set ss" for x
  proof -
    have "live (holding \<circ> pcs) L x" using Lx [OF that] by (simp add: live_def)
    then obtain i where i: "P i = On x" using pkg_live [OF pkg, of x] by blast
    moreover have "numbered (holding \<circ> pcs) L x" using Lx [OF that] by (simp add: numbered_def)
    ultimately have "i \<in> set ord" using num by (auto simp: num_inv_def)
    then show ?thesis using i by (metis in_set_conv_nth)
  qed
  define sn where "sn x = (LEAST j. j < length ord \<and> P (ord ! j) = On x)" for x
  have sn: "sn x < length ord \<and> P (ord ! sn x) = On x" if "x \<in> set ss" for x
    unfolding sn_def using ex [OF that] by (rule LeastI_ex)
  have "inj_on sn (set ss)"
  proof (rule inj_onI)
    fix x y assume "x \<in> set ss" "y \<in> set ss" "sn x = sn y"
    then show "x = y" using sn [of x] sn [of y] by (metis pkg_loc.inject(2))
  qed
  moreover have "arrived (gmem w) (pkgs ! (ord ! sn x)) (of_nat (sn x))" if "x \<in> set ss" for x
    using cp sn [OF that] Lx [OF that] by (auto simp: copy_inv_def moved_node_def)
  moreover have "node_pkg (gmem w) x (pkgs ! (ord ! sn x))" if "x \<in> set ss" for x
    using pkg_node [OF pkg] sn [OF that] by blast
  moreover have "ord ! sn x < length pkgs" if "x \<in> set ss" for x
    using f(7) sn [OF that] by blast
  ultimately show ?thesis
    using ss sn len by (intro exI [of _ ss] exI [of _ sn]) (auto simp: list_ok_def)
qed

text \<open>
  C2: when all cores have left their loops and the to-send list is empty, nothing is lost:
  every package has arrived at its target exactly once, and the sequence numbers used are
  \<open>0\<close> to \<open>NUM_PKGS - 1\<close>, each for one package.
\<close>

theorem rlc_complete_when_drained:
  assumes "reach (rlc_start bulk pkgs) (rlc_step bulk pkgs n) (w, pcs)" "2 < n"
    and "\<forall>t<n. pcs t = Consumer CExit \<or> pcs t = Producer PExit"
    and "list_head (to_send (rlc_ctx w)) = NULL"
  shows "\<exists>ord. distinct ord \<and> set ord = {..<length pkgs} \<and> vtNext (rlc_ctx w) = of_nat (length pkgs) \<and>
    (\<forall>j<length pkgs. arrived (gmem w) (pkgs ! (ord ! j)) (of_nat j))"
proof -
  obtain k ts ss L P ord where J: "rlc_J bulk pkgs (w, pcs) k ts ss L P ord" and ok: "pkgs_ok bulk pkgs"
    and r: "roles n (w, pcs)"
    by (rule reach_J [OF assms(1)])
  have loc: "loc_inv bulk (holding \<circ> pcs) k ts ss L" and ts: "list_rep (to_send (rlc_ctx w), gmem w) ts"
    and pkg: "pkg_inv pkgs (pdcp_pkd_ptr w) (gmem w) (holding \<circ> pcs) L P"
    and num: "num_inv (vtNext (rlc_ctx w)) (holding \<circ> pcs) L P ord"
    and cp: "copy_inv pkgs (gmem w) (holding \<circ> pcs) L P ord"
    using J by (auto simp: rlc_J_def mem_inv_def list_ok_def)
  have "ts = []" using ts assms(4) by (cases ts) (auto simp: list_rep_def)
  have prod: "pcs t = Producer PExit" if "2 \<le> t" "t < n" for t
  proof -
    obtain pc where "pcs t = Producer pc" using r \<open>2 \<le> t\<close> by (auto simp: roles_def)
    moreover have "pcs t = Consumer CExit \<or> pcs t = Producer PExit" using assms(3) \<open>t < n\<close> by blast
    ultimately show ?thesis by auto
  qed
  have idle: "holding (pcs t) = Idle" for t
  proof (cases "t < n")
    case True
    then show ?thesis using assms(3) by auto
  next
    case False
    then have "pcs t = cluster_entry t" using r by (simp add: roles_def)
    then show ?thesis by (simp add: cluster_entry_def)
  qed
  have sent: "\<exists>x. P i = On x \<and> L x = InSent" if il: "i < length pkgs" for i
  proof -
    obtain x where x: "P i = On x" using all_placed [OF J r assms(2) prod il] by blast
    then have "live (holding \<circ> pcs) L x" using pkg_live [OF pkg] by blast
    then have "L x = InToSend \<or> L x = InSent" using idle by (auto simp: live_def)
    moreover have "L x \<noteq> InToSend" using loc \<open>ts = []\<close> by (auto simp: loc_inv_def)
    ultimately show ?thesis using x by blast
  qed
  have all: "i \<in> set ord" if "i < length pkgs" for i
    using sent [OF that] num by (auto simp: num_inv_def numbered_def)
  then have set: "set ord = {..<length pkgs}" using J_facts(8) [OF J] by auto
  have d: "distinct ord" using num by (simp add: num_inv_def)
  have len: "length ord = length pkgs" using distinct_card [OF d] set by simp
  have "arrived (gmem w) (pkgs ! (ord ! j)) (of_nat j)" if "j < length ord" for j
  proof -
    have "ord ! j < length pkgs" using nth_mem [OF that] set by auto
    then obtain x where "P (ord ! j) = On x" "L x = InSent" using sent by blast
    then show ?thesis using cp that by (auto simp: copy_inv_def moved_node_def)
  qed
  then show ?thesis
    using d set len num by (intro exI [of _ ord]) (simp add: num_inv_def)
qed

text \<open>
  The acknowledgement branch of \<open>consumer\<close> is dead: it waits for 10000 nodes on
  the sent list, but the pool has 1024 pages. In no reachable state is a core in it, no page
  is ever freed, and so the free list stays empty.
\<close>

theorem rlc_never_acknowledges:
  assumes "reach (rlc_start bulk pkgs) (rlc_step bulk pkgs n) (w, pcs)"
  shows "free_list (mm_ctx w) = NULL \<and> sint (sduNum (sent_list (rlc_ctx w))) < 10000 \<and>
    (\<forall>t x a i. pcs t \<noteq> Consumer (CAck a i) \<and> pcs t \<noteq> Consumer (CFree x a i) \<and>
       pcs t \<noteq> Consumer (CAckStore a))"
proof -
  obtain k ts ss L P ord where J: "rlc_J bulk pkgs (w, pcs) k ts ss L P ord" and ok: "pkgs_ok bulk pkgs"
    and r: "roles n (w, pcs)"
    by (rule reach_J [OF assms])
  have po: "pc_ok pkgs (pdcp_pkd_ptr w) (pcs t)" for t using J by (auto simp: rlc_J_def)
  have "free_list (mm_ctx w) = NULL" using J by (simp add: rlc_J_def mem_inv_def mm_rep_def)
  moreover have "pcs t \<noteq> Consumer (CAck a i) \<and> pcs t \<noteq> Consumer (CFree x a i) \<and>
      pcs t \<noteq> Consumer (CAckStore a)" for t x a i
    using po [of t] by auto
  ultimately show ?thesis using sent_small [OF J] by blast
qed

text \<open>
  Since pages are never freed, the producers cannot all finish when there are more
  packages than pages: at least one of them retries \<open>mm_alloc\<close> for ever.
\<close>

theorem rlc_hangs_beyond_pool:
  assumes "reach (rlc_start bulk pkgs) (rlc_step bulk pkgs n) (w, pcs)" "2 < n" "1024 < length pkgs"
  shows "\<exists>t. 2 \<le> t \<and> t < n \<and> pcs t \<noteq> Producer PExit"
proof (rule ccontr)
  assume "\<not> ?thesis"
  then have prod: "pcs t = Producer PExit" if "2 \<le> t" "t < n" for t using that by blast
  obtain k ts ss L P ord where J: "rlc_J bulk pkgs (w, pcs) k ts ss L P ord" and ok: "pkgs_ok bulk pkgs"
    and r: "roles n (w, pcs)"
    by (rule reach_J [OF assms(1)])
  have pkg: "pkg_inv pkgs (pdcp_pkd_ptr w) (gmem w) (holding \<circ> pcs) L P"
    using J by (auto simp: rlc_J_def)
  have "\<forall>i\<in>{..<length pkgs}. \<exists>x. P i = On x" using all_placed [OF J r assms(2) prod] by blast
  then obtain node where node: "\<And>i. i < length pkgs \<Longrightarrow> P i = On (node i)" by (metis lessThan_iff)
  have "inj_on node {..<length pkgs}"
    by (rule inj_onI) (metis node pkg_uniq [OF pkg] lessThan_iff)
  moreover have "node ` {..<length pkgs} \<subseteq> pool_pages bulk" using node J_facts(6) [OF J] by auto
  ultimately have "length pkgs \<le> card (pool_pages bulk)"
    using card_inj_on_le [OF _ _ pool_finite] by fastforce
  then show False using page_card [of bulk] assms(3) by simp
qed


section \<open>Executing a schedule\<close>

definition rlc_move :: "u32 \<Rightarrow> pdcp_pkg list \<Rightarrow> nat \<Rightarrow> rlc_sys \<Rightarrow> rlc_sys" where
  "rlc_move bulk pkgs t s = (case s of (w, pcs) \<Rightarrow>
     case core_step bulk pkgs t (pcs t) w of (pc', w') \<Rightarrow> (w', pcs(t := pc')))"

definition rlc_run :: "u32 \<Rightarrow> pdcp_pkg list \<Rightarrow> nat list \<Rightarrow> rlc_sys \<Rightarrow> rlc_sys" where
  "rlc_run bulk pkgs sched s = fold (rlc_move bulk pkgs) sched s"

lemma rlc_move_step: "t < n \<Longrightarrow> rlc_step bulk pkgs n s (rlc_move bulk pkgs t s)"
  by (cases s) (auto simp: rlc_move_def split: prod.splits intro: core_moves)

lemma rlc_run_reach:
  "reach (rlc_start bulk pkgs) (rlc_step bulk pkgs n) s \<Longrightarrow> (\<forall>t\<in>set sched. t < n) \<Longrightarrow>
   reach (rlc_start bulk pkgs) (rlc_step bulk pkgs n) (rlc_run bulk pkgs sched s)"
proof (induction sched arbitrary: s)
  case (Cons t sched)
  have "reach (rlc_start bulk pkgs) (rlc_step bulk pkgs n) (rlc_move bulk pkgs t s)"
    by (rule reach_step [OF Cons.prems(1) rlc_move_step]) (use Cons.prems(2) in simp)
  then show ?case using Cons by (simp add: rlc_run_def)
qed (simp add: rlc_run_def)

lemma region_disjoint:
  assumes "m \<le> unat (b - a)" "n \<le> unat (a - b)"
  shows "region a m \<inter> region b n = {}"
proof -
  have False if "unat (x - a) < m" "unat (x - b) < n" for x
  proof -
    have "unat (x - a) = unat ((x - b) + (b - a))" by simp
    also have "\<dots> = (unat (x - b) + unat (b - a)) mod 4294967296" by (rule unat_add_u32)
    finally have e: "unat (x - a) = (unat (x - b) + unat (b - a)) mod 4294967296" .
    show False
    proof (cases "unat (x - b) + unat (b - a) < 4294967296")
      case True
      then show ?thesis using e that assms by simp
    next
      case False
      have "b \<noteq> a" using that False unat_u32_less [of "x - b"] by auto
      then have "unat (b - a) = 4294967296 - unat (a - b)" by (rule unat_diff_swap)
      then show ?thesis using False that assms unat_u32_less [of "a - b"] by linarith
    qed
  qed
  then show ?thesis by (auto simp: region_def)
qed

definition pkg0 :: pdcp_pkg where
  "pkg0 = \<lparr>user_id = 0, src_addr = 0xA0D965C0, tgt_addr = 0xB0D965C0, pkg_length = 1360\<rparr>"

lemma pkgs_ok_pkg0: "pkgs_ok bulk0 [pkg0]"
proof -
  have "region (tgt_addr pkg0) 1360 \<inter> region bulk0 24576 = {}"
    "region (src_addr pkg0) 1360 \<inter> region bulk0 24576 = {}"
    "region (tgt_addr pkg0) 1360 \<inter> region (src_addr pkg0) 1360 = {}"
    by (rule region_disjoint; simp add: pkg0_def bulk0_def)+
  then show ?thesis by (simp add: pkgs_ok_def)
qed

text \<open>A world before initialisation, and after it.\<close>

definition ctx0 :: rlc_context where
  "ctx0 = \<lparr>rlcId = 0, cellId = 0, pollPdu = 0, pollByte = 0, pduWithoutPoll = 0, byteWithoutPoll = 0,
     to_send = list_init, vtNextAck = 0, vtNext = 0, sent_list = list_init, mm_ctx_ptr = 0\<rparr>"

definition rlc_world0 :: rlc_world where
  "rlc_world0 = rlc_init 0 0 0 \<lparr>rlc_ctx = ctx0, pdcp_pkd_ptr = 0, producer_done = 0,
     mm_ctx = mm_init bulk0, gmem = (\<lambda>_. 0), vstate = (\<lambda>_. (0, \<lambda>_. 0))\<rparr>"

lemma rlc_start0: "pkgs_ok bulk0 pkgs \<Longrightarrow> rlc_start bulk0 pkgs (rlc_world0, cluster_entry)"
proof -
  assume ok: "pkgs_ok bulk0 pkgs"
  define w where "w = \<lparr>rlc_ctx = ctx0, pdcp_pkd_ptr = 0, producer_done = 0,
     mm_ctx = mm_init bulk0, gmem = (\<lambda>_. 0), vstate = (\<lambda>_. (0, \<lambda>_. 0))\<rparr>"
  have "rlc_world0 = rlc_init 0 0 0 (w\<lparr>mm_ctx := mm_init bulk0\<rparr>)"
    by (simp add: rlc_world0_def w_def)
  then show ?thesis
    using ok pool_ok_bulk0 unfolding rlc_start_def rlc_initial_def by auto
qed

lemmas run_simps = rlc_run_def rlc_move_def rlc_world0_def rlc_init_def cluster_entry_def
  pdcp_receive_pkg_def list_pop_front_def list_push_back_def list_init_def mm_alloc_def mm_init_def
  PAGE_SIZE_def BUFFER_SIZE_def

text \<open>
  C26: \<open>producer_done\<close> is set by the first producer that finds no package, not by the
  last one, and the consumers read the list before the flag. So a packet can be stranded:
  with one package and two producers there is a run in which all four cores leave their
  loops while the only packet is still on the to-send list and was never sent.
\<close>

theorem rlc_can_strand_a_packet:
  "\<exists>w pcs. reach (rlc_start bulk0 [pkg0]) (rlc_step bulk0 [pkg0] 4) (w, pcs) \<and>
     pcs 0 = Consumer CExit \<and> pcs 1 = Consumer CExit \<and>
     pcs 2 = Producer PExit \<and> pcs 3 = Producer PExit \<and>
     list_head (to_send (rlc_ctx w)) \<noteq> NULL \<and> vtNext (rlc_ctx w) = 0"
proof -
  define s where "s = rlc_run bulk0 [pkg0] [2, 3, 3, 0, 0, 1, 1, 2, 2, 2, 2, 2] (rlc_world0, cluster_entry)"
  have "reach (rlc_start bulk0 [pkg0]) (rlc_step bulk0 [pkg0] 4) s"
    unfolding s_def
  proof (rule rlc_run_reach)
    show "reach (rlc_start bulk0 [pkg0]) (rlc_step bulk0 [pkg0] 4) (rlc_world0, cluster_entry)"
      by (rule reach_start) (rule rlc_start0 [OF pkgs_ok_pkg0])
  qed simp
  moreover have "snd s 0 = Consumer CExit" "snd s 1 = Consumer CExit"
    "snd s 2 = Producer PExit" "snd s 3 = Producer PExit"
    "list_head (to_send (rlc_ctx (fst s))) \<noteq> NULL" "vtNext (rlc_ctx (fst s)) = 0"
    unfolding s_def by (simp_all add: run_simps bulk0_def)
  ultimately show ?thesis by (intro exI [of _ "fst s"] exI [of _ "snd s"]) simp
qed


section \<open>Witnesses\<close>

lemma copy_packet_ctx [simp]:
  "rlc_ctx (copy_packet t d s sn w) = rlc_ctx w" "mm_ctx (copy_packet t d s sn w) = mm_ctx w"
  "pdcp_pkd_ptr (copy_packet t d s sn w) = pdcp_pkd_ptr w"
  "producer_done (copy_packet t d s sn w) = producer_done w"
  by (simp_all add: copy_packet_def Let_def)

lemma reach_world0:
  "pkgs_ok bulk0 pkgs \<Longrightarrow> reach (rlc_start bulk0 pkgs) (rlc_step bulk0 pkgs n) (rlc_world0, cluster_entry)"
  by (rule reach_start) (rule rlc_start0)

text \<open>A run that delivers the only package and in which all cores finish.\<close>

definition good_run :: rlc_sys where
  "good_run = rlc_run bulk0 [pkg0]
     [2, 2, 2, 2, 2, 2, 0, 0, 0, 0, 0, 0, 0, 0, 0, 1, 1] (rlc_world0, cluster_entry)"

lemma good_run_reach: "reach (rlc_start bulk0 [pkg0]) (rlc_step bulk0 [pkg0] 3) good_run"
  unfolding good_run_def by (rule rlc_run_reach [OF reach_world0 [OF pkgs_ok_pkg0]]) simp

theorem rlc_sent_packets_arrived_witness:
  "\<exists>x ss. list_rep (sent_list (rlc_ctx (fst good_run)), gmem (fst good_run)) (x # ss) \<and>
    node_pkg (gmem (fst good_run)) x pkg0 \<and> arrived (gmem (fst good_run)) pkg0 0"
proof -
  have "reach (rlc_start bulk0 [pkg0]) (rlc_step bulk0 [pkg0] 3) (fst good_run, snd good_run)"
    using good_run_reach by simp
  from rlc_sent_packets_arrived [OF this] obtain ss sn
    where rep: "list_rep (sent_list (rlc_ctx (fst good_run)), gmem (fst good_run)) ss"
      and arr: "\<forall>x\<in>set ss. sn x < unat (vtNext (rlc_ctx (fst good_run))) \<and>
        (\<exists>i<length [pkg0]. node_pkg (gmem (fst good_run)) x ([pkg0] ! i) \<and>
           arrived (gmem (fst good_run)) ([pkg0] ! i) (of_nat (sn x)))" by blast
  have "list_head (sent_list (rlc_ctx (fst good_run))) \<noteq> NULL"
    unfolding good_run_def by (simp add: run_simps bulk0_def)
  with rep obtain x xs where ss: "ss = x # xs" by (cases ss) (auto simp: list_rep_def)
  have "vtNext (rlc_ctx (fst good_run)) = 1"
    unfolding good_run_def by (simp add: run_simps bulk0_def)
  with arr ss have "sn x = 0" "node_pkg (gmem (fst good_run)) x pkg0"
    "arrived (gmem (fst good_run)) pkg0 (of_nat (sn x))" by auto
  with rep ss show ?thesis by auto
qed

theorem rlc_complete_when_drained_witness:
  "arrived (gmem (fst good_run)) pkg0 0"
proof -
  have r: "reach (rlc_start bulk0 [pkg0]) (rlc_step bulk0 [pkg0] 3) (fst good_run, snd good_run)"
    using good_run_reach by simp
  have lt3: "(\<forall>t<3. Q t) \<longleftrightarrow> Q 0 \<and> Q 1 \<and> Q 2" for Q :: "nat \<Rightarrow> bool"
    by (simp add: numeral_eq_Suc less_Suc_eq all_conj_distrib imp_conjL [symmetric])
  have e: "\<forall>t<3. snd good_run t = Consumer CExit \<or> snd good_run t = Producer PExit"
    unfolding lt3 good_run_def by (simp add: run_simps bulk0_def)
  have h: "list_head (to_send (rlc_ctx (fst good_run))) = NULL"
    unfolding good_run_def by (simp add: run_simps bulk0_def)
  obtain ord where "set ord = {..<length [pkg0]}"
    "\<forall>j<length [pkg0]. arrived (gmem (fst good_run)) ([pkg0] ! (ord ! j)) (of_nat j)" "distinct ord"
    using rlc_complete_when_drained [OF r _ e h] by auto
  moreover from this have "length ord = 1" using distinct_card [of ord] by simp
  moreover from calculation have "ord ! 0 \<in> {..<1}" using nth_mem [of 0 ord] by simp
  ultimately show ?thesis by simp
qed

theorem rlc_never_acknowledges_witness: "free_list (mm_ctx (fst good_run)) = NULL"
proof -
  have "reach (rlc_start bulk0 [pkg0]) (rlc_step bulk0 [pkg0] 3) (fst good_run, snd good_run)"
    using good_run_reach by simp
  from rlc_never_acknowledges [OF this] show ?thesis by blast
qed

lemma region_shift:
  assumes "n \<le> unat (x - y) + a" "unat (x - y) + a + m \<le> 4294967296" "0 < unat (x - y) + a" "0 < m"
  shows "region (x + of_nat a) m \<inter> region y n = {}"
proof (rule region_disjoint)
  have d: "unat (x + of_nat a - (y + of_nat 0)) = unat (x - y) + a - 0"
    by (rule unat_shift_diff) (use assms in auto)
  then show "n \<le> unat (x + of_nat a - y)" using assms by simp
  have "x + of_nat a \<noteq> y" using d assms(3) by auto
  then show "m \<le> unat (y - (x + of_nat a))"
    using unat_diff_swap [of y "x + of_nat a"] d assms by simp
qed

definition pkgs1025 :: "pdcp_pkg list" where
  "pkgs1025 = map (\<lambda>i. \<lparr>user_id = 0, src_addr = 0xA0000000, tgt_addr = 0xB0000000 + of_nat (1360 * i),
     pkg_length = 1360\<rparr>) [0..<1025]"

lemma pkgs_ok_1025: "pkgs_ok bulk0 pkgs1025"
proof -
  have 1: "region (0xB0000000 + of_nat (1360 * i)) 1360 \<inter> region bulk0 24576 = {}" if "i < 1025" for i
    by (rule region_shift) (use that in \<open>simp_all add: bulk0_def\<close>)
  have 2: "region (0xB0000000 + of_nat (1360 * i)) 1360 \<inter> region 0xA0000000 1360 = {}" if "i < 1025" for i
    by (rule region_shift) (use that in simp_all)
  have 3: "region 0xA0000000 1360 \<inter> region bulk0 24576 = {}"
    by (rule region_disjoint) (simp_all add: bulk0_def)
  have lt: "region (0xB0000000 + of_nat (1360 * j)) 1360 \<inter> region (0xB0000000 + of_nat (1360 * i)) 1360 = {}"
    if "i < j" "j < 1025" for i j
  proof -
    have e: "(0xB0000000 :: u32) + of_nat (1360 * j) = 0xB0000000 + of_nat (1360 * i) + of_nat (1360 * (j - i))"
      using that by (simp add: of_nat_diff algebra_simps)
    show ?thesis unfolding e by (rule region_shift) (use that in simp_all)
  qed
  have 4: "region (0xB0000000 + of_nat (1360 * i)) 1360 \<inter> region (0xB0000000 + of_nat (1360 * j)) 1360 = {}"
    if "i < 1025" "j < 1025" "i \<noteq> j" for i j
    using lt [of i j] lt [of j i] that by (cases "i < j") auto
  show ?thesis
    unfolding pkgs_ok_def using 1 2 3 4 by (auto simp: pkgs1025_def simp del: of_nat_mult)
qed

theorem rlc_hangs_beyond_pool_witness:
  "\<exists>t. 2 \<le> t \<and> t < 4 \<and> cluster_entry t \<noteq> Producer PExit"
proof -
  have "1024 < length pkgs1025" by (simp add: pkgs1025_def)
  from rlc_hangs_beyond_pool [OF reach_world0 [OF pkgs_ok_1025, of 4] _ this] show ?thesis by simp
qed

end
