(* ===== verification/Barrier.thy ===== *)
theory Barrier
  imports Prelude
begin

text \<open>
  The software barriers of \<open>barrier.c\<close>: \<open>snrt_barrier\<close>, and
  \<open>snrt_cluster_sw_barrier\<close> and \<open>snrt_global_barrier\<close>, which have the same body with
  the number of cores of the cluster or of the system. A hart performs one access to the
  shared counters per step; harts call the barrier again and again.
\<close>

section \<open>One access of one hart\<close>

text \<open>
  \<open>BRead p\<close>: the previous iteration \<open>p\<close> has been read, the hart is about to add
  itself; \<open>BReset\<close>: it was the last one, about to clear the counter; \<open>BBump\<close>:
  about to advance the iteration; \<open>BWait p\<close>: in the waiting loop.
\<close>

datatype barrier_pc = BIdle | BRead u32 | BReset | BBump | BWait u32

record barrier_mem =
  barrier :: u32
  barrier_iteration :: u32

fun snrt_barrier :: "u32 \<Rightarrow> barrier_pc \<Rightarrow> barrier_mem \<Rightarrow> barrier_pc \<times> barrier_mem" where
  "snrt_barrier n BIdle b = (BRead (barrier_iteration b), b)"
| "snrt_barrier n (BRead prev_it) b =
     (let b = b\<lparr>barrier := barrier b + 1\<rparr>
      in (if barrier b = n then BReset else BWait prev_it, b))"
| "snrt_barrier n BReset b = (BBump, b\<lparr>barrier := 0\<rparr>)"
| "snrt_barrier n BBump b = (BIdle, b\<lparr>barrier_iteration := barrier_iteration b + 1\<rparr>)"
| "snrt_barrier n (BWait prev_it) b =
     (if prev_it = barrier_iteration b then BWait prev_it else BIdle, b)"

definition snrt_cluster_sw_barrier :: "u32 \<Rightarrow> barrier_pc \<Rightarrow> barrier_mem \<Rightarrow> barrier_pc \<times> barrier_mem" where
  "snrt_cluster_sw_barrier cluster_core_num pc b = snrt_barrier cluster_core_num pc b"

definition snrt_global_barrier :: "u32 \<Rightarrow> barrier_pc \<Rightarrow> barrier_mem \<Rightarrow> barrier_pc \<times> barrier_mem" where
  "snrt_global_barrier global_core_num pc b = snrt_barrier global_core_num pc b"

section \<open>The system\<close>

text \<open>
  \<open>entered t\<close> and \<open>passed t\<close> count how often hart \<open>t\<close> has added itself and how
  often it has returned; they observe the run and do not influence it.
\<close>

record barrier_sys =
  bmem :: barrier_mem
  bpc :: "nat \<Rightarrow> barrier_pc"
  entered :: "nat \<Rightarrow> nat"
  passed :: "nat \<Rightarrow> nat"

definition hart_moves :: "nat \<Rightarrow> nat \<Rightarrow> barrier_sys \<Rightarrow> barrier_sys" where
  "hart_moves n t s = (case snrt_barrier (of_nat n) (bpc s t) (bmem s) of (pc, b) \<Rightarrow>
     s\<lparr>bmem := b, bpc := (bpc s)(t := pc),
       entered := (if \<exists>p. bpc s t = BRead p then (entered s)(t := entered s t + 1) else entered s),
       passed := (if bpc s t \<noteq> BIdle \<and> pc = BIdle then (passed s)(t := passed s t + 1) else passed s)\<rparr>)"

inductive barrier_step :: "nat \<Rightarrow> barrier_sys \<Rightarrow> barrier_sys \<Rightarrow> bool" for n where
  hart_step: "t < n \<Longrightarrow> barrier_step n s (hart_moves n t s)"

definition barrier_start :: "barrier_sys \<Rightarrow> bool" where
  "barrier_start s \<longleftrightarrow> barrier (bmem s) = 0 \<and> barrier_iteration (bmem s) = 0 \<and>
     (\<forall>t. bpc s t = BIdle \<and> entered s t = 0 \<and> passed s t = 0)"

section \<open>The invariant\<close>

text \<open>
  In generation \<open>g\<close> a hart is before the barrier, waiting in this generation, or still to
  notice that the previous one was completed.
\<close>

fun hart_ok :: "nat \<Rightarrow> barrier_pc \<Rightarrow> nat \<Rightarrow> nat \<Rightarrow> bool" where
  "hart_ok g BIdle e p \<longleftrightarrow> e = g \<and> p = g"
| "hart_ok g (BRead it) e p \<longleftrightarrow> it = of_nat g \<and> e = g \<and> p = g"
| "hart_ok g (BWait it) e p \<longleftrightarrow>
     it = of_nat g \<and> e = g + 1 \<and> p = g \<or> 0 < g \<and> it = of_nat (g - 1) \<and> e = g \<and> p = g - 1"
| "hart_ok g BReset e p \<longleftrightarrow> e = g + 1 \<and> p = g"
| "hart_ok g BBump e p \<longleftrightarrow> e = g + 1 \<and> p = g"

definition arrived_in :: "nat \<Rightarrow> nat \<Rightarrow> barrier_sys \<Rightarrow> nat set" where
  "arrived_in n g s = {t. t < n \<and> entered s t = g + 1}"

definition phase_ok :: "nat \<Rightarrow> nat \<Rightarrow> barrier_sys \<Rightarrow> bool" where
  "phase_ok n g s \<longleftrightarrow>
     (\<forall>t<n. bpc s t \<noteq> BReset \<and> bpc s t \<noteq> BBump) \<and> card (arrived_in n g s) < n \<and>
       barrier (bmem s) = of_nat (card (arrived_in n g s))
   \<or> (\<exists>t<n. bpc s t = BReset \<and> (\<forall>u<n. u \<noteq> t \<longrightarrow> bpc s u = BWait (of_nat g)) \<and> arrived_in n g s = {..<n})
   \<or> (\<exists>t<n. bpc s t = BBump \<and> (\<forall>u<n. u \<noteq> t \<longrightarrow> bpc s u = BWait (of_nat g)) \<and> arrived_in n g s = {..<n} \<and>
        barrier (bmem s) = 0)"

definition barrier_inv :: "nat \<Rightarrow> barrier_sys \<Rightarrow> bool" where
  "barrier_inv n s \<longleftrightarrow> (\<exists>g. barrier_iteration (bmem s) = of_nat g \<and>
     (\<forall>t<n. hart_ok g (bpc s t) (entered s t) (passed s t)) \<and> phase_ok n g s)"

lemma of_nat_pred_neq: "0 < g \<Longrightarrow> (of_nat (g - 1) :: u32) \<noteq> of_nat g"
  by (cases g) auto

lemma arrived_subset: "arrived_in n g s \<subseteq> {..<n}"
  by (auto simp: arrived_in_def)

lemma barrier_inv_start: "0 < n \<Longrightarrow> barrier_start s \<Longrightarrow> barrier_inv n s"
  unfolding barrier_inv_def
  by (intro exI [of _ 0]) (auto simp: barrier_start_def phase_ok_def arrived_in_def)

lemma all_arrived: "card (arrived_in n g s) = n \<Longrightarrow> arrived_in n g s = {..<n}"
  using card_subset_eq [OF _ arrived_subset, of n g s] by simp

lemma barrier_inv_step:
  assumes n: "n < 4294967296" and inv: "barrier_inv n s" and t: "t < n"
  shows "barrier_inv n (hart_moves n t s)"
proof -
  obtain g where it: "barrier_iteration (bmem s) = of_nat g"
    and ok: "\<And>u. u < n \<Longrightarrow> hart_ok g (bpc s u) (entered s u) (passed s u)" and ph: "phase_ok n g s"
    using inv by (auto simp: barrier_inv_def)
  let ?s = "hart_moves n t s"
  show ?thesis
  proof (cases "bpc s t")
    case BIdle
    have s': "?s = s\<lparr>bpc := (bpc s)(t := BRead (of_nat g))\<rparr>"
      using BIdle by (simp add: hart_moves_def it)
    have "arrived_in n g ?s = arrived_in n g s" by (simp add: s' arrived_in_def)
    moreover have "\<not> (\<exists>v<n. bpc s v = BReset \<or> bpc s v = BBump)"
    proof -
      have "t \<notin> arrived_in n g s" using ok [OF t] BIdle by (simp add: arrived_in_def)
      then have "arrived_in n g s \<noteq> {..<n}" using t by auto
      then show ?thesis using ph by (auto simp: phase_ok_def)
    qed
    ultimately have "phase_ok n g ?s" using ph by (auto simp: phase_ok_def s')
    then show ?thesis
      unfolding barrier_inv_def using it ok BIdle ok [OF t] by (intro exI [of _ g]) (auto simp: s')
  next
    case (BRead it')
    have e: "it' = of_nat g" "entered s t = g" "passed s t = g" using ok [OF t] BRead by auto
    then have "t \<notin> arrived_in n g s" by (simp add: arrived_in_def)
    then have nf: "arrived_in n g s \<noteq> {..<n}" using t by auto
    then have ph1: "\<forall>u<n. bpc s u \<noteq> BReset \<and> bpc s u \<noteq> BBump" "card (arrived_in n g s) < n"
      "barrier (bmem s) = of_nat (card (arrived_in n g s))"
      using ph by (auto simp: phase_ok_def)
    let ?c = "Suc (card (arrived_in n g s))"
    have b1: "barrier (bmem s) + 1 = of_nat ?c" using ph1 by simp
    have last: "barrier (bmem s) + 1 = of_nat n \<longleftrightarrow> ?c = n"
      unfolding b1 by (rule of_nat_u32_eq_iff) (use ph1(2) n in auto)
    define pc where "pc = (if ?c = n then BReset else BWait (of_nat g))"
    have s': "?s = s\<lparr>bmem := (bmem s)\<lparr>barrier := of_nat ?c\<rparr>, bpc := (bpc s)(t := pc),
        entered := (entered s)(t := g + 1)\<rparr>"
      using BRead last by (simp add: hart_moves_def e pc_def Let_def ph1(3) add.commute)
    have arr: "arrived_in n g ?s = insert t (arrived_in n g s)" using t by (auto simp: s' arrived_in_def)
    have card: "card (arrived_in n g ?s) = ?c"
      unfolding arr using \<open>t \<notin> arrived_in n g s\<close> finite_subset [OF arrived_subset] by simp
    have "phase_ok n g ?s"
    proof (cases "?c = n")
      case True
      then have all: "arrived_in n g ?s = {..<n}" using all_arrived card by simp
      have "bpc s u = BWait (of_nat g)" if "u < n" "u \<noteq> t" for u
      proof -
        have "u \<in> arrived_in n g ?s" using that all by simp
        then have "entered s u = g + 1" using that by (simp add: s' arrived_in_def)
        then show ?thesis using ok [OF that(1)] ph1(1) that(1) by (cases "bpc s u") auto
      qed
      then show ?thesis using all t True by (auto simp: phase_ok_def s' pc_def)
    next
      case False
      then have "card (arrived_in n g ?s) < n" using card ph1(2) by simp
      moreover have "barrier (bmem ?s) = of_nat (card (arrived_in n g ?s))" by (simp add: card) (simp add: s')
      moreover have "\<forall>u<n. bpc ?s u \<noteq> BReset \<and> bpc ?s u \<noteq> BBump"
        using ph1(1) False by (simp add: s' pc_def)
      ultimately show ?thesis unfolding phase_ok_def by blast
    qed
    moreover have "\<forall>u<n. hart_ok g (bpc ?s u) (entered ?s u) (passed ?s u)"
      using ok e by (simp add: s' pc_def)
    ultimately show ?thesis
      unfolding barrier_inv_def using it by (intro exI [of _ g]) (simp add: s')
  next
    case BReset
    have s': "?s = s\<lparr>bmem := (bmem s)\<lparr>barrier := 0\<rparr>, bpc := (bpc s)(t := BBump)\<rparr>"
      using BReset by (simp add: hart_moves_def)
    have "\<forall>u<n. u \<noteq> t \<longrightarrow> bpc s u = BWait (of_nat g)" "arrived_in n g s = {..<n}"
      using ph t BReset unfolding phase_ok_def by (metis barrier_pc.distinct)+
    moreover have "arrived_in n g ?s = arrived_in n g s" by (simp add: s' arrived_in_def)
    ultimately have "phase_ok n g ?s" using t unfolding phase_ok_def by (auto simp: s')
    then show ?thesis
      unfolding barrier_inv_def using it ok BReset ok [OF t] by (intro exI [of _ g]) (auto simp: s')
  next
    case BBump
    have s': "?s = s\<lparr>bmem := (bmem s)\<lparr>barrier_iteration := of_nat (g + 1)\<rparr>, bpc := (bpc s)(t := BIdle),
        passed := (passed s)(t := passed s t + 1)\<rparr>"
      using BBump by (simp add: hart_moves_def it add.commute)
    have w: "\<forall>u<n. u \<noteq> t \<longrightarrow> bpc s u = BWait (of_nat g)" and all: "arrived_in n g s = {..<n}"
      and b0: "barrier (bmem s) = 0"
      using ph t BBump unfolding phase_ok_def by (metis barrier_pc.distinct)+
    have ent: "entered s u = g + 1" if "u < n" for u using all that by (auto simp: arrived_in_def)
    then have none: "arrived_in n (g + 1) ?s = {}" by (auto simp: arrived_in_def s')
    have "phase_ok n (g + 1) ?s"
      unfolding phase_ok_def none using t w b0 by (auto simp: s')
    moreover have "hart_ok (g + 1) (bpc ?s u) (entered ?s u) (passed ?s u)" if "u < n" for u
      using that w ent [OF that] ok [OF that] ok [OF t] BBump of_nat_pred_neq [of g]
      by (cases "u = t") (auto simp: s')
    ultimately show ?thesis
      unfolding barrier_inv_def by (intro exI [of _ "g + 1"]) (simp add: s')
  next
    case (BWait it')
    show ?thesis
    proof (cases "it' = of_nat g")
      case True
      then have "?s = s" using BWait by (simp add: hart_moves_def it fun_upd_idem)
      then show ?thesis using inv by simp
    next
      case False
      have e: "0 < g" "entered s t = g" "passed s t = g - 1" using ok [OF t] BWait False by auto
      have s': "?s = s\<lparr>bpc := (bpc s)(t := BIdle), passed := (passed s)(t := g)\<rparr>"
        using BWait False e by (simp add: hart_moves_def it)
      have "t \<notin> arrived_in n g s" using e by (simp add: arrived_in_def)
      then have "arrived_in n g s \<noteq> {..<n}" using t by auto
      moreover have "arrived_in n g ?s = arrived_in n g s" by (simp add: s' arrived_in_def)
      ultimately have "phase_ok n g ?s" using ph unfolding phase_ok_def by (auto simp: s')
      then show ?thesis
        unfolding barrier_inv_def using it ok e by (intro exI [of _ g]) (auto simp: s')
    qed
  qed
qed


definition barrier_begin :: "nat \<Rightarrow> barrier_sys \<Rightarrow> bool" where
  "barrier_begin n s \<longleftrightarrow> 0 < n \<and> n < 4294967296 \<and> barrier_start s"

interpretation bar: inductive_invariant "barrier_begin n" "barrier_step n"
    "\<lambda>s. n < 4294967296 \<and> barrier_inv n s" for n
  by unfold_locales
    (auto simp: barrier_begin_def elim!: barrier_step.cases intro: barrier_inv_start barrier_inv_step)

lemma hart_ok_bounds: "hart_ok g pc e p \<Longrightarrow> p \<le> g \<and> g \<le> e \<and> e \<le> p + 1"
  by (cases "(g, pc, e, p)" rule: hart_ok.cases) auto

section \<open>Properties\<close>

text \<open>
  C17: the barrier separates: with \<open>n\<close> harts calling it over and over, in any
  interleaving, no hart has returned from it more often than every other hart has entered
  it, so nobody leaves a round before all harts have arrived in it; and no hart is more than
  one round ahead.
\<close>

theorem barrier_separates:
  assumes "reach (barrier_begin n) (barrier_step n) s" "t < n" "u < n"
  shows "passed s t \<le> entered s u \<and> entered s t \<le> passed s u + 2 \<and> entered s t \<le> passed s t + 1"
proof -
  obtain g where ok: "\<And>v. v < n \<Longrightarrow> hart_ok g (bpc s v) (entered s v) (passed s v)"
    using bar.reach_inv [OF assms(1)] by (auto simp: barrier_inv_def)
  show ?thesis
    using hart_ok_bounds [OF ok [OF assms(2)]] hart_ok_bounds [OF ok [OF assms(3)]] by linarith
qed

text \<open>
  C28: the barrier does not deadlock: whenever all harts are inside it, at least one of them
  can take a step that is not another turn of its waiting loop.
\<close>

theorem barrier_progress:
  assumes "reach (barrier_begin n) (barrier_step n) s" "0 < n" "\<forall>t<n. bpc s t \<noteq> BIdle"
  shows "\<exists>t<n. hart_moves n t s \<noteq> s \<and> (\<forall>p. bpc s t = BWait p \<longrightarrow> bpc (hart_moves n t s) t = BIdle)"
proof (rule ccontr)
  assume stuck: "\<not> ?thesis"
  obtain g where it: "barrier_iteration (bmem s) = of_nat g"
    and ok: "\<And>u. u < n \<Longrightarrow> hart_ok g (bpc s u) (entered s u) (passed s u)" and ph: "phase_ok n g s"
    using bar.reach_inv [OF assms(1)] by (auto simp: barrier_inv_def)
  have w: "bpc s t = BWait (of_nat g)" if t: "t < n" for t
  proof (rule ccontr)
    assume nw: "bpc s t \<noteq> BWait (of_nat g)"
    have "bpc (hart_moves n t s) t \<noteq> bpc s t \<and> (\<forall>p. bpc s t = BWait p \<longrightarrow> bpc (hart_moves n t s) t = BIdle)"
      using nw assms(3) t by (cases "bpc s t") (auto simp: hart_moves_def it Let_def)
    then show False using stuck t by metis
  qed
  have "entered s t = g + 1" if "t < n" for t
  proof -
    have "hart_ok g (BWait (of_nat g)) (entered s t) (passed s t)"
      using ok [OF that] w [OF that] by (simp only:)
    then show ?thesis
      unfolding hart_ok.simps using of_nat_pred_neq [of g] by metis
  qed
  then have "arrived_in n g s = {..<n}" by (auto simp: arrived_in_def)
  then show False using ph w assms(2) by (auto simp: phase_ok_def)
qed

text \<open>Three harts of which one is late.\<close>

definition barrier0 :: barrier_sys where
  "barrier0 = \<lparr>bmem = \<lparr>barrier = 0, barrier_iteration = 0\<rparr>, bpc = (\<lambda>_. BIdle), entered = (\<lambda>_. 0), passed = (\<lambda>_. 0)\<rparr>"

definition barrier_run :: "nat list \<Rightarrow> barrier_sys" where
  "barrier_run ts = fold (hart_moves 3) ts barrier0"

lemma barrier_run_reach: "\<forall>t\<in>set ts. t < 3 \<Longrightarrow> reach (barrier_begin 3) (barrier_step 3) (barrier_run ts)"
proof (induction ts rule: rev_induct)
  case Nil
  show ?case by (rule reach_start) (simp add: barrier_begin_def barrier_start_def barrier_run_def barrier0_def)
next
  case (snoc t ts)
  then have "reach (barrier_begin 3) (barrier_step 3) (barrier_run ts)" by simp
  moreover have "barrier_run (ts @ [t]) = hart_moves 3 t (barrier_run ts)" by (simp add: barrier_run_def)
  ultimately show ?case using snoc.prems hart_step [of t 3 "barrier_run ts"] by (auto intro: reach_step)
qed

theorem barrier_separates_witness:
  "passed (barrier_run [0, 0, 1, 1, 2, 2, 2, 2, 0]) 0 = 1 \<and>
   passed (barrier_run [0, 0, 1, 1, 2, 2, 2, 2, 0]) 0 \<le> entered (barrier_run [0, 0, 1, 1, 2, 2, 2, 2, 0]) 1"
proof
  show "passed (barrier_run [0, 0, 1, 1, 2, 2, 2, 2, 0]) 0 = 1"
    by (simp add: barrier_run_def barrier0_def hart_moves_def Let_def)
  have "\<forall>t\<in>set [0, 0, 1, 1, 2, 2, 2, 2, 0]. t < (3 :: nat)" by simp
  from barrier_separates [OF barrier_run_reach [OF this], of 0 1]
  show "passed (barrier_run [0, 0, 1, 1, 2, 2, 2, 2, 0]) 0 \<le> entered (barrier_run [0, 0, 1, 1, 2, 2, 2, 2, 0]) 1"
    by simp
qed

theorem barrier_progress_witness:
  "\<exists>t<3. hart_moves 3 t (barrier_run [0, 0, 1, 1, 2]) \<noteq> barrier_run [0, 0, 1, 1, 2]"
proof -
  have r: "\<forall>t\<in>set [0, 0, 1, 1, 2]. t < (3 :: nat)" by simp
  have lt3: "(\<forall>t<3. Q t) \<longleftrightarrow> Q 0 \<and> Q 1 \<and> Q 2" for Q :: "nat \<Rightarrow> bool"
    by (simp add: numeral_eq_Suc less_Suc_eq all_conj_distrib imp_conjL [symmetric])
  have "\<forall>t<3. bpc (barrier_run [0, 0, 1, 1, 2]) t \<noteq> BIdle"
    unfolding lt3 by (simp add: barrier_run_def barrier0_def hart_moves_def Let_def)
  from barrier_progress [OF barrier_run_reach [OF r] _ this] show ?thesis by auto
qed

section \<open>A barrier that is not shared\<close>

text \<open>
  The counters of \<open>snrt_cluster_sw_barrier\<close> lie in the team structure, which the start-up code
  puts at the top of the cluster memory. A hart that has these counters to itself, as when that
  memory is private to each core, never leaves the barrier of a cluster of two or more cores.
\<close>

definition alone_in_barrier :: "nat \<Rightarrow> barrier_pc \<times> barrier_mem \<Rightarrow> barrier_pc \<times> barrier_mem" where
  "alone_in_barrier n = (\<lambda>(pc, b). snrt_cluster_sw_barrier (of_nat n) pc b)"

lemma private_sw_barrier_hangs:
  assumes "2 \<le> n" "n < 4294967296" "barrier b = 0"
  shows "fst ((alone_in_barrier n ^^ k) (BIdle, b)) = BIdle \<longleftrightarrow> k = 0"
proof -
  have n1: "(1 :: u32) \<noteq> of_nat n" using of_nat_u32_eq_iff [of 1 n] assms(1,2) by simp
  have "(alone_in_barrier n ^^ Suc (Suc k)) (BIdle, b) =
      (BWait (barrier_iteration b), b\<lparr>barrier := 1\<rparr>)" for k
    using assms(3) n1 by (induction k) (simp_all add: alone_in_barrier_def snrt_cluster_sw_barrier_def Let_def)
  moreover have "fst ((alone_in_barrier n ^^ 1) (BIdle, b)) \<noteq> BIdle"
    by (simp add: alone_in_barrier_def snrt_cluster_sw_barrier_def)
  ultimately show ?thesis by (cases k; cases "k - 1") (auto simp del: funpow.simps)
qed

end
