(* ===== verification/RtAlloc.thy ===== *)
theory RtAlloc
  imports Prelude
begin

text \<open>
  The bump allocators of the runtime, \<open>alloc.c\<close>: \<open>snrt_l1alloc\<close>,
  \<open>snrt_l1alloc_reset\<close>, \<open>snrt_l3alloc\<close> and the address computation of
  \<open>snrt_alloc_init\<close>. All arithmetic is that of the source, modulo \<open>2 ^ 32\<close>.
\<close>

section \<open>Rounding\<close>

definition MIN_CHUNK_SIZE :: u32 where
  "MIN_CHUNK_SIZE = 8"

definition ALIGN_UP :: "u32 \<Rightarrow> u32 \<Rightarrow> u32" where
  "ALIGN_UP addr chunk = (addr + chunk - 1) AND NOT (chunk - 1)"

definition ALIGN_DOWN :: "u32 \<Rightarrow> u32 \<Rightarrow> u32" where
  "ALIGN_DOWN addr chunk = addr AND NOT (chunk - 1)"

section \<open>The allocators\<close>

record snrt_allocator_inst =
  base :: u32
  alloc_size :: u32
  next_free :: u32

record snrt_allocator =
  l1 :: snrt_allocator_inst
  l3 :: snrt_allocator_inst

definition snrt_l1alloc :: "u32 \<Rightarrow> snrt_allocator \<Rightarrow> u32 \<times> snrt_allocator" where
  "snrt_l1alloc sz al =
     (let alloc = l1 al;
          sz = ALIGN_UP sz MIN_CHUNK_SIZE
      in if base alloc + alloc_size alloc < next_free alloc + sz then (0, al)
         else (next_free alloc, al\<lparr>l1 := alloc\<lparr>next_free := next_free alloc + sz\<rparr>\<rparr>))"

definition snrt_l1alloc_reset :: "snrt_allocator \<Rightarrow> snrt_allocator" where
  "snrt_l1alloc_reset al = al\<lparr>l1 := (l1 al)\<lparr>next_free := base (l1 al)\<rparr>\<rparr>"

definition snrt_l3alloc :: "u32 \<Rightarrow> snrt_allocator \<Rightarrow> u32 \<times> snrt_allocator" where
  "snrt_l3alloc sz al =
     (next_free (l3 al), al\<lparr>l3 := (l3 al)\<lparr>next_free := next_free (l3 al) + sz\<rparr>\<rparr>)"

text \<open>
  \<open>start\<close> and \<open>mem_end\<close> are the bounds of the cluster memory, 64 bit wide in the team
  structure; \<open>edram\<close> is the value of the word at the linker symbol \<open>_edram\<close>.
\<close>

definition snrt_alloc_init :: "u64 \<Rightarrow> u64 \<Rightarrow> u32 \<Rightarrow> u32 \<Rightarrow> snrt_allocator" where
  "snrt_alloc_init start mem_end edram l3off =
     (let b1 = ALIGN_UP (ucast start) MIN_CHUNK_SIZE;
          b3 = ALIGN_UP (edram + l3off) MIN_CHUNK_SIZE
      in \<lparr>l1 = \<lparr>base = b1, alloc_size = ucast (mem_end - start), next_free = b1\<rparr>,
          l3 = \<lparr>base = b3, alloc_size = 0, next_free = b3\<rparr>\<rparr>)"

section \<open>Rounding lemmas\<close>

lemma unat_and_not7: "unat (x AND NOT 7 :: u32) = unat x div 8 * 8"
proof -
  have 7: "(7 :: u32) = mask 3" by (simp add: mask_eq_exp_minus_1)
  have "x AND NOT 7 = push_bit 3 (drop_bit 3 x)"
    unfolding 7 by (simp add: bit_eq_iff bit_simps) auto
  then have "unat (x AND NOT 7) = unat (drop_bit 3 x) * 8 mod 4294967296"
    by (simp add: push_bit_eq_mult unat_word_ariths)
  moreover have "unat x div 8 * 8 < 4294967296" using unat_u32_less [of x] by linarith
  ultimately show ?thesis by (simp add: drop_bit_eq_div unat_div)
qed

lemma ALIGN_DOWN8: "unat (ALIGN_DOWN x MIN_CHUNK_SIZE) = unat x div 8 * 8"
  using unat_and_not7 [of x] by (simp add: ALIGN_DOWN_def MIN_CHUNK_SIZE_def)

lemma ALIGN_UP8:
  "unat (ALIGN_UP x MIN_CHUNK_SIZE) = (if unat x + 7 < 4294967296 then (unat x + 7) div 8 * 8 else 0)"
proof -
  have e: "x + 8 - 1 = x + 7" by (simp add: algebra_simps)
  have "unat (x + 7) = (if unat x + 7 < 4294967296 then unat x + 7 else unat x + 7 - 4294967296)"
    using unat_u32_less [of x] by (simp add: unat_add_u32 mod_if)
  then show ?thesis
    using unat_and_not7 [of "x + 7"] unat_u32_less [of x]
    by (simp add: ALIGN_UP_def MIN_CHUNK_SIZE_def e)
qed

definition round8 :: "nat \<Rightarrow> nat" where
  "round8 n = (n + 7) div 8 * 8"

lemma round8_bounds: "n \<le> round8 n" "round8 n < n + 8" "8 dvd round8 n"
  unfolding round8_def by (linarith, linarith, simp)

section \<open>Allocating more than once\<close>

primrec alloc_run :: "(u32 \<Rightarrow> 'a \<Rightarrow> u32 \<times> 'a) \<Rightarrow> u32 list \<Rightarrow> 'a \<Rightarrow> u32 list \<times> 'a" where
  "alloc_run alloc [] a = ([], a)"
| "alloc_run alloc (r # rs) a =
     (let (p, a) = alloc r a; (ps, a) = alloc_run alloc rs a in (p # ps, a))"

text \<open>
  What both allocators promise: as long as there is \<open>room\<close> for the requests, a granted
  block starts at the bump pointer, which moves behind it and never back.
\<close>

locale bump_allocator =
  fixes alloc :: "u32 \<Rightarrow> 'a \<Rightarrow> u32 \<times> 'a"
    and bump :: "'a \<Rightarrow> u32"
    and room :: "u32 list \<Rightarrow> 'a \<Rightarrow> bool"
  assumes room_step: "room (r # rs) a \<Longrightarrow> room rs (snd (alloc r a))"
    and granted: "room (r # rs) a \<Longrightarrow> fst (alloc r a) \<noteq> 0 \<Longrightarrow>
      fst (alloc r a) = bump a \<and> unat (bump a) + unat r \<le> unat (bump (snd (alloc r a)))"
    and bump_mono: "room (r # rs) a \<Longrightarrow> unat (bump a) \<le> unat (bump (snd (alloc r a)))"
begin

lemma run_length: "length (fst (alloc_run alloc rs a)) = length rs"
  by (induction rs arbitrary: a) (auto simp: split_beta)

lemma blocks_above:
  "room rs a \<Longrightarrow> j < length rs \<Longrightarrow> fst (alloc_run alloc rs a) ! j \<noteq> 0 \<Longrightarrow>
   unat (bump a) \<le> unat (fst (alloc_run alloc rs a) ! j)"
proof (induction rs arbitrary: a j)
  case (Cons r rs)
  show ?case
  proof (cases j)
    case 0
    then show ?thesis using Cons.prems granted [of r rs a] by (simp add: split_beta)
  next
    case (Suc k)
    then have "unat (bump (snd (alloc r a))) \<le> unat (fst (alloc_run alloc (r # rs) a) ! j)"
      using Cons.IH [OF room_step [OF Cons.prems(1)], of k] Cons.prems by (simp add: split_beta)
    with bump_mono [OF Cons.prems(1)] show ?thesis by linarith
  qed
qed simp

lemma blocks_disjoint:
  "room rs a \<Longrightarrow> i < j \<Longrightarrow> j < length rs \<Longrightarrow> fst (alloc_run alloc rs a) ! i \<noteq> 0 \<Longrightarrow>
   fst (alloc_run alloc rs a) ! j \<noteq> 0 \<Longrightarrow>
   unat (fst (alloc_run alloc rs a) ! i) + unat (rs ! i) \<le> unat (fst (alloc_run alloc rs a) ! j)"
proof (induction rs arbitrary: a i j)
  case (Cons r rs)
  obtain k where j: "j = Suc k" using Cons.prems by (cases j) auto
  show ?case
  proof (cases i)
    case 0
    have "unat (bump (snd (alloc r a))) \<le> unat (fst (alloc_run alloc rs (snd (alloc r a))) ! k)"
      using blocks_above [OF room_step [OF Cons.prems(1)], of k] Cons.prems j by (simp add: split_beta)
    then show ?thesis
      using granted [OF Cons.prems(1)] Cons.prems 0 j by (simp add: split_beta)
  next
    case (Suc h)
    then show ?thesis
      using Cons.IH [OF room_step [OF Cons.prems(1)], of h k] Cons.prems j by (simp add: split_beta)
  qed
qed simp

end

section \<open>The two allocators keep the promise\<close>

definition l1_ok :: "snrt_allocator \<Rightarrow> bool" where
  "l1_ok al \<longleftrightarrow> unat (base (l1 al)) + unat (alloc_size (l1 al)) < 4294967296 \<and>
     unat (base (l1 al)) \<le> unat (next_free (l1 al)) \<and>
     unat (next_free (l1 al)) \<le> unat (base (l1 al)) + unat (alloc_size (l1 al)) \<and>
     8 dvd unat (next_free (l1 al))"

definition l1_room :: "u32 list \<Rightarrow> snrt_allocator \<Rightarrow> bool" where
  "l1_room rs al \<longleftrightarrow> l1_ok al \<and>
     (\<forall>r\<in>set rs. unat (base (l1 al)) + unat (alloc_size (l1 al)) + unat r + 7 < 4294967296)"

definition l3_room :: "u32 list \<Rightarrow> snrt_allocator \<Rightarrow> bool" where
  "l3_room rs al \<longleftrightarrow> unat (next_free (l3 al)) + sum_list (map unat rs) < 4294967296"

lemma l1alloc_eq:
  assumes "l1_room [r] al"
  shows "snrt_l1alloc r al =
    (if unat (next_free (l1 al)) + round8 (unat r) \<le> unat (base (l1 al)) + unat (alloc_size (l1 al))
     then (next_free (l1 al),
           al\<lparr>l1 := (l1 al)\<lparr>next_free := of_nat (unat (next_free (l1 al)) + round8 (unat r))\<rparr>\<rparr>)
     else (0, al))"
proof -
  let ?n = "next_free (l1 al)" and ?a = "ALIGN_UP r MIN_CHUNK_SIZE"
  have room: "unat (base (l1 al)) + unat (alloc_size (l1 al)) + unat r + 7 < 4294967296"
    "unat ?n \<le> unat (base (l1 al)) + unat (alloc_size (l1 al))" "8 dvd unat ?n"
    using assms by (auto simp: l1_room_def l1_ok_def)
  have a: "unat ?a = round8 (unat r)" using room by (simp add: ALIGN_UP8 round8_def)
  have "unat ?n + unat ?a < 4294967296" using a room(1,2) round8_bounds(2) [of "unat r"] by linarith
  then have n: "unat (?n + ?a) = unat ?n + round8 (unat r)" by (simp add: unat_add_u32 a)
  then have w: "?n + ?a = of_nat (unat ?n + round8 (unat r))" by (metis word_unat_eq_iff unat_of_nat_u32 unat_u32_less)
  have l: "unat (base (l1 al) + alloc_size (l1 al)) = unat (base (l1 al)) + unat (alloc_size (l1 al))"
    using room by (simp add: unat_add_u32)
  have c: "base (l1 al) + alloc_size (l1 al) < ?n + ?a \<longleftrightarrow>
      \<not> unat ?n + round8 (unat r) \<le> unat (base (l1 al)) + unat (alloc_size (l1 al))"
    by (simp only: word_less_nat_alt n l not_le)
  show ?thesis unfolding snrt_l1alloc_def Let_def c unfolding w by (simp del: of_nat_add)
qed

lemma l1alloc_keeps_ok:
  assumes "l1_room (r # rs) al"
  shows "l1_room rs (snd (snrt_l1alloc r al)) \<and> base (l1 (snd (snrt_l1alloc r al))) = base (l1 al) \<and>
    alloc_size (l1 (snd (snrt_l1alloc r al))) = alloc_size (l1 al)"
proof -
  have "l1_room [r] al" using assms by (simp add: l1_room_def)
  from l1alloc_eq [OF this] show ?thesis
    using assms round8_bounds [of "unat r"]
    by (auto simp: l1_room_def l1_ok_def simp del: of_nat_add)
qed

interpretation l1_bump: bump_allocator snrt_l1alloc "\<lambda>al. next_free (l1 al)" l1_room
proof
  fix r rs al
  assume room: "l1_room (r # rs) al"
  then have "l1_room [r] al" by (simp add: l1_room_def)
  note eq = l1alloc_eq [OF this]
  have lim: "unat (base (l1 al)) + unat (alloc_size (l1 al)) < 4294967296"
    using room by (simp add: l1_room_def l1_ok_def)
  show "l1_room rs (snd (snrt_l1alloc r al))" using l1alloc_keeps_ok [OF room] by blast
  show "unat (next_free (l1 al)) \<le> unat (next_free (l1 (snd (snrt_l1alloc r al))))"
    unfolding eq using lim by (auto simp del: of_nat_add)
  assume "fst (snrt_l1alloc r al) \<noteq> 0"
  then show "fst (snrt_l1alloc r al) = next_free (l1 al) \<and>
      unat (next_free (l1 al)) + unat r \<le> unat (next_free (l1 (snd (snrt_l1alloc r al))))"
    unfolding eq using lim round8_bounds(1) [of "unat r"] by (auto split: if_splits simp del: of_nat_add)
qed

interpretation l3_bump: bump_allocator snrt_l3alloc "\<lambda>al. next_free (l3 al)" l3_room
  by unfold_locales (auto simp: snrt_l3alloc_def l3_room_def unat_add_u32)

lemma l1_blocks_inside:
  "l1_room rs al \<Longrightarrow> j < length rs \<Longrightarrow> fst (alloc_run snrt_l1alloc rs al) ! j \<noteq> 0 \<Longrightarrow>
   8 dvd unat (fst (alloc_run snrt_l1alloc rs al) ! j) \<and>
   unat (fst (alloc_run snrt_l1alloc rs al) ! j) + unat (rs ! j) \<le> unat (base (l1 al)) + unat (alloc_size (l1 al))"
proof (induction rs arbitrary: al j)
  case (Cons r rs)
  note keep = l1alloc_keeps_ok [OF Cons.prems(1)]
  show ?case
  proof (cases j)
    case 0
    have "l1_room [r] al" using Cons.prems(1) by (simp add: l1_room_def)
    from l1alloc_eq [OF this] show ?thesis
      using Cons.prems 0 round8_bounds(1) [of "unat r"]
      by (auto simp: split_beta l1_room_def l1_ok_def split: if_splits)
  next
    case (Suc k)
    then show ?thesis using Cons.IH [of "snd (snrt_l1alloc r al)" k] Cons.prems keep by (simp add: split_beta)
  qed
qed simp

lemma l1alloc_after_reset:
  assumes "l1_room [r] (snrt_l1alloc_reset al)" "8 dvd unat r" "unat r \<le> unat (alloc_size (l1 al))"
  shows "l1_ok (snd (snrt_l1alloc r (snrt_l1alloc_reset al)))"
    "unat (next_free (l1 (snd (snrt_l1alloc r (snrt_l1alloc_reset al))))) = unat (base (l1 al)) + unat r"
proof -
  show "l1_ok (snd (snrt_l1alloc r (snrt_l1alloc_reset al)))"
    using l1alloc_keeps_ok [OF assms(1)] by (simp add: l1_room_def)
  have "round8 (unat r) = unat r" using assms(2) unfolding round8_def by presburger
  moreover have "unat (base (l1 al)) + unat (alloc_size (l1 al)) < 4294967296"
    using assms(1) by (simp add: l1_room_def l1_ok_def snrt_l1alloc_reset_def)
  ultimately show "unat (next_free (l1 (snd (snrt_l1alloc r (snrt_l1alloc_reset al))))) =
      unat (base (l1 al)) + unat r"
    unfolding l1alloc_eq [OF assms(1)] using assms(3)
    by (simp add: snrt_l1alloc_reset_def del: of_nat_add)
qed

section \<open>Properties\<close>

text \<open>
  C24: \<open>snrt_l1alloc\<close> on every branch: a request is rounded up to a multiple of 8; if it
  fits behind the bump pointer that pointer is returned and moves by the rounded size,
  otherwise the result is null and nothing changes.
\<close>

theorem snrt_l1alloc_result:
  assumes "l1_room [r] al"
  shows "snrt_l1alloc r al =
    (if unat (next_free (l1 al)) + round8 (unat r) \<le> unat (base (l1 al)) + unat (alloc_size (l1 al))
     then (next_free (l1 al),
           al\<lparr>l1 := (l1 al)\<lparr>next_free := of_nat (unat (next_free (l1 al)) + round8 (unat r))\<rparr>\<rparr>)
     else (0, al))"
  by (rule l1alloc_eq [OF assms])

definition tcdm_alloc :: snrt_allocator where
  "tcdm_alloc = snrt_alloc_init 0x10000000 0x10001000 0 4"

lemma tcdm_room: "l1_room [100, 20, 8] tcdm_alloc"
  by (simp add: l1_room_def l1_ok_def tcdm_alloc_def snrt_alloc_init_def ALIGN_UP_def MIN_CHUNK_SIZE_def)

theorem snrt_l1alloc_result_witness:
  "fst (snrt_l1alloc 100 tcdm_alloc) = 0x10000000 \<and>
   next_free (l1 (snd (snrt_l1alloc 100 tcdm_alloc))) = 0x10000068"
proof -
  have "l1_room [100] tcdm_alloc" using tcdm_room by (simp add: l1_room_def)
  from snrt_l1alloc_result [OF this] show ?thesis
    by (simp add: tcdm_alloc_def snrt_alloc_init_def ALIGN_UP_def MIN_CHUNK_SIZE_def round8_def)
qed

text \<open>
  C27: the blocks handed out between two resets: whatever sequence of requests is made, two
  granted blocks never overlap, and every granted L1 block is 8-byte aligned and lies inside
  the allocator's memory. The L3 blocks are disjoint too while their total does not wrap.
\<close>

theorem alloc_blocks_disjoint:
  fixes rs al
  defines "ps \<equiv> fst (alloc_run snrt_l1alloc rs al)" and "qs \<equiv> fst (alloc_run snrt_l3alloc rs al)"
  assumes "l1_room rs al" "l3_room rs al" "i < j" "j < length rs"
  shows "(ps ! i \<noteq> 0 \<longrightarrow> ps ! j \<noteq> 0 \<longrightarrow> unat (ps ! i) + unat (rs ! i) \<le> unat (ps ! j))
    \<and> (ps ! j \<noteq> 0 \<longrightarrow> 8 dvd unat (ps ! j) \<and> unat (base (l1 al)) \<le> unat (ps ! j) \<and>
        unat (ps ! j) + unat (rs ! j) \<le> unat (base (l1 al)) + unat (alloc_size (l1 al)))
    \<and> (qs ! i \<noteq> 0 \<longrightarrow> qs ! j \<noteq> 0 \<longrightarrow> unat (qs ! i) + unat (rs ! i) \<le> unat (qs ! j))"
proof (intro conjI impI)
  have "unat (base (l1 al)) \<le> unat (next_free (l1 al))" using assms(3) by (simp add: l1_room_def l1_ok_def)
  moreover assume "ps ! j \<noteq> 0"
  ultimately show "unat (base (l1 al)) \<le> unat (ps ! j)"
    using l1_bump.blocks_above [OF assms(3,6)] unfolding ps_def by linarith
qed (use l1_bump.blocks_disjoint [OF assms(3,5,6)] l3_bump.blocks_disjoint [OF assms(4,5,6)]
      l1_blocks_inside [OF assms(3,6)] in \<open>simp_all add: ps_def qs_def\<close>)

theorem alloc_blocks_disjoint_witness:
  "l1_room [100, 20, 8] tcdm_alloc \<and> l3_room [100, 20, 8] tcdm_alloc \<and>
   unat (fst (alloc_run snrt_l1alloc [100, 20, 8] tcdm_alloc) ! 0) + 100
     \<le> unat (fst (alloc_run snrt_l1alloc [100, 20, 8] tcdm_alloc) ! 1)"
proof -
  have l3: "l3_room [100, 20, 8] tcdm_alloc"
    by (simp add: l3_room_def tcdm_alloc_def snrt_alloc_init_def ALIGN_UP_def MIN_CHUNK_SIZE_def)
  have nz: "fst (alloc_run snrt_l1alloc [100, 20, 8] tcdm_alloc) ! 0 \<noteq> 0"
    "fst (alloc_run snrt_l1alloc [100, 20, 8] tcdm_alloc) ! 1 \<noteq> 0"
    by (simp_all add: tcdm_alloc_def snrt_alloc_init_def snrt_l1alloc_def ALIGN_UP_def MIN_CHUNK_SIZE_def)
  show ?thesis using alloc_blocks_disjoint [OF tcdm_room l3, of 0 1] nz tcdm_room l3 by simp
qed

text \<open>
  Two ways to be handed memory that is not there. A request of at least
  \<open>2 ^ 32 - 7\<close> bytes is rounded to 0 and answered with the bump pointer, although
  nothing is reserved; and when the cluster memory does not start on a multiple of 8 the
  aligned base is moved up without shortening the size, so the last block may end behind
  the memory.
\<close>

theorem snrt_l1alloc_overruns:
  "snrt_l1alloc 0xFFFFFFF9 tcdm_alloc = (0x10000000, tcdm_alloc) \<and>
   fst (snrt_l1alloc 256 (snrt_alloc_init 0x10000004 0x10000104 0 0)) = 0x10000008"
  by (simp add: tcdm_alloc_def snrt_alloc_init_def snrt_l1alloc_def ALIGN_UP_def MIN_CHUNK_SIZE_def)

text \<open>
  A reset makes the whole L1 memory available again: the next allocation that fits
  gets the base address, whatever was allocated before.
\<close>

theorem snrt_l1alloc_reset_restarts:
  assumes "l1_room rs al" "8 dvd unat (base (l1 al))"
    "round8 (unat r) \<le> unat (alloc_size (l1 al))"
    "unat (base (l1 al)) + unat (alloc_size (l1 al)) + unat r + 7 < 4294967296"
  shows "fst (snrt_l1alloc r (snrt_l1alloc_reset (snd (alloc_run snrt_l1alloc rs al)))) = base (l1 al)"
proof -
  have inv: "l1_room rs al \<Longrightarrow> base (l1 (snd (alloc_run snrt_l1alloc rs al))) = base (l1 al) \<and>
      alloc_size (l1 (snd (alloc_run snrt_l1alloc rs al))) = alloc_size (l1 al)" for rs al
  proof (induction rs arbitrary: al)
    case (Cons r rs)
    then show ?case using l1alloc_keeps_ok [OF Cons.prems] by (simp add: split_beta)
  qed simp
  let ?al = "snrt_l1alloc_reset (snd (alloc_run snrt_l1alloc rs al))"
  have "l1_room [r] ?al"
    using inv [OF assms(1)] assms by (simp add: snrt_l1alloc_reset_def l1_room_def l1_ok_def)
  from l1alloc_eq [OF this] show ?thesis
    using inv [OF assms(1)] assms by (simp add: snrt_l1alloc_reset_def)
qed

theorem snrt_l1alloc_reset_restarts_witness:
  "fst (snrt_l1alloc 4000 (snrt_l1alloc_reset (snd (alloc_run snrt_l1alloc [100, 20, 8] tcdm_alloc))))
     = 0x10000000"
  using snrt_l1alloc_reset_restarts [OF tcdm_room, of 4000]
  by (simp del: alloc_run.simps
      add: tcdm_alloc_def snrt_alloc_init_def ALIGN_UP_def MIN_CHUNK_SIZE_def round8_def)

end
