(* ===== verification/Registers.thy ===== *)
theory Registers
  imports Prelude
begin

text \<open>
  The registers of the cluster peripheral as the runtime sees them:
  \<open>cachepool_peripheral.h\<close>. The register block starts where the cluster memory ends.
\<close>

datatype peripheral_reg =
  HART_SELECT_0 | HART_SELECT_1 | CL_CLINT_SET | CL_CLINT_CLEAR | HW_BARRIER |
  ICACHE_PREFETCH_ENABLE | SPATZ_STATUS | SPATZ_CYCLE | CLUSTER_BOOT_CONTROL | CLUSTER_EOC_EXIT |
  CFG_L1D_SPM | CFG_L1D_INSN | CFG_L1D_TILE_SEL | L1D_SPM_COMMIT | L1D_INSN_COMMIT |
  L1D_FLUSH_STATUS | L1D_PRIVATE | L1D_ADDR | XBAR_OFFSET | XBAR_OFFSET_COMMIT |
  HW_BARRIER_PARTICIPATION_MASK

fun REG_OFFSET :: "peripheral_reg \<Rightarrow> u32" where
  "REG_OFFSET HART_SELECT_0 = 0x0"
| "REG_OFFSET HART_SELECT_1 = 0x4"
| "REG_OFFSET CL_CLINT_SET = 0x8"
| "REG_OFFSET CL_CLINT_CLEAR = 0xc"
| "REG_OFFSET HW_BARRIER = 0x10"
| "REG_OFFSET ICACHE_PREFETCH_ENABLE = 0x14"
| "REG_OFFSET SPATZ_STATUS = 0x18"
| "REG_OFFSET SPATZ_CYCLE = 0x1c"
| "REG_OFFSET CLUSTER_BOOT_CONTROL = 0x20"
| "REG_OFFSET CLUSTER_EOC_EXIT = 0x24"
| "REG_OFFSET CFG_L1D_SPM = 0x28"
| "REG_OFFSET CFG_L1D_INSN = 0x2c"
| "REG_OFFSET CFG_L1D_TILE_SEL = 0x30"
| "REG_OFFSET L1D_SPM_COMMIT = 0x34"
| "REG_OFFSET L1D_INSN_COMMIT = 0x38"
| "REG_OFFSET L1D_FLUSH_STATUS = 0x3c"
| "REG_OFFSET L1D_PRIVATE = 0x40"
| "REG_OFFSET L1D_ADDR = 0x44"
| "REG_OFFSET XBAR_OFFSET = 0x48"
| "REG_OFFSET XBAR_OFFSET_COMMIT = 0x4c"
| "REG_OFFSET HW_BARRIER_PARTICIPATION_MASK = 0x50"

text \<open>The implemented bits of the registers that have a field narrower than the word.\<close>

fun FIELD_MASK :: "peripheral_reg \<Rightarrow> u32" where
  "FIELD_MASK HART_SELECT_0 = 0x3ff"
| "FIELD_MASK HART_SELECT_1 = 0x3ff"
| "FIELD_MASK ICACHE_PREFETCH_ENABLE = 1"
| "FIELD_MASK SPATZ_STATUS = 1"
| "FIELD_MASK CLUSTER_EOC_EXIT = 0xf"
| "FIELD_MASK CFG_L1D_SPM = 0x3ff"
| "FIELD_MASK CFG_L1D_INSN = 0x3"
| "FIELD_MASK L1D_SPM_COMMIT = 1"
| "FIELD_MASK L1D_INSN_COMMIT = 1"
| "FIELD_MASK L1D_FLUSH_STATUS = 1"
| "FIELD_MASK L1D_PRIVATE = 0xf"
| "FIELD_MASK XBAR_OFFSET = 0x1f"
| "FIELD_MASK XBAR_OFFSET_COMMIT = 1"
| "FIELD_MASK HW_BARRIER_PARTICIPATION_MASK = 0xf"
| "FIELD_MASK _ = 0xffffffff"

lemma REG_OFFSET_aligned: "unat (REG_OFFSET r) mod 4 = 0" "unat (REG_OFFSET r) \<le> 0x50"
  by (cases r; simp)+

lemma REG_OFFSET_inj: "REG_OFFSET r = REG_OFFSET q \<longleftrightarrow> r = q"
proof -
  have num: "unat (REG_OFFSET r) div 4 = (case r of HART_SELECT_0 \<Rightarrow> 0 | HART_SELECT_1 \<Rightarrow> 1 |
      CL_CLINT_SET \<Rightarrow> 2 | CL_CLINT_CLEAR \<Rightarrow> 3 | HW_BARRIER \<Rightarrow> 4 | ICACHE_PREFETCH_ENABLE \<Rightarrow> 5 |
      SPATZ_STATUS \<Rightarrow> 6 | SPATZ_CYCLE \<Rightarrow> 7 | CLUSTER_BOOT_CONTROL \<Rightarrow> 8 | CLUSTER_EOC_EXIT \<Rightarrow> 9 |
      CFG_L1D_SPM \<Rightarrow> 10 | CFG_L1D_INSN \<Rightarrow> 11 | CFG_L1D_TILE_SEL \<Rightarrow> 12 | L1D_SPM_COMMIT \<Rightarrow> 13 |
      L1D_INSN_COMMIT \<Rightarrow> 14 | L1D_FLUSH_STATUS \<Rightarrow> 15 | L1D_PRIVATE \<Rightarrow> 16 | L1D_ADDR \<Rightarrow> 17 |
      XBAR_OFFSET \<Rightarrow> 18 | XBAR_OFFSET_COMMIT \<Rightarrow> 19 | HW_BARRIER_PARTICIPATION_MASK \<Rightarrow> 20)" for r
    by (cases r) simp_all
  show ?thesis
  proof
    assume "REG_OFFSET r = REG_OFFSET q"
    then have "unat (REG_OFFSET r) div 4 = unat (REG_OFFSET q) div 4" by simp
    then show "r = q" unfolding num by (cases r; cases q; simp)
  qed simp
qed

end
