(* ===== verification/Team.thy ===== *)
theory Team
  imports RtAlloc Registers
begin

text \<open>
  The team structure of a hart and the queries on it: \<open>team.h\<close>, \<open>team.c\<close> and
  \<open>_snrt_init_team\<close> of \<open>platforms/shared/start.c\<close>. Pointers into memory and to device
  registers are 32-bit words. A division by zero, undefined in C, is the result \<open>None\<close>.
\<close>

section \<open>Data\<close>

record snrt_cluster_bootdata =
  boot_addr :: u32
  core_count :: u32
  hartid_base :: u32
  tcdm_start :: u32
  tcdm_size :: u32
  tcdm_offset :: u32
  global_mem_start :: u64
  global_mem_end :: u64
  tile_count :: u32

record snrt_slice =
  slice_start :: u64
  slice_end :: u64

record snrt_peripherals =
  wakeup :: u32
  perf_counters :: u32
  cl_clint :: u32

record snrt_team_root =
  bootdata :: snrt_cluster_bootdata
  global_core_base_hartid :: u32
  global_core_num :: u32
  cluster_idx :: u32
  cluster_num :: u32
  cluster_core_base_hartid :: u32
  cluster_core_num :: u32
  global_mem :: snrt_slice
  cluster_mem :: snrt_slice
  allocator :: snrt_allocator
  barrier_count :: u32
  barrier_round :: u32
  barrier_reg_ptr :: u32
  barrier_participation_mask_reg_ptr :: u32
  peripherals :: snrt_peripherals

text \<open>
  What a hart keeps: its team structure, the index cached in thread-local storage and the
  CLINT pointer cached by \<open>snrt_int_init\<close>.
\<close>

record hart_team =
  root :: snrt_team_root
  snrt_core_idx :: u32
  clint_p :: u32

definition snrt_slice_len :: "snrt_slice \<Rightarrow> u32" where
  "snrt_slice_len s = ucast (slice_end s - slice_start s)"

section \<open>Initialisation\<close>

definition cluster_global_offset :: u32 where
  "cluster_global_offset = 0x10000000"

text \<open>
  \<open>sizeof(struct putc_buffer)\<close>: a size word padded to 8, eight 64-bit words and 1020
  characters, rounded up to the alignment of 8.
\<close>

definition PUTC_BUFFER_LEN :: nat where
  "PUTC_BUFFER_LEN = 1024 - 4"

definition putc_buffer_size :: nat where
  "putc_buffer_size = (8 + 64 + PUTC_BUFFER_LEN + 7) div 8 * 8"

definition snrt_int_init :: "hart_team \<Rightarrow> hart_team" where
  "snrt_int_init h = h\<lparr>clint_p := cl_clint (peripherals (root h))\<rparr>"

text \<open>
  \<open>old\<close> is the uninitialised memory under the team structure: fields that are not
  written keep whatever was there. The third component of the result is the array of
  buffered console characters, of which the own entry is cleared.
\<close>

definition snrt_init_team ::
  "u32 \<Rightarrow> u32 \<Rightarrow> u32 \<Rightarrow> snrt_cluster_bootdata \<Rightarrow> u32 \<Rightarrow> snrt_team_root \<Rightarrow> (u32 \<Rightarrow> u32) \<Rightarrow>
   (hart_team \<times> (u32 \<Rightarrow> u32)) option" where
  "snrt_init_team hartid core_num spm_start bd edram old putc_sizes =
     (if core_count bd = 0 \<or> core_num = 0 then None
      else
        let mem_start = ucast spm_start;
            mem_end = ucast spm_start + ucast (tcdm_size bd);
            team = old\<lparr>bootdata := bd,
              global_core_base_hartid := hartid_base bd,
              global_core_num := core_count bd,
              cluster_idx := (hartid - hartid_base bd) div core_count bd,
              cluster_num := 0,
              cluster_core_base_hartid := hartid_base bd,
              cluster_core_num := core_num,
              global_mem := \<lparr>slice_start = ucast (ucast (global_mem_start bd) + cluster_global_offset),
                             slice_end = global_mem_end bd\<rparr>,
              cluster_mem := \<lparr>slice_start = mem_start, slice_end = mem_end\<rparr>,
              barrier_reg_ptr := spm_start + tcdm_size bd + REG_OFFSET HW_BARRIER,
              barrier_participation_mask_reg_ptr :=
                spm_start + tcdm_size bd + REG_OFFSET HW_BARRIER_PARTICIPATION_MASK,
              barrier_count := 0,
              barrier_round := 0,
              peripherals := (peripherals old)\<lparr>wakeup := 0,
                cl_clint := spm_start + tcdm_size bd + REG_OFFSET CL_CLINT_SET\<rparr>,
              allocator := snrt_alloc_init mem_start mem_end edram (of_nat putc_buffer_size)\<rparr>;
            h = \<lparr>root = team, snrt_core_idx = (hartid - hartid_base bd) mod core_num, clint_p = 0\<rparr>
        in Some (snrt_int_init h, putc_sizes(hartid := 0)))"

section \<open>Queries\<close>

definition snrt_current_team :: "hart_team \<Rightarrow> snrt_team_root" where
  "snrt_current_team h = root h"

definition snrt_peripherals :: "hart_team \<Rightarrow> snrt_peripherals" where
  "snrt_peripherals h = peripherals (root h)"

definition snrt_global_core_base_hartid :: "hart_team \<Rightarrow> u32" where
  "snrt_global_core_base_hartid h = global_core_base_hartid (root h)"

definition snrt_cluster_core_base_hartid :: "hart_team \<Rightarrow> u32" where
  "snrt_cluster_core_base_hartid h = cluster_core_base_hartid (root h)"

definition snrt_global_core_idx :: "u32 \<Rightarrow> hart_team \<Rightarrow> u32" where
  "snrt_global_core_idx hartid h = hartid - global_core_base_hartid (root h)"

definition snrt_global_core_num :: "hart_team \<Rightarrow> u32" where
  "snrt_global_core_num h = global_core_num (root h)"

definition snrt_cluster_idx :: "hart_team \<Rightarrow> u32" where
  "snrt_cluster_idx h = cluster_idx (root h)"

definition snrt_cluster_num :: "hart_team \<Rightarrow> u32" where
  "snrt_cluster_num h = cluster_num (root h)"

definition snrt_cluster_core_idx :: "hart_team \<Rightarrow> u32" where
  "snrt_cluster_core_idx h = snrt_core_idx h"

definition snrt_cluster_core_num :: "hart_team \<Rightarrow> u32" where
  "snrt_cluster_core_num h = cluster_core_num (root h)"

definition snrt_cluster_tile_num :: "hart_team \<Rightarrow> u32" where
  "snrt_cluster_tile_num h =
     (let n = tile_count (bootdata (root h)) in if n \<noteq> 0 then n else 1)"

definition snrt_cluster_tile_idx :: "hart_team \<Rightarrow> u32 option" where
  "snrt_cluster_tile_idx h =
     (let tiles = snrt_cluster_tile_num h;
          cpt = snrt_cluster_core_num h div tiles
      in if cpt = 0 then None else Some (snrt_cluster_core_idx h div cpt))"

definition snrt_cluster_compute_core_idx :: "hart_team \<Rightarrow> u32" where
  "snrt_cluster_compute_core_idx h = snrt_cluster_core_idx h"

definition snrt_cluster_compute_core_num :: "hart_team \<Rightarrow> u32" where
  "snrt_cluster_compute_core_num h = snrt_cluster_core_num h - 1"

definition snrt_cluster_dm_core_idx :: "hart_team \<Rightarrow> u32" where
  "snrt_cluster_dm_core_idx h = snrt_cluster_core_num h - 1"

definition snrt_cluster_dm_core_num :: "hart_team \<Rightarrow> u32" where
  "snrt_cluster_dm_core_num h = 1"

definition snrt_is_compute_core :: "hart_team \<Rightarrow> bool" where
  "snrt_is_compute_core h \<longleftrightarrow> snrt_cluster_core_idx h < snrt_cluster_core_num h - 1"

definition snrt_is_dm_core :: "hart_team \<Rightarrow> bool" where
  "snrt_is_dm_core h \<longleftrightarrow> \<not> snrt_is_compute_core h"

definition snrt_barrier_reg_ptr :: "hart_team \<Rightarrow> u32" where
  "snrt_barrier_reg_ptr h = barrier_reg_ptr (root h)"

definition snrt_barrier_participation_mask_reg_ptr :: "hart_team \<Rightarrow> u32" where
  "snrt_barrier_participation_mask_reg_ptr h = barrier_participation_mask_reg_ptr (root h)"

definition snrt_global_memory :: "hart_team \<Rightarrow> snrt_slice" where
  "snrt_global_memory h = global_mem (root h)"

definition snrt_cluster_memory :: "hart_team \<Rightarrow> snrt_slice" where
  "snrt_cluster_memory h = cluster_mem (root h)"

text \<open>The store (address and value) that \<open>snrt_wakeup\<close> performs.\<close>

definition snrt_wakeup :: "u32 \<Rightarrow> hart_team \<Rightarrow> u32 \<times> u32" where
  "snrt_wakeup msk h = (wakeup (snrt_peripherals h), msk)"

lemmas team_defs = snrt_current_team_def snrt_peripherals_def snrt_global_core_base_hartid_def
  snrt_cluster_core_base_hartid_def snrt_global_core_idx_def snrt_global_core_num_def
  snrt_cluster_idx_def snrt_cluster_num_def snrt_cluster_core_idx_def snrt_cluster_core_num_def
  snrt_cluster_tile_num_def snrt_cluster_tile_idx_def snrt_cluster_compute_core_idx_def
  snrt_cluster_compute_core_num_def snrt_cluster_dm_core_idx_def snrt_cluster_dm_core_num_def
  snrt_is_compute_core_def snrt_is_dm_core_def snrt_barrier_reg_ptr_def
  snrt_barrier_participation_mask_reg_ptr_def snrt_global_memory_def snrt_cluster_memory_def
  snrt_wakeup_def

section \<open>A whole cluster\<close>

text \<open>
  The team of core \<open>i\<close> of a cluster of \<open>n\<close> cores whose boot data are well formed:
  hart ids do not wrap, the boot data count the same cores as the caller passes, the cluster
  memory starts on a multiple of 8 and it and the registers behind it fit into 32 bits.
\<close>

definition boot_ok :: "snrt_cluster_bootdata \<Rightarrow> u32 \<Rightarrow> nat \<Rightarrow> bool" where
  "boot_ok bd spm_start n \<longleftrightarrow> 0 < n \<and> core_count bd = of_nat n \<and> unat (hartid_base bd) + n < 4294967296 \<and>
     8 dvd unat spm_start \<and> unat spm_start + unat (tcdm_size bd) + 0x54 < 4294967296"

definition core_team :: "snrt_cluster_bootdata \<Rightarrow> u32 \<Rightarrow> u32 \<Rightarrow> snrt_team_root \<Rightarrow> nat \<Rightarrow> nat \<Rightarrow> hart_team" where
  "core_team bd spm_start edram old n i =
     fst (the (snrt_init_team (hartid_base bd + of_nat i) (of_nat n) spm_start bd edram old (\<lambda>_. 7)))"

lemma boot_okD:
  assumes "boot_ok bd spm n"
  shows "n < 4294967296" "0 < n" "(of_nat n :: u32) \<noteq> 0" "core_count bd = of_nat n"
  using assms unat_of_nat_u32 [of n] by (auto simp: boot_ok_def simp del: unat_of_nat_u32)

lemma init_team_Some:
  assumes "boot_ok bd spm n"
  shows "snrt_init_team (hartid_base bd + of_nat i) (of_nat n) spm bd edram old ps \<noteq> None"
  using boot_okD [OF assms] by (simp add: snrt_init_team_def Let_def)

lemma core_team_idx:
  assumes "boot_ok bd spm n" "i < n"
  shows "snrt_cluster_core_idx (core_team bd spm edram old n i) = of_nat i"
    "snrt_cluster_core_num (core_team bd spm edram old n i) = of_nat n"
proof -
  note b = boot_okD [OF assms(1)]
  have "(of_nat i :: u32) mod of_nat n = of_nat i"
    using of_nat_mod_u32 [of i n] b assms(2) by simp
  then show "snrt_cluster_core_idx (core_team bd spm edram old n i) = of_nat i"
    using b by (simp add: core_team_def snrt_init_team_def Let_def team_defs snrt_int_init_def)
  show "snrt_cluster_core_num (core_team bd spm edram old n i) = of_nat n"
    using b by (simp add: core_team_def snrt_init_team_def Let_def team_defs snrt_int_init_def)
qed

lemma core_team_tiles:
  assumes "boot_ok bd spm n"
  shows "snrt_cluster_tile_num (core_team bd spm edram old n i) =
    (if tile_count bd \<noteq> 0 then tile_count bd else 1)"
  using boot_okD [OF assms]
  by (simp add: snrt_cluster_tile_num_def core_team_def snrt_init_team_def Let_def snrt_int_init_def)

section \<open>Properties\<close>

text \<open>
  The roles of the cores of a cluster: core \<open>i\<close> is told index \<open>i\<close>, locally and
  globally, in cluster 0; exactly the last core is the data mover, whose index all cores
  agree on, and the others are compute cores with indices below the number of compute cores.
\<close>

theorem team_roles:
  fixes old edram i
  assumes "boot_ok bd spm n" "i < n"
  defines "h \<equiv> core_team bd spm edram old n i"
  shows "snrt_cluster_core_idx h = of_nat i \<and> snrt_global_core_idx (hartid_base bd + of_nat i) h = of_nat i
    \<and> (snrt_is_dm_core h \<longleftrightarrow> i = n - 1) \<and> (snrt_is_compute_core h \<longleftrightarrow> i < n - 1)
    \<and> snrt_cluster_dm_core_idx h = of_nat (n - 1)
    \<and> (snrt_is_compute_core h \<longrightarrow> snrt_cluster_compute_core_idx h < snrt_cluster_compute_core_num h)
    \<and> snrt_cluster_idx h = 0"
proof -
  note b = boot_okD [OF assms(1)]
  note idx = core_team_idx [OF assms(1,2), of edram old, folded h_def]
  have m: "(of_nat n - 1 :: u32) = of_nat (n - 1)" using b by (simp add: of_nat_diff)
  have u: "unat (of_nat i :: u32) = i" "unat (of_nat (n - 1) :: u32) = n - 1"
    by (rule unat_of_nat_u32, use b assms(2) in linarith)+
  have lt: "(of_nat i :: u32) < of_nat (n - 1) \<longleftrightarrow> i < n - 1"
    unfolding word_less_nat_alt u ..
  have c: "snrt_is_compute_core h \<longleftrightarrow> i < n - 1" unfolding snrt_is_compute_core_def idx m lt ..
  have g: "global_core_base_hartid (root h) = hartid_base bd" "cluster_idx (root h) = of_nat i div of_nat n"
    using b by (simp_all add: h_def core_team_def snrt_init_team_def Let_def snrt_int_init_def)
  have "unat ((of_nat i :: u32) div of_nat n) = 0" using b assms(2) by (simp add: unat_div)
  then have "(of_nat i :: u32) div of_nat n = 0" by (simp add: unat_eq_zero)
  then show ?thesis
    using c assms(2) g m lt
    by (auto simp: snrt_is_dm_core_def idx snrt_global_core_idx_def snrt_cluster_dm_core_idx_def
        snrt_cluster_compute_core_idx_def snrt_cluster_compute_core_num_def snrt_cluster_idx_def)
qed

definition boot0 :: snrt_cluster_bootdata where
  "boot0 = \<lparr>boot_addr = 0x1000, core_count = 8, hartid_base = 16, tcdm_start = 0x10000000,
     tcdm_size = 0x20000, tcdm_offset = 0, global_mem_start = 0x80000000, global_mem_end = 0xC0000000,
     tile_count = 4\<rparr>"

definition blank_root :: snrt_team_root where
  "blank_root = \<lparr>bootdata = boot0, global_core_base_hartid = 0, global_core_num = 0, cluster_idx = 0,
     cluster_num = 0, cluster_core_base_hartid = 0, cluster_core_num = 0,
     global_mem = \<lparr>slice_start = 0, slice_end = 0\<rparr>, cluster_mem = \<lparr>slice_start = 0, slice_end = 0\<rparr>,
     allocator = tcdm_alloc, barrier_count = 0, barrier_round = 0, barrier_reg_ptr = 0,
     barrier_participation_mask_reg_ptr = 0,
     peripherals = \<lparr>wakeup = 0, perf_counters = 0, cl_clint = 0\<rparr>\<rparr>"

lemma boot0_ok: "boot_ok boot0 0x10000000 8"
  by (simp add: boot_ok_def boot0_def)

theorem team_roles_witness:
  "snrt_is_dm_core (core_team boot0 0x10000000 0 blank_root 8 7) \<and>
   snrt_is_compute_core (core_team boot0 0x10000000 0 blank_root 8 3)"
  using team_roles [OF boot0_ok, of 7 0 blank_root] team_roles [OF boot0_ok, of 3 0 blank_root] by simp

text \<open>
  The tile index: when the number of tiles divides the number of cores, the tiles get
  equal blocks of consecutive cores and every index is below the number of tiles.
\<close>

theorem tile_idx_partition:
  fixes old edram i
  assumes "boot_ok bd spm n" "i < n"
  defines "h \<equiv> core_team bd spm edram old n i"
  defines "tiles \<equiv> unat (snrt_cluster_tile_num h)"
  assumes "tiles dvd n"
  shows "snrt_cluster_tile_idx h = Some (of_nat (i div (n div tiles))) \<and> i div (n div tiles) < tiles"
proof -
  note b = boot_okD [OF assms(1)]
  note idx = core_team_idx [OF assms(1,2), of edram old, folded h_def]
  have t: "tiles \<noteq> 0" using assms(5) b by (cases "tiles = 0") auto
  have q: "0 < n div tiles" "n div tiles < 4294967296"
    using b assms(5) t by (auto simp: dvd_div_eq_0_iff intro: le_less_trans [OF div_le_dividend])
  have cpt: "unat ((of_nat n :: u32) div snrt_cluster_tile_num h) = n div tiles"
    using b by (simp add: unat_div tiles_def)
  then have "(of_nat n :: u32) div snrt_cluster_tile_num h = of_nat (n div tiles)"
    by (rule u32_eqI)
  moreover have "(of_nat i :: u32) div of_nat (n div tiles) = of_nat (i div (n div tiles))"
    using b assms(2) q by (intro of_nat_div_u32) auto
  moreover have "(of_nat (n div tiles) :: u32) \<noteq> 0"
    using q unat_of_nat_u32 [of "n div tiles"] by (auto simp del: unat_of_nat_u32)
  moreover have "i div (n div tiles) < tiles"
    using assms(2,5) q by (metis dvd_mult_div_cancel less_mult_imp_div_less)
  ultimately show ?thesis by (simp add: snrt_cluster_tile_idx_def Let_def idx)
qed

theorem tile_idx_partition_witness:
  "snrt_cluster_tile_idx (core_team boot0 0x10000000 0 blank_root 8 5) = Some 2"
proof -
  have t: "unat (snrt_cluster_tile_num (core_team boot0 0x10000000 0 blank_root 8 5)) = 4"
    unfolding core_team_tiles [OF boot0_ok] by (simp add: boot0_def)
  have "(4 :: nat) dvd 8" by simp
  with t tile_idx_partition [OF boot0_ok, of 5 0 blank_root] show ?thesis by simp
qed

text \<open>
  Outside that case the tile index is not usable: with more tiles than cores it divides
  by zero, and when the number of tiles does not divide the number of cores the last cores
  get an index beyond the last tile.
\<close>

theorem tile_idx_misfit:
  "snrt_cluster_tile_idx (core_team (boot0\<lparr>tile_count := 16\<rparr>) 0x10000000 0 blank_root 8 0) = None \<and>
   snrt_cluster_tile_idx (core_team (boot0\<lparr>tile_count := 3\<rparr>) 0x10000000 0 blank_root 8 7) = Some 3"
proof -
  have ok: "boot_ok (boot0\<lparr>tile_count := t\<rparr>) 0x10000000 8" for t
    using boot0_ok by (simp add: boot_ok_def)
  show ?thesis
    unfolding snrt_cluster_tile_idx_def Let_def core_team_tiles [OF ok]
    by (simp add: core_team_idx [OF ok])
qed

text \<open>
  The memory layout after initialisation: the cluster memory has the size of the boot
  data, the L1 allocator covers exactly that memory and satisfies the condition under which
  its blocks are proved disjoint, and the barrier and CLINT registers lie behind it.
\<close>

theorem team_layout:
  fixes old edram i
  assumes "boot_ok bd spm n"
  defines "h \<equiv> core_team bd spm edram old n i"
  shows "snrt_slice_len (snrt_cluster_memory h) = tcdm_size bd
    \<and> l1_ok (allocator (root h)) \<and> base (l1 (allocator (root h))) = spm
    \<and> alloc_size (l1 (allocator (root h))) = tcdm_size bd
    \<and> unat (snrt_barrier_reg_ptr h) = unat spm + unat (tcdm_size bd) + 0x10
    \<and> unat (snrt_barrier_participation_mask_reg_ptr h) = unat spm + unat (tcdm_size bd) + 0x50
    \<and> unat (clint_p h) = unat spm + unat (tcdm_size bd) + 8"
proof -
  note b = boot_okD [OF assms(1)]
  have d: "8 dvd unat spm" "unat spm + unat (tcdm_size bd) + 0x54 < 4294967296"
    using assms(1) by (auto simp: boot_ok_def)
  have "unat spm + 7 < 4294967296 \<or> unat spm = 4294967288" using d unat_u32_less [of spm] by presburger
  then have "unat (ALIGN_UP spm MIN_CHUNK_SIZE) = unat spm"
    using d unfolding ALIGN_UP8 by auto
  then have a: "ALIGN_UP spm MIN_CHUNK_SIZE = spm" by (simp add: word_unat_eq_iff)
  have u: "ucast (ucast w :: u64) = w" for w :: u32 by transfer simp
  have r: "cluster_mem (root h) = \<lparr>slice_start = ucast spm, slice_end = ucast spm + ucast (tcdm_size bd)\<rparr>"
      "barrier_reg_ptr (root h) = spm + tcdm_size bd + 0x10"
      "barrier_participation_mask_reg_ptr (root h) = spm + tcdm_size bd + 0x50"
      "clint_p h = spm + tcdm_size bd + 8"
      "l1 (allocator (root h)) = \<lparr>base = spm, alloc_size = tcdm_size bd, next_free = spm\<rparr>"
    using b by (simp_all add: h_def core_team_def snrt_init_team_def Let_def snrt_int_init_def
        snrt_alloc_init_def a u)
  have s: "unat (spm + tcdm_size bd + k) = unat spm + unat (tcdm_size bd) + unat k"
    if "unat k \<le> 0x50" for k
    using d that by (simp add: unat_add_u32)
  show ?thesis
    using d by (simp add: r s u l1_ok_def snrt_slice_len_def snrt_cluster_memory_def
        snrt_barrier_reg_ptr_def snrt_barrier_participation_mask_reg_ptr_def)
qed

theorem team_layout_witness:
  "l1_ok (allocator (root (core_team boot0 0x10000000 0 blank_root 8 5))) \<and>
   unat (snrt_barrier_reg_ptr (core_team boot0 0x10000000 0 blank_root 8 5)) = 0x10020010"
  using team_layout [OF boot0_ok, of 0 blank_root 5] by (simp add: boot0_def)

end
