(* ===== verification/Peripheral.thy ===== *)
theory Peripheral
  imports Team
begin

text \<open>
  The driver of the L1 cache controller, \<open>l1cache.c\<close>, the kernel timers of
  \<open>tests/benchmark/benchmark.c\<close> and the performance counters of \<open>perf_cnt.c\<close>. Device
  accesses are recorded in order; what the status register will show is an input.
\<close>

section \<open>Device accesses\<close>

datatype mmio = Store u32 u32 | Load u32 u32

text \<open>
  \<open>status\<close> lists what the successive reads of the flush status register will return; a
  wait that runs out of them has not ended and is \<open>None\<close>.
\<close>

record driver =
  hart :: hart_team
  status :: "u32 list"
  events :: "mmio list"

definition reg_ptr :: "driver \<Rightarrow> peripheral_reg \<Rightarrow> u32" where
  "reg_ptr d r = ucast (slice_end (cluster_mem (root (hart d))) + ucast (REG_OFFSET r))"

definition write_reg :: "peripheral_reg \<Rightarrow> u32 \<Rightarrow> driver \<Rightarrow> driver" where
  "write_reg r v d = d\<lparr>events := events d @ [Store (reg_ptr d r) v]\<rparr>"

section \<open>Cache controller\<close>

definition l1d_xbar_commit :: "driver \<Rightarrow> driver" where
  "l1d_xbar_commit d = write_reg XBAR_OFFSET_COMMIT 1 d"

definition l1d_commit :: "driver \<Rightarrow> driver" where
  "l1d_commit d = write_reg L1D_INSN_COMMIT 1 d"

definition l1d_flush :: "driver \<Rightarrow> driver" where
  "l1d_flush d = l1d_commit (write_reg CFG_L1D_INSN 2 d)"

definition l1d_private_flush :: "u32 \<Rightarrow> driver \<Rightarrow> driver" where
  "l1d_private_flush tile d = l1d_commit (write_reg CFG_L1D_TILE_SEL tile (write_reg CFG_L1D_INSN 0 d))"

definition l1d_shared_flush :: "driver \<Rightarrow> driver" where
  "l1d_shared_flush d = l1d_commit (write_reg CFG_L1D_INSN 1 d)"

fun poll_zero :: "u32 \<Rightarrow> u32 list \<Rightarrow> (mmio list \<times> u32 list) option" where
  "poll_zero p [] = None"
| "poll_zero p (v # vs) =
     (if v \<noteq> 0 then (case poll_zero p vs of None \<Rightarrow> None | Some (es, rest) \<Rightarrow> Some (Load p v # es, rest))
      else Some ([Load p v], vs))"

definition l1d_wait :: "driver \<Rightarrow> driver option" where
  "l1d_wait d = (case poll_zero (reg_ptr d L1D_FLUSH_STATUS) (status d) of
     None \<Rightarrow> None
   | Some (es, rest) \<Rightarrow> Some (d\<lparr>events := events d @ es, status := rest\<rparr>))"

definition l1d_init :: "u32 \<Rightarrow> driver \<Rightarrow> driver option" where
  "l1d_init sz d = l1d_wait (l1d_commit (write_reg CFG_L1D_INSN 3 d))"

definition l1d_xbar_config :: "u32 \<Rightarrow> driver \<Rightarrow> driver option" where
  "l1d_xbar_config offset d =
     (let offset = (if 6 < offset then offset else 6);
          d = write_reg XBAR_OFFSET offset d
      in case l1d_wait (l1d_flush d) of None \<Rightarrow> None | Some d \<Rightarrow> Some (l1d_xbar_commit d))"

definition set_allocator :: "snrt_allocator \<Rightarrow> driver \<Rightarrow> driver" where
  "set_allocator al d = d\<lparr>hart := (hart d)\<lparr>root := (root (hart d))\<lparr>allocator := al\<rparr>\<rparr>\<rparr>"

text \<open>
  The number of bytes kept from the allocator, \<open>cache_region * sizeof(double)\<close>: the
  subtraction and the products are unsigned and wrap.
\<close>

definition cache_region_bytes :: "u32 \<Rightarrow> u32" where
  "cache_region_bytes sz = (128 - sz) * 128 * 8"

definition l1d_spm_config :: "u32 \<Rightarrow> driver \<Rightarrow> driver option" where
  "l1d_spm_config sz d = (case l1d_wait (l1d_flush d) of
     None \<Rightarrow> None
   | Some d \<Rightarrow>
       let d = set_allocator (snrt_l1alloc_reset (allocator (root (hart d)))) d;
           (dummy, al) = snrt_l1alloc (cache_region_bytes sz) (allocator (root (hart d)));
           d = set_allocator al d
       in Some (write_reg L1D_SPM_COMMIT 1 (write_reg CFG_L1D_SPM sz d)))"

definition l1d_part :: "u32 \<Rightarrow> driver \<Rightarrow> driver option" where
  "l1d_part sz d = (case l1d_wait (l1d_flush d) of
     None \<Rightarrow> None
   | Some d \<Rightarrow> Some (l1d_commit (write_reg L1D_PRIVATE sz d)))"

definition l1d_addr :: "u32 \<Rightarrow> driver \<Rightarrow> driver" where
  "l1d_addr addr d = l1d_commit (write_reg L1D_ADDR addr d)"

definition set_eoc :: "u32 \<Rightarrow> driver \<Rightarrow> driver" where
  "set_eoc eoc_value d = write_reg CLUSTER_EOC_EXIT eoc_value d"

section \<open>Kernel timers\<close>

definition start_kernel :: "driver \<Rightarrow> driver" where
  "start_kernel d = write_reg SPATZ_STATUS 1 d"

definition stop_kernel :: "driver \<Rightarrow> driver" where
  "stop_kernel d = write_reg SPATZ_STATUS 0 d"

text \<open>\<open>cycles\<close> is what the cycle register shows.\<close>

definition get_perf :: "u32 \<Rightarrow> driver \<Rightarrow> u32 \<times> driver" where
  "get_perf cycles d = (cycles, d\<lparr>events := events d @ [Load (reg_ptr d SPATZ_CYCLE) cycles]\<rparr>)"

definition write_cyc :: "u32 \<Rightarrow> driver \<Rightarrow> driver" where
  "write_cyc cyc d = write_reg SPATZ_CYCLE cyc d"

lemmas driver_defs = l1d_xbar_commit_def l1d_commit_def l1d_flush_def l1d_private_flush_def
  l1d_shared_flush_def l1d_addr_def set_eoc_def start_kernel_def stop_kernel_def get_perf_def
  write_cyc_def

section \<open>Performance counters\<close>

datatype snrt_perf_cnt_type =
  SNRT_PERF_CNT_CYCLES | SNRT_PERF_CNT_TCDM_ACCESSED | SNRT_PERF_CNT_TCDM_CONGESTED |
  SNRT_PERF_CNT_ISSUE_FPU | SNRT_PERF_CNT_ISSUE_FPU_SEQ | SNRT_PERF_CNT_ISSUE_CORE_TO_FPU |
  SNRT_PERF_CNT_RETIRED_INSTR | SNRT_PERF_CNT_RETIRED_LOAD | SNRT_PERF_CNT_RETIRED_I |
  SNRT_PERF_CNT_RETIRED_ACC | SNRT_PERF_CNT_DMA_AW_STALL | SNRT_PERF_CNT_DMA_AR_STALL |
  SNRT_PERF_CNT_DMA_R_STALL | SNRT_PERF_CNT_DMA_W_STALL | SNRT_PERF_CNT_DMA_BUF_W_STALL |
  SNRT_PERF_CNT_DMA_BUF_R_STALL | SNRT_PERF_CNT_DMA_AW_DONE | SNRT_PERF_CNT_DMA_AW_BW |
  SNRT_PERF_CNT_DMA_AR_DONE | SNRT_PERF_CNT_DMA_AR_BW | SNRT_PERF_CNT_DMA_R_DONE |
  SNRT_PERF_CNT_DMA_R_BW | SNRT_PERF_CNT_DMA_W_DONE | SNRT_PERF_CNT_DMA_W_BW |
  SNRT_PERF_CNT_DMA_B_DONE | SNRT_PERF_CNT_DMA_BUSY | SNRT_PERF_CNT_ICACHE_MISS |
  SNRT_PERF_CNT_ICACHE_HIT | SNRT_PERF_CNT_ICACHE_PREFETCH | SNRT_PERF_CNT_ICACHE_DOUBLE_HIT |
  SNRT_PERF_CNT_ICACHE_STALL

text \<open>The enumerators in declaration order; an enumerator's value is its position.\<close>

definition perf_cnt_types :: "snrt_perf_cnt_type list" where
  "perf_cnt_types =
    [SNRT_PERF_CNT_CYCLES, SNRT_PERF_CNT_TCDM_ACCESSED, SNRT_PERF_CNT_TCDM_CONGESTED,
     SNRT_PERF_CNT_ISSUE_FPU, SNRT_PERF_CNT_ISSUE_FPU_SEQ, SNRT_PERF_CNT_ISSUE_CORE_TO_FPU,
     SNRT_PERF_CNT_RETIRED_INSTR, SNRT_PERF_CNT_RETIRED_LOAD, SNRT_PERF_CNT_RETIRED_I,
     SNRT_PERF_CNT_RETIRED_ACC, SNRT_PERF_CNT_DMA_AW_STALL, SNRT_PERF_CNT_DMA_AR_STALL,
     SNRT_PERF_CNT_DMA_R_STALL, SNRT_PERF_CNT_DMA_W_STALL, SNRT_PERF_CNT_DMA_BUF_W_STALL,
     SNRT_PERF_CNT_DMA_BUF_R_STALL, SNRT_PERF_CNT_DMA_AW_DONE, SNRT_PERF_CNT_DMA_AW_BW,
     SNRT_PERF_CNT_DMA_AR_DONE, SNRT_PERF_CNT_DMA_AR_BW, SNRT_PERF_CNT_DMA_R_DONE,
     SNRT_PERF_CNT_DMA_R_BW, SNRT_PERF_CNT_DMA_W_DONE, SNRT_PERF_CNT_DMA_W_BW,
     SNRT_PERF_CNT_DMA_B_DONE, SNRT_PERF_CNT_DMA_BUSY, SNRT_PERF_CNT_ICACHE_MISS,
     SNRT_PERF_CNT_ICACHE_HIT, SNRT_PERF_CNT_ICACHE_PREFETCH, SNRT_PERF_CNT_ICACHE_DOUBLE_HIT,
     SNRT_PERF_CNT_ICACHE_STALL]"

fun position :: "'a \<Rightarrow> 'a list \<Rightarrow> nat" where
  "position x [] = 0"
| "position x (y # ys) = (if x = y then 0 else Suc (position x ys))"

text \<open>The register block: three arrays of 16 words; counters are numbered from 0.\<close>

definition SNRT_PERF_N_CNT :: nat where
  "SNRT_PERF_N_CNT = 16"

record perf_reg =
  enable :: "nat \<Rightarrow> u32"
  hart_select :: "nat \<Rightarrow> u32"
  perf_counter :: "nat \<Rightarrow> u32"

definition snrt_start_perf_counter :: "nat \<Rightarrow> snrt_perf_cnt_type \<Rightarrow> u32 \<Rightarrow> perf_reg \<Rightarrow> perf_reg" where
  "snrt_start_perf_counter c t hart_id p =
     (let p = p\<lparr>hart_select := (hart_select p)(c := hart_select p c OR hart_id)\<rparr>
      in p\<lparr>enable := (enable p)(c := push_bit (position t perf_cnt_types) 1)\<rparr>)"

definition snrt_stop_perf_counter :: "nat \<Rightarrow> perf_reg \<Rightarrow> perf_reg" where
  "snrt_stop_perf_counter c p = p\<lparr>enable := (enable p)(c := 0)\<rparr>"

definition snrt_reset_perf_counter :: "nat \<Rightarrow> perf_reg \<Rightarrow> perf_reg" where
  "snrt_reset_perf_counter c p =
     p\<lparr>enable := (enable p)(c := 0), hart_select := (hart_select p)(c := 0),
       perf_counter := (perf_counter p)(c := 0)\<rparr>"

definition snrt_get_perf_counter :: "nat \<Rightarrow> perf_reg \<Rightarrow> u32" where
  "snrt_get_perf_counter c p = perf_counter p c"

section \<open>Watching the device\<close>

text \<open>
  What the cache controller requires: a new configuration may be committed only when the
  last instruction that was committed is flush-all and the status register has since been
  read as idle. The crossbar and the scratchpad have commit registers of their own; the
  partition (\<open>L1D_PRIVATE\<close>) and its boundary (\<open>L1D_ADDR\<close>) take effect with the commit of the next
  instruction, so that one has to find the cache flushed if either was \<open>touched\<close>. \<open>watch\<close> replays a
  list of accesses against this rule.
\<close>

record monitor =
  insn :: u32
  flushed :: bool
  idle :: bool
  touched :: bool
  conform :: bool

definition commit_insn :: "monitor \<Rightarrow> monitor" where
  "commit_insn m = m\<lparr>conform := (conform m \<and> (touched m \<longrightarrow> flushed m \<and> idle m)),
     flushed := (insn m = 2), idle := False, touched := False\<rparr>"

definition commit_config :: "monitor \<Rightarrow> monitor" where
  "commit_config m = m\<lparr>conform := (conform m \<and> flushed m \<and> idle m)\<rparr>"

fun watch_step :: "u32 \<Rightarrow> mmio \<Rightarrow> monitor \<Rightarrow> monitor" where
  "watch_step b (Store a v) m =
     (if a = b + REG_OFFSET CFG_L1D_INSN then m\<lparr>insn := v\<rparr>
      else if a = b + REG_OFFSET L1D_PRIVATE \<or> a = b + REG_OFFSET L1D_ADDR then m\<lparr>touched := True\<rparr>
      else if a = b + REG_OFFSET L1D_INSN_COMMIT then commit_insn m
      else if a = b + REG_OFFSET XBAR_OFFSET_COMMIT \<or> a = b + REG_OFFSET L1D_SPM_COMMIT then commit_config m
      else m)"
| "watch_step b (Load a v) m = (if a = b + REG_OFFSET L1D_FLUSH_STATUS \<and> v = 0 then m\<lparr>idle := True\<rparr> else m)"

definition watch :: "u32 \<Rightarrow> mmio list \<Rightarrow> monitor" where
  "watch b es = fold (watch_step b) es
     \<lparr>insn = 0, flushed = False, idle = False, touched = False, conform = True\<rparr>"

text \<open>The calls a program can make.\<close>

datatype l1d_call =
  XbarConfig u32 | SpmConfig u32 | Part u32 | Addr u32 | Init u32 | Flush | PrivateFlush u32 |
  SharedFlush | Wait | XbarCommit | Commit | Eoc u32 | StartKernel | StopKernel | WriteCyc u32

fun call :: "l1d_call \<Rightarrow> driver \<Rightarrow> driver option" where
  "call (XbarConfig offset) d = l1d_xbar_config offset d"
| "call (SpmConfig sz) d = l1d_spm_config sz d"
| "call (Part sz) d = l1d_part sz d"
| "call (Addr addr) d = Some (l1d_addr addr d)"
| "call (Init sz) d = l1d_init sz d"
| "call Flush d = Some (l1d_flush d)"
| "call (PrivateFlush tile) d = Some (l1d_private_flush tile d)"
| "call SharedFlush d = Some (l1d_shared_flush d)"
| "call Wait d = l1d_wait d"
| "call XbarCommit d = Some (l1d_xbar_commit d)"
| "call Commit d = Some (l1d_commit d)"
| "call (Eoc v) d = Some (set_eoc v d)"
| "call StartKernel d = Some (start_kernel d)"
| "call StopKernel d = Some (stop_kernel d)"
| "call (WriteCyc v) d = Some (write_cyc v d)"

primrec calls :: "l1d_call list \<Rightarrow> driver \<Rightarrow> driver option" where
  "calls [] d = Some d"
| "calls (c # cs) d = (case call c d of None \<Rightarrow> None | Some d \<Rightarrow> calls cs d)"

fun waits :: "l1d_call \<Rightarrow> nat" where
  "waits (XbarConfig _) = 1"
| "waits (SpmConfig _) = 1"
| "waits (Part _) = 1"
| "waits (Init _) = 1"
| "waits Wait = 1"
| "waits _ = 0"

definition reg_base :: "driver \<Rightarrow> u32" where
  "reg_base d = ucast (slice_end (cluster_mem (root (hart d))))"

definition seen :: "driver \<Rightarrow> monitor" where
  "seen d = watch (reg_base d) (events d)"

lemma ucast_add_u64: "ucast (x + ucast y :: u64) = ucast x + (y :: u32)"
proof -
  have "unat (ucast (x + ucast y :: u64) :: u32) = (unat x + unat y) mod 18446744073709551616 mod 4294967296"
    by (simp add: unsigned_ucast_eq take_bit_eq_mod unat_word_ariths mod_simps)
  also have "\<dots> = (unat x + unat y) mod 4294967296"
    by (rule mod_mod_cancel) simp
  finally show ?thesis
    by (simp add: word_unat_eq_iff unat_word_ariths unsigned_ucast_eq take_bit_eq_mod mod_simps)
qed

lemma reg_ptr_base: "reg_ptr d r = reg_base d + REG_OFFSET r"
  unfolding reg_ptr_def reg_base_def by (rule ucast_add_u64)

lemma reg_base_simps [simp]:
  "reg_base (write_reg r v d) = reg_base d" "reg_base (set_allocator al d) = reg_base d"
  "reg_base (d\<lparr>events := es, status := ss\<rparr>) = reg_base d"
  by (simp_all add: reg_base_def write_reg_def set_allocator_def)

lemma status_simps [simp]:
  "status (write_reg r v d) = status d" "status (set_allocator al d) = status d"
  by (simp_all add: write_reg_def set_allocator_def)

fun seen_write :: "peripheral_reg \<Rightarrow> u32 \<Rightarrow> monitor \<Rightarrow> monitor" where
  "seen_write CFG_L1D_INSN v m = m\<lparr>insn := v\<rparr>"
| "seen_write L1D_PRIVATE v m = m\<lparr>touched := True\<rparr>"
| "seen_write L1D_ADDR v m = m\<lparr>touched := True\<rparr>"
| "seen_write L1D_INSN_COMMIT v m = commit_insn m"
| "seen_write XBAR_OFFSET_COMMIT v m = commit_config m"
| "seen_write L1D_SPM_COMMIT v m = commit_config m"
| "seen_write _ v m = m"

lemma seen_write_reg [simp]: "seen (write_reg r v d) = seen_write r v (seen d)"
proof -
  have "watch_step b (Store (b + REG_OFFSET r) v) m = seen_write r v m" for b m
    unfolding watch_step.simps add_left_cancel REG_OFFSET_inj by (cases r) simp_all
  then show ?thesis
    by (simp add: seen_def watch_def) (simp add: write_reg_def reg_ptr_base)
qed

lemma seen_set_allocator [simp]: "seen (set_allocator al d) = seen d"
  unfolding seen_def reg_base_simps by (simp add: set_allocator_def)

lemma poll_zero_spec:
  "poll_zero p vs = (if 0 \<in> set vs
     then Some (map (Load p) (takeWhile (\<lambda>v. v \<noteq> 0) vs) @ [Load p 0], tl (dropWhile (\<lambda>v. v \<noteq> 0) vs))
     else None)"
  by (induction vs) auto

lemma watch_polls: "\<forall>v\<in>set vs. v \<noteq> 0 \<Longrightarrow> fold (watch_step b) (map (Load p) vs) m = m"
  by (induction vs) auto

lemma l1d_wait_Some:
  assumes "l1d_wait d = Some d'"
  shows "seen d' = (seen d)\<lparr>idle := True\<rparr>" "reg_base d' = reg_base d" "hart d' = hart d"
    "count_list (status d) 0 = Suc (count_list (status d') 0)"
proof -
  have z: "0 \<in> set (status d)" and d': "d' = d\<lparr>events := events d @
      (map (Load (reg_ptr d L1D_FLUSH_STATUS)) (takeWhile (\<lambda>v. v \<noteq> 0) (status d)) @
       [Load (reg_ptr d L1D_FLUSH_STATUS) 0]), status := tl (dropWhile (\<lambda>v. v \<noteq> 0) (status d))\<rparr>"
    using assms by (auto simp: l1d_wait_def poll_zero_spec split: if_splits)
  have "fold (watch_step b) (map (Load p) (takeWhile (\<lambda>v. v \<noteq> 0) vs)) m = m" for b p m and vs :: "u32 list"
    by (rule watch_polls) (auto dest: set_takeWhileD)
  then show "seen d' = (seen d)\<lparr>idle := True\<rparr>"
    unfolding d' seen_def reg_base_simps by (simp add: watch_def reg_ptr_base)
  show "reg_base d' = reg_base d" "hart d' = hart d" unfolding d' by simp_all
  have "0 \<in> set vs \<Longrightarrow> count_list vs 0 = Suc (count_list (tl (dropWhile (\<lambda>v. v \<noteq> 0) vs)) 0)" for vs :: "u32 list"
    by (induction vs) auto
  with z show "count_list (status d) 0 = Suc (count_list (status d') 0)" unfolding d' by simp
qed

lemma l1d_wait_None: "l1d_wait d = None \<longleftrightarrow> count_list (status d) 0 = 0"
  by (auto simp: l1d_wait_def poll_zero_spec count_list_0_iff)








lemma call_waits:
  "(case call c d of None \<Rightarrow> count_list (status d) 0 < waits c
    | Some d' \<Rightarrow> count_list (status d) 0 = waits c + count_list (status d') 0)"
  by (cases c) (auto simp: driver_defs l1d_xbar_config_def l1d_spm_config_def l1d_part_def l1d_init_def
      Let_def l1d_wait_None dest!: l1d_wait_Some(4) split: option.splits prod.splits if_splits)



lemma calls_return_iff: "calls cs d \<noteq> None \<longleftrightarrow> sum_list (map waits cs) \<le> count_list (status d) 0"
proof (induction cs arbitrary: d)
  case (Cons c cs)
  show ?case
  proof (cases "call c d")
    case None
    then show ?thesis using call_waits [where c = c and d = d] by simp
  next
    case (Some e)
    then show ?thesis using call_waits [where c = c and d = d] Cons.IH [of e] by simp
  qed
qed simp

lemma spm_config_alloc:
  assumes "l1d_spm_config sz d = Some d'"
  shows "allocator (root (hart d')) =
    snd (snrt_l1alloc (cache_region_bytes sz) (snrt_l1alloc_reset (allocator (root (hart d)))))"
proof -
  obtain e where e: "l1d_wait (l1d_flush d) = Some e" "hart e = hart d"
    using assms l1d_wait_Some(3)
    by (auto simp: l1d_spm_config_def l1d_flush_def l1d_commit_def write_reg_def split: option.splits)
  then show ?thesis
    using assms by (auto simp: l1d_spm_config_def Let_def set_allocator_def write_reg_def split: prod.splits)
qed

lemma spm_config_returns: "0 \<in> set (status d) \<Longrightarrow> l1d_spm_config sz d \<noteq> None"
  using call_waits [where c = "SpmConfig sz" and d = d]
  by (auto split: option.splits simp: count_list_0_iff dest: count_notin)

section \<open>Properties\<close>


definition driver0 :: driver where
  "driver0 = \<lparr>hart = core_team boot0 0x10000000 0 blank_root 8 0, status = [1, 1, 0, 0], events = []\<rparr>"

lemma driver0_allocator: "allocator (root (hart driver0)) = snrt_alloc_init 0x10000000 0x10020000 0 1096"
  by (simp add: driver0_def core_team_def snrt_init_team_def boot0_def Let_def snrt_int_init_def
      putc_buffer_size_def PUTC_BUFFER_LEN_def)


text \<open>
  C30: the calls return exactly if the controller reports idle often enough: once per
  configuration, initialisation or wait.
\<close>

theorem l1d_calls_return:
  "calls cs d \<noteq> None \<longleftrightarrow> sum_list (map waits cs) \<le> count_list (status d) 0"
  by (rule calls_return_iff)

text \<open>
  C21: \<open>l1d_spm_config\<close> with at most 128 scratchpad lines reserves the rest of the L1
  memory for the cache: all earlier allocations are forgotten and the next one starts behind
  the first \<open>(128 - size) * 1024\<close> bytes.
\<close>

theorem l1d_spm_config_reserves:
  assumes "l1d_spm_config sz d = Some d'" "unat sz \<le> 128"
    and "l1_ok (allocator (root (hart d)))" "8 dvd unat (base (l1 (allocator (root (hart d)))))"
    and "(128 - unat sz) * 1024 \<le> unat (alloc_size (l1 (allocator (root (hart d)))))"
    and "unat (base (l1 (allocator (root (hart d))))) + unat (alloc_size (l1 (allocator (root (hart d))))) + 131080
      < 4294967296"
  shows "l1_ok (allocator (root (hart d'))) \<and>
    unat (next_free (l1 (allocator (root (hart d'))))) =
      unat (base (l1 (allocator (root (hart d))))) + (128 - unat sz) * 1024"
proof -
  let ?al = "snrt_l1alloc_reset (allocator (root (hart d)))"
  note al = spm_config_alloc [OF assms(1)]
  have "unat (128 - sz) = 128 - unat sz"
    using assms(2) unat_sub_u32 [of 128 sz] by simp
  moreover have "unat x \<le> 128 \<Longrightarrow> unat (x * 128 * 8) = unat x * 1024" for x :: u32
    by (simp add: unat_word_ariths)
  ultimately have n: "unat (cache_region_bytes sz) = (128 - unat sz) * 1024"
    unfolding cache_region_bytes_def by (metis diff_le_self)
  have room: "l1_room [cache_region_bytes sz] ?al"
    using assms(3-6) n by (auto simp: l1_room_def l1_ok_def snrt_l1alloc_reset_def)
  have "8 dvd unat (cache_region_bytes sz)" unfolding n by simp
  from l1alloc_after_reset [OF room this] show ?thesis
    unfolding al using assms(5) n by simp
qed

theorem l1d_spm_config_reserves_witness:
  "\<exists>d'. l1d_spm_config 100 driver0 = Some d' \<and> unat (next_free (l1 (allocator (root (hart d'))))) = 0x10007000"
proof -
  obtain d' where d': "l1d_spm_config 100 driver0 = Some d'" using spm_config_returns [of driver0] by (auto simp: driver0_def)
  show ?thesis
    using l1d_spm_config_reserves [OF d'] d'
    by (simp add: driver0_allocator snrt_alloc_init_def ALIGN_UP_def MIN_CHUNK_SIZE_def l1_ok_def)
qed

text \<open>
  With more than 128 lines the region size wraps to a huge number that the allocator
  accepts: after \<open>l1d_spm_config 129\<close> the next allocation gets an address below the L1
  memory.
\<close>

theorem l1d_spm_config_oversized:
  "\<exists>d'. l1d_spm_config 129 driver0 = Some d' \<and>
     fst (snrt_l1alloc 8 (allocator (root (hart d')))) = 0x0FFFFC00"
proof -
  obtain d' where d': "l1d_spm_config 129 driver0 = Some d'" using spm_config_returns [of driver0] by (auto simp: driver0_def)
  have "cache_region_bytes 129 = 0xFFFFFC00" by (simp add: cache_region_bytes_def)
  then have "fst (snrt_l1alloc 8 (allocator (root (hart d')))) = 0x0FFFFC00"
    unfolding spm_config_alloc [OF d'] driver0_allocator
    by (simp add: snrt_alloc_init_def snrt_l1alloc_def snrt_l1alloc_reset_def ALIGN_UP_def MIN_CHUNK_SIZE_def)
  with d' show ?thesis by blast
qed

text \<open>
  A performance counter that is stopped but not reset keeps its hart selection, and a
  new start only adds bits to it: starting counter \<open>c\<close> for hart 1 and then for hart 2
  selects hart 3. After a reset the selection is the requested hart.
\<close>

theorem perf_counter_selection:
  "hart_select (snrt_start_perf_counter c t 2 (snrt_stop_perf_counter c
      (snrt_start_perf_counter c u 1 (snrt_reset_perf_counter c p)))) c = 3 \<and>
   hart_select (snrt_start_perf_counter c t h (snrt_reset_perf_counter c p)) c = h \<and>
   snrt_get_perf_counter c (snrt_stop_perf_counter c (snrt_start_perf_counter c t h p)) =
     snrt_get_perf_counter c p"
  by (simp add: snrt_start_perf_counter_def snrt_stop_perf_counter_def snrt_reset_perf_counter_def
      snrt_get_perf_counter_def Let_def)

end
