(* ===== verification/Interrupt.thy ===== *)
theory Interrupt
  imports Team
begin

text \<open>
  Interrupts: the CLINT accesses, the service routine and the default handlers of
  \<open>interrupt.c\<close>, and the CSR helpers of \<open>snrt.h\<close>, on the interrupt registers of the cluster to which
  \<open>clint_p\<close> points. What runs under \<open>clint_mutex\<close> is one step here and taken apart in \<open>ClintConc\<close>.
\<close>

section \<open>Control and status registers\<close>

record csrs =
  mstatus :: u32
  mie :: u32
  mcause :: u32

definition MSTATUS_MIE :: u32 where "MSTATUS_MIE = 8"
definition MCAUSE_INTERRUPT :: u32 where "MCAUSE_INTERRUPT = 0x80000000"
definition IRQ_M_SOFT :: u32 where "IRQ_M_SOFT = 3"
definition IRQ_M_TIMER :: u32 where "IRQ_M_TIMER = 7"
definition IRQ_M_EXT :: u32 where "IRQ_M_EXT = 11"
definition IRQ_M_CLUSTER :: u32 where "IRQ_M_CLUSTER = 19"

definition snrt_interrupt_global_enable :: "csrs \<Rightarrow> csrs" where
  "snrt_interrupt_global_enable c = c\<lparr>mstatus := mstatus c OR MSTATUS_MIE\<rparr>"

definition snrt_interrupt_global_disable :: "csrs \<Rightarrow> csrs" where
  "snrt_interrupt_global_disable c = c\<lparr>mstatus := mstatus c AND NOT MSTATUS_MIE\<rparr>"

definition snrt_interrupt_enable :: "u32 \<Rightarrow> csrs \<Rightarrow> csrs" where
  "snrt_interrupt_enable irq c = c\<lparr>mie := mie c OR push_bit (unat irq) 1\<rparr>"

definition snrt_interrupt_disable :: "u32 \<Rightarrow> csrs \<Rightarrow> csrs" where
  "snrt_interrupt_disable irq c = c\<lparr>mie := mie c AND NOT (push_bit (unat irq) 1)\<rparr>"

definition snrt_interrupt_cause :: "csrs \<Rightarrow> u32" where
  "snrt_interrupt_cause c = mcause c AND NOT 0x80000000"

section \<open>The interrupt registers\<close>

text \<open>
  \<open>start.c\<close> sets \<open>clint_p\<close>, here \<open>p\<close>, to the register \<open>CL_CLINT_SET\<close> of the cluster peripheral. Its neighbours
  are \<open>CL_CLINT_CLEAR\<close> and \<open>HW_BARRIER\<close>. The first two are write-only and read as 0: a 1 that is written to
  bit \<open>i\<close> of the one sets, of the other clears, the interrupt of core \<open>i\<close> of the cluster. The barrier register
  ignores stores; a load from it waits for all cores and yields 0 (only the value is modelled). \<open>cl_clint\<close> holds the
  pending interrupts, \<open>other\<close> the words further on.
\<close>

record clint_dev =
  cl_clint :: u32
  other :: "u32 \<Rightarrow> u32"

definition load_reg :: "u32 \<Rightarrow> u32 \<Rightarrow> clint_dev \<Rightarrow> u32" where
  "load_reg p a d = (if a = p \<or> a = p + 4 \<or> a = p + 8 then 0 else other d a)"

definition store_reg :: "u32 \<Rightarrow> u32 \<Rightarrow> u32 \<Rightarrow> clint_dev \<Rightarrow> clint_dev" where
  "store_reg p a v d =
     (if a = p then d\<lparr>cl_clint := cl_clint d OR v\<rparr>
      else if a = p + 4 then d\<lparr>cl_clint := cl_clint d AND NOT v\<rparr>
      else if a = p + 8 then d
      else d\<lparr>other := (other d)(a := v)\<rparr>)"

definition clint_word :: "u32 \<Rightarrow> u32 \<Rightarrow> u32" where
  "clint_word p hartid = p + 4 * drop_bit 5 (hartid AND NOT 0x1f)"

definition clint_bit :: "u32 \<Rightarrow> nat" where
  "clint_bit hartid = unat (hartid AND 0x1f)"

definition snrt_int_sw_clear :: "u32 \<Rightarrow> u32 \<Rightarrow> clint_dev \<Rightarrow> clint_dev" where
  "snrt_int_sw_clear p hartid d = (let a = clint_word p hartid
     in store_reg p a (load_reg p a d AND NOT (push_bit (clint_bit hartid) 1)) d)"

definition snrt_int_sw_set :: "u32 \<Rightarrow> u32 \<Rightarrow> clint_dev \<Rightarrow> clint_dev" where
  "snrt_int_sw_set p hartid d = (let a = clint_word p hartid
     in store_reg p a (load_reg p a d OR push_bit (clint_bit hartid) 1) d)"

definition snrt_int_sw_get :: "u32 \<Rightarrow> u32 \<Rightarrow> clint_dev \<Rightarrow> u32" where
  "snrt_int_sw_get p hartid d = drop_bit (clint_bit hartid) (load_reg p (clint_word p hartid) d)"

definition snrt_int_clint_set :: "u32 \<Rightarrow> u32 \<Rightarrow> u32 \<Rightarrow> clint_dev \<Rightarrow> clint_dev" where
  "snrt_int_clint_set p reg_off msk d = (let a = p + 4 * reg_off in store_reg p a (load_reg p a d OR msk) d)"

text \<open>
  \<open>snrt_int_sw_poll\<close>: \<open>wakes\<close> lists what the device holds at the successive
  returns from \<open>wfi\<close>; running out of wake-ups is \<open>None\<close>.
\<close>

fun snrt_int_sw_poll :: "u32 \<Rightarrow> u32 \<Rightarrow> clint_dev list \<Rightarrow> clint_dev option" where
  "snrt_int_sw_poll p hartid [] = None"
| "snrt_int_sw_poll p hartid (d # wakes) =
     (if drop_bit (clint_bit hartid) (load_reg p (clint_word p hartid) d) \<noteq> 0
      then Some (snrt_int_sw_clear p hartid d)
      else snrt_int_sw_poll p hartid wakes)"

text \<open>The cluster-local interrupt: \<open>cl_clint_clr\<close> and \<open>cl_clint_set\<close>.\<close>

definition snrt_int_cluster_clr :: "u32 \<Rightarrow> u32 \<Rightarrow> clint_dev \<Rightarrow> clint_dev" where
  "snrt_int_cluster_clr p msk d = store_reg p (p + 4 * 2) msk d"

definition snrt_int_cluster_set :: "u32 \<Rightarrow> u32 \<Rightarrow> clint_dev \<Rightarrow> clint_dev" where
  "snrt_int_cluster_set p msk d = store_reg p (p + 4 * 0) msk d"

section \<open>Service routine\<close>

definition irq_m_soft :: "u32 \<Rightarrow> u32 \<Rightarrow> clint_dev \<Rightarrow> clint_dev" where
  "irq_m_soft p core_idx d = snrt_int_sw_clear p core_idx d"

definition irq_m_timer :: "u32 \<Rightarrow> clint_dev \<Rightarrow> clint_dev" where
  "irq_m_timer core_idx d = d"

definition irq_m_ext :: "u32 \<Rightarrow> clint_dev \<Rightarrow> clint_dev" where
  "irq_m_ext core_idx d = d"

definition irq_m_cluster :: "u32 \<Rightarrow> u32 \<Rightarrow> clint_dev \<Rightarrow> clint_dev" where
  "irq_m_cluster p cluster_core_idx d = snrt_int_cluster_clr p (push_bit (unat cluster_core_idx) 1) d"

text \<open>\<open>None\<close> is the endless loop entered on an exception.\<close>

definition snrt_isr :: "u32 \<Rightarrow> hart_team \<Rightarrow> csrs \<Rightarrow> clint_dev \<Rightarrow> clint_dev option" where
  "snrt_isr hartid h c m =
     (let core_idx = snrt_global_core_idx hartid h;
          cause = mcause c;
          irq = cause AND NOT MCAUSE_INTERRUPT
      in if cause AND MCAUSE_INTERRUPT \<noteq> 0 then
           Some (if irq = IRQ_M_SOFT then irq_m_soft (clint_p h) core_idx m
                 else if irq = IRQ_M_TIMER then irq_m_timer core_idx m
                 else if irq = IRQ_M_EXT then irq_m_ext core_idx m
                 else if irq = IRQ_M_CLUSTER then irq_m_cluster (clint_p h) (snrt_cluster_core_idx h) m
                 else m)
         else None)"

section \<open>What the calls do\<close>

text \<open>The cores whose interrupt is pending.\<close>

definition pending :: "clint_dev \<Rightarrow> nat set" where
  "pending d = {c. bit (cl_clint d) c}"

lemma and_31: "x AND 0x1f = (take_bit 5 x :: u32)"
proof -
  have "(0x1f :: u32) = mask 5" by (simp add: mask_eq_exp_minus_1)
  then show ?thesis by (simp add: take_bit_eq_mask)
qed

lemma drop_and_not_31: "drop_bit 5 (x AND NOT 0x1f) = (drop_bit 5 x :: u32)"
proof -
  have m: "(0x1f :: u32) = mask 5" by (simp add: mask_eq_exp_minus_1)
  show ?thesis unfolding m by (rule bit_word_eqI) (auto simp: bit_simps dest: bit_imp_le_length)
qed

lemma clint_bit_mod: "clint_bit h = unat h mod 32" "clint_bit h < 32"
  by (simp_all add: clint_bit_def and_31 unsigned_take_bit_eq take_bit_eq_mod unat_mod)

text \<open>The words of the hart ids below 64 are the set and the clear register.\<close>

lemma clint_word_regs:
  "unat h < 32 \<Longrightarrow> clint_word p h = p" "32 \<le> unat h \<Longrightarrow> unat h < 64 \<Longrightarrow> clint_word p h = p + 4"
proof -
  have u: "unat (drop_bit 5 h) = unat h div 32" by (simp add: drop_bit_eq_div unat_div)
  show "clint_word p h = p" if "unat h < 32"
  proof -
    have "drop_bit 5 h = 0" using u that by (simp add: unat_eq_zero [symmetric])
    then show ?thesis by (simp add: clint_word_def drop_and_not_31)
  qed
  show "clint_word p h = p + 4" if "32 \<le> unat h" "unat h < 64"
  proof -
    have "unat h div 32 = 1" using that by (simp add: div_nat_eqI)
    then have "drop_bit 5 h = 1" using u by (simp add: word_unat_eq_iff)
    then show ?thesis by (simp add: clint_word_def drop_and_not_31)
  qed
qed

lemma reads_zero: "unat h < 64 \<Longrightarrow> load_reg p (clint_word p h) d = 0"
  using clint_word_regs [of h p] by (cases "unat h < 32") (simp_all add: load_reg_def)

lemma bit_pow: "bit (2 ^ n :: u32) k \<longleftrightarrow> k = n \<and> n < 32"
  by (auto simp: bit_simps)

lemma pending_sw_set:
  assumes "unat h < 64"
  shows "pending (snrt_int_sw_set p h d) =
    (if unat h < 32 then insert (unat h) (pending d) else pending d - {unat h - 32})"
proof (cases "unat h < 32")
  case True
  then have "clint_bit h = unat h" by (simp add: clint_bit_mod)
  then show ?thesis
    using True clint_word_regs(1) [of h p] reads_zero [OF assms, of p d]
    by (auto simp: snrt_int_sw_set_def Let_def store_reg_def pending_def bit_or_iff bit_pow)
next
  case False
  then have "clint_bit h = unat h - 32" using assms by (simp add: clint_bit_mod mod_if)
  then show ?thesis
    using False assms clint_word_regs(2) [of h p] reads_zero [OF assms, of p d]
    by (auto simp: snrt_int_sw_set_def Let_def store_reg_def pending_def bit_and_iff bit_not_iff bit_pow
        dest: bit_imp_le_length)
qed

lemma sw_clear_nothing:
  assumes "unat h < 64"
  shows "snrt_int_sw_clear p h d = d"
proof -
  have "clint_word p h = p \<or> clint_word p h = p + 4" using clint_word_regs [of h p] assms by linarith
  then show ?thesis
    using reads_zero [OF assms, of p d] by (auto simp: snrt_int_sw_clear_def Let_def store_reg_def)
qed

lemma sw_get_zero: "unat h < 64 \<Longrightarrow> snrt_int_sw_get p h d = 0"
  by (simp add: snrt_int_sw_get_def reads_zero)

lemma poll_never: "unat h < 64 \<Longrightarrow> snrt_int_sw_poll p h wakes = None"
  by (induction wakes) (simp_all add: reads_zero)

lemma pending_clint_set:
  "pending (snrt_int_clint_set p 0 msk d) = pending d \<union> {c. bit msk c}"
  "pending (snrt_int_clint_set p 1 msk d) = pending d - {c. bit msk c}"
  by (auto simp: snrt_int_clint_set_def Let_def load_reg_def store_reg_def pending_def bit_or_iff bit_and_iff
      bit_not_iff dest: bit_imp_le_length)

section \<open>Properties\<close>

text \<open>
  The software interrupts on this device, for the harts of a cluster of up to 64 cores: a hart can be interrupted if its id is
  below 32, and the bit is that of the core with this number in the cluster; setting it for one of the next 32 harts clears the
  interrupt of another core instead. Nothing is ever cleared by \<open>snrt_int_sw_clear\<close>, no interrupt is ever seen by
  \<open>snrt_int_sw_get\<close>, and \<open>snrt_int_sw_poll\<close> never returns.
\<close>

theorem sw_interrupts_on_device:
  assumes "unat h < 64"
  shows "pending (snrt_int_sw_set p h d) =
      (if unat h < 32 then insert (unat h) (pending d) else pending d - {unat h - 32}) \<and>
    snrt_int_sw_clear p h d = d \<and> snrt_int_sw_get p h d = 0 \<and> snrt_int_sw_poll p h wakes = None"
  using assms by (simp add: pending_sw_set sw_clear_nothing sw_get_zero poll_never)

definition dev0 :: clint_dev where
  "dev0 = \<lparr>cl_clint = 0, other = \<lambda>_. 0\<rparr>"

theorem sw_interrupts_on_device_witness:
  "snrt_int_sw_poll 0x10020008 5 [dev0, snrt_int_sw_set 0x10020008 5 dev0] = None"
  using sw_interrupts_on_device [of 5 "0x10020008" dev0 "[dev0, snrt_int_sw_set 0x10020008 5 dev0]"]
  by (simp del: snrt_int_sw_poll.simps)

text \<open>
  The code that looks at a word does not mask it: if the word can be read, the value for hart 0 is 32 when
  only hart 5 is pending in it, not 0.
\<close>

theorem sw_get_unmasked:
  "snrt_int_sw_get p 96 (snrt_int_clint_set p 3 32 dev0) = 32"
proof -
  have "p + 12 \<noteq> p" "p + 12 \<noteq> p + 4" "p + 12 \<noteq> p + 8" by simp_all
  then show ?thesis
    by (simp add: snrt_int_sw_get_def snrt_int_clint_set_def Let_def load_reg_def store_reg_def clint_word_def clint_bit_def dev0_def)
qed

text \<open>
  The service routine on a software or a cluster interrupt returns and leaves everything that is pending as it
  was, so the hart is interrupted again at once.
\<close>

theorem isr_clears_nothing:
  assumes "mcause c = 0x80000003 \<or> mcause c = 0x80000013"
    and "unat (hartid - global_core_base_hartid (root h)) < 64"
  shows "snrt_isr hartid h c d = Some d"
  using assms by (auto simp: snrt_isr_def Let_def MCAUSE_INTERRUPT_def IRQ_M_SOFT_def IRQ_M_TIMER_def IRQ_M_EXT_def
      IRQ_M_CLUSTER_def irq_m_soft_def irq_m_cluster_def snrt_int_cluster_clr_def store_reg_def snrt_global_core_idx_def
      sw_clear_nothing)

definition csrs0 :: csrs where
  "csrs0 = \<lparr>mstatus = 8, mie = 8, mcause = 0x80000003\<rparr>"

theorem isr_clears_nothing_witness:
  "snrt_isr 17 (core_team boot0 0x10000000 0 blank_root 8 1) csrs0 dev0 = Some dev0"
proof -
  have "global_core_base_hartid (root (core_team boot0 0x10000000 0 blank_root 8 1)) = 16"
    by (simp add: core_team_def snrt_init_team_def boot0_def Let_def snrt_int_init_def)
  then show ?thesis using isr_clears_nothing [of csrs0] by (simp add: csrs0_def)
qed

text \<open>
  After initialisation, setting the cluster-local interrupt writes the set register, but
  clearing it writes the hardware barrier register instead of the clear register, and changes nothing.
\<close>

theorem cluster_clr_hits_barrier:
  assumes "boot_ok bd spm n"
  fixes edram old i
  defines "h \<equiv> core_team bd spm edram old n i"
  shows "clint_p h = spm + tcdm_size bd + REG_OFFSET CL_CLINT_SET
    \<and> clint_p h + 4 * 2 = snrt_barrier_reg_ptr h
    \<and> clint_p h + 4 = spm + tcdm_size bd + REG_OFFSET CL_CLINT_CLEAR
    \<and> pending (snrt_int_cluster_set (clint_p h) msk d) = pending d \<union> {c. bit msk c}
    \<and> snrt_int_cluster_clr (clint_p h) msk d = d"
proof -
  have "snrt_barrier_reg_ptr h = spm + tcdm_size bd + 0x10" "clint_p h = spm + tcdm_size bd + 8"
    using boot_okD [OF assms(1)]
    by (simp_all add: h_def core_team_def snrt_init_team_def Let_def snrt_int_init_def
        snrt_barrier_reg_ptr_def)
  then show ?thesis
    by (auto simp: snrt_int_cluster_set_def snrt_int_cluster_clr_def store_reg_def pending_def bit_or_iff)
qed

theorem cluster_clr_hits_barrier_witness:
  "snrt_int_cluster_clr (clint_p (core_team boot0 0x10000000 0 blank_root 8 1)) 2 dev0 = dev0"
  using cluster_clr_hits_barrier [OF boot0_ok, of 0 blank_root 1 2 dev0] by blast

end
