(* ===== verification/Kmp.thy ===== *)
theory Kmp
  imports Team "HOL-Library.Signed_Division"
begin

text \<open>
  The OpenMP entry points that the compiler calls, \<open>omp/kmp.c\<close>, with the state of
  \<open>omp/omp.c\<close>: work sharing of static and dynamic loops, the fork call and its argument
  passing. \<open>int\<close> values are 32-bit words read with \<open>sint\<close>; operations C leaves undefined
  (division by zero, a store through a null pointer) are \<open>None\<close>, and signed overflow wraps.
\<close>

section \<open>State\<close>

type_synonym i32 = u32

definition sdiv32 :: "i32 \<Rightarrow> i32 \<Rightarrow> i32" where
  "sdiv32 a b = word_of_int (sint a sdiv sint b)"

definition smod32 :: "i32 \<Rightarrow> i32 \<Rightarrow> i32" where
  "smod32 a b = word_of_int (sint a smod sint b)"

text \<open>\<open>nbThreads\<close> is a \<open>char\<close>, which is unsigned on this target.\<close>

record omp_team =
  nbThreads :: u8
  loop_epoch :: i32
  loop_start :: i32
  loop_end :: i32
  loop_incr :: i32
  loop_chunk :: i32
  loop_is_setup :: i32
  core_epoch :: "i32 list"

record omp =
  plainTeam :: omp_team
  numThreads :: i32
  maxThreads :: i32
  kmpc_barrier :: u32

definition nb_threads :: "omp_team \<Rightarrow> i32" where
  "nb_threads team = ucast (nbThreads team)"

definition KMP_FORK_MAX_NARGS :: nat where
  "KMP_FORK_MAX_NARGS = 12"

text \<open>
  \<open>omp_init\<close> on core 0: the argument buffer (12 words), the runtime structure
  (\<open>sizeof(omp_t)\<close>: the team takes 92 bytes, followed by four words), the barrier and the
  profiling word come from the L1 allocator. \<open>old\<close> is the uninitialised memory of the
  structure. The result is the three pointers \<open>kmpc_args\<close>, \<open>omp_p\<close> and \<open>omp_prof\<close>, and the
  structure.
\<close>

definition sizeof_omp :: u32 where
  "sizeof_omp = 92 + 4 * 4"

definition omp_init :: "hart_team \<Rightarrow> omp \<Rightarrow> ((u32 \<times> u32 \<times> u32) \<times> omp) \<times> hart_team" where
  "omp_init h old =
     (let (args, al) = snrt_l1alloc (4 * of_nat KMP_FORK_MAX_NARGS) (allocator (root h));
          (omp_p, al) = snrt_l1alloc sizeof_omp al;
          nbCores = snrt_cluster_compute_core_num h;
          team = (plainTeam old)\<lparr>nbThreads := ucast nbCores, loop_epoch := 0, loop_is_setup := 0,
                   core_epoch := replicate 16 0\<rparr>;
          (bar, al) = snrt_l1alloc 8 al;
          (prof, al) = snrt_l1alloc 4 al
      in (((args, omp_p, prof),
           old\<lparr>numThreads := nbCores, maxThreads := nbCores, plainTeam := team, kmpc_barrier := bar\<rparr>),
          h\<lparr>root := (root h)\<lparr>allocator := al\<rparr>\<rparr>))"

definition omp_getData :: "omp \<Rightarrow> omp" where
  "omp_getData omp_p = omp_p"

definition omp_get_team :: "omp \<Rightarrow> omp_team" where
  "omp_get_team this = plainTeam this"

definition omp_get_thread_num :: "hart_team \<Rightarrow> u32" where
  "omp_get_thread_num h = snrt_cluster_core_idx h"

definition kmpc_push_num_threads :: "i32 \<Rightarrow> omp \<Rightarrow> omp" where
  "kmpc_push_num_threads num_threads omp_p =
     (let omp_p = omp_p\<lparr>numThreads := num_threads\<rparr>
      in if sint (maxThreads omp_p) < sint (numThreads omp_p)
         then omp_p\<lparr>numThreads := maxThreads omp_p\<rparr> else omp_p)"

definition kmpc_global_thread_num :: "u32 \<Rightarrow> i32" where
  "kmpc_global_thread_num mhartid = mhartid"

section \<open>Static work sharing\<close>

definition kmp_sch_static_chunked :: i32 where "kmp_sch_static_chunked = 33"
definition kmp_sch_static :: i32 where "kmp_sch_static = 34"

text \<open>
  The variables behind the pointer arguments; \<open>plast\<close> is \<open>None\<close> when the pointer to the
  last-iteration flag is null.
\<close>

record loop_bounds =
  plast :: "i32 option"
  plower :: i32
  pupper :: i32
  pstride :: i32

definition kmpc_for_static_init_4 ::
  "omp_team \<Rightarrow> u32 \<Rightarrow> i32 \<Rightarrow> i32 \<Rightarrow> i32 \<Rightarrow> loop_bounds \<Rightarrow> loop_bounds option" where
  "kmpc_for_static_init_4 team threadNum sched incr chunk b =
     (if incr = 0 then None
      else
        let loopSize = sdiv32 (pupper b - plower b) incr + 1;
            globalUpper = pupper b
        in if sched = kmp_sch_static_chunked then
             let span = incr * chunk;
                 b = b\<lparr>pstride := span * nb_threads team\<rparr>;
                 b = b\<lparr>plower := plower b + span * threadNum\<rparr>;
                 b = b\<lparr>pupper := plower b + span - incr\<rparr>
             in if span = 0 \<or> pstride b = 0 \<or> plast b = None then None
                else
                  let beginLastChunk = globalUpper - smod32 globalUpper span
                  in Some (b\<lparr>plast :=
                       Some (if smod32 (beginLastChunk - plower b) (pstride b) = 0 then 1 else 0)\<rparr>)
           else if sched = kmp_sch_static then
             if nb_threads team = 0 then None
             else
               let chunk = loopSize div nb_threads team;
                   leftOver = loopSize - chunk * nb_threads team;
                   (chunk, b) =
                     (if sint threadNum < sint leftOver
                      then (chunk + 1, b\<lparr>plower := plower b + threadNum * (chunk + 1) * incr\<rparr>)
                      else (chunk, b\<lparr>plower := plower b + threadNum * chunk * incr + leftOver\<rparr>));
                   b = b\<lparr>pupper := plower b + chunk * incr - incr\<rparr>
               in Some (b\<lparr>plast := map_option (\<lambda>_.
                      if pupper b = globalUpper \<and> sint (plower b) \<le> sint globalUpper then 1 else 0) (plast b),
                    pstride := loopSize\<rparr>)
           else Some b)"

definition kmpc_for_static_init_4u ::
  "omp_team \<Rightarrow> u32 \<Rightarrow> i32 \<Rightarrow> i32 \<Rightarrow> i32 \<Rightarrow> loop_bounds \<Rightarrow> loop_bounds option" where
  "kmpc_for_static_init_4u team threadNum schedtype incr chunk b =
     kmpc_for_static_init_4 team threadNum schedtype incr chunk b"

definition kmpc_for_static_fini :: "omp \<Rightarrow> omp" where
  "kmpc_for_static_fini omp_p = omp_p"

text \<open>The 64-bit unsigned variant; bounds are unsigned, increment, chunk and stride signed.\<close>

record loop_bounds8 =
  plast8 :: "i32 option"
  plower8 :: u64
  pupper8 :: u64
  pstride8 :: u64

definition kmpc_for_static_init_8u ::
  "omp_team \<Rightarrow> u32 \<Rightarrow> i32 \<Rightarrow> u64 \<Rightarrow> u64 \<Rightarrow> loop_bounds8 \<Rightarrow> loop_bounds8 option" where
  "kmpc_for_static_init_8u team threadNum sched incr chunk b =
     (if incr = 0 then None
      else
        let loopSize = (pupper8 b - plower8 b) div incr + 1;
            globalUpper = pupper8 b;
            nb = ucast (nbThreads team);
            thread = ucast threadNum
        in if sched = kmp_sch_static_chunked then
             let span = incr * chunk;
                 b = b\<lparr>pstride8 := span * nb\<rparr>;
                 b = b\<lparr>plower8 := plower8 b + span * thread\<rparr>;
                 b = b\<lparr>pupper8 := plower8 b + span - incr\<rparr>
             in if span = 0 \<or> pstride8 b = 0 \<or> plast8 b = None then None
                else
                  let beginLastChunk = globalUpper - globalUpper mod span
                  in Some (b\<lparr>plast8 :=
                       Some (if (beginLastChunk - plower8 b) mod pstride8 b = 0 then 1 else 0)\<rparr>)
           else if sched = kmp_sch_static then
             if nb = 0 then None
             else
               let chunk = loopSize div nb;
                   leftOver = loopSize - chunk * nb;
                   (chunk, b) =
                     (if sint thread < sint leftOver
                      then (chunk + 1, b\<lparr>plower8 := plower8 b + thread * (chunk + 1) * incr\<rparr>)
                      else (chunk, b\<lparr>plower8 := plower8 b + thread * chunk * incr + leftOver\<rparr>));
                   b = b\<lparr>pupper8 := plower8 b + chunk * incr - incr\<rparr>
               in Some (b\<lparr>plast8 := map_option (\<lambda>_.
                      if pupper8 b = globalUpper \<and> plower8 b \<le> globalUpper then 1 else 0) (plast8 b),
                    pstride8 := loopSize\<rparr>)
           else Some b)"

section \<open>Dynamic work sharing\<close>

text \<open>Both calls run under the event unit's mutex and are one step each; \<open>DispatchConc\<close> takes them apart.\<close>

definition kmpc_dispatch_init_4 :: "i32 \<Rightarrow> i32 \<Rightarrow> i32 \<Rightarrow> i32 \<Rightarrow> omp_team \<Rightarrow> omp_team" where
  "kmpc_dispatch_init_4 lb ub st chunk team =
     (if loop_is_setup team = 0
      then team\<lparr>loop_is_setup := 1, loop_start := lb, loop_end := ub, loop_incr := st, loop_chunk := chunk\<rparr>
      else team)"

definition kmpc_dispatch_init_4u :: "i32 \<Rightarrow> i32 \<Rightarrow> i32 \<Rightarrow> i32 \<Rightarrow> omp_team \<Rightarrow> omp_team" where
  "kmpc_dispatch_init_4u lb ub st chunk team = kmpc_dispatch_init_4 lb ub st chunk team"

text \<open>
  The result is the return value and the variables behind \<open>p_last\<close>, \<open>p_lb\<close>, \<open>p_ub\<close>
  and \<open>p_st\<close>.
\<close>

record chunk_vars =
  p_last :: i32
  p_lb :: i32
  p_ub :: i32
  p_st :: i32

definition kmpc_dispatch_next_4 :: "omp_team \<Rightarrow> chunk_vars \<Rightarrow> i32 \<times> chunk_vars \<times> omp_team" where
  "kmpc_dispatch_next_4 team v =
     (let v = v\<lparr>p_st := 1\<rparr>
      in if sint (loop_end team) < sint (loop_start team) then (0, v, team\<lparr>loop_is_setup := 0\<rparr>)
         else
           let v = v\<lparr>p_lb := loop_start team\<rparr>;
               v = v\<lparr>p_ub := p_lb v + loop_chunk team - 1\<rparr>;
               v = (if sint (loop_end team) \<le> sint (p_ub v) then v\<lparr>p_ub := loop_end team, p_last := 1\<rparr> else v)
           in (1, v, team\<lparr>loop_start := loop_start team + loop_chunk team\<rparr>))"

definition kmpc_dispatch_next_4u :: "omp_team \<Rightarrow> chunk_vars \<Rightarrow> i32 \<times> chunk_vars \<times> omp_team" where
  "kmpc_dispatch_next_4u team v = kmpc_dispatch_next_4 team v"

section \<open>Fork\<close>

text \<open>
  \<open>__microtask_wrapper\<close>: \<open>arg\<close> is the argument buffer, whose first word is the
  microtask; each element of the result is the argument list of one call of it. The cases
  8 to 11 of the switch have no \<open>break\<close>. \<open>None\<close> is \<open>snrt_exit\<close>, which never returns.
\<close>

function microtask_from :: "nat \<Rightarrow> u32 list \<Rightarrow> u32 list list" where
  "microtask_from argc p_argv =
     take argc p_argv # (if argc \<in> {8, 9, 10, 11} then microtask_from (argc + 1) p_argv else [])"
  by pat_completeness auto

termination
  by (relation "measure (\<lambda>(argc, _). 12 - argc)") auto

declare microtask_from.simps [simp del]

definition microtask_wrapper :: "u32 list \<Rightarrow> nat \<Rightarrow> (u32 \<times> u32 list list) option" where
  "microtask_wrapper arg argc =
     (if 12 < argc then None else Some (arg ! 0, microtask_from argc (drop 1 arg)))"

text \<open>
  \<open>__kmpc_fork_call\<close>: \<open>kmpc_args\<close> is the buffer of 12 words. The result is the buffer,
  the team and what is handed to the event unit (argument count and number of threads);
  \<open>None\<close> is nested parallelism, which stops the hart. A store behind the buffer is
  dropped by the model and reported by the flag \<open>overrun\<close>.
\<close>

record fork =
  fork_args :: "u32 list"
  overrun :: bool
  fork_argc :: nat
  fork_threads :: i32

fun store_args :: "nat \<Rightarrow> u32 list \<Rightarrow> u32 list \<times> bool \<Rightarrow> u32 list \<times> bool" where
  "store_args i [] (buf, over) = (buf, over)"
| "store_args i (v # vs) (buf, over) = store_args (Suc i) vs (buf[i := v], over \<or> length buf \<le> i)"

definition partialParallelRegion :: "i32 \<Rightarrow> omp \<Rightarrow> omp" where
  "partialParallelRegion num_threads omp_p =
     omp_p\<lparr>plainTeam := (plainTeam omp_p)\<lparr>nbThreads := ucast num_threads\<rparr>\<rparr>"

definition kmpc_fork_call ::
  "hart_team \<Rightarrow> u32 \<Rightarrow> u32 list \<Rightarrow> u32 list \<Rightarrow> omp \<Rightarrow> (fork \<times> omp) option" where
  "kmpc_fork_call h microtask varargs kmpc_args omp_p =
     (let (buf, over) = store_args 0 (microtask # varargs) (kmpc_args, False)
      in if snrt_cluster_core_idx h \<noteq> 0 then None
         else Some (\<lparr>fork_args = buf, overrun = over, fork_argc = length varargs,
                     fork_threads = numThreads omp_p\<rparr>,
                    partialParallelRegion (numThreads omp_p) omp_p))"

section \<open>Static partition\<close>

text \<open>The offset at which the block of thread \<open>t\<close> starts when \<open>N\<close> threads share \<open>n\<close> iterations.\<close>

definition block_start :: "nat \<Rightarrow> nat \<Rightarrow> nat \<Rightarrow> nat" where
  "block_start n N t = t * (n div N) + min t (n mod N)"

lemma block_start_Suc: "block_start n N (Suc t) = block_start n N t + n div N + (if t < n mod N then 1 else 0)"
  by (auto simp: block_start_def)

lemma block_start_ends: "block_start n N 0 = 0" "0 < N \<Longrightarrow> block_start n N N = n"
  by (simp_all add: block_start_def min.absorb2)

lemma block_start_mono: "s \<le> t \<Longrightarrow> block_start n N s \<le> block_start n N t"
  by (rule lift_Suc_mono_le [of "block_start n N"]) (auto simp: block_start_Suc)

lemma block_start_le: "t \<le> N \<Longrightarrow> 0 < N \<Longrightarrow> block_start n N t \<le> n"
  using block_start_mono [of t N n N] by (simp add: block_start_ends)

lemma block_start_pos: "0 < n \<Longrightarrow> 0 < N \<Longrightarrow> 0 < block_start n N (Suc t)"
  by (cases "n < N") (auto simp: block_start_def div_greater_zero_iff)

definition loop_len :: "i32 \<Rightarrow> i32 \<Rightarrow> nat" where
  "loop_len lo hi = nat (sint hi - sint lo + 1)"

text \<open>A team and a non-empty loop that does not reach the end of the \<open>int\<close> range.\<close>

definition share_ok :: "omp_team \<Rightarrow> nat \<Rightarrow> loop_bounds \<Rightarrow> bool" where
  "share_ok team N b \<longleftrightarrow> 0 < N \<and> N \<le> 255 \<and> nbThreads team = of_nat N \<and>
     sint (plower b) \<le> sint (pupper b) \<and> sint (pupper b) < 2147483647 \<and>
     sint (pupper b) - sint (plower b) + 1 < 2147483648"

lemma nb_threads_eq: "N \<le> 255 \<Longrightarrow> nbThreads team = of_nat N \<Longrightarrow> nb_threads team = of_nat N"
  unfolding nb_threads_def
  by (rule u32_eqI) (simp add: unsigned_ucast_eq unat_of_nat take_bit_nat_eq_self take_bit_eq_mod)

lemma loop_len_word: "sint lo \<le> sint hi \<Longrightarrow> hi - lo + 1 = of_nat (loop_len lo hi)"
proof -
  assume "sint lo \<le> sint hi"
  then have "(of_nat (loop_len lo hi) :: u32) = word_of_int (sint hi - sint lo + 1)"
    by (simp add: loop_len_def)
  then show ?thesis by simp
qed

lemma static_init:
  assumes "share_ok team N b" "t < N"
  defines "n \<equiv> loop_len (plower b) (pupper b)"
  shows "\<exists>b'. kmpc_for_static_init_4 team (of_nat t) kmp_sch_static 1 chunk b = Some b' \<and>
    plower b' = plower b + of_nat (block_start n N t) \<and>
    pupper b' = plower b + of_nat (block_start n N (Suc t)) - 1 \<and>
    plast b' = map_option (\<lambda>_. if pupper b' = pupper b \<and> sint (plower b') \<le> sint (pupper b) then 1 else 0)
      (plast b)"
proof -
  have N: "0 < N" "N \<le> 255" and nb: "nb_threads team = of_nat N"
    and le: "sint (plower b) \<le> sint (pupper b)" "sint (pupper b) - sint (plower b) + 1 < 2147483648"
    using assms(1) by (auto simp: share_ok_def nb_threads_eq)
  have n: "n < 2147483648" "pupper b - plower b + 1 = of_nat n"
    using le loop_len_word by (auto simp: n_def loop_len_def)
  have d: "sdiv32 (pupper b - plower b) 1 + 1 = of_nat n" using n(2) by (simp add: sdiv32_def)
  have c: "(of_nat n :: u32) div of_nat N = of_nat (n div N)" by (rule of_nat_div_u32) (use n N in auto)
  have "(of_nat n :: u32) = of_nat (n div N) * of_nat N + of_nat (n mod N)"
    by (metis div_mult_mod_eq of_nat_add of_nat_mult)
  then have r: "(of_nat n :: u32) - of_nat (n div N) * of_nat N = of_nat (n mod N)"
    by (metis add_diff_cancel_left')
  have "n mod N < 2147483648" using n(1) by (meson le_less_trans mod_less_eq_dividend)
  then have lt: "sint (of_nat t :: u32) < sint (of_nat (n mod N) :: u32) \<longleftrightarrow> t < n mod N"
    using assms(2) N by (simp add: sint_of_nat_u32)
  have nz: "(of_nat N :: u32) \<noteq> 0"
    using N unat_of_nat_u32 [of N] by (auto simp del: unat_of_nat_u32)
  have sch: "kmp_sch_static \<noteq> kmp_sch_static_chunked"
    by (simp add: kmp_sch_static_def kmp_sch_static_chunked_def)
  show ?thesis
    unfolding kmpc_for_static_init_4_def Let_def
    by (cases "t < n mod N")
      (simp_all add: sch nb nz d c r lt block_start_Suc, simp_all add: block_start_def algebra_simps)
qed

lemma static_init_bounds:
  assumes "share_ok team N b" "t < N"
  defines "n \<equiv> loop_len (plower b) (pupper b)"
  obtains b' where "kmpc_for_static_init_4 team (of_nat t) kmp_sch_static 1 chunk b = Some b'"
    "sint (plower b') = sint (plower b) + int (block_start n N t)"
    "sint (pupper b') = sint (plower b) + int (block_start n N (Suc t)) - 1"
    "plast b' = map_option (\<lambda>_. if pupper b' = pupper b \<and> sint (plower b') \<le> sint (pupper b) then 1 else 0)
      (plast b)"
proof -
  obtain b' where b': "kmpc_for_static_init_4 team (of_nat t) kmp_sch_static 1 chunk b = Some b'"
    "plower b' = plower b + of_nat (block_start n N t)"
    "pupper b' = plower b + of_nat (block_start n N (Suc t)) - 1"
    "plast b' = map_option (\<lambda>_. if pupper b' = pupper b \<and> sint (plower b') \<le> sint (pupper b) then 1 else 0)
      (plast b)"
    using static_init [OF assms(1,2)] unfolding n_def by blast
  have N: "0 < N" and u: "sint (plower b) + int n = sint (pupper b) + 1" "sint (pupper b) < 2147483647" "0 < n"
    using assms(1) by (auto simp: share_ok_def n_def loop_len_def)
  have s: "block_start n N t \<le> n" "block_start n N (Suc t) \<le> n" "0 < block_start n N (Suc t)"
    using assms(2) N u(3) by (auto intro: block_start_le block_start_pos)
  have "sint (plower b') = sint (plower b) + int (block_start n N t)"
    unfolding b'(2) by (rule sint_add_nat) (use s(1) u in linarith)
  moreover have "pupper b' = plower b + of_nat (block_start n N (Suc t) - 1)"
    using b'(3) s(3) by (simp add: of_nat_diff)
  moreover have "sint (plower b + of_nat (block_start n N (Suc t) - 1)) =
      sint (plower b) + int (block_start n N (Suc t) - 1)"
    by (rule sint_add_nat) (use s(2) u in linarith)
  ultimately show ?thesis using b'(1,4) s(3) by (intro that) (auto simp: of_nat_diff)
qed

text \<open>Thread \<open>t\<close> is given iteration \<open>i\<close>; it is told to run the last iteration.\<close>

definition gets :: "omp_team \<Rightarrow> loop_bounds \<Rightarrow> nat \<Rightarrow> int \<Rightarrow> bool" where
  "gets team b t i \<longleftrightarrow> (case kmpc_for_static_init_4 team (of_nat t) kmp_sch_static 1 0 b of
     None \<Rightarrow> False | Some b' \<Rightarrow> sint (plower b') \<le> i \<and> i \<le> sint (pupper b'))"

definition told_last :: "omp_team \<Rightarrow> loop_bounds \<Rightarrow> nat \<Rightarrow> bool" where
  "told_last team b t \<longleftrightarrow> (case kmpc_for_static_init_4 team (of_nat t) kmp_sch_static 1 0 b of
     None \<Rightarrow> False | Some b' \<Rightarrow> plast b' = Some 1)"

lemma static_partition:
  assumes "share_ok team N b" "sint (plower b) \<le> i" "i \<le> sint (pupper b)"
  shows "(\<exists>!t. t < N \<and> gets team b t i)
    \<and> (\<forall>t<N. kmpc_for_static_init_4 team (of_nat t) kmp_sch_static 1 0 b \<noteq> None)
    \<and> (plast b \<noteq> None \<longrightarrow> (\<forall>t<N. told_last team b t \<longleftrightarrow> gets team b t (sint (pupper b))))"
proof -
  define n where "n = loop_len (plower b) (pupper b)"
  define j where "j = nat (i - sint (plower b))"
  have u: "sint (plower b) + int n = sint (pupper b) + 1" "0 < N"
    using assms(1) by (auto simp: share_ok_def n_def loop_len_def)
  have gets: "gets team b t (sint (plower b) + int k) \<longleftrightarrow>
      block_start n N t \<le> k \<and> k < block_start n N (Suc t)" if "t < N" for t k
    by (rule static_init_bounds [OF assms(1) that, of 0]) (auto simp: gets_def n_def)
  have i: "i = sint (plower b) + int j" "j < n" using assms(2,3) u by (auto simp: j_def)
  have "\<exists>!t. t < N \<and> block_start n N t \<le> j \<and> j < block_start n N (Suc t)"
    by (rule ex1_block) (use i(2) u in \<open>auto simp: block_start_ends block_start_Suc\<close>)
  then have "\<exists>!t. t < N \<and> gets team b t i" using gets [of _ j] unfolding i(1) by (metis (lifting))
  moreover have "told_last team b t \<longleftrightarrow> gets team b t (sint (pupper b))" if "plast b \<noteq> None" "t < N" for t
  proof -
    note tN = that(2)
    have U: "sint (pupper b) = sint (plower b) + int (n - 1)" using u(1) i(2) by auto
    have le: "block_start n N (Suc t) \<le> n" using that(2) u(2) by (intro block_start_le) auto
    obtain b' where b': "kmpc_for_static_init_4 team (of_nat t) kmp_sch_static 1 0 b = Some b'"
      "sint (plower b') = sint (plower b) + int (block_start n N t)"
      "sint (pupper b') = sint (plower b) + int (block_start n N (Suc t)) - 1"
      "plast b' = map_option (\<lambda>_. if pupper b' = pupper b \<and> sint (plower b') \<le> sint (pupper b) then 1 else 0)
        (plast b)"
      using static_init_bounds [OF assms(1) tN, of 0] unfolding n_def by metis
    have "pupper b' = pupper b \<longleftrightarrow> sint (pupper b') = sint (pupper b)"
      by (auto intro: signed_word_eqI)
    then have "pupper b' = pupper b \<longleftrightarrow> block_start n N (Suc t) = n" using b'(3) u(1) by auto
    then have "told_last team b t \<longleftrightarrow> block_start n N (Suc t) = n \<and> block_start n N t \<le> n - 1"
      using b' that(1) U i(2) by (auto simp: told_last_def)
    then show ?thesis unfolding U gets [OF that(2)] using le i(2) by auto
  qed
  moreover have "\<forall>t<N. kmpc_for_static_init_4 team (of_nat t) kmp_sch_static 1 0 b \<noteq> None"
    using static_init [OF assms(1)] by (metis option.distinct(1))
  ultimately show ?thesis by blast
qed

text \<open>
  C25: static work sharing with increment 1: every iteration of the loop is given to exactly
  one of the threads, every thread gets its bounds, and the thread that is told to have the
  last iteration is the one that has it.
\<close>

theorem static_loop_partition:
  assumes "share_ok team N b" "sint (plower b) \<le> i" "i \<le> sint (pupper b)"
  shows "(\<exists>!t. t < N \<and> gets team b t i)
    \<and> (\<forall>t<N. kmpc_for_static_init_4 team (of_nat t) kmp_sch_static 1 0 b \<noteq> None)
    \<and> (plast b \<noteq> None \<longrightarrow> (\<forall>t<N. told_last team b t \<longleftrightarrow> gets team b t (sint (pupper b))))"
  by (rule static_partition [OF assms])

definition team4 :: omp_team where
  "team4 = \<lparr>nbThreads = 4, loop_epoch = 0, loop_start = 0, loop_end = 0, loop_incr = 0, loop_chunk = 0,
     loop_is_setup = 0, core_epoch = replicate 16 0\<rparr>"

definition bounds_of :: "i32 \<Rightarrow> i32 \<Rightarrow> loop_bounds" where
  "bounds_of lo hi = \<lparr>plast = Some 0, plower = lo, pupper = hi, pstride = 1\<rparr>"

lemma team4_share: "share_ok team4 4 (bounds_of 10 19)"
  by (simp add: share_ok_def team4_def bounds_of_def)

theorem static_loop_partition_witness:
  "(\<exists>!t. t < 4 \<and> gets team4 (bounds_of 10 19) t 13) \<and> told_last team4 (bounds_of 10 19) 3"
proof -
  have 1: "sint (plower (bounds_of 10 19)) \<le> 13" "13 \<le> sint (pupper (bounds_of 10 19))"
    "plast (bounds_of 10 19) \<noteq> None" by (simp_all add: bounds_of_def)
  have "gets team4 (bounds_of 10 19) 3 (sint (pupper (bounds_of 10 19)))"
    by (simp add: gets_def kmpc_for_static_init_4_def kmp_sch_static_def kmp_sch_static_chunked_def
        bounds_of_def team4_def nb_threads_def sdiv32_def Let_def)
  with static_loop_partition [OF team4_share 1(1,2)] 1(3) show ?thesis by auto
qed

text \<open>
  Where static work sharing goes wrong. With an increment of 2 the left-over iterations
  shift the later blocks by their number instead of twice their number: two threads sharing
  \<open>0, 2, 4\<close> are given \<open>0, 2\<close> and \<open>3\<close>. With chunks, the last-iteration flag ignores the
  lower bound: of two threads sharing \<open>1 .. 4\<close> in chunks of 2 neither is told to have it.
\<close>

theorem static_init_4_wrong:
  "map_option (\<lambda>b. (plower b, pupper b))
     (kmpc_for_static_init_4 (team4\<lparr>nbThreads := 2\<rparr>) 0 kmp_sch_static 2 0 (bounds_of 0 4)) = Some (0, 2) \<and>
   map_option (\<lambda>b. (plower b, pupper b))
     (kmpc_for_static_init_4 (team4\<lparr>nbThreads := 2\<rparr>) 1 kmp_sch_static 2 0 (bounds_of 0 4)) = Some (3, 3) \<and>
   map_option (\<lambda>b. (plower b, pupper b, plast b))
     (kmpc_for_static_init_4 (team4\<lparr>nbThreads := 2\<rparr>) 0 kmp_sch_static_chunked 1 2 (bounds_of 1 4))
     = Some (1, 2, Some 0) \<and>
   map_option (\<lambda>b. (plower b, pupper b, plast b))
     (kmpc_for_static_init_4 (team4\<lparr>nbThreads := 2\<rparr>) 1 kmp_sch_static_chunked 1 2 (bounds_of 1 4))
     = Some (3, 4, Some 0)"
  by (simp add: kmpc_for_static_init_4_def kmp_sch_static_def kmp_sch_static_chunked_def
      bounds_of_def team4_def nb_threads_def sdiv32_def smod32_def Let_def
      signed_divide_int_def signed_modulo_int_def)

section \<open>Chunked partition\<close>

text \<open>The chunks of a thread repeat at the stride until the loop ends.\<close>

definition gets_chunk :: "omp_team \<Rightarrow> i32 \<Rightarrow> loop_bounds \<Rightarrow> nat \<Rightarrow> int \<Rightarrow> bool" where
  "gets_chunk team chunk b t i \<longleftrightarrow>
     (case kmpc_for_static_init_4 team (of_nat t) kmp_sch_static_chunked 1 chunk b of
        None \<Rightarrow> False
      | Some b' \<Rightarrow> \<exists>k. sint (plower b') + int k * sint (pstride b') \<le> i \<and>
          i \<le> sint (pupper b') + int k * sint (pstride b'))"

lemma chunked_init:
  assumes "nbThreads team = of_nat N" "N \<le> 255" "0 < C" "t < N" "plast b \<noteq> None"
    and "sint (plower b) + int (C * N) < 2147483648" "C * N < 2147483648"
  shows "\<exists>b'. kmpc_for_static_init_4 team (of_nat t) kmp_sch_static_chunked 1 (of_nat C) b = Some b' \<and>
    sint (plower b') = sint (plower b) + int (C * t) \<and>
    sint (pupper b') = sint (plower b) + int (C * t + (C - 1)) \<and> sint (pstride b') = int (C * N)"
proof -
  have nb: "nb_threads team = of_nat N" using assms(1,2) by (rule nb_threads_eq [rotated])
  have tC: "C * t + C \<le> C * N" using assms(4) by (metis Suc_leI mult_Suc_right add.commute mult_le_mono2)
  have z: "(of_nat C :: u32) \<noteq> 0" "(of_nat (C * N) :: u32) \<noteq> 0"
    using assms(3,4,7) tC unat_of_nat_u32 [of C] unat_of_nat_u32 [of "C * N"]
    by (auto simp del: unat_of_nat_u32 of_nat_mult)
  have lo: "sint (plower b + of_nat (C * t)) = sint (plower b) + int (C * t)"
    by (rule sint_add_nat) (use tC assms(6) in linarith)
  have up: "sint (plower b + of_nat (C * t + (C - 1))) = sint (plower b) + int (C * t + (C - 1))"
    by (rule sint_add_nat) (use tC assms(3,6) in linarith)
  have e: "plower b + of_nat C * of_nat t + of_nat C - 1 = plower b + of_nat (C * t + (C - 1))"
    using assms(3) by (simp add: of_nat_diff)
  have st: "sint (of_nat (C * N) :: u32) = int (C * N)" using assms(7) by (rule sint_of_nat_u32)
  show ?thesis
    using assms(5) z lo up st unfolding kmpc_for_static_init_4_def Let_def
    by (auto simp: nb e simp del: of_nat_add)
qed

text \<open>
  Static work sharing in chunks of \<open>C\<close> iterations: every iteration from the lower
  bound on belongs to a chunk of exactly one thread, the chunks being dealt out in turn.
\<close>

theorem chunked_loop_partition:
  assumes "nbThreads team = of_nat N" "0 < N" "N \<le> 255" "0 < C" "plast b \<noteq> None"
    and "sint (plower b) + int (C * N) < 2147483648" "C * N < 2147483648" "sint (plower b) \<le> i"
  shows "\<exists>!t. t < N \<and> gets_chunk team (of_nat C) b t i"
proof -
  define j where "j = nat (i - sint (plower b))"
  have i: "i = sint (plower b) + int j" using assms(8) by (simp add: j_def)
  have iff: "gets_chunk team (of_nat C) b t i \<longleftrightarrow> t = j div C mod N" if t: "t < N" for t
  proof -
    obtain b' where b': "kmpc_for_static_init_4 team (of_nat t) kmp_sch_static_chunked 1 (of_nat C) b = Some b'"
      "sint (plower b') = sint (plower b) + int (C * t)"
      "sint (pupper b') = sint (plower b) + int (C * t + (C - 1))" "sint (pstride b') = int (C * N)"
      using chunked_init [OF assms(1,3,4) t assms(5-7)] by blast
    have "gets_chunk team (of_nat C) b t i \<longleftrightarrow>
        (\<exists>k. int (C * t) + int k * int (C * N) \<le> int j \<and> int j \<le> int (C * t + (C - 1)) + int k * int (C * N))"
      unfolding gets_chunk_def b'(1) by (simp only: option.case b' i) (simp add: algebra_simps)
    also have "\<dots> \<longleftrightarrow> (\<exists>k. C * (t + k * N) \<le> j \<and> j < C * Suc (t + k * N))"
    proof -
      have "int (C * t) + int k * int (C * N) \<le> int j \<and> int j \<le> int (C * t + (C - 1)) + int k * int (C * N)
          \<longleftrightarrow> C * (t + k * N) \<le> j \<and> j < C * Suc (t + k * N)" for k
      proof -
        have "int (C * t) + int k * int (C * N) = int (C * (t + k * N))" by (simp add: algebra_simps)
        moreover have "int (C * t + (C - 1)) + int k * int (C * N) = int (C * Suc (t + k * N)) - 1"
          using assms(4) by (simp add: algebra_simps of_nat_diff)
        moreover have "int j \<le> int x - 1 \<longleftrightarrow> j < x" for x by linarith
        ultimately show ?thesis by (simp only: of_nat_le_iff)
      qed
      then show ?thesis by simp
    qed
    also have "\<dots> \<longleftrightarrow> (\<exists>k. j div C = t + k * N)"
      using assms(4) by (metis div_nat_eqI dividend_less_times_div mult.commute times_div_less_eq_dividend mult_Suc_right add.commute)
    also have "\<dots> \<longleftrightarrow> t = j div C mod N"
      using t by (metis div_mult_mod_eq add.commute mod_mult_self1 mod_less)
    finally show ?thesis .
  qed
  have "j div C mod N < N" using assms(2) by simp
  then show ?thesis using iff by (metis (lifting))
qed

theorem chunked_loop_partition_witness:
  "\<exists>!t. t < 4 \<and> gets_chunk team4 3 (bounds_of 10 99) t 50"
  using chunked_loop_partition [of team4 4 3 "bounds_of 10 99" 50] by (simp add: team4_def bounds_of_def)

section \<open>Dynamic loops\<close>

text \<open>
  Successive calls of \<open>__kmpc_dispatch_next_4\<close>, by whatever threads, each with its own
  variables; the result lists what the calls return.
\<close>

primrec dispatch_run :: "chunk_vars list \<Rightarrow> omp_team \<Rightarrow> (i32 \<times> chunk_vars) list \<times> omp_team" where
  "dispatch_run [] team = ([], team)"
| "dispatch_run (v # vs) team =
     (let (r, v, team) = kmpc_dispatch_next_4 team v; (rs, team) = dispatch_run vs team
      in ((r, v) # rs, team))"

definition chunk_lo :: "i32 \<Rightarrow> nat \<Rightarrow> nat \<Rightarrow> int" where
  "chunk_lo lb C k = sint lb + int (k * C)"

lemma chunk_lo_0 [simp]: "chunk_lo lb C 0 = sint lb"
  by (simp add: chunk_lo_def)

lemma chunk_lo_mono: "k \<le> m \<Longrightarrow> chunk_lo lb C k \<le> chunk_lo lb C m"
  unfolding chunk_lo_def by (simp add: mult_le_mono1 del: of_nat_mult)

text \<open>The state after \<open>k\<close> chunks have been handed out.\<close>

definition at_chunk :: "i32 \<Rightarrow> i32 \<Rightarrow> nat \<Rightarrow> nat \<Rightarrow> omp_team \<Rightarrow> bool" where
  "at_chunk lb ub C k team \<longleftrightarrow> loop_end team = ub \<and> loop_chunk team = of_nat C \<and>
     sint (loop_start team) = chunk_lo lb C k"

lemma dispatch_next_more:
  assumes "at_chunk lb ub C k team" "0 < C" "chunk_lo lb C k \<le> sint ub" "sint ub + int C < 2147483648"
  shows "\<exists>v' team'. kmpc_dispatch_next_4 team v = (1, v', team') \<and> at_chunk lb ub C (Suc k) team' \<and>
    sint (p_lb v') = chunk_lo lb C k \<and> sint (p_ub v') = min (chunk_lo lb C (Suc k) - 1) (sint ub)"
proof -
  have a: "sint (loop_start team) = chunk_lo lb C k" "loop_end team = ub" "loop_chunk team = of_nat C"
    using assms(1) by (auto simp: at_chunk_def)
  have n: "sint (loop_start team + of_nat C) = chunk_lo lb C (Suc k)"
    using sint_add_nat [of "loop_start team" C] a(1) assms(3,4) by (simp add: chunk_lo_def)
  have e: "loop_start team + of_nat C - 1 = loop_start team + of_nat (C - 1)"
    using assms(2) by (simp add: of_nat_diff)
  have u: "sint (loop_start team + of_nat C - 1) = chunk_lo lb C (Suc k) - 1"
    unfolding e using sint_add_nat [of "loop_start team" "C - 1"] a(1) assms(2-4)
    by (simp add: chunk_lo_def of_nat_diff)
  show ?thesis
    using a n u assms(3) by (auto simp: kmpc_dispatch_next_4_def Let_def at_chunk_def)
qed

lemma dispatch_next_done:
  assumes "at_chunk lb ub C k team" "sint ub < chunk_lo lb C k"
  shows "\<exists>v' team'. kmpc_dispatch_next_4 team v = (0, v', team') \<and> at_chunk lb ub C k team'"
  using assms by (auto simp: kmpc_dispatch_next_4_def Let_def at_chunk_def)

lemma dispatch_run_from:
  assumes "at_chunk lb ub C k team" "0 < C" "sint ub + int C < 2147483648" "q < length vs"
  shows "if chunk_lo lb C (k + q) \<le> sint ub
    then fst (fst (dispatch_run vs team) ! q) = 1 \<and>
      sint (p_lb (snd (fst (dispatch_run vs team) ! q))) = chunk_lo lb C (k + q) \<and>
      sint (p_ub (snd (fst (dispatch_run vs team) ! q))) = min (chunk_lo lb C (Suc (k + q)) - 1) (sint ub)
    else fst (fst (dispatch_run vs team) ! q) = 0"
  using assms
proof (induction vs arbitrary: k q team)
  case (Cons v vs)
  show ?case
  proof (cases "chunk_lo lb C k \<le> sint ub")
    case True
    obtain v' team' where s: "kmpc_dispatch_next_4 team v = (1, v', team')" "at_chunk lb ub C (Suc k) team'"
      "sint (p_lb v') = chunk_lo lb C k" "sint (p_ub v') = min (chunk_lo lb C (Suc k) - 1) (sint ub)"
      using dispatch_next_more [OF Cons.prems(1,2) True Cons.prems(3)] by blast
    show ?thesis
    proof (cases q)
      case 0
      then show ?thesis using True s by (simp add: split_beta)
    next
      case (Suc r)
      then show ?thesis
        using Cons.IH [OF s(2) Cons.prems(2,3), of r] Cons.prems(4) s(1) by (simp add: split_beta)
    qed
  next
    case False
    obtain v' team' where s: "kmpc_dispatch_next_4 team v = (0, v', team')" "at_chunk lb ub C k team'"
      using dispatch_next_done [OF Cons.prems(1), of v] False by auto
    have past: "\<not> chunk_lo lb C (k + r) \<le> sint ub" for r
      using False chunk_lo_mono [of k "k + r" lb C] by simp
    show ?thesis
    proof (cases q)
      case 0
      then show ?thesis using False s by (simp add: split_beta)
    next
      case (Suc r)
      then show ?thesis
        using Cons.IH [OF s(2) Cons.prems(2,3), of r] Cons.prems(4) s(1) past [of r] past [of "Suc r"]
        by (simp add: split_beta)
    qed
  qed
qed simp

lemma length_dispatch_run: "length (fst (dispatch_run vs team)) = length vs"
  by (induction vs arbitrary: team) (simp_all add: split_beta Let_def)

text \<open>Call number \<open>q\<close> hands out iteration \<open>i\<close>.\<close>

definition hands_out :: "(i32 \<times> chunk_vars) list \<Rightarrow> nat \<Rightarrow> int \<Rightarrow> bool" where
  "hands_out rs q i \<longleftrightarrow> fst (rs ! q) = 1 \<and> sint (p_lb (snd (rs ! q))) \<le> i \<and> i \<le> sint (p_ub (snd (rs ! q)))"

text \<open>
  A dynamic loop that one thread has set up: each iteration of \<open>lb .. ub\<close> is handed out by
  exactly one call once there have been enough calls, no iteration outside is, and a call returns
  0 exactly when all have been handed out.
\<close>

lemma dispatch_hands_out_once:
  fixes team lb ub st C vs
  assumes "loop_is_setup team = 0" "0 < C" "sint ub + int C < 2147483648"
  defines "rs \<equiv> fst (dispatch_run vs (kmpc_dispatch_init_4 lb ub st (of_nat C) team))"
  shows "(sint lb \<le> i \<longrightarrow> i \<le> sint ub \<longrightarrow> i < chunk_lo lb C (length vs) \<longrightarrow>
      (\<exists>!q. q < length vs \<and> hands_out rs q i))
    \<and> (\<forall>q<length vs. hands_out rs q i \<longrightarrow> sint lb \<le> i \<and> i \<le> sint ub)
    \<and> (\<forall>q<length vs. fst (rs ! q) = 0 \<longleftrightarrow> sint ub < chunk_lo lb C q)"
proof -
  have at: "at_chunk lb ub C 0 (kmpc_dispatch_init_4 lb ub st (of_nat C) team)"
    using assms(1) by (simp add: kmpc_dispatch_init_4_def at_chunk_def chunk_lo_def)
  note r = dispatch_run_from [OF at assms(2,3), of _ vs, folded rs_def, simplified]
  have h: "hands_out rs q i \<longleftrightarrow> chunk_lo lb C q \<le> sint ub \<and> chunk_lo lb C q \<le> i \<and>
      i < chunk_lo lb C (Suc q) \<and> i \<le> sint ub" if "q < length vs" for q
    using r [OF that] by (auto simp: hands_out_def split: if_splits)
  have z: "fst (rs ! q) = 0 \<longleftrightarrow> sint ub < chunk_lo lb C q" if "q < length vs" for q
    using r [OF that] by (auto split: if_splits)
  have once: "\<exists>!q. q < length vs \<and> hands_out rs q i"
    if i: "sint lb \<le> i" "i \<le> sint ub" "i < chunk_lo lb C (length vs)"
  proof -
    define j where "j = nat (i - sint lb)"
    have j: "i = sint lb + int j" using i(1) by (simp add: j_def)
    have "\<exists>!q. q < length vs \<and> q * C \<le> j \<and> j < Suc q * C"
      by (rule ex1_block) (use i(3) j in \<open>auto simp: chunk_lo_def simp flip: of_nat_mult\<close>)
    moreover have "hands_out rs q i \<longleftrightarrow> q * C \<le> j \<and> j < Suc q * C" if "q < length vs" for q
      using h [OF that] i(2) j unfolding chunk_lo_def by (auto simp flip: of_nat_mult)
    ultimately show ?thesis by (metis (lifting))
  qed
  have "chunk_lo lb C q \<le> i \<Longrightarrow> sint lb \<le> i" for q
    using chunk_lo_mono [of 0 q lb C] by simp
  with once h z show ?thesis by blast
qed

text \<open>
  The loop is not tied to its threads: the first call that returns 0 marks the loop as
  not set up, so a thread that reaches \<open>__kmpc_dispatch_init_4\<close> of the same loop only then
  sets it up again and is handed iterations that were executed before.
\<close>

theorem dispatch_late_init_repeats:
  "let v = \<lparr>p_last = 0, p_lb = 0, p_ub = 0, p_st = 0\<rparr>;
       (rs, t1) = dispatch_run [v, v] (kmpc_dispatch_init_4 0 3 1 4 team4);
       (qs, t2) = dispatch_run [v] (kmpc_dispatch_init_4 0 3 1 4 t1)
   in map fst rs = [1, 0] \<and> hands_out rs 0 2 \<and> hands_out qs 0 2"
  by (simp add: kmpc_dispatch_init_4_def kmpc_dispatch_next_4_def hands_out_def team4_def Let_def)

section \<open>Fork\<close>

lemma store_args_inside:
  "i + length vs \<le> length buf \<Longrightarrow>
   store_args i vs (buf, over) = (take i buf @ vs @ drop (i + length vs) buf, over)"
proof (induction vs arbitrary: i buf over)
  case (Cons v vs)
  then have "i < length buf" by simp
  then have "take (Suc i) (buf[i := v]) = take i buf @ [v]" by (simp add: take_Suc_conv_app_nth)
  then show ?case using Cons by (simp add: not_le)
qed simp

text \<open>
  A fork with at most 7 arguments calls the microtask in every thread exactly once with
  the arguments that were passed; the number of threads handed to the event unit and the
  team size are those of the last \<open>__kmpc_push_num_threads\<close>, limited by the number of
  compute cores.
\<close>

theorem fork_calls_microtask_once:
  assumes "snrt_cluster_core_idx h = 0" "length args \<le> 7" "length kmpc_args = KMP_FORK_MAX_NARGS"
  shows "\<exists>f omp'. kmpc_fork_call h fn args kmpc_args (kmpc_push_num_threads n omp_p) = Some (f, omp')
    \<and> \<not> overrun f \<and> microtask_wrapper (fork_args f) (fork_argc f) = Some (fn, [args])
    \<and> sint (fork_threads f) = min (sint n) (sint (maxThreads omp_p))
    \<and> nbThreads (plainTeam omp') = ucast (fork_threads f)"
proof -
  have s: "store_args 0 (fn # args) (kmpc_args, False) =
      (fn # args @ drop (Suc (length args)) kmpc_args, False)"
    using store_args_inside [of 0 "fn # args" kmpc_args False] assms(2,3)
    by (simp add: KMP_FORK_MAX_NARGS_def)
  have "microtask_from (length args) (args @ xs) = [args]" for xs
    using assms(2) by (subst microtask_from.simps) auto
  then show ?thesis
    using assms(1,2) by (auto simp: kmpc_fork_call_def s microtask_wrapper_def Let_def
        partialParallelRegion_def kmpc_push_num_threads_def simp del: store_args.simps)
qed

definition omp0 :: omp where
  "omp0 = \<lparr>plainTeam = team4, numThreads = 4, maxThreads = 4, kmpc_barrier = 0\<rparr>"

theorem fork_calls_microtask_once_witness:
  "\<exists>f omp'. kmpc_fork_call (core_team boot0 0x10000000 0 blank_root 8 0) 0x1234 [1, 2, 3] (replicate 12 0)
      (kmpc_push_num_threads 9 omp0) = Some (f, omp') \<and>
    microtask_wrapper (fork_args f) (fork_argc f) = Some (0x1234, [[1, 2, 3]]) \<and> sint (fork_threads f) = 4"
proof -
  have "snrt_cluster_core_idx (core_team boot0 0x10000000 0 blank_root 8 0) = 0"
    using core_team_idx(1) [OF boot0_ok, of 0] by simp
  from fork_calls_microtask_once [OF this, of "[1, 2, 3]" "replicate 12 0" "0x1234" 9 omp0]
  show ?thesis by (auto simp: KMP_FORK_MAX_NARGS_def omp0_def)
qed

text \<open>
  With more arguments it does not: 8 to 11 arguments fall through to the following
  cases, so the microtask runs up to five times, and 12 arguments are accepted but the last
  one is stored behind the 12-word buffer, whose first word is the microtask itself.
\<close>

theorem fork_with_many_arguments:
  "map_option (length \<circ> snd) (microtask_wrapper (replicate 13 7) 8) = Some 5 \<and>
   map_option (length \<circ> snd) (microtask_wrapper (replicate 13 7) 11) = Some 2 \<and>
   map_option (length \<circ> snd) (microtask_wrapper (replicate 13 7) 12) = Some 1 \<and>
   map_option (overrun \<circ> fst)
     (kmpc_fork_call (core_team boot0 0x10000000 0 blank_root 8 0) 7 (replicate 12 7)
       (replicate KMP_FORK_MAX_NARGS 0) omp0) = Some True"
proof -
  have "snrt_cluster_core_idx (core_team boot0 0x10000000 0 blank_root 8 0) = 0"
    using core_team_idx(1) [OF boot0_ok, of 0] by simp
  then show ?thesis
    by (simp add: microtask_wrapper_def microtask_from.simps kmpc_fork_call_def KMP_FORK_MAX_NARGS_def
        numeral_eq_Suc Let_def)
qed

end
