(* ===== verification/EventUnit.thy ===== *)
theory EventUnit
  imports Prelude
begin

text \<open>
  The event unit that runs OpenMP parallel regions, \<open>omp/eu.c\<close>: the loop of the worker
  cores and the master's \<open>eu_dispatch_push\<close>, \<open>eu_run_empty\<close> and \<open>eu_exit\<close>, with the
  master's start-up wait of \<open>snrt_omp_bootstrap\<close>. A step is one access to the shared
  structure or the interrupt device; a task is the triple \<open>fn\<close>, \<open>data\<close>, \<open>argc\<close>.
\<close>

section \<open>State\<close>

type_synonym task = "u32 \<times> u32 \<times> u32"

datatype worker_pc = WStart | WLoop | WCheck | WRun | WFini | WAdd | WSleep | WClr | WDec | WGone

text \<open>
  The master carries the local variable \<open>scratch\<close> and the arguments of the call it is in:
  \<open>MPush..\<close> is \<open>eu_dispatch_push\<close>, \<open>MRun\<close> to \<open>MClear\<close> is \<open>eu_run_empty\<close> with
  \<open>wake_workers\<close> inlined (\<open>MWake..\<close>), \<open>MExit..\<close> is \<open>eu_exit\<close>.
\<close>

datatype master_pc =
  MBoot | MIdle |
  MPushRead task u32 | MPushWait task u32 u32 | MPush task u32 | MPushN u32 |
  MRun | MZero u32 | MWakeRead u32 | MWakeWait u32 u32 | MWake u32 | MOwn u32 |
  MFiniRead | MFiniWait u32 | MClear |
  MExitRun | MExitRead | MExitWait u32 | MExitFlag | MExitWakeRead | MExitWakeWait u32 | MExitWake | MGone

record eu =
  workers_in_loop :: u32
  exit_flag :: bool
  workers_wfi :: u32
  e_task :: task
  e_nthreads :: u32
  e_fini_count :: u32

text \<open>
  \<open>irq\<close> is the pending cluster interrupt of each core; \<open>ran\<close> records the tasks that a
  core has executed and \<open>finished\<close> the regions that the master has completed.
\<close>

record eu_sys =
  eu :: eu
  irq :: "nat \<Rightarrow> bool"
  wpc :: "nat \<Rightarrow> worker_pc"
  mpc :: master_pc
  ran :: "nat \<Rightarrow> task list"
  finished :: "(task \<times> u32) list"

section \<open>Workers\<close>

definition execute :: "nat \<Rightarrow> eu_sys \<Rightarrow> eu_sys" where
  "execute c s = s\<lparr>ran := (ran s)(c := ran s c @ [e_task (eu s)])\<rparr>"

definition go :: "nat \<Rightarrow> worker_pc \<Rightarrow> eu_sys \<Rightarrow> eu_sys" where
  "go c pc s = s\<lparr>wpc := (wpc s)(c := pc)\<rparr>"

definition set_eu :: "eu \<Rightarrow> eu_sys \<Rightarrow> eu_sys" where
  "set_eu e s = s\<lparr>eu := e\<rparr>"

text \<open>
  \<open>worker_wfi\<close> and \<open>eu_event_loop\<close> of core \<open>c\<close>. \<open>clears\<close> says whether the store of
  \<open>snrt_int_cluster_clr\<close> reaches the clear register of the interrupt device.
\<close>

definition worker_wfi :: "bool \<Rightarrow> nat \<Rightarrow> eu_sys \<Rightarrow> eu_sys" where
  "worker_wfi clears c s = (let e = eu s in case wpc s c of
      WAdd \<Rightarrow> go c WSleep (set_eu (e\<lparr>workers_wfi := workers_wfi e + 1\<rparr>) s)
    | WSleep \<Rightarrow> if irq s c then go c WClr s else s
    | WClr \<Rightarrow> go c WDec (if clears then s\<lparr>irq := (irq s)(c := False)\<rparr> else s)
    | WDec \<Rightarrow> go c WLoop (set_eu (e\<lparr>workers_wfi := workers_wfi e - 1\<rparr>) s)
    | _ \<Rightarrow> s)"

definition eu_event_loop :: "bool \<Rightarrow> nat \<Rightarrow> eu_sys \<Rightarrow> eu_sys" where
  "eu_event_loop clears c s = (let e = eu s in case wpc s c of
      WStart \<Rightarrow> go c WLoop (set_eu (e\<lparr>workers_in_loop := workers_in_loop e + 1\<rparr>) s)
    | WLoop \<Rightarrow> go c (if exit_flag e then WGone else WCheck) s
    | WCheck \<Rightarrow> go c (if of_nat c < e_nthreads e then WRun else WFini) s
    | WRun \<Rightarrow> go c WFini (execute c s)
    | WFini \<Rightarrow> go c WAdd (set_eu (e\<lparr>e_fini_count := e_fini_count e + 1\<rparr>) s)
    | WGone \<Rightarrow> s
    | _ \<Rightarrow> worker_wfi clears c s)"

lemma eu_event_loop_unfold:
  "eu_event_loop clears c s = (let e = eu s in case wpc s c of
      WStart \<Rightarrow> go c WLoop (set_eu (e\<lparr>workers_in_loop := workers_in_loop e + 1\<rparr>) s)
    | WLoop \<Rightarrow> go c (if exit_flag e then WGone else WCheck) s
    | WCheck \<Rightarrow> go c (if of_nat c < e_nthreads e then WRun else WFini) s
    | WRun \<Rightarrow> go c WFini (execute c s)
    | WFini \<Rightarrow> go c WAdd (set_eu (e\<lparr>e_fini_count := e_fini_count e + 1\<rparr>) s)
    | WAdd \<Rightarrow> go c WSleep (set_eu (e\<lparr>workers_wfi := workers_wfi e + 1\<rparr>) s)
    | WSleep \<Rightarrow> if irq s c then go c WClr s else s
    | WClr \<Rightarrow> go c WDec (if clears then s\<lparr>irq := (irq s)(c := False)\<rparr> else s)
    | WDec \<Rightarrow> go c WLoop (set_eu (e\<lparr>workers_wfi := workers_wfi e - 1\<rparr>) s)
    | WGone \<Rightarrow> s)"
  by (cases "wpc s c") (simp_all add: eu_event_loop_def worker_wfi_def Let_def)

section \<open>Master\<close>

definition wake_mask :: "nat \<Rightarrow> u32" where
  "wake_mask numcores = NOT 1 AND (push_bit numcores 1 - 1)"

definition set_cluster_irqs :: "u32 \<Rightarrow> eu_sys \<Rightarrow> eu_sys" where
  "set_cluster_irqs msk s = s\<lparr>irq := (\<lambda>c. irq s c \<or> bit msk c)\<rparr>"

definition to :: "master_pc \<Rightarrow> eu_sys \<Rightarrow> eu_sys" where
  "to pc s = s\<lparr>mpc := pc\<rparr>"

definition wait_worker_wfi :: "u32 \<Rightarrow> master_pc \<Rightarrow> eu_sys \<Rightarrow> eu_sys" where
  "wait_worker_wfi scratch next s = (if workers_wfi (eu s) \<noteq> scratch then s else to next s)"

text \<open>The store of \<open>wake_workers\<close>, after its own wait; \<open>n\<close> is the number of compute cores.\<close>

definition wake_workers :: "nat \<Rightarrow> master_pc \<Rightarrow> eu_sys \<Rightarrow> eu_sys" where
  "wake_workers n next s = to next (set_cluster_irqs (wake_mask n) s)"

abbreviation eu_get_workers_in_loop :: "eu_sys \<Rightarrow> u32" where
  "eu_get_workers_in_loop s \<equiv> workers_in_loop (eu s)"

abbreviation eu_get_workers_in_wfi :: "eu_sys \<Rightarrow> u32" where
  "eu_get_workers_in_wfi s \<equiv> workers_wfi (eu s)"

definition eu_dispatch_push :: "eu_sys \<Rightarrow> eu_sys" where
  "eu_dispatch_push s = (let e = eu s in case mpc s of
      MPushRead t nt \<Rightarrow> to (MPushWait t nt (workers_in_loop e)) s
    | MPushWait t nt scratch \<Rightarrow> wait_worker_wfi scratch (MPush t nt) s
    | MPush t nt \<Rightarrow> to (MPushN nt) (set_eu (e\<lparr>e_task := t\<rparr>) s)
    | MPushN nt \<Rightarrow> to MRun (set_eu (e\<lparr>e_nthreads := nt\<rparr>) s)
    | _ \<Rightarrow> s)"

definition eu_run_empty :: "nat \<Rightarrow> eu_sys \<Rightarrow> eu_sys" where
  "eu_run_empty n s = (let e = eu s in case mpc s of
      MRun \<Rightarrow> if e_nthreads e = 0 then to MIdle s else to (MZero (e_nthreads e)) s
    | MZero scratch \<Rightarrow>
        to (if 1 < scratch then MWakeRead scratch else MOwn scratch) (set_eu (e\<lparr>e_fini_count := 0\<rparr>) s)
    | MWakeRead scratch \<Rightarrow> to (MWakeWait scratch (workers_in_loop e)) s
    | MWakeWait scratch l \<Rightarrow> wait_worker_wfi l (MWake scratch) s
    | MWake scratch \<Rightarrow> wake_workers n (MOwn scratch) s
    | MOwn scratch \<Rightarrow>
        to (if 1 < scratch then MFiniRead else MClear) (if 0 < e_nthreads e then execute 0 s else s)
    | MFiniRead \<Rightarrow> to (MFiniWait (eu_get_workers_in_loop s)) s
    | MFiniWait scratch \<Rightarrow> if e_fini_count e \<noteq> scratch then s else to MClear s
    | MClear \<Rightarrow> to MIdle
        (set_eu (e\<lparr>e_nthreads := 0\<rparr>) s)\<lparr>finished := finished s @ [(e_task e, e_nthreads e)]\<rparr>
    | _ \<Rightarrow> s)"

text \<open>
  The guard of \<open>eu_exit\<close> calls \<open>eu_run_empty\<close> only when \<open>nthreads\<close> is zero, where it
  returns at once: both branches go on with the wait.
\<close>

definition eu_exit :: "nat \<Rightarrow> eu_sys \<Rightarrow> eu_sys" where
  "eu_exit n s = (let e = eu s in case mpc s of
      MExitRun \<Rightarrow> to MExitRead s
    | MExitRead \<Rightarrow> to (MExitWait (workers_in_loop e)) s
    | MExitWait l \<Rightarrow> wait_worker_wfi l MExitFlag s
    | MExitFlag \<Rightarrow> to MExitWakeRead (set_eu (e\<lparr>exit_flag := True\<rparr>) s)
    | MExitWakeRead \<Rightarrow> to (MExitWakeWait (workers_in_loop e)) s
    | MExitWakeWait l \<Rightarrow> wait_worker_wfi l MExitWake s
    | MExitWake \<Rightarrow> wake_workers n MGone s
    | _ \<Rightarrow> s)"

text \<open>The master's wait in \<open>snrt_omp_bootstrap\<close> for all workers to sleep.\<close>

definition omp_bootstrap_wait :: "nat \<Rightarrow> eu_sys \<Rightarrow> eu_sys" where
  "omp_bootstrap_wait n s = (if eu_get_workers_in_wfi s \<noteq> of_nat n - 1 then s else to MIdle s)"

text \<open>A step of the master, core 0, is a step of the call it is in.\<close>

fun in_exit :: "master_pc \<Rightarrow> bool" where
  "in_exit MExitRun = True"
| "in_exit MExitRead = True"
| "in_exit (MExitWait l) = True"
| "in_exit MExitFlag = True"
| "in_exit MExitWakeRead = True"
| "in_exit (MExitWakeWait l) = True"
| "in_exit MExitWake = True"
| "in_exit _ = False"

fun in_push :: "master_pc \<Rightarrow> bool" where
  "in_push (MPushRead t nt) = True"
| "in_push (MPushWait t nt l) = True"
| "in_push (MPush t nt) = True"
| "in_push (MPushN nt) = True"
| "in_push _ = False"

definition master :: "nat \<Rightarrow> eu_sys \<Rightarrow> eu_sys" where
  "master n s =
     (if mpc s = MBoot then omp_bootstrap_wait n s
      else if in_push (mpc s) then eu_dispatch_push s
      else if in_exit (mpc s) then eu_exit n s
      else eu_run_empty n s)"

lemmas master_defs = master_def omp_bootstrap_wait_def eu_dispatch_push_def eu_run_empty_def
  eu_exit_def wait_worker_wfi_def wake_workers_def

lemma master_unfold:
  "master n s = (let e = eu s in case mpc s of
      MBoot \<Rightarrow> if workers_wfi e \<noteq> of_nat n - 1 then s else to MIdle s
    | MIdle \<Rightarrow> s
    | MPushRead t nt \<Rightarrow> to (MPushWait t nt (workers_in_loop e)) s
    | MPushWait t nt scratch \<Rightarrow> if workers_wfi e \<noteq> scratch then s else to (MPush t nt) s
    | MPush t nt \<Rightarrow> to (MPushN nt) (set_eu (e\<lparr>e_task := t\<rparr>) s)
    | MPushN nt \<Rightarrow> to MRun (set_eu (e\<lparr>e_nthreads := nt\<rparr>) s)
    | MRun \<Rightarrow> if e_nthreads e = 0 then to MIdle s else to (MZero (e_nthreads e)) s
    | MZero scratch \<Rightarrow>
        to (if 1 < scratch then MWakeRead scratch else MOwn scratch) (set_eu (e\<lparr>e_fini_count := 0\<rparr>) s)
    | MWakeRead scratch \<Rightarrow> to (MWakeWait scratch (workers_in_loop e)) s
    | MWakeWait scratch l \<Rightarrow> if workers_wfi e \<noteq> l then s else to (MWake scratch) s
    | MWake scratch \<Rightarrow> to (MOwn scratch) (set_cluster_irqs (wake_mask n) s)
    | MOwn scratch \<Rightarrow>
        to (if 1 < scratch then MFiniRead else MClear) (if 0 < e_nthreads e then execute 0 s else s)
    | MFiniRead \<Rightarrow> to (MFiniWait (workers_in_loop e)) s
    | MFiniWait scratch \<Rightarrow> if e_fini_count e \<noteq> scratch then s else to MClear s
    | MClear \<Rightarrow> to MIdle
        (set_eu (e\<lparr>e_nthreads := 0\<rparr>) s)\<lparr>finished := finished s @ [(e_task e, e_nthreads e)]\<rparr>
    | MExitRun \<Rightarrow> to MExitRead s
    | MExitRead \<Rightarrow> to (MExitWait (workers_in_loop e)) s
    | MExitWait l \<Rightarrow> if workers_wfi e \<noteq> l then s else to MExitFlag s
    | MExitFlag \<Rightarrow> to MExitWakeRead (set_eu (e\<lparr>exit_flag := True\<rparr>) s)
    | MExitWakeRead \<Rightarrow> to (MExitWakeWait (workers_in_loop e)) s
    | MExitWakeWait l \<Rightarrow> if workers_wfi e \<noteq> l then s else to MExitWake s
    | MExitWake \<Rightarrow> to MGone (set_cluster_irqs (wake_mask n) s)
    | MGone \<Rightarrow> s)"
  by (cases "mpc s") (simp_all add: master_defs Let_def)

inductive eu_step :: "nat \<Rightarrow> bool \<Rightarrow> eu_sys \<Rightarrow> eu_sys \<Rightarrow> bool" for n clears where
  worker_step: "1 \<le> c \<Longrightarrow> c < n \<Longrightarrow> eu_step n clears s (eu_event_loop clears c s)"
| master_step: "eu_step n clears s (master n s)"
| region_step: "mpc s = MIdle \<Longrightarrow> eu_step n clears s (to (MPushRead t nt) s)"
| exit_step: "mpc s = MIdle \<Longrightarrow> eu_step n clears s (to MExitRun s)"

definition eu_start :: "eu_sys \<Rightarrow> bool" where
  "eu_start s \<longleftrightarrow> workers_in_loop (eu s) = 0 \<and> \<not> exit_flag (eu s) \<and> workers_wfi (eu s) = 0 \<and>
     e_nthreads (eu s) = 0 \<and> e_fini_count (eu s) = 0 \<and> mpc s = MBoot \<and> finished s = [] \<and>
     (\<forall>c. \<not> irq s c \<and> wpc s c = WStart \<and> ran s c = [])"

section \<open>Counting workers\<close>

definition cnt :: "nat \<Rightarrow> (nat \<Rightarrow> bool) \<Rightarrow> u32" where
  "cnt n P = (\<Sum>w\<in>{1..<n}. if P w then 1 else 0)"

lemma cnt_cong: "(\<And>w. 1 \<le> w \<Longrightarrow> w < n \<Longrightarrow> P w = Q w) \<Longrightarrow> cnt n P = cnt n Q"
  unfolding cnt_def by (rule sum.cong) auto

lemma cnt_change:
  assumes "1 \<le> c" "c < n" "\<And>w. 1 \<le> w \<Longrightarrow> w < n \<Longrightarrow> w \<noteq> c \<Longrightarrow> Q w = P w"
  shows "cnt n Q = cnt n P + (if Q c then 1 else 0) - (if P c then 1 else 0)"
proof -
  have c: "c \<in> {1..<n}" using assms(1,2) by simp
  have "(\<Sum>w\<in>{1..<n} - {c}. if Q w then 1 else 0 :: u32) = (\<Sum>w\<in>{1..<n} - {c}. if P w then 1 else 0)"
    by (rule sum.cong) (use assms(3) in auto)
  then show ?thesis
    unfolding cnt_def sum.remove [OF finite_atLeastLessThan c, of "\<lambda>w. if Q w then 1 else 0 :: u32"]
      sum.remove [OF finite_atLeastLessThan c, of "\<lambda>w. if P w then 1 else 0 :: u32"] by simp
qed

lemma cnt_card: "cnt n P = of_nat (card {w \<in> {1..<n}. P w})"
  unfolding cnt_def by (simp add: sum.If_cases Int_def)

lemma cnt_all: "(\<And>w. 1 \<le> w \<Longrightarrow> w < n \<Longrightarrow> P w) \<Longrightarrow> 0 < n \<Longrightarrow> cnt n P = of_nat n - 1"
proof -
  assume P: "\<And>w. 1 \<le> w \<Longrightarrow> w < n \<Longrightarrow> P w" and n: "0 < n"
  have "{w \<in> {1..<n}. P w} = {1..<n}" using P by auto
  then show ?thesis using n by (simp add: cnt_card of_nat_diff)
qed

lemma cnt_none: "(\<And>w. 1 \<le> w \<Longrightarrow> w < n \<Longrightarrow> \<not> P w) \<Longrightarrow> cnt n P = 0"
proof -
  assume P: "\<And>w. 1 \<le> w \<Longrightarrow> w < n \<Longrightarrow> \<not> P w"
  have "{w \<in> {1..<n}. P w} = {}" using P by auto
  then show ?thesis by (simp only: cnt_card) simp
qed

lemma cnt_allD:
  assumes "cnt n P = of_nat n - 1" "0 < n" "n < 4294967296" "1 \<le> w" "w < n"
  shows "P w"
proof -
  let ?A = "{w \<in> {1..<n}. P w}"
  have sub: "?A \<subseteq> {1..<n}" by auto
  then have c: "card ?A \<le> n - 1" using card_mono [of "{1..<n}" ?A] by simp
  have e: "(of_nat (card ?A) :: u32) = of_nat (n - 1)"
    using assms(1,2) by (simp add: cnt_card of_nat_diff)
  have "card ?A < 4294967296" using c assms(3) by linarith
  moreover have "n - 1 < 4294967296" using assms(3) by linarith
  ultimately have "card ?A = n - 1" using e by (rule of_nat_u32_eq_iff [THEN iffD1])
  then have "card ?A = card {1..<n}" by (simp only: card_atLeastLessThan)
  with sub have "?A = {1..<n}" by (rule card_subset_eq [OF finite_atLeastLessThan])
  moreover have "w \<in> {1..<n}" using assms(4,5) by simp
  ultimately show ?thesis by blast
qed

section \<open>The invariant\<close>

text \<open>What core \<open>c\<close> has to execute for the completed regions, and for the current one.\<close>

definition due :: "nat \<Rightarrow> (task \<times> u32) list \<Rightarrow> task list" where
  "due c L = map fst (filter (\<lambda>(t, nt). of_nat c < nt) L)"

definition cur :: "eu_sys \<Rightarrow> nat \<Rightarrow> task list" where
  "cur s c = (if of_nat c < e_nthreads (eu s) then [e_task (eu s)] else [])"

abbreviation in_wfi :: "eu_sys \<Rightarrow> nat \<Rightarrow> bool" where
  "in_wfi s w \<equiv> wpc s w = WSleep \<or> wpc s w = WClr \<or> wpc s w = WDec"

abbreviation quietw :: "eu_sys \<Rightarrow> nat \<Rightarrow> bool" where
  "quietw s w \<equiv> \<not> irq s w \<and> (wpc s w = WAdd \<or> wpc s w = WSleep)"

definition counts :: "nat \<Rightarrow> eu_sys \<Rightarrow> bool" where
  "counts n s \<longleftrightarrow> workers_in_loop (eu s) = cnt n (\<lambda>w. wpc s w \<noteq> WStart) \<and>
     workers_wfi (eu s) = cnt n (in_wfi s)"

definition booting :: "nat \<Rightarrow> eu_sys \<Rightarrow> bool" where
  "booting n s \<longleftrightarrow> finished s = [] \<and> ran s 0 = [] \<and> e_nthreads (eu s) = 0 \<and> \<not> exit_flag (eu s) \<and>
     (\<forall>w. 1 \<le> w \<longrightarrow> w < n \<longrightarrow> \<not> irq s w \<and> ran s w = [] \<and> wpc s w \<in> {WStart, WLoop, WCheck, WFini, WAdd, WSleep})"

definition quiet :: "nat \<Rightarrow> (nat \<Rightarrow> task list) \<Rightarrow> eu_sys \<Rightarrow> bool" where
  "quiet n X s \<longleftrightarrow> (\<forall>w. 1 \<le> w \<longrightarrow> w < n \<longrightarrow> quietw s w \<and> ran s w = due w (finished s) @ X w)"

definition asleep :: "nat \<Rightarrow> eu_sys \<Rightarrow> bool" where
  "asleep n s \<longleftrightarrow> (\<forall>w. 1 \<le> w \<longrightarrow> w < n \<longrightarrow> \<not> irq s w \<and> wpc s w = WSleep \<and> ran s w = due w (finished s))"

definition active :: "nat \<Rightarrow> eu_sys \<Rightarrow> bool" where
  "active n s \<longleftrightarrow> e_fini_count (eu s) = cnt n (\<lambda>w. quietw s w) \<and> (\<forall>w. 1 \<le> w \<longrightarrow> w < n \<longrightarrow>
     (irq s w \<and> (wpc s w = WSleep \<or> wpc s w = WClr) \<or>
      \<not> irq s w \<and> (wpc s w = WDec \<or> wpc s w = WLoop \<or> wpc s w = WCheck \<or>
        wpc s w = WRun \<and> of_nat w < e_nthreads (eu s))) \<and> ran s w = due w (finished s)
     \<or> \<not> irq s w \<and> (wpc s w = WFini \<or> wpc s w = WAdd \<or> wpc s w = WSleep) \<and>
       ran s w = due w (finished s) @ cur s w)"

definition leaving :: "nat \<Rightarrow> eu_sys \<Rightarrow> bool" where
  "leaving n s \<longleftrightarrow> exit_flag (eu s) \<and> ran s 0 = due 0 (finished s) \<and>
     (\<forall>w. 1 \<le> w \<longrightarrow> w < n \<longrightarrow> ran s w = due w (finished s) \<and> wpc s w \<in> {WSleep, WClr, WDec, WLoop, WGone})"

definition idle :: "nat \<Rightarrow> eu_sys \<Rightarrow> bool" where
  "idle n s \<longleftrightarrow> quiet n (\<lambda>_. []) s \<and> e_nthreads (eu s) = 0 \<and> ran s 0 = due 0 (finished s) \<and> \<not> exit_flag (eu s)"

definition ready :: "nat \<Rightarrow> eu_sys \<Rightarrow> bool" where
  "ready n s \<longleftrightarrow> asleep n s \<and> ran s 0 = due 0 (finished s) \<and> \<not> exit_flag (eu s)"

definition working :: "nat \<Rightarrow> eu_sys \<Rightarrow> bool" where
  "working n s \<longleftrightarrow> active n s \<and> 1 < e_nthreads (eu s) \<and> \<not> exit_flag (eu s)"

fun phase :: "nat \<Rightarrow> master_pc \<Rightarrow> eu_sys \<Rightarrow> bool" where
  "phase n MBoot s \<longleftrightarrow> booting n s"
| "phase n MIdle s \<longleftrightarrow> idle n s"
| "phase n (MPushRead t nt) s \<longleftrightarrow> idle n s"
| "phase n (MPushWait t nt l) s \<longleftrightarrow> idle n s \<and> l = of_nat n - 1"
| "phase n (MPush t nt) s \<longleftrightarrow> ready n s"
| "phase n (MPushN nt) s \<longleftrightarrow> ready n s"
| "phase n MRun s \<longleftrightarrow> ready n s"
| "phase n (MZero k) s \<longleftrightarrow> ready n s \<and> e_nthreads (eu s) = k \<and> k \<noteq> 0"
| "phase n (MWakeRead k) s \<longleftrightarrow> ready n s \<and> e_nthreads (eu s) = k \<and> 1 < k \<and> e_fini_count (eu s) = 0"
| "phase n (MWakeWait k l) s \<longleftrightarrow>
     ready n s \<and> e_nthreads (eu s) = k \<and> 1 < k \<and> e_fini_count (eu s) = 0 \<and> l = of_nat n - 1"
| "phase n (MWake k) s \<longleftrightarrow> ready n s \<and> e_nthreads (eu s) = k \<and> 1 < k \<and> e_fini_count (eu s) = 0"
| "phase n (MOwn k) s \<longleftrightarrow> e_nthreads (eu s) = k \<and> k \<noteq> 0 \<and> ran s 0 = due 0 (finished s) \<and>
     (if 1 < k then working n s else ready n s)"
| "phase n MFiniRead s \<longleftrightarrow> working n s \<and> ran s 0 = due 0 (finished s) @ [e_task (eu s)]"
| "phase n (MFiniWait l) s \<longleftrightarrow> working n s \<and> ran s 0 = due 0 (finished s) @ [e_task (eu s)] \<and> l = of_nat n - 1"
| "phase n MClear s \<longleftrightarrow> quiet n (cur s) s \<and> e_nthreads (eu s) \<noteq> 0 \<and>
     ran s 0 = due 0 (finished s) @ [e_task (eu s)] \<and> \<not> exit_flag (eu s)"
| "phase n MExitRun s \<longleftrightarrow> idle n s"
| "phase n MExitRead s \<longleftrightarrow> idle n s"
| "phase n (MExitWait l) s \<longleftrightarrow> idle n s \<and> l = of_nat n - 1"
| "phase n MExitFlag s \<longleftrightarrow> ready n s"
| "phase n MExitWakeRead s \<longleftrightarrow> asleep n s \<and> leaving n s"
| "phase n (MExitWakeWait l) s \<longleftrightarrow> asleep n s \<and> leaving n s \<and> l = of_nat n - 1"
| "phase n MExitWake s \<longleftrightarrow> asleep n s \<and> leaving n s"
| "phase n MGone s \<longleftrightarrow> leaving n s"

definition eu_inv :: "nat \<Rightarrow> eu_sys \<Rightarrow> bool" where
  "eu_inv n s \<longleftrightarrow> 0 < n \<and> n < 32 \<and> counts n s \<and> phase n (mpc s) s"

section \<open>Every step keeps the invariant\<close>

lemmas move_defs = go_def to_def set_eu_def execute_def set_cluster_irqs_def

lemma counts_worker:
  assumes "counts n s" "1 \<le> c" "c < n"
  shows "counts n (eu_event_loop clears c s)"
proof -
  let ?s = "eu_event_loop clears c s"
  have "cnt n (\<lambda>w. wpc ?s w \<noteq> WStart) = cnt n (\<lambda>w. wpc s w \<noteq> WStart)
      + (if wpc ?s c \<noteq> WStart then 1 else 0) - (if wpc s c \<noteq> WStart then 1 else 0)"
    by (rule cnt_change [OF assms(2,3)])
      (auto simp: eu_event_loop_unfold move_defs Let_def split: worker_pc.split)
  moreover have "cnt n (in_wfi ?s) = cnt n (in_wfi s)
      + (if in_wfi ?s c then 1 else 0) - (if in_wfi s c then 1 else 0)"
    by (rule cnt_change [OF assms(2,3)])
      (auto simp: eu_event_loop_unfold move_defs Let_def split: worker_pc.split)
  moreover have "workers_in_loop (eu ?s) = workers_in_loop (eu s)
      + (if wpc ?s c \<noteq> WStart then 1 else 0) - (if wpc s c \<noteq> WStart then 1 else 0)"
    by (cases "wpc s c") (simp_all add: eu_event_loop_unfold move_defs Let_def)
  moreover have "workers_wfi (eu ?s) = workers_wfi (eu s)
      + (if in_wfi ?s c then 1 else 0) - (if in_wfi s c then 1 else 0)"
    by (cases "wpc s c") (simp_all add: eu_event_loop_unfold move_defs Let_def)
  ultimately show ?thesis using assms(1) unfolding counts_def by presburger
qed

lemma asleep_worker: "\<not> irq s c \<Longrightarrow> wpc s c = WSleep \<Longrightarrow> eu_event_loop clears c s = s"
  by (simp add: eu_event_loop_unfold Let_def)

lemma worker_frame:
  "mpc (eu_event_loop clears c s) = mpc s" "finished (eu_event_loop clears c s) = finished s"
  "e_task (eu (eu_event_loop clears c s)) = e_task (eu s)"
  "e_nthreads (eu (eu_event_loop clears c s)) = e_nthreads (eu s)"
  "exit_flag (eu (eu_event_loop clears c s)) = exit_flag (eu s)"
  "w \<noteq> c \<Longrightarrow> wpc (eu_event_loop clears c s) w = wpc s w"
  "w \<noteq> c \<Longrightarrow> irq (eu_event_loop clears c s) w = irq s w"
  "w \<noteq> c \<Longrightarrow> ran (eu_event_loop clears c s) w = ran s w"
  by (cases "wpc s c"; simp add: eu_event_loop_unfold move_defs Let_def)+

lemma quiet_worker:
  assumes "quiet n X s" "1 \<le> c" "c < n"
  shows "quiet n X (eu_event_loop clears c s)"
proof -
  have "quietw (eu_event_loop clears c s) c \<and> ran (eu_event_loop clears c s) c = ran s c"
    using assms by (auto simp: quiet_def eu_event_loop_unfold move_defs Let_def)
  then show ?thesis
    using assms unfolding quiet_def worker_frame(2) by (metis worker_frame(6,7,8))
qed

lemma leaving_worker:
  assumes "leaving n s" "1 \<le> c" "c < n"
  shows "leaving n (eu_event_loop clears c s)"
proof -
  have c: "wpc s c \<in> {WSleep, WClr, WDec, WLoop, WGone}" "exit_flag (eu s)"
    using assms by (auto simp: leaving_def)
  then have "ran (eu_event_loop clears c s) = ran s"
      "wpc (eu_event_loop clears c s) c \<in> {WSleep, WClr, WDec, WLoop, WGone}"
    by (cases "wpc s c"; simp add: eu_event_loop_unfold move_defs Let_def)+
  then show ?thesis
    using assms(1) unfolding leaving_def worker_frame by (metis worker_frame(6))
qed

lemma booting_worker:
  assumes "booting n s" "1 \<le> c" "c < n"
  shows "booting n (eu_event_loop clears c s)"
proof -
  let ?s = "eu_event_loop clears c s"
  have c: "wpc s c \<in> {WStart, WLoop, WCheck, WFini, WAdd, WSleep}" "\<not> exit_flag (eu s)"
    "e_nthreads (eu s) = 0" "\<not> irq s c"
    using assms by (auto simp: booting_def)
  then have "ran ?s = ran s" "irq ?s = irq s"
      "wpc ?s c \<in> {WStart, WLoop, WCheck, WFini, WAdd, WSleep}"
    by (cases "wpc s c"; simp add: eu_event_loop_unfold move_defs Let_def)+
  then show ?thesis
    using assms(1) unfolding booting_def worker_frame by (metis worker_frame(6))
qed

lemma active_worker:
  assumes "active n s" "\<not> exit_flag (eu s)" "1 \<le> c" "c < n"
  shows "active n (eu_event_loop True c s)"
proof -
  let ?s = "eu_event_loop True c s"
  let ?ok = "\<lambda>s w. (irq s w \<and> (wpc s w = WSleep \<or> wpc s w = WClr) \<or>
      \<not> irq s w \<and> (wpc s w = WDec \<or> wpc s w = WLoop \<or> wpc s w = WCheck \<or>
        wpc s w = WRun \<and> of_nat w < e_nthreads (eu s))) \<and> ran s w = due w (finished s)
     \<or> \<not> irq s w \<and> (wpc s w = WFini \<or> wpc s w = WAdd \<or> wpc s w = WSleep) \<and>
       ran s w = due w (finished s) @ cur s w"
  have ok: "?ok s c" and fini: "e_fini_count (eu s) = cnt n (quietw s)"
    using assms by (auto simp: active_def)
  have curs: "cur ?s = cur s" by (rule ext) (simp add: cur_def worker_frame)
  have n1: "cnt n (quietw ?s) = cnt n (quietw s) + (if quietw ?s c then 1 else 0) - (if quietw s c then 1 else 0)"
    by (rule cnt_change [OF assms(3,4)]) (simp add: worker_frame)
  have n2: "e_fini_count (eu ?s) =
      e_fini_count (eu s) + (if quietw ?s c then 1 else 0) - (if quietw s c then 1 else 0)"
    using ok assms(2) by (cases "wpc s c") (auto simp: eu_event_loop_unfold move_defs Let_def)
  have "?ok ?s c"
    using ok assms(2)
    by (cases "wpc s c") (auto simp: eu_event_loop_unfold move_defs Let_def cur_def)
  moreover have "?ok ?s w" if "1 \<le> w" "w < n" "w \<noteq> c" for w
  proof -
    have "?ok s w" using assms(1) that unfolding active_def by blast
    then show ?thesis unfolding curs worker_frame(2,4) worker_frame(6-8) [OF that(3)] .
  qed
  ultimately have all: "?ok ?s w" if "1 \<le> w" "w < n" for w using that by blast
  have "e_fini_count (eu ?s) = cnt n (quietw ?s)" unfolding n1 n2 fini ..
  then show ?thesis unfolding active_def by (intro conjI allI impI all)
qed

lemma phase_worker:
  assumes "phase n (mpc s) s" "1 \<le> c" "c < n"
  shows "phase n (mpc s) (eu_event_loop True c s)"
proof -
  let ?s = "eu_event_loop True c s"
  have r0: "ran ?s 0 = ran s 0" using assms(2) by (simp add: worker_frame)
  have curs: "cur ?s = cur s" by (rule ext) (simp add: cur_def worker_frame)
  have idle: "idle n s \<Longrightarrow> idle n ?s"
    using quiet_worker [OF _ assms(2,3)] by (simp add: idle_def worker_frame r0)
  have working: "working n s \<Longrightarrow> working n ?s"
    using active_worker [OF _ _ assms(2,3)] by (simp add: working_def worker_frame)
  note moves = idle working quiet_worker [OF _ assms(2,3)] leaving_worker [OF _ assms(2,3)]
    booting_worker [OF _ assms(2,3)]
  show ?thesis
  proof (cases "asleep n s")
    case True
    then have "?s = s" using assms(2,3) by (auto simp: asleep_def intro: asleep_worker)
    then show ?thesis using assms(1) by simp
  next
    case False
    then have "\<not> ready n s" by (simp add: ready_def)
    with False show ?thesis
      using assms(1) by (cases "mpc s") (simp_all add: moves worker_frame r0 curs split: if_splits)
  qed
qed

lemma bit_wake_mask: "n < 32 \<Longrightarrow> bit (wake_mask n) c \<longleftrightarrow> 1 \<le> c \<and> c < n"
proof -
  assume n: "n < 32"
  have "wake_mask n = NOT 1 AND mask n" by (simp add: wake_mask_def mask_eq_exp_minus_1)
  with n show ?thesis by (auto simp: bit_simps)
qed

lemma due_append: "due w (L @ [(t, nt)]) = due w L @ (if of_nat w < nt then [t] else [])"
  by (simp add: due_def)

lemma all_in_loop:
  assumes "counts n s" "0 < n" "\<And>w. 1 \<le> w \<Longrightarrow> w < n \<Longrightarrow> wpc s w \<noteq> WStart"
  shows "workers_in_loop (eu s) = of_nat n - 1"
  using assms cnt_all [of n "\<lambda>w. wpc s w \<noteq> WStart"] by (simp add: counts_def)

lemma all_in_wfi:
  assumes "counts n s" "0 < n" "n < 32" "workers_wfi (eu s) = of_nat n - 1" "1 \<le> w" "w < n"
  shows "in_wfi s w"
  using cnt_allD [of n "in_wfi s" w] assms by (simp add: counts_def)

lemma asleep_in_loop: "asleep n s \<Longrightarrow> counts n s \<Longrightarrow> 0 < n \<Longrightarrow> workers_in_loop (eu s) = of_nat n - 1"
  by (rule all_in_loop) (auto simp: asleep_def)

lemma quiet_in_loop: "quiet n X s \<Longrightarrow> counts n s \<Longrightarrow> 0 < n \<Longrightarrow> workers_in_loop (eu s) = of_nat n - 1"
  by (rule all_in_loop) (auto simp: quiet_def)

lemma active_in_loop: "active n s \<Longrightarrow> counts n s \<Longrightarrow> 0 < n \<Longrightarrow> workers_in_loop (eu s) = of_nat n - 1"
  by (rule all_in_loop) (auto simp: active_def)

lemma quiet_asleep:
  assumes "quiet n (\<lambda>_. []) s" "counts n s" "0 < n" "n < 32" "workers_wfi (eu s) = of_nat n - 1"
  shows "asleep n s"
proof -
  have "\<not> irq s w \<and> wpc s w = WSleep \<and> ran s w = due w (finished s)" if "1 \<le> w" "w < n" for w
    using all_in_wfi [OF assms(2-5) that] assms(1) that by (auto simp: quiet_def)
  then show ?thesis by (simp add: asleep_def)
qed

lemma booted:
  assumes "booting n s" "counts n s" "0 < n" "n < 32" "workers_wfi (eu s) = of_nat n - 1"
  shows "idle n s"
proof -
  have "quietw s w \<and> ran s w = due w (finished s)" if "1 \<le> w" "w < n" for w
    using all_in_wfi [OF assms(2-5) that] assms(1) that by (auto simp: booting_def due_def)
  then show ?thesis using assms(1) by (simp add: idle_def quiet_def booting_def due_def)
qed

lemma woken:
  assumes "asleep n s" "n < 32" "e_fini_count (eu s) = 0"
  shows "active n (to pc (set_cluster_irqs (wake_mask n) s))"
proof -
  let ?s = "to pc (set_cluster_irqs (wake_mask n) s)"
  have all: "irq ?s w \<and> wpc ?s w = WSleep \<and> ran ?s w = due w (finished ?s)" if "1 \<le> w" "w < n" for w
    using assms(1) that bit_wake_mask [OF assms(2)] by (simp add: asleep_def move_defs)
  then have "cnt n (quietw ?s) = 0" by (intro cnt_none) blast
  moreover have "e_fini_count (eu ?s) = 0" using assms(3) by (simp add: move_defs)
  ultimately have "e_fini_count (eu ?s) = cnt n (quietw ?s)" by (simp only:)
  then show ?thesis unfolding active_def
  proof (intro conjI allI impI)
    fix w
    assume "1 \<le> w" "w < n"
    from all [OF this] show "(irq ?s w \<and> (wpc ?s w = WSleep \<or> wpc ?s w = WClr) \<or>
      \<not> irq ?s w \<and> (wpc ?s w = WDec \<or> wpc ?s w = WLoop \<or> wpc ?s w = WCheck \<or>
        wpc ?s w = WRun \<and> of_nat w < e_nthreads (eu ?s))) \<and> ran ?s w = due w (finished ?s)
     \<or> \<not> irq ?s w \<and> (wpc ?s w = WFini \<or> wpc ?s w = WAdd \<or> wpc ?s w = WSleep) \<and>
       ran ?s w = due w (finished ?s) @ cur ?s w" by blast
  qed
qed

lemma all_done:
  assumes "active n s" "0 < n" "n < 32" "e_fini_count (eu s) = of_nat n - 1"
  shows "quiet n (cur s) s"
proof -
  have "quietw s w \<and> ran s w = due w (finished s) @ cur s w" if "1 \<le> w" "w < n" for w
  proof -
    have "cnt n (quietw s) = of_nat n - 1" using assms(1,4) by (simp add: active_def)
    then have "quietw s w" using cnt_allD [of n "quietw s" w] assms(2,3) that by simp
    moreover have "wpc s w = WSleep \<and> irq s w \<or> wpc s w \<noteq> WSleep \<and> wpc s w \<noteq> WAdd \<or>
        ran s w = due w (finished s) @ cur s w"
      using assms(1) that unfolding active_def by fastforce
    ultimately show ?thesis by blast
  qed
  then show ?thesis by (simp add: quiet_def)
qed

lemma counts_master: "counts n (master n s) \<longleftrightarrow> counts n s"
proof -
  have "wpc (master n s) = wpc s" "workers_in_loop (eu (master n s)) = workers_in_loop (eu s)"
    "workers_wfi (eu (master n s)) = workers_wfi (eu s)"
    by (cases "mpc s"; simp add: master_unfold move_defs Let_def)+
  then show ?thesis by (simp add: counts_def)
qed

lemmas inv_defs = quiet_def asleep_def idle_def ready_def

lemma active_mpc [simp]: "active n (s\<lparr>mpc := pc\<rparr>) \<longleftrightarrow> active n s"
  by (simp add: active_def cur_def)

lemma region_done:
  assumes "quiet n (cur s) s" "ran s 0 = due 0 (finished s) @ [e_task (eu s)]" "e_nthreads (eu s) \<noteq> 0"
    "\<not> exit_flag (eu s)" "mpc s = MClear"
  shows "idle n (master n s)"
proof -
  have "ran s w = due w (finished s @ [(e_task (eu s), e_nthreads (eu s))]) \<and> quietw s w"
    if "1 \<le> w" "w < n" for w
    using assms(1) that by (simp add: quiet_def due_append cur_def)
  moreover have "ran s 0 = due 0 (finished s @ [(e_task (eu s), e_nthreads (eu s))])"
    using assms(2,3) by (simp add: due_append word_neq_0_conv)
  ultimately show ?thesis
    using assms(4,5) by (simp add: master_unfold move_defs Let_def idle_def quiet_def)
qed

lemma own_done:
  assumes "working n s" "mpc s = MOwn k" "1 < k" "e_nthreads (eu s) = k" "ran s 0 = due 0 (finished s)"
  shows "phase n MFiniRead (master n s)"
proof -
  have m: "master n s = s\<lparr>mpc := MFiniRead, ran := (ran s)(0 := ran s 0 @ [e_task (eu s)])\<rparr>"
    using assms(2-4) by (auto simp: master_unfold move_defs Let_def word_neq_0_conv [symmetric])
  have "active n (master n s) \<longleftrightarrow> active n s"
    unfolding active_def m by (rule arg_cong2 [where f = "(\<and>)"]) (simp_all add: cur_def cong: imp_cong)
  then have "active n (master n s)" using assms(1) by (simp add: working_def)
  then show ?thesis using assms(1,5) by (simp add: m working_def)
qed

lemma own_done_alone:
  assumes "ready n s" "mpc s = MOwn k" "\<not> 1 < k" "k \<noteq> 0" "e_nthreads (eu s) = k" "n < 32"
  shows "phase n MClear (master n s)"
proof -
  have m: "master n s = s\<lparr>mpc := MClear, ran := (ran s)(0 := ran s 0 @ [e_task (eu s)])\<rparr>"
    using assms(2-5) by (auto simp: master_unfold move_defs Let_def word_neq_0_conv [symmetric])
  have "unat k \<noteq> 0" using assms(4) by (simp add: unat_eq_zero)
  then have k: "k = 1" using assms(3) by (simp add: word_less_nat_alt word_unat_eq_iff [of k 1])
  have nlt: "\<not> (of_nat w :: u32) < k" if "1 \<le> w" "w < n" for w
  proof -
    have "unat (of_nat w :: u32) = w" by (rule unat_of_nat_u32) (use that assms(6) in linarith)
    then show ?thesis unfolding word_less_nat_alt k using that(1) by simp
  qed
  show ?thesis
    using assms(1,4,5) nlt by (auto simp: m ready_def asleep_def quiet_def cur_def)
qed

lemma phase_master:
  assumes "counts n s" "0 < n" "n < 32" "phase n (mpc s) s"
  shows "phase n (mpc (master n s)) (master n s)"
proof (cases "mpc s")
  case MBoot
  then show ?thesis
    using assms booted [of n s] by (auto simp: master_unfold move_defs Let_def idle_def quiet_def)
next
  case (MPushRead t nt)
  then show ?thesis
    using assms quiet_in_loop [of n "\<lambda>_. []" s]
    by (simp add: master_unfold move_defs Let_def idle_def quiet_def)
next
  case (MPushWait t nt l)
  then show ?thesis
    using assms quiet_asleep [of n s]
    by (auto simp: master_unfold move_defs Let_def inv_defs)
next
  case (MWake k)
  have "working n (master n s)"
    using assms MWake woken [of n s "MOwn k"]
    by (simp add: master_unfold Let_def ready_def working_def) (simp add: move_defs)
  moreover have "k \<noteq> 0" using assms(4) MWake by auto
  ultimately show ?thesis using assms MWake by (simp add: master_unfold move_defs Let_def ready_def)
next
  case (MOwn k)
  then show ?thesis
    using assms own_done [of n s k] own_done_alone [of n s k]
    by (cases "1 < k") (auto simp: master_unfold move_defs Let_def)
next
  case MFiniRead
  then show ?thesis
    using assms active_in_loop [of n s]
    by (simp add: master_unfold move_defs Let_def working_def)
next
  case (MFiniWait l)
  then show ?thesis
    using assms all_done [of n s]
    by (auto simp: master_unfold move_defs Let_def working_def quiet_def cur_def)
next
  case MClear
  then show ?thesis
    using assms region_done [of n s] by (simp add: master_unfold move_defs Let_def)
next
  case MExitRead
  then show ?thesis
    using assms quiet_in_loop [of n "\<lambda>_. []" s]
    by (simp add: master_unfold move_defs Let_def idle_def quiet_def)
next
  case (MExitWait l)
  then show ?thesis
    using assms quiet_asleep [of n s]
    by (auto simp: master_unfold move_defs Let_def inv_defs)
next
  case (MWakeRead k)
  then show ?thesis
    using assms asleep_in_loop [of n s]
    by (simp add: master_unfold move_defs Let_def ready_def) (simp add: asleep_def)
next
  case MExitWakeRead
  then show ?thesis
    using assms asleep_in_loop [of n s]
    by (simp add: master_unfold move_defs Let_def leaving_def) (simp add: asleep_def)
next
  case MRun
  then show ?thesis
    using assms by (auto simp: master_unfold move_defs Let_def inv_defs)
next
  case (MZero k)
  then show ?thesis
    using assms by (auto simp: master_unfold move_defs Let_def ready_def asleep_def)
qed (use assms in \<open>auto simp: master_unfold move_defs Let_def inv_defs leaving_def\<close>)

definition eu_begin :: "nat \<Rightarrow> eu_sys \<Rightarrow> bool" where
  "eu_begin n s \<longleftrightarrow> 0 < n \<and> n < 32 \<and> eu_start s"

lemma eu_inv_start: "eu_begin n s \<Longrightarrow> eu_inv n s"
  unfolding eu_begin_def eu_inv_def eu_start_def counts_def
  by (auto simp: cnt_none booting_def)

lemma eu_inv_step: "eu_inv n s \<Longrightarrow> eu_step n True s t \<Longrightarrow> eu_inv n t"
proof (erule eu_step.cases)
  fix c s'
  assume "eu_inv n s" "s = s'" "t = eu_event_loop True c s'" "1 \<le> c" "c < n"
  then show ?thesis by (simp add: eu_inv_def counts_worker phase_worker worker_frame)
next
  fix s'
  assume "eu_inv n s" "s = s'" "t = master n s'"
  then show ?thesis by (simp add: eu_inv_def counts_master phase_master)
next
  fix s' x nt
  assume "eu_inv n s" "s = s'" "t = to (MPushRead x nt) s'" "mpc s' = MIdle"
  then show ?thesis by (simp add: eu_inv_def to_def counts_def idle_def quiet_def)
next
  fix s'
  assume "eu_inv n s" "s = s'" "t = to MExitRun s'" "mpc s' = MIdle"
  then show ?thesis by (simp add: eu_inv_def to_def counts_def idle_def quiet_def)
qed

interpretation regions: inductive_invariant "eu_begin n" "eu_step n True" "eu_inv n" for n
  by unfold_locales (auto intro: eu_inv_start eu_inv_step)

lemma ran_due:
  assumes "eu_inv n s" "c < n"
  shows "ran s c = due c (finished s) \<or>
    of_nat c < e_nthreads (eu s) \<and> ran s c = due c (finished s) @ [e_task (eu s)]"
proof -
  have ph: "phase n (mpc s) s" using assms(1) by (simp add: eu_inv_def)
  show ?thesis
  proof (cases "c = 0")
    case True
    have "1 < k \<Longrightarrow> 0 < k" for k :: u32 using word_neq_0_conv [of k] by auto
    then show ?thesis
      using ph True by (cases "mpc s") (auto simp: booting_def idle_def ready_def leaving_def working_def
          due_def word_neq_0_conv)
  next
    case False
    then have c: "1 \<le> c" by simp
    have "booting n s \<or> quiet n (\<lambda>_. []) s \<or> quiet n (cur s) s \<or> asleep n s \<or> active n s \<or> leaving n s"
      using ph by (cases "mpc s") (auto simp: idle_def ready_def working_def split: if_splits)
    then have "ran s c = due c (finished s) \<or> ran s c = due c (finished s) @ cur s c"
    proof (elim disjE)
      assume "active n s"
      then show ?thesis using c assms(2) unfolding active_def by blast
    qed (use c assms(2) in \<open>auto simp: booting_def quiet_def asleep_def leaving_def due_def\<close>)
    then show ?thesis by (auto simp: cur_def split: if_splits)
  qed
qed

lemma inv_run_once:
  assumes "eu_inv n s" "c < n"
  shows "(mpc s = MIdle \<longrightarrow> ran s c = map fst (filter (\<lambda>(t, nt). of_nat c < nt) (finished s))) \<and>
    (ran s c = map fst (filter (\<lambda>(t, nt). of_nat c < nt) (finished s)) \<or>
     of_nat c < e_nthreads (eu s) \<and>
       ran s c = map fst (filter (\<lambda>(t, nt). of_nat c < nt) (finished s)) @ [e_task (eu s)])"
proof -
  have "e_nthreads (eu s) = 0" if "mpc s = MIdle"
    using assms(1) that by (simp add: eu_inv_def idle_def)
  then show ?thesis using ran_due [OF assms] by (auto simp: due_def)
qed

section \<open>Properties\<close>

text \<open>
  Parallel regions run exactly once on every member of the team: in every interleaving
  of the master and the workers, when the master has come back from a region each core has
  executed exactly the tasks of the completed regions it belongs to, in order; and at any
  other time it has at most executed the current task in addition, and only as a member.
  This needs the interrupt to be cleared by the core that wakes up.
\<close>

theorem regions_run_once:
  assumes "reach (eu_begin n) (eu_step n True) s" "c < n"
  shows "(mpc s = MIdle \<longrightarrow> ran s c = map fst (filter (\<lambda>(t, nt). of_nat c < nt) (finished s))) \<and>
    (ran s c = map fst (filter (\<lambda>(t, nt). of_nat c < nt) (finished s)) \<or>
     of_nat c < e_nthreads (eu s) \<and>
       ran s c = map fst (filter (\<lambda>(t, nt). of_nat c < nt) (finished s)) @ [e_task (eu s)])"
  by (rule inv_run_once [OF regions.reach_inv [OF assms(1)] assms(2)])

text \<open>
  No deadlock: in every reachable state in which the master is inside a call, the master
  or one of the workers can take a step that changes the state.
\<close>

theorem regions_progress:
  assumes "reach (eu_begin n) (eu_step n True) s" "mpc s \<noteq> MIdle" "mpc s \<noteq> MGone"
  shows "\<exists>t. eu_step n True s t \<and> t \<noteq> s"
proof (rule ccontr)
  assume stuck: "\<not> ?thesis"
  have inv: "0 < n" "n < 32" "counts n s" "phase n (mpc s) s"
    using regions.reach_inv [OF assms(1)] by (auto simp: eu_inv_def)
  have m: "master n s = s" using stuck master_step by blast
  have w: "wpc s c = WSleep \<and> \<not> irq s c \<or> wpc s c = WGone" if "1 \<le> c" "c < n" for c
  proof -
    have "eu_event_loop True c s = s" using stuck worker_step [OF that] by blast
    then have "wpc (eu_event_loop True c s) c = wpc s c" by simp
    then show ?thesis
      by (cases "wpc s c") (auto simp: eu_event_loop_unfold move_defs Let_def split: if_splits)
  qed
  have mpc: "mpc (master n s) = mpc s" using m by simp
  have wfi: "workers_wfi (eu s) = of_nat n - 1" if "\<And>c. 1 \<le> c \<Longrightarrow> c < n \<Longrightarrow> wpc s c \<noteq> WGone"
    using cnt_all [of n "in_wfi s"] inv(1,3) w that by (auto simp: counts_def)
  have alive: "wpc s c \<noteq> WGone" if "1 \<le> c" "c < n" for c
    using inv(4) assms(3) that
    by (cases "mpc s") (auto simp: booting_def idle_def ready_def quiet_def asleep_def working_def
        active_def split: if_splits)
  note wfi = wfi [OF alive]
  have fini: "e_fini_count (eu s) = of_nat n - 1" if "active n s"
    using cnt_all [of n "quietw s"] inv(1) w alive that by (auto simp: active_def)
  show False
    using mpc inv(4) wfi assms(2,3) fini
    by (cases "mpc s") (auto simp: master_unfold move_defs Let_def working_def split: if_splits)
qed

text \<open>Runs for the witnesses: worker \<open>c\<close> moves, the master moves, a region is started.\<close>

datatype eu_action = W nat | M | Region task u32

fun eu_move :: "nat \<Rightarrow> bool \<Rightarrow> eu_action \<Rightarrow> eu_sys \<Rightarrow> eu_sys" where
  "eu_move n clears (W c) s = (if 1 \<le> c \<and> c < n then eu_event_loop clears c s else s)"
| "eu_move n clears M s = master n s"
| "eu_move n clears (Region t nt) s = (if mpc s = MIdle then to (MPushRead t nt) s else s)"

definition eu0 :: eu_sys where
  "eu0 = \<lparr>eu = \<lparr>workers_in_loop = 0, exit_flag = False, workers_wfi = 0, e_task = (0, 0, 0),
      e_nthreads = 0, e_fini_count = 0\<rparr>, irq = (\<lambda>_. False), wpc = (\<lambda>_. WStart), mpc = MBoot,
    ran = (\<lambda>_. []), finished = []\<rparr>"

definition eu_run :: "nat \<Rightarrow> bool \<Rightarrow> eu_action list \<Rightarrow> eu_sys" where
  "eu_run n clears ms = fold (eu_move n clears) ms eu0"

lemma moves_reach:
  "reach (eu_begin n) (eu_step n clears) s \<Longrightarrow> reach (eu_begin n) (eu_step n clears) (fold (eu_move n clears) ms s)"
proof (induction ms arbitrary: s)
  case (Cons m ms)
  have "eu_move n clears m s = s \<or> eu_step n clears s (eu_move n clears m s)"
    by (cases m) (auto intro: eu_step.intros)
  then have "reach (eu_begin n) (eu_step n clears) (eu_move n clears m s)" using Cons.prems by (metis reach_step)
  then show ?case using Cons.IH by simp
qed simp

lemma eu_run_reach: "0 < n \<Longrightarrow> n < 32 \<Longrightarrow> reach (eu_begin n) (eu_step n clears) (eu_run n clears ms)"
  unfolding eu_run_def
  by (intro moves_reach reach_start) (simp add: eu0_def eu_begin_def eu_start_def)

text \<open>One worker enters the loop, the master starts a region for both cores and wakes it.\<close>

definition until_wake :: "eu_action list" where
  "until_wake = [W 1, W 1, W 1, W 1, W 1, M, Region (7, 8, 9) 2, M, M, M, M, M, M, M, M, M]"

definition one_pass :: "eu_action list" where
  "one_pass = [W 1, W 1, W 1, W 1, W 1, W 1, W 1, W 1]"

lemmas eu_run_simps = eu_run_def eu0_def until_wake_def one_pass_def eu_event_loop_unfold master_unfold
  move_defs wake_mask_def

theorem regions_run_once_witness:
  "ran (eu_run 2 True (until_wake @ one_pass @ [M, M, M, M])) 1 = [(7, 8, 9)]"
proof -
  have "mpc (eu_run 2 True (until_wake @ one_pass @ [M, M, M, M])) = MIdle"
    "finished (eu_run 2 True (until_wake @ one_pass @ [M, M, M, M])) = [((7, 8, 9), 2)]"
    by (simp_all add: eu_run_simps bit_simps)
  with regions_run_once [OF eu_run_reach, of 2 1 "until_wake @ one_pass @ [M, M, M, M]"]
  show ?thesis by simp
qed

theorem regions_progress_witness:
  "\<exists>t. eu_step 2 True (eu_run 2 True until_wake) t \<and> t \<noteq> eu_run 2 True until_wake"
proof -
  have "mpc (eu_run 2 True until_wake) = MOwn 2" by (simp add: eu_run_simps bit_simps)
  with regions_progress [OF eu_run_reach, of 2 until_wake] show ?thesis by simp
qed

text \<open>
  Without a working clear the regions are not safe: if the store of
  \<open>snrt_int_cluster_clr\<close> does not reach the clear register, the pending interrupt lets the
  worker through its next \<open>wfi\<close> at once, and before the master has reset \<open>nthreads\<close> it
  executes the same task a second time.
\<close>

theorem stuck_interrupt_repeats_task:
  "\<exists>s. reach (eu_begin 2) (eu_step 2 False) s \<and> finished s = [] \<and> ran s 1 = [(7, 8, 9), (7, 8, 9)]"
proof (intro exI conjI)
  let ?s = "eu_run 2 False (until_wake @ one_pass @ one_pass)"
  show "reach (eu_begin 2) (eu_step 2 False) ?s" by (rule eu_run_reach) simp_all
  show "finished ?s = []" "ran ?s 1 = [(7, 8, 9), (7, 8, 9)]"
    by (simp_all add: eu_run_simps bit_simps)
qed

end
