(* ===== verification/EuOrder.thy ===== *)
theory EuOrder
  imports EventUnit
begin

text \<open>
  The event unit of \<open>omp/eu.c\<close> whatever the store of \<open>snrt_int_cluster_clr\<close> does. That store goes to the
  word two behind \<open>CL_CLINT_SET\<close>, the barrier register, so in the shipped runtime \<open>clears\<close> is \<open>False\<close>: an
  interrupt once set stays pending, and a worker runs through every later \<open>wfi\<close>. What remains of the promises
  of \<open>EventUnit\<close>, and what becomes of \<open>eu_exit\<close>.
\<close>

section \<open>Repetitions\<close>

text \<open>\<open>xs\<close> goes through \<open>ys\<close> in order, leaving out and repeating elements.\<close>

fun repeats :: "'a list \<Rightarrow> 'a list \<Rightarrow> bool" where
  "repeats [] ys \<longleftrightarrow> True"
| "repeats (x # xs) [] \<longleftrightarrow> False"
| "repeats (x # xs) (y # ys) \<longleftrightarrow> x = y \<and> repeats xs (y # ys) \<or> repeats (x # xs) ys"

lemma repeats_more: "repeats xs ys \<Longrightarrow> repeats xs (ys @ zs)"
  by (induction xs ys rule: repeats.induct) auto

lemma repeats_last: "repeats xs ys \<Longrightarrow> ys \<noteq> [] \<Longrightarrow> repeats (xs @ [last ys]) ys"
proof (induction xs ys rule: repeats.induct)
  case (1 ys)
  then show ?case by (induction ys) auto
next
  case (3 x xs y ys)
  then show ?case by (cases ys) auto
qed simp

lemma repeats_subset: "repeats xs ys \<Longrightarrow> set xs \<subseteq> set ys"
  by (induction xs ys rule: repeats.induct) auto

section \<open>The invariant\<close>

text \<open>The regions core \<open>c\<close> belongs to, up to the one that is open.\<close>

definition owed :: "eu_sys \<Rightarrow> nat \<Rightarrow> task list" where
  "owed s c = due c (finished s) @ cur s c"

fun own_part :: "master_pc \<Rightarrow> task \<Rightarrow> task list" where
  "own_part MFiniRead t = [t]"
| "own_part (MFiniWait l) t = [t]"
| "own_part MClear t = [t]"
| "own_part _ t = []"

fun flagged :: "master_pc \<Rightarrow> bool" where
  "flagged MExitWakeRead \<longleftrightarrow> True"
| "flagged (MExitWakeWait l) \<longleftrightarrow> True"
| "flagged MExitWake \<longleftrightarrow> True"
| "flagged MGone \<longleftrightarrow> True"
| "flagged _ \<longleftrightarrow> False"

definition settled :: "nat \<Rightarrow> eu_sys \<Rightarrow> bool" where
  "settled n s \<longleftrightarrow> (\<forall>w. 1 \<le> w \<longrightarrow> w < n \<longrightarrow> wpc s w \<noteq> WStart)"

definition nobody_runs :: "nat \<Rightarrow> eu_sys \<Rightarrow> bool" where
  "nobody_runs n s \<longleftrightarrow> (\<forall>w. 1 \<le> w \<longrightarrow> w < n \<longrightarrow> wpc s w \<noteq> WRun)"

definition on_way_out :: "nat \<Rightarrow> eu_sys \<Rightarrow> bool" where
  "on_way_out n s \<longleftrightarrow> (\<forall>w. 1 \<le> w \<longrightarrow> w < n \<longrightarrow> wpc s w \<in> {WSleep, WClr, WDec, WLoop, WGone})"

definition sleepers_woken :: "nat \<Rightarrow> eu_sys \<Rightarrow> bool" where
  "sleepers_woken n s \<longleftrightarrow> (\<forall>w. 1 \<le> w \<longrightarrow> w < n \<longrightarrow> wpc s w = WSleep \<longrightarrow> irq s w)"

fun stage :: "nat \<Rightarrow> master_pc \<Rightarrow> eu_sys \<Rightarrow> bool" where
  "stage n MRun s \<longleftrightarrow> True"
| "stage n (MPushWait t nt l) s \<longleftrightarrow> e_nthreads (eu s) = 0 \<and> l = of_nat n - 1"
| "stage n (MPush t nt) s \<longleftrightarrow> e_nthreads (eu s) = 0 \<and> nobody_runs n s"
| "stage n (MPushN nt) s \<longleftrightarrow> e_nthreads (eu s) = 0 \<and> nobody_runs n s"
| "stage n (MZero k) s \<longleftrightarrow> e_nthreads (eu s) = k \<and> k \<noteq> 0"
| "stage n (MWakeRead k) s \<longleftrightarrow> e_nthreads (eu s) = k \<and> k \<noteq> 0"
| "stage n (MWakeWait k l) s \<longleftrightarrow> e_nthreads (eu s) = k \<and> k \<noteq> 0"
| "stage n (MWake k) s \<longleftrightarrow> e_nthreads (eu s) = k \<and> k \<noteq> 0"
| "stage n (MOwn k) s \<longleftrightarrow> e_nthreads (eu s) = k \<and> k \<noteq> 0"
| "stage n MFiniRead s \<longleftrightarrow> e_nthreads (eu s) \<noteq> 0"
| "stage n (MFiniWait l) s \<longleftrightarrow> e_nthreads (eu s) \<noteq> 0"
| "stage n MClear s \<longleftrightarrow> e_nthreads (eu s) \<noteq> 0"
| "stage n (MExitWait l) s \<longleftrightarrow> e_nthreads (eu s) = 0 \<and> l = of_nat n - 1"
| "stage n (MExitWakeWait l) s \<longleftrightarrow> e_nthreads (eu s) = 0 \<and> l = of_nat n - 1"
| "stage n MExitWake s \<longleftrightarrow> e_nthreads (eu s) = 0 \<and> on_way_out n s"
| "stage n MGone s \<longleftrightarrow> e_nthreads (eu s) = 0 \<and> on_way_out n s \<and> sleepers_woken n s"
| "stage n _ s \<longleftrightarrow> e_nthreads (eu s) = 0"

definition worker_ok :: "eu_sys \<Rightarrow> nat \<Rightarrow> bool" where
  "worker_ok s w \<longleftrightarrow> repeats (ran s w) (owed s w) \<and>
     (wpc s w = WRun \<longrightarrow> owed s w \<noteq> [] \<and> last (owed s w) = e_task (eu s)) \<and>
     (wpc s w = WGone \<longrightarrow> exit_flag (eu s))"

definition order_inv :: "nat \<Rightarrow> eu_sys \<Rightarrow> bool" where
  "order_inv n s \<longleftrightarrow> 0 < n \<and> n < 32 \<and> counts n s \<and> (mpc s \<noteq> MBoot \<longrightarrow> settled n s) \<and>
     (exit_flag (eu s) \<longleftrightarrow> flagged (mpc s)) \<and> ran s 0 = due 0 (finished s) @ own_part (mpc s) (e_task (eu s)) \<and>
     (\<forall>w. 1 \<le> w \<longrightarrow> w < n \<longrightarrow> worker_ok s w) \<and> stage n (mpc s) s"

section \<open>Every step keeps the invariant\<close>

lemma in_loop: "counts n s \<Longrightarrow> settled n s \<Longrightarrow> 0 < n \<Longrightarrow> workers_in_loop (eu s) = of_nat n - 1"
  unfolding counts_def settled_def using cnt_all [of n "\<lambda>w. wpc s w \<noteq> WStart"] by simp

lemma all_counted:
  assumes "counts n s" "workers_wfi (eu s) = of_nat n - 1" "0 < n" "n < 32" "1 \<le> w" "w < n"
  shows "in_wfi s w"
  by (rule cnt_allD [of n "in_wfi s", OF _ assms(3) _ assms(5,6)]) (use assms(1,2,4) in \<open>auto simp: counts_def\<close>)

lemma order_inv_start: "eu_begin n s \<Longrightarrow> order_inv n s"
  unfolding eu_begin_def eu_start_def order_inv_def counts_def worker_ok_def owed_def
  by (auto simp: cnt_none due_def)

lemma worker_frame_irq: "w \<noteq> c \<Longrightarrow> irq (eu_event_loop clears c s) w = irq s w"
  by (rule worker_frame)

lemma owed_worker: "owed (eu_event_loop clears c s) = owed s"
  by (simp add: owed_def cur_def worker_frame fun_eq_iff)

lemma worker_ok_worker:
  assumes "\<forall>w. 1 \<le> w \<longrightarrow> w < n \<longrightarrow> worker_ok s w" "1 \<le> w" "w < n"
  shows "worker_ok (eu_event_loop clears c s) w"
proof (cases "w = c")
  case True
  have ok: "worker_ok s c" using assms True by blast
  let ?t = "eu_event_loop clears c s"
  have "ran ?t c = (if wpc s c = WRun then ran s c @ [e_task (eu s)] else ran s c)"
    by (cases "wpc s c") (simp_all add: eu_event_loop_unfold move_defs Let_def)
  moreover have "wpc ?t c = WRun \<Longrightarrow> of_nat c < e_nthreads (eu s)"
    by (cases "wpc s c") (auto simp: eu_event_loop_unfold move_defs Let_def split: if_splits)
  moreover have "wpc ?t c = WGone \<Longrightarrow> wpc s c = WGone \<or> exit_flag (eu s)"
    by (cases "wpc s c") (auto simp: eu_event_loop_unfold move_defs Let_def split: if_splits)
  ultimately show ?thesis
    using ok repeats_last [of "ran s c" "owed s c"] True
    by (auto simp: worker_ok_def owed_worker worker_frame) (auto simp: owed_def cur_def)
next
  case False
  then show ?thesis using assms by (simp add: worker_ok_def owed_worker worker_frame)
qed

lemma stage_worker:
  assumes "stage n (mpc s) s" "exit_flag (eu s) \<longleftrightarrow> flagged (mpc s)" "1 \<le> c" "c < n"
  shows "stage n (mpc s) (eu_event_loop clears c s)"
proof -
  let ?t = "eu_event_loop clears c s"
  have runs: "nobody_runs n ?t" if "nobody_runs n s" "e_nthreads (eu s) = 0"
    unfolding nobody_runs_def
  proof (intro allI impI)
    fix w assume w: "1 \<le> w" "w < n"
    have "wpc s c \<noteq> WRun" using that(1) assms(3,4) by (simp add: nobody_runs_def)
    then have "wpc ?t c \<noteq> WRun"
      using that(2) by (cases "wpc s c") (auto simp: eu_event_loop_unfold move_defs Let_def split: if_splits)
    then show "wpc ?t w \<noteq> WRun" using that(1) w by (cases "w = c") (auto simp: nobody_runs_def worker_frame)
  qed
  have out: "on_way_out n ?t \<and> (sleepers_woken n s \<longrightarrow> sleepers_woken n ?t)" if o: "on_way_out n s" "exit_flag (eu s)"
  proof -
    have "wpc s c \<in> {WSleep, WClr, WDec, WLoop, WGone}" using o(1) assms(3,4) by (simp add: on_way_out_def)
    then have "wpc ?t c \<in> {WSleep, WClr, WDec, WLoop, WGone} \<and> (wpc ?t c = WSleep \<longrightarrow> ?t = s)"
      using o(2) by (auto simp: eu_event_loop_unfold move_defs Let_def)
    moreover have "w \<noteq> c \<Longrightarrow> wpc ?t w = wpc s w \<and> irq ?t w = irq s w" for w by (simp add: worker_frame)
    ultimately show ?thesis using o(1) unfolding on_way_out_def sleepers_woken_def by metis
  qed
  show ?thesis
    using assms(1,2) runs out by (cases "mpc s") (simp_all add: worker_frame)
qed

lemma settled_worker: "settled n s \<Longrightarrow> settled n (eu_event_loop clears c s)"
  unfolding settled_def
proof (intro allI impI)
  fix w assume s: "\<forall>w. 1 \<le> w \<longrightarrow> w < n \<longrightarrow> wpc s w \<noteq> WStart" and w: "1 \<le> w" "w < n"
  then have "wpc s w \<noteq> WStart" by blast
  then show "wpc (eu_event_loop clears c s) w \<noteq> WStart"
    by (cases "w = c"; cases "wpc s c") (auto simp: worker_frame eu_event_loop_unfold move_defs Let_def)
qed

lemma order_inv_worker:
  assumes "order_inv n s" "1 \<le> c" "c < n"
  shows "order_inv n (eu_event_loop clears c s)"
  using assms worker_ok_worker [of n s _ clears c] stage_worker [of n s c clears]
  by (auto simp: order_inv_def counts_worker settled_worker worker_frame)

lemma master_frame:
  "wpc (master n s) = wpc s" "w \<noteq> 0 \<Longrightarrow> ran (master n s) w = ran s w"
  by (cases "mpc s"; simp add: master_unfold move_defs Let_def)+

lemma owed_master:
  assumes "order_inv n s" "1 \<le> w" "w < n"
  shows "owed (master n s) w = owed s w \<or>
    (\<exists>nt. mpc s = MPushN nt) \<and> owed (master n s) w = owed s w @ cur (master n s) w"
  using assms
  by (cases "mpc s") (auto simp: order_inv_def owed_def master_unfold move_defs Let_def cur_def due_def)

lemma master_task: "(\<exists>t nt. mpc s = MPush t nt) \<or> e_task (eu (master n s)) = e_task (eu s)"
  by (cases "mpc s") (auto simp: master_unfold move_defs Let_def)

lemma worker_ok_master:
  assumes inv: "order_inv n s" and w: "1 \<le> w" "w < n"
  shows "worker_ok (master n s) w"
proof -
  have ok: "worker_ok s w" using assms by (simp add: order_inv_def)
  have st: "stage n (mpc s) s" using inv by (simp add: order_inv_def)
  have flag: "exit_flag (eu s) \<Longrightarrow> exit_flag (eu (master n s))"
    by (cases "mpc s") (simp_all add: master_unfold move_defs Let_def)
  have "wpc s w = WRun \<Longrightarrow> \<not> ((\<exists>nt. mpc s = MPushN nt) \<or> (\<exists>t nt. mpc s = MPush t nt))"
    using st w by (auto simp: nobody_runs_def)
  then show ?thesis
    using ok owed_master [OF assms] repeats_more [of "ran s w" "owed s w"] flag master_task [of s n] w
    by (auto simp: worker_ok_def master_frame)
qed

lemma stage_master:
  assumes inv: "order_inv n s"
  shows "stage n (mpc (master n s)) (master n s)"
proof -
  have parts: "0 < n" "n < 32" "counts n s" "stage n (mpc s) s" "mpc s \<noteq> MBoot \<Longrightarrow> settled n s"
    using inv by (auto simp: order_inv_def)
  have loop: "mpc s \<noteq> MBoot \<Longrightarrow> workers_in_loop (eu s) = of_nat n - 1" using in_loop parts by blast
  have wfi: "in_wfi s w" if "workers_wfi (eu s) = of_nat n - 1" "1 \<le> w" "w < n" for w
    by (rule all_counted [OF parts(3) that(1) parts(1,2) that(2,3)])
  have runs: "workers_wfi (eu s) = of_nat n - 1 \<Longrightarrow> nobody_runs n s"
    unfolding nobody_runs_def using wfi by fastforce
  have out: "workers_wfi (eu s) = of_nat n - 1 \<Longrightarrow> on_way_out n s"
    unfolding on_way_out_def using wfi by fastforce
  have woken: "sleepers_woken n (to pc (set_cluster_irqs (wake_mask n) s))" for pc
    using bit_wake_mask [OF parts(2)] by (auto simp: sleepers_woken_def move_defs)
  show ?thesis
    using parts(4) loop runs out woken
    by (cases "mpc s") (auto simp: master_unfold Let_def move_defs nobody_runs_def on_way_out_def)
qed

lemma order_inv_master:
  assumes inv: "order_inv n s"
  shows "order_inv n (master n s)"
proof -
  have parts: "0 < n" "n < 32" "counts n s" "exit_flag (eu s) \<longleftrightarrow> flagged (mpc s)" "stage n (mpc s) s"
    "ran s 0 = due 0 (finished s) @ own_part (mpc s) (e_task (eu s))" "mpc s \<noteq> MBoot \<Longrightarrow> settled n s"
    using inv by (auto simp: order_inv_def)
  have "mpc (master n s) \<noteq> MBoot \<longrightarrow> settled n (master n s)"
  proof (cases "mpc s = MBoot")
    case True
    have "settled n s" if "workers_wfi (eu s) = of_nat n - 1"
      unfolding settled_def using all_counted [OF parts(3) that parts(1,2)] by fastforce
    then show ?thesis using True by (simp add: master_unfold Let_def settled_def to_def)
  next
    case False
    then show ?thesis using parts(7) by (simp add: settled_def master_frame)
  qed
  moreover have "exit_flag (eu (master n s)) \<longleftrightarrow> flagged (mpc (master n s))"
    using parts(4) by (cases "mpc s") (auto simp: master_unfold move_defs Let_def)
  moreover have "ran (master n s) 0 = due 0 (finished (master n s)) @ own_part (mpc (master n s)) (e_task (eu (master n s)))"
    using parts(5,6) by (cases "mpc s") (auto simp: master_unfold move_defs Let_def due_def word_neq_0_conv)
  ultimately show ?thesis
    using parts(1-3) worker_ok_master [OF inv] stage_master [OF inv] unfolding order_inv_def
    by (simp add: counts_master)
qed

lemma order_inv_to:
  assumes "order_inv n s" "mpc s = MIdle" "pc = MPushRead x nt \<or> pc = MExitRun"
  shows "order_inv n (to pc s)"
proof -
  have "worker_ok (to pc s) w \<longleftrightarrow> worker_ok s w" for w by (simp add: worker_ok_def owed_def cur_def to_def)
  then show ?thesis
    using assms by (auto simp: order_inv_def) (auto simp: to_def counts_def settled_def)
qed

lemma order_inv_step: "order_inv n s \<Longrightarrow> eu_step n clears s t \<Longrightarrow> order_inv n t"
  by (erule eu_step.cases) (auto simp: order_inv_worker order_inv_master order_inv_to)

interpretation in_order: inductive_invariant "eu_begin n" "eu_step n clears" "order_inv n" for n clears
  by unfold_locales (auto intro: order_inv_start order_inv_step)

section \<open>Properties\<close>

text \<open>
  C3: what the event unit promises whatever the store of \<open>snrt_int_cluster_clr\<close> does, in every interleaving
  of master and workers. The master executes every region it has completed exactly once, in order. A worker
  only ever executes tasks of regions it is a member of, in the order in which the master started them,
  the last one at most the region that is open: never a task of another core, an older one again after a newer one,
  or a mixture of two. With a working clear it moreover executes each exactly once; with the shipped one, which
  misses the register, it may execute a task several times or not at all
  (\<open>shipped_clear_repeats_and_skips\<close>).
\<close>

theorem regions_in_order:
  assumes "reach (eu_begin n) (eu_step n clears) s"
  shows "(mpc s = MIdle \<longrightarrow> ran s 0 = map fst (filter (\<lambda>(t, nt). 0 < nt) (finished s))) \<and>
    (\<forall>c. 1 \<le> c \<and> c < n \<longrightarrow> repeats (ran s c) (map fst (filter (\<lambda>(t, nt). of_nat c < nt) (finished s)) @
       (if of_nat c < e_nthreads (eu s) then [e_task (eu s)] else []))) \<and>
    (clears \<longrightarrow> mpc s = MIdle \<longrightarrow> (\<forall>c<n. ran s c = map fst (filter (\<lambda>(t, nt). of_nat c < nt) (finished s))))"
proof (intro conjI)
  have inv: "order_inv n s" by (rule in_order.reach_inv [OF assms])
  then show "mpc s = MIdle \<longrightarrow> ran s 0 = map fst (filter (\<lambda>(t, nt). 0 < nt) (finished s))"
    by (auto simp: order_inv_def due_def)
  show "\<forall>c. 1 \<le> c \<and> c < n \<longrightarrow> repeats (ran s c) (map fst (filter (\<lambda>(t, nt). of_nat c < nt) (finished s)) @
       (if of_nat c < e_nthreads (eu s) then [e_task (eu s)] else []))"
    using inv unfolding order_inv_def worker_ok_def owed_def due_def cur_def by blast
  show "clears \<longrightarrow> mpc s = MIdle \<longrightarrow> (\<forall>c<n. ran s c = map fst (filter (\<lambda>(t, nt). of_nat c < nt) (finished s)))"
    using inv_run_once [OF regions.reach_inv] assms by (cases clears) auto
qed

text \<open>
  Two workers, a region for all three cores. With the shipped clear worker 1 executes the task, comes
  through \<open>wfi\<close> again and counts itself once more: the master goes on, and worker 2 has not executed anything.
\<close>

definition twice_and_never :: "eu_action list" where
  "twice_and_never = [W 1, W 1, W 1, W 1, W 1, W 2, W 2, W 2, W 2, W 2, M, Region (7, 8, 9) 3, M, M, M, M, M, M, M, M, M] @
     [W 1, W 1, W 1, W 1, W 1, W 1, W 1, W 1] @ [W 1, W 1, W 1, W 1, W 1, W 1, W 1, W 1] @ [M, M, M, M]"

lemma shipped_run:
  "mpc (eu_run 3 False twice_and_never) = MIdle" "finished (eu_run 3 False twice_and_never) = [((7, 8, 9), 3)]"
  "ran (eu_run 3 False twice_and_never) (Suc 0) = [(7, 8, 9), (7, 8, 9)]" "ran (eu_run 3 False twice_and_never) 2 = []"
  by (simp_all add: eu_run_simps twice_and_never_def bit_simps)

theorem regions_in_order_witness:
  "ran (eu_run 3 False twice_and_never) 0 = [(7, 8, 9)] \<and>
    set (ran (eu_run 3 False twice_and_never) 1) \<subseteq> {(7, 8, 9), e_task (eu (eu_run 3 False twice_and_never))}"
proof -
  let ?s = "eu_run 3 False twice_and_never"
  have "reach (eu_begin 3) (eu_step 3 False) ?s" by (rule eu_run_reach) simp_all
  note r = regions_in_order [OF this]
  have "repeats (ran ?s 1) (map fst (filter (\<lambda>(t, nt). of_nat 1 < nt) (finished ?s)) @
       (if of_nat 1 < e_nthreads (eu ?s) then [e_task (eu ?s)] else []))"
    by (rule r [THEN conjunct2, THEN conjunct1, THEN spec, THEN mp]) simp
  from repeats_subset [OF this] show ?thesis using r shipped_run(1,2) by (auto split: if_splits)
qed

theorem shipped_clear_repeats_and_skips:
  "\<exists>s. reach (eu_begin 3) (eu_step 3 False) s \<and> mpc s = MIdle \<and> finished s = [((7, 8, 9), 3)] \<and>
    ran s 1 = [(7, 8, 9), (7, 8, 9)] \<and> ran s 2 = []"
  by (rule exI [of _ "eu_run 3 False twice_and_never"]) (simp add: shipped_run eu_run_reach)

text \<open>A worker that has left before \<open>eu_exit\<close> gets to its last wait for all workers to sleep.\<close>

definition left_early :: "nat \<Rightarrow> nat \<Rightarrow> eu_sys \<Rightarrow> bool" where
  "left_early n c s \<longleftrightarrow> order_inv n s \<and> wpc s c = WGone \<and>
     (mpc s = MExitWakeRead \<or> mpc s = MExitWakeWait (of_nat n - 1))"

lemma left_early_step:
  assumes l: "left_early n c s" and c: "1 \<le> c" "c < n" and step: "eu_step n clears s t"
  shows "left_early n c t"
proof -
  have inv: "order_inv n s" "order_inv n t" using l order_inv_step step by (auto simp: left_early_def)
  have never: "workers_wfi (eu s) \<noteq> of_nat n - 1"
    using all_counted [of n s c] inv(1) l c by (auto simp: left_early_def order_inv_def)
  have loop: "workers_in_loop (eu s) = of_nat n - 1"
    by (rule in_loop) (use inv(1) l in \<open>auto simp: left_early_def order_inv_def\<close>)
  show ?thesis using step
  proof cases
    case (worker_step w)
    have "wpc s c = WGone" using l by (simp add: left_early_def)
    then have "wpc (eu_event_loop clears w s) c = WGone"
      by (cases "w = c") (simp add: eu_event_loop_unfold, simp add: worker_frame)
    then have "wpc t c = WGone" by (simp add: worker_step)
    then show ?thesis using l inv(2) by (simp add: left_early_def worker_step(1) worker_frame)
  next
    case master_step
    then show ?thesis using l inv(2) never loop by (auto simp: left_early_def master_unfold to_def)
  qed (use l in \<open>auto simp: left_early_def\<close>)
qed

text \<open>
  C4: with the shipped clear \<open>eu_exit\<close> can hang: it sets the exit flag and then waits in \<open>wake_workers\<close> for
  all workers to sleep. A worker whose interrupt is still pending does not sleep: it sees the flag and leaves.
  From every reachable state in which a worker has left before that wait has ended, no run whatsoever takes the master
  out of the wait. With a working clear no such state is reachable.
\<close>

theorem eu_exit_hangs:
  assumes "reach (eu_begin n) (eu_step n clears) s" "1 \<le> c" "c < n" "wpc s c = WGone"
    and "mpc s \<noteq> MExitWake" "mpc s \<noteq> MGone" "(eu_step n clears)\<^sup>*\<^sup>* s t"
  shows "\<not> clears \<and> (mpc t = MExitWakeRead \<or> mpc t = MExitWakeWait (of_nat n - 1))"
proof -
  have inv: "order_inv n s" by (rule in_order.reach_inv [OF assms(1)])
  then have "flagged (mpc s)" using assms(2-4) by (auto simp: order_inv_def worker_ok_def)
  then have at: "left_early n c s" using inv assms(4-6) by (cases "mpc s") (auto simp: left_early_def order_inv_def)
  have "left_early n c t"
    using assms(7) at by (induction rule: rtranclp_induct) (auto intro: left_early_step assms(2,3))
  moreover have False if clears
  proof -
    have "phase n (mpc s) s" using regions.reach_inv [of n s] assms(1) that by (simp add: eu_inv_def)
    then have "asleep n s" using at by (auto simp: left_early_def)
    then show False using assms(2-4) by (simp add: asleep_def)
  qed
  ultimately show ?thesis by (auto simp: left_early_def)
qed

text \<open>One worker has run a region; its interrupt is still pending. It leaves between the two waits of \<open>eu_exit\<close>.\<close>

definition exit_after_region :: "eu_action list" where
  "exit_after_region = until_wake @ one_pass @ [M, M, M, M]"

definition leaves_early :: "eu_sys" where
  "leaves_early = fold (eu_move 2 False) [M, M, M, M, W 1, W 1, W 1, W 1] (to MExitRun (eu_run 2 False exit_after_region))"

theorem eu_exit_hangs_witness:
  "mpc leaves_early = MExitWakeRead \<and> mpc (master 2 (master 2 leaves_early)) \<notin> {MExitWake, MGone}"
proof -
  let ?s = "eu_run 2 False exit_after_region"
  have "mpc ?s = MIdle" by (simp add: exit_after_region_def eu_run_simps bit_simps)
  then have "eu_step 2 False ?s (to MExitRun ?s)" by (rule exit_step)
  then have "reach (eu_begin 2) (eu_step 2 False) (to MExitRun ?s)"
    using eu_run_reach [of 2 False exit_after_region] by (auto intro: reach_step)
  then have r: "reach (eu_begin 2) (eu_step 2 False) leaves_early"
    unfolding leaves_early_def by (rule moves_reach)
  have s: "mpc leaves_early = MExitWakeRead" "wpc leaves_early 1 = WGone"
    by (simp_all add: leaves_early_def exit_after_region_def eu_run_simps bit_simps)
  have "(eu_step 2 False)\<^sup>*\<^sup>* leaves_early (master 2 (master 2 leaves_early))"
    by (meson master_step converse_rtranclp_into_rtranclp r_into_rtranclp)
  from eu_exit_hangs [OF r _ _ s(2) _ _ this] s(1) show ?thesis by auto
qed

end
