(* ===== verification/OpenMP.thy ===== *)
theory OpenMP
  imports Kmp EuOrder Barrier
begin

text \<open>
  Event unit, work sharing and barrier together: the calls that compiled OpenMP code makes in a
  parallel region, and what a work-shared loop in a region executes.
\<close>

section \<open>Barriers of a region\<close>

text \<open>\<open>__kmpc_barrier\<close> is \<open>snrt_barrier\<close> for as many harts as the team has threads.\<close>

definition kmpc_barrier_step :: "omp \<Rightarrow> barrier_pc \<Rightarrow> barrier_mem \<Rightarrow> barrier_pc \<times> barrier_mem" where
  "kmpc_barrier_step this pc b = snrt_barrier (numThreads (omp_getData this)) pc b"

section \<open>A work-shared loop\<close>














end
