(* ===== verification/DataMover.thy ===== *)
theory DataMover
  imports Team
begin

text \<open>
  The data mover service, \<open>dm.c\<close>: the loop \<open>dm_main\<close> of the data mover core and the
  calls of the client cores, with the four-entry ring buffer and the status handshake in
  shared memory. A step is one shared access; the DMA engine completes transfers on its own.
\<close>

section \<open>State\<close>

record dm_task =
  t_src :: u64
  t_dst :: u64
  t_size :: u32
  t_sstrd :: u32
  t_dstrd :: u32
  t_nreps :: u32
  t_cfg :: u32
  t_twod :: u32

definition DM_TASK_QUEUE_SIZE :: nat where
  "DM_TASK_QUEUE_SIZE = 4"

definition STAT_WAIT_IDLE :: u32 where "STAT_WAIT_IDLE = 1"
definition STAT_EXIT :: u32 where "STAT_EXIT = 2"
definition STAT_READY :: u32 where "STAT_READY = 3"

lemmas stat_defs = STAT_WAIT_IDLE_def STAT_EXIT_def STAT_READY_def

record dm =
  queue :: "dm_task list"
  queue_back :: u32
  queue_front :: u32
  queue_fill :: u32
  mutex :: u32
  stat_q :: u32
  stat_pvalid :: u32
  dm_wfi :: u32

definition zero_task :: dm_task where
  "zero_task = \<lparr>t_src = 0, t_dst = 0, t_size = 0, t_sstrd = 0, t_dstrd = 0, t_nreps = 0, t_cfg = 0, t_twod = 0\<rparr>"

text \<open>
  \<open>dm_init\<close> on the data mover core: the structure of 192 bytes (four tasks of 40 bytes and
  eight words) comes from the L1 allocator and is cleared.
\<close>

definition sizeof_dm :: u32 where
  "sizeof_dm = 4 * 40 + 8 * 4"

definition dm_init :: "hart_team \<Rightarrow> (u32 \<times> dm) \<times> hart_team" where
  "dm_init h =
     (let (dm_p, al) = snrt_l1alloc sizeof_dm (allocator (root h))
      in ((dm_p, \<lparr>queue = replicate DM_TASK_QUEUE_SIZE zero_task, queue_back = 0, queue_front = 0,
             queue_fill = 0, mutex = 0, stat_q = 0, stat_pvalid = 0, dm_wfi = 0\<rparr>),
          h\<lparr>root := (root h)\<lparr>allocator := al\<rparr>\<rparr>))"

text \<open>
  Where the data mover core is in \<open>dm_main\<close>; the flag of the sleeping states is the local
  variable \<open>do_exit\<close>.
\<close>

datatype dm_pc =
  DTop | DBlock | DIssue | DBump | DDec | DStat | DSwitch | DBusy | DPvalid u32 | DClearQ |
  DCheck bool | DCheckQ bool | DWfiInc bool | DWfi bool | DClr bool | DWfiDec bool | DGone

text \<open>
  Where a client is: \<open>C..\<close> in \<open>dm_memcpy_async\<close> or \<open>dm_memcpy2d_async\<close>, \<open>T..\<close> in
  \<open>dm_start\<close>, \<open>W..\<close> in the first half of \<open>dm_wait\<close>, \<open>S..\<close> in the handshake shared by
  \<open>dm_wait\<close> and \<open>dm_wait_ready\<close>, \<open>E..\<close> in \<open>dm_exit\<close>.
\<close>

datatype client_pc =
  CIdle | CPoll dm_task | CLock dm_task | CInsert dm_task | CFill | CFront | CUnlock |
  TWake | TIrq |
  WWake | WIrq | WFill | WStat |
  SLock u32 | SPv0 u32 | SReq u32 | SWake u32 | SIrq u32 | SPoll u32 | SUnlock u32 |
  EReq | EWake | EIrq

text \<open>
  \<open>requested\<close> lists the tasks in the order of their insertion, \<open>issued\<close> what has been
  given to the DMA engine, of which the first \<open>completed\<close> have finished.
\<close>

record dm_sys =
  dmp :: dm
  dpc :: dm_pc
  irq :: bool
  cpc :: "nat \<Rightarrow> client_pc"
  requested :: "dm_task list"
  issued :: "dm_task list"
  completed :: nat

section \<open>The data mover core\<close>

definition slot :: "u32 \<Rightarrow> nat" where
  "slot i = unat i"

definition next_slot :: "u32 \<Rightarrow> u32" where
  "next_slot i = (i + 1) mod 4"

definition dgo :: "dm_pc \<Rightarrow> dm_sys \<Rightarrow> dm_sys" where
  "dgo pc s = s\<lparr>dpc := pc\<rparr>"

definition dset :: "dm \<Rightarrow> dm_sys \<Rightarrow> dm_sys" where
  "dset d s = s\<lparr>dmp := d\<rparr>"

text \<open>\<open>wfi_dm\<close>; \<open>clears\<close> says whether \<open>snrt_int_cluster_clr\<close> reaches the clear register.\<close>

definition wfi_dm :: "bool \<Rightarrow> dm_sys \<Rightarrow> dm_sys" where
  "wfi_dm clears s = (let d = dmp s in case dpc s of
      DWfiInc do_exit \<Rightarrow> dgo (DWfi do_exit) (dset (d\<lparr>dm_wfi := dm_wfi d + 1\<rparr>) s)
    | DWfi do_exit \<Rightarrow> if irq s then dgo (DClr do_exit) s else s
    | DClr do_exit \<Rightarrow> dgo (DWfiDec do_exit) (if clears then s\<lparr>irq := False\<rparr> else s)
    | DWfiDec do_exit \<Rightarrow>
        dgo (if do_exit then DGone else DTop) (dset (d\<lparr>dm_wfi := dm_wfi d - 1\<rparr>) s)
    | _ \<Rightarrow> s)"

definition dm_main :: "bool \<Rightarrow> dm_sys \<Rightarrow> dm_sys" where
  "dm_main clears s = (let d = dmp s in case dpc s of
      DTop \<Rightarrow> dgo (if queue_fill d \<noteq> 0 then DBlock else DStat) s
    | DBlock \<Rightarrow> dgo DIssue s
    | DIssue \<Rightarrow> dgo DBump s\<lparr>issued := issued s @ [queue d ! slot (queue_back d)]\<rparr>
    | DBump \<Rightarrow> dgo DDec (dset (d\<lparr>queue_back := next_slot (queue_back d)\<rparr>) s)
    | DDec \<Rightarrow> dgo DStat (dset (d\<lparr>queue_fill := queue_fill d - 1\<rparr>) s)
    | DStat \<Rightarrow> dgo (if stat_q d \<noteq> 0 then DSwitch else DCheck False) s
    | DSwitch \<Rightarrow>
        dgo (if stat_q d = STAT_WAIT_IDLE then DBusy
             else if stat_q d = STAT_EXIT then DCheck True
             else if stat_q d = STAT_READY then DPvalid STAT_READY
             else DCheck False) s
    | DBusy \<Rightarrow> dgo (if completed s = length (issued s) then DPvalid STAT_WAIT_IDLE else DCheck False) s
    | DPvalid r \<Rightarrow> dgo DClearQ (dset (d\<lparr>stat_pvalid := 1\<rparr>) s)
    | DClearQ \<Rightarrow> dgo (DCheck False) (dset (d\<lparr>stat_q := 0\<rparr>) s)
    | DCheck do_exit \<Rightarrow>
        dgo (if queue_fill d = 0 then DCheckQ do_exit else if do_exit then DGone else DTop) s
    | DCheckQ do_exit \<Rightarrow>
        dgo (if stat_q d = 0 then DWfiInc do_exit else if do_exit then DGone else DTop) s
    | DGone \<Rightarrow> s
    | _ \<Rightarrow> wfi_dm clears s)"

section \<open>The clients\<close>

definition cgo :: "nat \<Rightarrow> client_pc \<Rightarrow> dm_sys \<Rightarrow> dm_sys" where
  "cgo c pc s = s\<lparr>cpc := (cpc s)(c := pc)\<rparr>"

text \<open>\<open>wake_dm\<close>: wait until the data mover sleeps, then set its interrupt.\<close>

definition wake_wait :: "nat \<Rightarrow> client_pc \<Rightarrow> dm_sys \<Rightarrow> dm_sys" where
  "wake_wait c pc s = (if dm_wfi (dmp s) = 0 then s else cgo c pc s)"

definition wake_set :: "nat \<Rightarrow> client_pc \<Rightarrow> dm_sys \<Rightarrow> dm_sys" where
  "wake_set c pc s = cgo c pc s\<lparr>irq := True\<rparr>"

text \<open>The bodies of \<open>dm_memcpy_async\<close> and \<open>dm_memcpy2d_async\<close>.\<close>

definition dm_enqueue :: "nat \<Rightarrow> dm_sys \<Rightarrow> dm_sys" where
  "dm_enqueue c s = (let d = dmp s in case cpc s c of
      CPoll t \<Rightarrow> if of_nat DM_TASK_QUEUE_SIZE \<le> queue_fill d then s else cgo c (CLock t) s
    | CLock t \<Rightarrow> if mutex d \<noteq> 0 then s else cgo c (CInsert t) (dset (d\<lparr>mutex := 1\<rparr>) s)
    | CInsert t \<Rightarrow>
        cgo c CFill (dset (d\<lparr>queue := (queue d)[slot (queue_front d) := t]\<rparr>) s)
          \<lparr>requested := requested s @ [t]\<rparr>
    | CFill \<Rightarrow> cgo c CFront (dset (d\<lparr>queue_fill := queue_fill d + 1\<rparr>) s)
    | CFront \<Rightarrow> cgo c CUnlock (dset (d\<lparr>queue_front := next_slot (queue_front d)\<rparr>) s)
    | CUnlock \<Rightarrow> cgo c CIdle (dset (d\<lparr>mutex := 0\<rparr>) s)
    | _ \<Rightarrow> s)"

definition dm_start :: "nat \<Rightarrow> dm_sys \<Rightarrow> dm_sys" where
  "dm_start c s = (case cpc s c of
      TWake \<Rightarrow> wake_wait c TIrq s
    | TIrq \<Rightarrow> wake_set c CIdle s
    | _ \<Rightarrow> s)"

text \<open>\<open>dm_wait_ready\<close>, and the second half of \<open>dm_wait\<close> with request \<open>STAT_WAIT_IDLE\<close>.\<close>

definition dm_wait_ready :: "nat \<Rightarrow> dm_sys \<Rightarrow> dm_sys" where
  "dm_wait_ready c s = (let d = dmp s in case cpc s c of
      SLock r \<Rightarrow> if mutex d \<noteq> 0 then s else cgo c (SPv0 r) (dset (d\<lparr>mutex := 1\<rparr>) s)
    | SPv0 r \<Rightarrow> cgo c (SReq r) (dset (d\<lparr>stat_pvalid := 0\<rparr>) s)
    | SReq r \<Rightarrow> cgo c (SWake r) (dset (d\<lparr>stat_q := r\<rparr>) s)
    | SWake r \<Rightarrow> wake_wait c (SIrq r) s
    | SIrq r \<Rightarrow> wake_set c (SPoll r) s
    | SPoll r \<Rightarrow> if stat_pvalid d = 0 then s else cgo c (SUnlock r) s
    | SUnlock r \<Rightarrow> cgo c CIdle (dset (d\<lparr>mutex := 0\<rparr>) s)
    | _ \<Rightarrow> s)"

definition dm_wait :: "nat \<Rightarrow> dm_sys \<Rightarrow> dm_sys" where
  "dm_wait c s = (let d = dmp s in case cpc s c of
      WWake \<Rightarrow> wake_wait c WIrq s
    | WIrq \<Rightarrow> wake_set c WFill s
    | WFill \<Rightarrow> if queue_fill d \<noteq> 0 then s else cgo c WStat s
    | WStat \<Rightarrow> if stat_q d \<noteq> 0 then s else cgo c (SLock STAT_WAIT_IDLE) s
    | _ \<Rightarrow> dm_wait_ready c s)"

definition dm_exit :: "nat \<Rightarrow> dm_sys \<Rightarrow> dm_sys" where
  "dm_exit c s = (let d = dmp s in case cpc s c of
      EReq \<Rightarrow> cgo c EWake (dset (d\<lparr>stat_q := STAT_EXIT\<rparr>) s)
    | EWake \<Rightarrow> wake_wait c EIrq s
    | EIrq \<Rightarrow> wake_set c CIdle s
    | _ \<Rightarrow> s)"

text \<open>A step of a client is a step of the call it is in.\<close>

fun in_copy :: "client_pc \<Rightarrow> bool" where
  "in_copy (CPoll t) = True"
| "in_copy (CLock t) = True"
| "in_copy (CInsert t) = True"
| "in_copy CFill = True"
| "in_copy CFront = True"
| "in_copy CUnlock = True"
| "in_copy _ = False"

definition dm_client :: "nat \<Rightarrow> dm_sys \<Rightarrow> dm_sys" where
  "dm_client c s =
     (if in_copy (cpc s c) then dm_enqueue c s
      else if cpc s c \<in> {TWake, TIrq} then dm_start c s
      else if cpc s c \<in> {EReq, EWake, EIrq} then dm_exit c s
      else dm_wait c s)"

text \<open>The calls: where an idle client enters.\<close>

datatype dm_call = Copy dm_task | StartQueued | AwaitIdle | Exit | AwaitReady

definition memcpy_task :: "u32 \<Rightarrow> u32 \<Rightarrow> u32 \<Rightarrow> dm_task \<Rightarrow> dm_task" where
  "memcpy_task dest src n t = t\<lparr>t_src := ucast src, t_dst := ucast dest, t_size := n, t_twod := 0, t_cfg := 0\<rparr>"

definition dm_memcpy_async :: "u32 \<Rightarrow> u32 \<Rightarrow> u32 \<Rightarrow> dm_task \<Rightarrow> dm_call" where
  "dm_memcpy_async dest src n t = Copy (memcpy_task dest src n t)"

definition dm_memcpy2d_async ::
  "u64 \<Rightarrow> u64 \<Rightarrow> u32 \<Rightarrow> u32 \<Rightarrow> u32 \<Rightarrow> u32 \<Rightarrow> u32 \<Rightarrow> dm_call" where
  "dm_memcpy2d_async src dst n sstrd dstrd nreps cfg =
     Copy \<lparr>t_src = src, t_dst = dst, t_size = n, t_sstrd = sstrd, t_dstrd = dstrd, t_nreps = nreps,
       t_cfg = cfg, t_twod = 1\<rparr>"

fun enter :: "dm_call \<Rightarrow> client_pc" where
  "enter (Copy t) = CPoll t"
| "enter StartQueued = TWake"
| "enter AwaitIdle = WWake"
| "enter Exit = EReq"
| "enter AwaitReady = SLock STAT_READY"

inductive dm_step :: "nat \<Rightarrow> bool \<Rightarrow> dm_sys \<Rightarrow> dm_sys \<Rightarrow> bool" for n clears where
  mover_step: "dm_step n clears s (dm_main clears s)"
| client_step: "c < n \<Longrightarrow> dm_step n clears s (dm_client c s)"
| call_step: "c < n \<Longrightarrow> cpc s c = CIdle \<Longrightarrow> dm_step n clears s (cgo c (enter f) s)"
| dma_step: "completed s < length (issued s) \<Longrightarrow> dm_step n clears s (s\<lparr>completed := completed s + 1\<rparr>)"

definition dm_start_state :: "dm_sys \<Rightarrow> bool" where
  "dm_start_state s \<longleftrightarrow> (\<exists>h. dmp s = snd (fst (dm_init h))) \<and> dpc s = DTop \<and> \<not> irq s \<and>
     (\<forall>c. cpc s c = CIdle) \<and> requested s = [] \<and> issued s = [] \<and> completed s = 0"

section \<open>The ring for any number of clients\<close>

lemmas dm_defs = dm_main_def wfi_dm_def dgo_def dset_def Let_def
lemmas client_defs = dm_client_def dm_enqueue_def dm_start_def dm_wait_def dm_wait_ready_def
  dm_exit_def wake_wait_def wake_set_def cgo_def dset_def Let_def

lemma unat_next_slot: "unat i < 4 \<Longrightarrow> unat (next_slot i) = Suc (unat i) mod 4"
  by (simp add: next_slot_def unat_mod unat_add_u32)

lemma unat_dec_u32: "0 < unat x \<Longrightarrow> unat (x - 1 :: u32) = unat x - 1"
  by (simp add: unat_sub_u32)

lemma unat_inc_u32: "unat x < 4294967295 \<Longrightarrow> unat (x + 1 :: u32) = Suc (unat x)"
  by (simp add: unat_add_u32)

text \<open>A client that has seen a free slot and has not yet counted its task.\<close>

fun fills :: "client_pc \<Rightarrow> nat" where
  "fills (CLock t) = 1"
| "fills (CInsert t) = 1"
| "fills CFill = 1"
| "fills _ = 0"

definition filling :: "nat \<Rightarrow> (nat \<Rightarrow> client_pc) \<Rightarrow> nat" where
  "filling n f = (\<Sum>c<n. fills (f c))"

lemma fills_le_1: "fills p \<le> 1"
  by (cases p) simp_all

lemma filling_upd: "c < n \<Longrightarrow> filling n (f(c := p)) + fills (f c) = filling n f + fills p"
proof -
  assume c: "c < n"
  then have "c \<in> {..<n}" by simp
  from sum.remove [OF finite_lessThan this, of "\<lambda>w. fills ((f(c := p)) w)"]
    sum.remove [OF finite_lessThan this, of "\<lambda>w. fills (f w)"]
  show ?thesis by (simp add: filling_def)
qed

lemma filling_le: "filling n f \<le> n"
proof -
  have "filling n f \<le> (\<Sum>c<n. 1)" unfolding filling_def by (rule sum_mono) (rule fills_le_1)
  then show ?thesis by simp
qed

definition ring_type :: "nat \<Rightarrow> dm_sys \<Rightarrow> bool" where
  "ring_type n s \<longleftrightarrow> length (queue (dmp s)) = 4 \<and> unat (queue_front (dmp s)) < 4 \<and>
     unat (queue_back (dmp s)) < 4 \<and> unat (queue_fill (dmp s)) + filling n (cpc s) \<le> 3 + n \<and>
     (dpc s \<in> {DBlock, DIssue, DBump, DDec} \<longrightarrow> 0 < unat (queue_fill (dmp s)))"

lemma ring_type_start: "dm_start_state s \<Longrightarrow> ring_type n s"
  by (auto simp: ring_type_def dm_start_state_def dm_init_def Let_def DM_TASK_QUEUE_SIZE_def
      filling_def split: prod.splits)

lemma ring_type_mover: "ring_type n s \<Longrightarrow> ring_type n (dm_main clears s)"
  by (cases "dpc s")
    (auto simp: ring_type_def dm_defs unat_next_slot unat_dec_u32 unat_gt_0 split: if_splits)

lemma ring_type_go:
  "ring_type n s \<Longrightarrow> c < n \<Longrightarrow> fills p \<le> fills (cpc s c) \<Longrightarrow> ring_type n (s\<lparr>cpc := (cpc s)(c := p)\<rparr>)"
  using filling_upd [of c n "cpc s" p] by (simp add: ring_type_def)

lemma ring_type_client:
  assumes r: "ring_type n s" and c: "c < n" and n: "n < 2147483648"
  shows "ring_type n (dm_client c s)"
proof -
  note u = filling_upd [OF c, of "cpc s"]
  note f = filling_le [of n "cpc s"]
  have "unat (queue_fill (dmp s)) < 4294967295" using r n by (simp add: ring_type_def)
  note i = unat_inc_u32 [OF this]
  have l: "unat (queue_fill (dmp s)) < 4" if "\<not> (4 :: u32) \<le> queue_fill (dmp s)"
    using that by (simp add: word_le_nat_alt)
  have le: "unat (queue_fill (dmp s)) + filling n ((cpc s)(c := p)) \<le> 3 + n" if "fills p = 0" for p
    using u [of p] that r by (simp add: ring_type_def)
  show ?thesis
  proof (cases "cpc s c")
    case (CPoll t)
    have "filling n ((cpc s)(c := CLock t)) \<le> n" by (rule filling_le)
    then show ?thesis
      using CPoll r u [of "CLock t"] l
      by (auto simp: ring_type_def client_defs DM_TASK_QUEUE_SIZE_def)
  next
    case CFill
    then show ?thesis using r u [of CFront] i by (auto simp: ring_type_def client_defs unat_gt_0)
  next
    case CFront
    then show ?thesis using r u [of CUnlock] by (auto simp: ring_type_def client_defs unat_next_slot)
  next
    case (CInsert t)
    then show ?thesis using r u [of CFill] by (auto simp: ring_type_def client_defs)
  next
    case (CLock t)
    then show ?thesis using r u [of "CInsert t"] by (auto simp: ring_type_def client_defs)
  qed (use r c le in \<open>auto simp: client_defs ring_type_def\<close>)
qed

lemma ring_type_step:
  "dm_step n clears s t \<Longrightarrow> ring_type n s \<Longrightarrow> n < 2147483648 \<Longrightarrow> ring_type n t"
proof (induction rule: dm_step.induct)
  case (call_step c s f)
  then have "fills (enter f) \<le> fills (cpc s c)" by (cases f) simp_all
  then show ?case using call_step ring_type_go [of n s c] by (simp add: cgo_def)
next
  case (dma_step s)
  then show ?case by (simp add: ring_type_def)
qed (simp_all add: ring_type_mover ring_type_client)

definition dm_begin :: "nat \<Rightarrow> dm_sys \<Rightarrow> bool" where
  "dm_begin n s \<longleftrightarrow> dm_start_state s \<and> n < 2147483648"

interpretation rings: inductive_invariant "dm_begin n" "dm_step n clears"
  "\<lambda>s. ring_type n s \<and> n < 2147483648" for n clears
  by unfold_locales (auto simp: dm_begin_def intro: ring_type_start ring_type_step)

end
