(* ===== verification/MoverQueue.thy ===== *)
theory MoverQueue
  imports DataMover
begin

text \<open>
  The data mover with a single client: the ring refines an unbounded queue of tasks, and the
  status handshake of \<open>dm_wait\<close> returns only after every requested transfer has finished.
\<close>

section \<open>One client: the ring is a queue\<close>

text \<open>
  For one client: the tasks between \<open>issued\<close> and \<open>requested\<close> are in the ring, in order;
  the fill count, the front and the back index lag behind by at most the update that is
  under way.
\<close>

definition ring_holds :: "dm_sys \<Rightarrow> bool" where
  "ring_holds s \<longleftrightarrow> (let d = dmp s; R = length (requested s); I = length (issued s);
       x = (if cpc s 0 = CFill then 1 else 0); x' = (if cpc s 0 \<in> {CFill, CFront} then 1 else 0);
       y = (if dpc s \<in> {DBump, DDec} then 1 else 0); y' = (if dpc s = DBump then 1 else 0)
     in length (queue d) = 4 \<and> unat (queue_fill d) + I + x = R + y \<and> I + x \<le> R \<and>
       unat (queue_fill d) + fills (cpc s 0) \<le> 4 \<and>
       (\<exists>f. f + x' = R \<and> unat (queue_front d) = f mod 4) \<and>
       (\<exists>b. b + y' = I \<and> unat (queue_back d) = b mod 4) \<and>
       (\<forall>k. I \<le> k \<and> k < R \<longrightarrow> queue d ! (k mod 4) = requested s ! k) \<and>
       issued s = take I (requested s) \<and> (dpc s \<in> {DBlock, DIssue} \<longrightarrow> I + x < R))"

lemma ring_holds_start: "dm_start_state s \<Longrightarrow> ring_holds s"
  by (auto simp: ring_holds_def dm_start_state_def dm_init_def Let_def DM_TASK_QUEUE_SIZE_def
      split: prod.splits)

lemma mod4_neq: "(k :: nat) < R \<Longrightarrow> R < k + 4 \<Longrightarrow> k mod 4 \<noteq> R mod 4"
proof
  assume k: "k < R" "R < k + 4" and "k mod 4 = R mod 4"
  then have "4 dvd R - k" by (metis mod_eq_dvd_iff_nat less_imp_le)
  then have "4 \<le> R - k" using k by (intro dvd_imp_le) simp_all
  then show False using k by simp
qed

lemma ring_holds_mover: "ring_holds s \<Longrightarrow> ring_holds (dm_main clears s)"
proof (cases "dpc s")
  case DTop
  moreover assume "ring_holds s"
  ultimately show ?thesis
    by (auto simp: ring_holds_def dm_defs word_unat_eq_iff)
next
  case DIssue
  moreover assume "ring_holds s"
  ultimately show ?thesis
    by (auto simp: ring_holds_def dm_defs slot_def take_Suc_conv_app_nth)
next
  case DBump
  moreover assume "ring_holds s"
  ultimately show ?thesis
    by (auto simp: ring_holds_def dm_defs unat_next_slot mod_Suc_eq)
next
  case DDec
  moreover assume "ring_holds s"
  ultimately show ?thesis
    by (auto simp: ring_holds_def dm_defs unat_dec_u32)
qed (auto simp: ring_holds_def dm_defs)

lemma ring_holds_enqueue: "ring_holds s \<Longrightarrow> ring_holds (dm_enqueue 0 s)"
proof (cases "cpc s 0")
  case (CPoll t)
  moreover assume "ring_holds s"
  ultimately show ?thesis
    by (auto simp: ring_holds_def client_defs DM_TASK_QUEUE_SIZE_def word_le_nat_alt)
next
  case (CInsert t)
  moreover assume r: "ring_holds s"
  moreover have "length (requested s) mod 4 \<noteq> k mod 4"
    if "length (issued s) \<le> k" "k < length (requested s)" for k
    by (rule mod4_neq [THEN not_sym]) (use that r CInsert in \<open>auto simp: ring_holds_def Let_def split: if_splits\<close>)
  ultimately show ?thesis
    by (auto simp: ring_holds_def client_defs slot_def nth_append nth_list_update less_Suc_eq)
next
  case CFill
  moreover assume "ring_holds s"
  ultimately show ?thesis
    by (auto simp: ring_holds_def client_defs unat_inc_u32)
next
  case CFront
  moreover assume "ring_holds s"
  ultimately show ?thesis
    by (auto simp: ring_holds_def client_defs unat_next_slot mod_Suc_eq)
qed (auto simp: ring_holds_def client_defs)

text \<open>Outside \<open>dm_memcpy_async\<close> a client leaves the ring alone.\<close>

lemma ring_holds_frame:
  assumes "ring_holds s" "queue (dmp t) = queue (dmp s)" "queue_fill (dmp t) = queue_fill (dmp s)"
    "queue_front (dmp t) = queue_front (dmp s)" "queue_back (dmp t) = queue_back (dmp s)"
    "requested t = requested s" "issued t = issued s" "dpc t = dpc s" "\<not> in_copy (cpc s 0)" "fills (cpc t 0) = 0"
    "cpc t 0 \<noteq> CFill" "cpc t 0 \<noteq> CFront"
  shows "ring_holds t"
proof -
  have "fills (cpc s 0) = 0" "cpc s 0 \<noteq> CFill" "cpc s 0 \<noteq> CFront" using assms(9) by (cases "cpc s 0"; simp)+
  then show ?thesis using assms(1,10-12) unfolding ring_holds_def Let_def assms(2-8) by simp
qed

lemma ring_holds_client: "ring_holds s \<Longrightarrow> ring_holds (dm_client 0 s)"
proof (cases "in_copy (cpc s 0)")
  case True
  moreover assume "ring_holds s"
  ultimately show ?thesis by (simp add: dm_client_def ring_holds_enqueue)
next
  case False
  assume r: "ring_holds s"
  show ?thesis
    by (rule ring_holds_frame [OF r]) (use False in \<open>cases "cpc s 0"; simp add: client_defs\<close>)+
qed

lemma ring_holds_call:
  assumes "ring_holds s" "cpc s 0 = CIdle"
  shows "ring_holds (cgo 0 (enter f) s)"
proof -
  have "enter f \<noteq> CFill" "enter f \<noteq> CFront" "fills (enter f) = 0" by (cases f; simp)+
  then show ?thesis using assms unfolding ring_holds_def Let_def cgo_def by simp
qed

lemma ring_holds_step: "dm_step 1 clears s t \<Longrightarrow> ring_holds s \<Longrightarrow> ring_holds t"
proof (induction rule: dm_step.induct)
  case (dma_step s)
  then show ?case by (auto simp: ring_holds_def Let_def)
qed (simp_all add: ring_holds_mover ring_holds_client ring_holds_call)

interpretation queue1: inductive_invariant dm_start_state "dm_step 1 clears" ring_holds for clears
  by unfold_locales (auto intro: ring_holds_start ring_holds_step)

section \<open>One client: the status handshake\<close>

fun awaits :: "u32 \<Rightarrow> client_pc \<Rightarrow> bool" where
  "awaits r (SWake q) = (q = r)"
| "awaits r (SIrq q) = (q = r)"
| "awaits r (SPoll q) = (q = r)"
| "awaits r _ = False"

lemma awaits_unique: "awaits r p \<Longrightarrow> awaits q p \<longleftrightarrow> q = r"
  by (cases p) auto

text \<open>\<open>drained\<close>: the calls of \<open>dm_wait\<close> past the test of the fill count.\<close>

fun drained :: "client_pc \<Rightarrow> bool" where
  "drained WStat = True"
| "drained (SLock r) = (r = STAT_WAIT_IDLE)"
| "drained (SPv0 r) = (r = STAT_WAIT_IDLE)"
| "drained (SReq r) = (r = STAT_WAIT_IDLE)"
| "drained (SWake r) = (r = STAT_WAIT_IDLE)"
| "drained (SIrq r) = (r = STAT_WAIT_IDLE)"
| "drained (SPoll r) = (r = STAT_WAIT_IDLE)"
| "drained (SUnlock r) = (r = STAT_WAIT_IDLE)"
| "drained _ = False"

fun request_ok :: "client_pc \<Rightarrow> bool" where
  "request_ok (SLock r) = (r \<in> {STAT_WAIT_IDLE, STAT_READY})"
| "request_ok (SPv0 r) = (r \<in> {STAT_WAIT_IDLE, STAT_READY})"
| "request_ok (SReq r) = (r \<in> {STAT_WAIT_IDLE, STAT_READY})"
| "request_ok (SWake r) = (r \<in> {STAT_WAIT_IDLE, STAT_READY})"
| "request_ok (SIrq r) = (r \<in> {STAT_WAIT_IDLE, STAT_READY})"
| "request_ok (SPoll r) = (r \<in> {STAT_WAIT_IDLE, STAT_READY})"
| "request_ok (SUnlock r) = (r \<in> {STAT_WAIT_IDLE, STAT_READY})"
| "request_ok _ = True"

text \<open>The request that the data mover is serving, if any.\<close>

fun serving :: "dm_pc \<Rightarrow> u32 option" where
  "serving DBusy = Some STAT_WAIT_IDLE"
| "serving (DPvalid r) = Some r"
| "serving _ = None"

definition handshake :: "dm_sys \<Rightarrow> bool" where
  "handshake s \<longleftrightarrow> (let d = dmp s; p = cpc s 0; q = dpc s
     in request_ok p \<and> (drained p \<longrightarrow> queue_fill d = 0) \<and>
       (\<forall>r. serving q = Some r \<longrightarrow> awaits r p \<and> stat_q d = r \<and> stat_pvalid d = 0) \<and>
       (q = DClearQ \<longrightarrow> stat_q d \<noteq> 0) \<and>
       (q \<noteq> DClearQ \<and> stat_q d \<noteq> 0 \<and> stat_q d \<noteq> STAT_EXIT \<longrightarrow> awaits (stat_q d) p \<and> stat_pvalid d = 0) \<and>
       (\<forall>r. p = SReq r \<longrightarrow> stat_pvalid d = 0) \<and>
       completed s \<le> length (issued s) \<and>
       (q = DPvalid STAT_WAIT_IDLE \<longrightarrow> completed s = length (issued s)) \<and>
       (awaits STAT_WAIT_IDLE p \<and> stat_pvalid d \<noteq> 0 \<or> p = SUnlock STAT_WAIT_IDLE
          \<longrightarrow> completed s = length (issued s)))"

lemma ring_holds_quiet:
  "ring_holds s \<Longrightarrow> queue_fill (dmp s) = 0 \<Longrightarrow> dpc s \<notin> {DBlock, DIssue, DBump, DDec}"
  by (auto simp: ring_holds_def Let_def split: if_splits)

lemma awaits_drained: "awaits STAT_WAIT_IDLE p \<Longrightarrow> drained p"
  by (cases p) simp_all

lemma awaits_ok: "awaits r p \<Longrightarrow> request_ok p \<Longrightarrow> r = STAT_WAIT_IDLE \<or> r = STAT_READY"
  by (cases p) auto

lemma awaits_other: "awaits r p \<Longrightarrow> p \<noteq> SReq q" "awaits r p \<Longrightarrow> p \<noteq> SUnlock q"
  by (cases p; simp)+

lemma handshake_issue:
  "handshake s \<Longrightarrow> \<not> drained (cpc s 0) \<Longrightarrow> dpc s = DIssue \<Longrightarrow> handshake (dm_main clears s)"
proof -
  assume a: "handshake s" "\<not> drained (cpc s 0)" "dpc s = DIssue"
  then have "\<not> awaits STAT_WAIT_IDLE (cpc s 0)" "cpc s 0 \<noteq> SUnlock STAT_WAIT_IDLE"
    using awaits_drained by auto
  with a show ?thesis by (simp add: handshake_def dm_defs)
qed

lemma handshake_switch:
  assumes "handshake s" "dpc s = DSwitch"
  shows "handshake (dm_main clears s)"
proof -
  have "stat_q (dmp s) = r \<Longrightarrow> r \<noteq> 0 \<Longrightarrow> r \<noteq> STAT_EXIT \<Longrightarrow>
      awaits r (cpc s 0) \<and> stat_pvalid (dmp s) = 0" for r
    using assms by (simp add: handshake_def Let_def)
  from this [of STAT_WAIT_IDLE] this [of STAT_READY] show ?thesis
    using assms by (simp add: handshake_def dm_defs stat_defs)
qed

lemma handshake_pvalid:
  assumes "handshake s" "dpc s = DPvalid r"
  shows "handshake (dm_main clears s)"
proof -
  have a: "awaits r (cpc s 0)" "request_ok (cpc s 0)"
    using assms by (simp_all add: handshake_def Let_def)
  have r: "r \<noteq> 0" using awaits_ok [OF a] by (auto simp: stat_defs)
  have "awaits STAT_WAIT_IDLE (cpc s 0) \<Longrightarrow> completed s = length (issued s)"
    using assms awaits_unique [OF a(1), of STAT_WAIT_IDLE] by (simp add: handshake_def Let_def)
  then show ?thesis
    using assms r awaits_other [OF a(1)] by (simp add: handshake_def dm_defs)
qed

lemma handshake_mover:
  assumes "ring_holds s" "handshake s"
  shows "handshake (dm_main clears s)"
proof -
  have q: "drained (cpc s 0) \<Longrightarrow> dpc s \<notin> {DBlock, DIssue, DBump, DDec}"
    using ring_holds_quiet [OF assms(1)] assms(2) by (simp add: handshake_def Let_def)
  show ?thesis
  proof (cases "dpc s")
    case DIssue
    with q have "\<not> drained (cpc s 0)" by auto
    with assms(2) DIssue show ?thesis by (intro handshake_issue)
  next
    case DDec
    with q have "\<not> drained (cpc s 0)" by auto
    with assms(2) DDec show ?thesis by (simp add: handshake_def dm_defs)
  qed (use assms(2) in \<open>simp_all add: handshake_switch handshake_pvalid,
         simp_all add: handshake_def dm_defs stat_defs\<close>)
qed

lemma handshake_client:
  assumes "ring_holds s" "handshake s"
  shows "handshake (dm_client 0 s)"
  using assms(2) by (cases "cpc s 0") (auto simp: handshake_def client_defs stat_defs)

lemma handshake_call: "handshake s \<Longrightarrow> cpc s 0 = CIdle \<Longrightarrow> handshake (cgo 0 (enter f) s)"
  by (cases f) (auto simp: handshake_def cgo_def Let_def stat_defs)

lemma handshake_step:
  "dm_step 1 clears s t \<Longrightarrow> ring_holds s \<Longrightarrow> handshake s \<Longrightarrow> handshake t"
proof (induction rule: dm_step.induct)
  case (dma_step s)
  then show ?case by (auto simp: handshake_def Let_def)
qed (simp_all add: handshake_mover handshake_client handshake_call)

lemma handshake_start: "dm_start_state s \<Longrightarrow> handshake s"
  by (auto simp: handshake_def dm_start_state_def dm_init_def Let_def split: prod.splits)

interpretation waits: inductive_invariant dm_start_state "dm_step 1 clears"
  "\<lambda>s. ring_holds s \<and> handshake s" for clears
  by unfold_locales
    (auto intro: ring_holds_start ring_holds_step handshake_start handshake_step)

section \<open>One client: nobody sleeps through a \<open>dm_wait\<close>\<close>

fun asleep :: "dm_pc \<Rightarrow> bool" where
  "asleep (DWfi e) = True"
| "asleep (DClr e) = True"
| "asleep (DWfiDec e) = True"
| "asleep _ = False"

fun holds_mutex :: "client_pc \<Rightarrow> bool" where
  "holds_mutex (CInsert t) = True"
| "holds_mutex CFill = True"
| "holds_mutex CFront = True"
| "holds_mutex CUnlock = True"
| "holds_mutex (SPv0 r) = True"
| "holds_mutex (SReq r) = True"
| "holds_mutex (SWake r) = True"
| "holds_mutex (SIrq r) = True"
| "holds_mutex (SPoll r) = True"
| "holds_mutex (SUnlock r) = True"
| "holds_mutex _ = False"

definition wakeful :: "dm_sys \<Rightarrow> bool" where
  "wakeful s \<longleftrightarrow> (let d = dmp s; p = cpc s 0; q = dpc s
     in dm_wfi d = (if asleep q then 1 else 0) \<and> mutex d = (if holds_mutex p then 1 else 0) \<and>
       (p \<in> {WIrq, WFill} \<and> ((\<exists>e. q = DCheckQ e) \<or> (\<exists>e. q = DWfiInc e)) \<longrightarrow> queue_fill d = 0) \<and>
       (p = WFill \<and> (\<exists>e. q = DWfi e) \<and> queue_fill d \<noteq> 0 \<longrightarrow> irq s) \<and>
       (p \<in> {SLock 1, SPv0 1, SReq 1} \<longrightarrow> stat_q d = 0 \<and> q \<noteq> DClearQ) \<and>
       (awaits 1 p \<and> stat_pvalid d = 0 \<longrightarrow> stat_q d = 1 \<and> q \<noteq> DClearQ) \<and>
       (p \<in> {SIrq 1, SPoll 1} \<and> (\<exists>e. q = DWfiInc e) \<longrightarrow> stat_q d = 0) \<and>
       (p = SPoll 1 \<and> (\<exists>e. q = DWfi e) \<and> stat_q d \<noteq> 0 \<longrightarrow> irq s))"

lemma wakeful_mover:
  assumes "handshake s" "wakeful s"
  shows "wakeful (dm_main clears s)"
proof (cases "dpc s")
  case (DPvalid r)
  then have "awaits r (cpc s 0)" using assms(1) by (simp add: handshake_def Let_def)
  then have "cpc s 0 \<notin> {SLock 1, SPv0 1, SReq 1}" by (cases "cpc s 0") simp_all
  then show ?thesis using assms(2) DPvalid by (simp add: wakeful_def dm_defs)
qed (use assms(2) in \<open>simp_all add: wakeful_def dm_defs\<close>, auto)

lemma wakeful_client:
  assumes "handshake s" "wakeful s"
  shows "wakeful (dm_client 0 s)"
proof -
  have "stat_q (dmp s) = 0 \<longrightarrow> dpc s \<noteq> DClearQ" using assms(1) by (auto simp: handshake_def Let_def)
  with assms(2) show ?thesis
    by (cases "cpc s 0") (simp_all add: wakeful_def client_defs stat_defs, auto)
qed

lemma wakeful_call: "wakeful s \<Longrightarrow> cpc s 0 = CIdle \<Longrightarrow> wakeful (cgo 0 (enter f) s)"
  by (cases f) (simp_all add: wakeful_def cgo_def Let_def stat_defs)

lemma wakeful_step:
  "dm_step 1 clears s t \<Longrightarrow> handshake s \<Longrightarrow> wakeful s \<Longrightarrow> wakeful t"
proof (induction rule: dm_step.induct)
  case (dma_step s)
  then show ?case by (simp add: wakeful_def Let_def)
qed (simp_all add: wakeful_mover wakeful_client wakeful_call)

lemma wakeful_start: "dm_start_state s \<Longrightarrow> wakeful s"
  by (auto simp: wakeful_def dm_start_state_def dm_init_def Let_def split: prod.splits)

interpretation wakes: inductive_invariant dm_start_state "dm_step 1 clears"
  "\<lambda>s. ring_holds s \<and> handshake s \<and> wakeful s" for clears
  by unfold_locales
    (auto intro: ring_holds_start ring_holds_step handshake_start handshake_step
      wakeful_start wakeful_step)

section \<open>Properties\<close>

text \<open>
  C11: with a single client the ring of the data mover is a FIFO queue: at any time the tasks
  given to the DMA engine are the requested tasks in the order of the requests, without loss or
  duplicate, at most four wait, and these lie in the ring from the back index on.
\<close>

theorem dm_ring_is_queue:
  assumes "reach dm_start_state (dm_step 1 clears) s"
  shows "issued s = take (length (issued s)) (requested s) \<and>
    length (requested s) \<le> length (issued s) + 4 \<and> unat (queue_fill (dmp s)) \<le> 4 \<and>
    (\<forall>k. length (issued s) \<le> k \<and> k < length (requested s) \<longrightarrow>
       queue (dmp s) ! (k mod 4) = requested s ! k)"
  using queue1.reach_inv [OF assms] by (auto simp: ring_holds_def Let_def split: if_splits)

text \<open>
  C5: \<open>dm_wait\<close> waits for everything: with a single client, when its poll of \<open>stat_pvalid\<close>
  has succeeded every transfer the client has ever requested has been given to the DMA engine
  and has completed.
\<close>

theorem dm_wait_completes:
  assumes "reach dm_start_state (dm_step 1 clears) s" "cpc s 0 = SUnlock STAT_WAIT_IDLE"
  shows "issued s = requested s \<and> completed s = length (requested s)"
proof -
  have r: "ring_holds s" and h: "handshake s" using waits.reach_inv [OF assms(1)] by auto
  have "queue_fill (dmp s) = 0" using h assms(2) by (simp add: handshake_def Let_def)
  then have "issued s = requested s"
    using r assms(2) by (auto simp: ring_holds_def Let_def split: if_splits)
  then show ?thesis using h assms(2) by (simp add: handshake_def Let_def)
qed

text \<open>
  C29: \<open>dm_wait\<close> does not sleep for ever: with a single client, whenever the data mover
  is in \<open>wfi\<close> with no interrupt pending, a client inside \<open>dm_wait\<close> is not blocked, its
  next access takes it on, provided no exit has been requested.
\<close>

theorem dm_wait_not_stuck:
  assumes "reach dm_start_state (dm_step 1 clears) s" "dpc s = DWfi e" "\<not> irq s"
    "stat_q (dmp s) \<noteq> STAT_EXIT"
    "cpc s 0 \<in> {WWake, WIrq, WFill, WStat, SLock 1, SPv0 1, SReq 1, SWake 1, SIrq 1, SPoll 1, SUnlock 1}"
  shows "cpc (dm_client 0 s) 0 \<noteq> cpc s 0"
proof -
  have h: "handshake s" and w: "wakeful s" using wakes.reach_inv [OF assms(1)] by auto
  have "cpc s 0 = WStat \<Longrightarrow> stat_q (dmp s) = 0"
    using h assms(2,4) by (auto simp: handshake_def Let_def)
  with w assms(2,3,5) show ?thesis
    by (elim insertE emptyE) (simp_all add: wakeful_def client_defs, auto)
qed

section \<open>Concrete runs\<close>

text \<open>The data mover moves, client \<open>c\<close> moves or calls, the DMA engine finishes a transfer.\<close>

datatype dm_action = D | C nat | Call nat dm_call | Dma

fun dm_move :: "nat \<Rightarrow> bool \<Rightarrow> dm_action \<Rightarrow> dm_sys \<Rightarrow> dm_sys" where
  "dm_move n clears D s = dm_main clears s"
| "dm_move n clears (C c) s = (if c < n then dm_client c s else s)"
| "dm_move n clears (Call c f) s = (if c < n \<and> cpc s c = CIdle then cgo c (enter f) s else s)"
| "dm_move n clears Dma s =
     (if completed s < length (issued s) then s\<lparr>completed := completed s + 1\<rparr> else s)"

definition dm0 :: dm_sys where
  "dm0 = \<lparr>dmp = \<lparr>queue = [zero_task, zero_task, zero_task, zero_task], queue_back = 0, queue_front = 0,
      queue_fill = 0, mutex = 0, stat_q = 0, stat_pvalid = 0, dm_wfi = 0\<rparr>, dpc = DTop, irq = False,
    cpc = (\<lambda>_. CIdle), requested = [], issued = [], completed = 0\<rparr>"

lemma dm0_start: "dm_start_state dm0"
  by (simp add: dm_start_state_def dm0_def dm_init_def DM_TASK_QUEUE_SIZE_def numeral_eq_Suc
      split_beta Let_def)

definition dm_run :: "nat \<Rightarrow> bool \<Rightarrow> dm_action list \<Rightarrow> dm_sys" where
  "dm_run n clears ms = fold (dm_move n clears) ms dm0"

lemma dm_move_step: "dm_move n clears m s = s \<or> dm_step n clears s (dm_move n clears m s)"
proof (cases m)
  case Dma
  then show ?thesis using dm_step.dma_step [of s n clears] by simp
qed (auto intro: dm_step.intros)

lemma dm_run_reach: "reach dm_start_state (dm_step n clears) (dm_run n clears ms)"
proof (induction ms rule: rev_induct)
  case Nil
  then show ?case by (simp add: dm_run_def reach_start dm0_start)
next
  case (snoc m ms)
  have "dm_run n clears (ms @ [m]) = dm_move n clears m (dm_run n clears ms)" by (simp add: dm_run_def)
  then show ?case using snoc dm_move_step [of n clears m "dm_run n clears ms"] by (metis reach_step)
qed

definition copy_of :: "u32 \<Rightarrow> dm_call" where
  "copy_of dest = dm_memcpy_async dest 4096 64 zero_task"

definition task_of :: "u32 \<Rightarrow> dm_task" where
  "task_of dest = memcpy_task dest 4096 64 zero_task"

text \<open>The data mover falls asleep; client 0 runs through \<open>dm_wait\<close>, the mover serves it.\<close>

definition to_sleep :: "dm_action list" where
  "to_sleep = [D, D, D, D, D]"

definition queue_one :: "dm_action list" where
  "queue_one = [Call 0 (copy_of 8192), C 0, C 0, C 0, C 0, C 0, C 0]"

definition await_idle :: "dm_action list" where
  "await_idle = [Call 0 AwaitIdle, C 0, C 0, C 0]"

definition request_idle :: "dm_action list" where
  "request_idle = [C 0, C 0, C 0, C 0, C 0, C 0]"

definition serve :: "dm_action list" where
  "serve = [D, D, D, D, D, D, D, D]"

lemmas dm_run_simps = dm_run_def dm0_def to_sleep_def queue_one_def await_idle_def request_idle_def
  serve_def copy_of_def task_of_def dm_memcpy_async_def dm_defs client_defs DM_TASK_QUEUE_SIZE_def stat_defs
  slot_def next_slot_def

theorem dm_ring_is_queue_witness:
  "queue (dmp (dm_run 1 True queue_one)) ! 0 = task_of 8192"
proof -
  have "issued (dm_run 1 True queue_one) = []" "requested (dm_run 1 True queue_one) = [task_of 8192]"
    by (simp_all add: dm_run_simps)
  with dm_ring_is_queue [OF dm_run_reach, of True queue_one] show ?thesis by auto
qed

text \<open>One transfer, issued, completed and waited for.\<close>

definition full_wait :: "dm_action list" where
  "full_wait = queue_one @ to_sleep @ to_sleep @ await_idle @ request_idle @ [Dma] @ serve @ [C 0]"

theorem dm_wait_completes_witness:
  "issued (dm_run 1 True full_wait) = [task_of 8192] \<and> completed (dm_run 1 True full_wait) = 1"
proof -
  have "requested (dm_run 1 True full_wait) = [task_of 8192]"
    "cpc (dm_run 1 True full_wait) 0 = SUnlock STAT_WAIT_IDLE"
    by (simp_all add: full_wait_def dm_run_simps)
  with dm_wait_completes [OF dm_run_reach, of True full_wait] show ?thesis by simp
qed

theorem dm_wait_not_stuck_witness:
  "cpc (dm_client 0 (dm_run 1 True (to_sleep @ [Call 0 AwaitIdle]))) 0 \<noteq> WWake"
proof -
  have "cpc (dm_run 1 True (to_sleep @ [Call 0 AwaitIdle])) 0 = WWake"
    "dpc (dm_run 1 True (to_sleep @ [Call 0 AwaitIdle])) = DWfi False"
    "\<not> irq (dm_run 1 True (to_sleep @ [Call 0 AwaitIdle]))"
    "stat_q (dmp (dm_run 1 True (to_sleep @ [Call 0 AwaitIdle]))) \<noteq> STAT_EXIT"
    by (simp_all add: dm_run_simps)
  with dm_wait_not_stuck [OF dm_run_reach, of True "to_sleep @ [Call 0 AwaitIdle]" False]
  show ?thesis by simp
qed

definition three_tasks :: "dm_action list" where
  "three_tasks = [Call 0 (copy_of 1), C 0, C 0, C 0, C 0, C 0, C 0,
     Call 0 (copy_of 2), C 0, C 0, C 0, C 0, C 0, C 0, Call 0 (copy_of 3), C 0, C 0, C 0, C 0, C 0, C 0]"

definition two_race :: "dm_action list" where
  "two_race = [Call 0 (copy_of 4), Call 1 (copy_of 5), C 0, C 1, C 0, C 0, C 0, C 0, C 0, C 1, C 1, C 1, C 1, C 1]"

definition issue_one :: "dm_action list" where
  "issue_one = [D, D, D, D, D, D, D]"

text \<open>
  With two clients the ring overflows: the fill count is polled before the mutex is taken,
  so two clients pass the test on three waiting tasks, the fifth request overwrites the first
  one, which is never issued, while the fifth is issued twice.
\<close>

theorem dm_two_clients_lose_a_task:
  "\<exists>s. reach dm_start_state (dm_step 2 True) s \<and>
     requested s = map task_of [1, 2, 3, 4, 5] \<and> issued s = map task_of [5, 2, 3, 4, 5]"
proof (intro exI conjI)
  let ?s = "dm_run 2 True (three_tasks @ two_race @
    issue_one @ issue_one @ issue_one @ issue_one @ issue_one)"
  show "reach dm_start_state (dm_step 2 True) ?s" by (rule dm_run_reach)
  show "requested ?s = map task_of [1, 2, 3, 4, 5]" "issued ?s = map task_of [5, 2, 3, 4, 5]"
    by code_simp+
qed

text \<open>
  A request that the data mover has overwritten: it has just answered the previous request and
  clears \<open>stat_q\<close> after the client has stored the next one.
\<close>

definition request_lost :: "dm_sys \<Rightarrow> bool" where
  "request_lost s \<longleftrightarrow> cpc s 0 = SPoll STAT_READY \<and> stat_pvalid (dmp s) = 0 \<and> stat_q (dmp s) = 0 \<and>
     serving (dpc s) = None"

lemma request_lost_mover: "request_lost s \<Longrightarrow> request_lost (dm_main clears s)"
  by (cases "dpc s") (simp_all add: request_lost_def dm_defs stat_defs)

lemma request_lost_step: "dm_step 1 clears s t \<Longrightarrow> request_lost s \<Longrightarrow> request_lost t"
proof (induction rule: dm_step.induct)
  case (client_step c s)
  then show ?case by (simp add: request_lost_def client_defs)
next
  case (call_step c s f)
  then show ?case by (simp add: request_lost_def)
next
  case (dma_step s)
  then show ?case by (simp add: request_lost_def)
qed (rule request_lost_mover)

definition lose_ready :: "dm_action list" where
  "lose_ready = to_sleep @ await_idle @ request_idle @ serve @
     [C 0, C 0, Call 0 AwaitReady, C 0, C 0, C 0, D, D, D, D, C 0, C 0]"

text \<open>
  C31: \<open>dm_wait_ready\<close> right after \<open>dm_wait\<close> can hang: a state is reachable, with one client
  and a working interrupt, from which \<open>dm_wait_ready\<close> polls \<open>stat_pvalid\<close> for ever, whatever
  the data mover does.
\<close>

theorem dm_wait_ready_can_hang:
  "\<exists>s. reach dm_start_state (dm_step 1 True) s \<and> cpc s 0 = SPoll STAT_READY \<and>
     {t. (dm_step 1 True)\<^sup>*\<^sup>* s t} \<subseteq> {t. cpc t 0 = SPoll STAT_READY \<and> stat_pvalid (dmp t) = 0}"
proof (intro exI conjI subsetI CollectI)
  let ?s = "dm_run 1 True lose_ready"
  show "reach dm_start_state (dm_step 1 True) ?s" by (rule dm_run_reach)
  have l: "request_lost ?s" by (simp add: request_lost_def lose_ready_def dm_run_simps)
  then show "cpc ?s 0 = SPoll STAT_READY" by (simp add: request_lost_def)
  fix t assume "t \<in> {t. (dm_step 1 True)\<^sup>*\<^sup>* ?s t}"
  then have "(dm_step 1 True)\<^sup>*\<^sup>* ?s t" by simp
  then have "request_lost t"
    using l by (induction rule: rtranclp_induct) (auto intro: request_lost_step)
  then show "cpc t 0 = SPoll STAT_READY" "stat_pvalid (dmp t) = 0" by (simp_all add: request_lost_def)
qed

text \<open>
  C31: the ring is well formed for any number of clients: it has four slots, both indices stay
  inside it, and the fill count is at most three more than the number of clients.
\<close>

theorem dm_ring_well_formed:
  assumes "reach (dm_begin n) (dm_step n clears) s"
  shows "length (queue (dmp s)) = 4 \<and> unat (queue_front (dmp s)) < 4 \<and>
    unat (queue_back (dmp s)) < 4 \<and> unat (queue_fill (dmp s)) \<le> 3 + n"
  using rings.reach_inv [OF assms] by (simp add: ring_type_def)

lemma dm_run_begin:
  "n < 2147483648 \<Longrightarrow> reach (dm_begin n) (dm_step n clears) (dm_run n clears ms)"
  using dm_run_reach [of n clears ms]
  by (induction rule: reach.induct) (auto intro: reach.intros simp: dm_begin_def)

theorem dm_ring_well_formed_witness:
  "unat (queue_fill (dmp (dm_run 2 True (three_tasks @ two_race)))) \<le> 5 \<and>
   unat (queue_fill (dmp (dm_run 2 True (three_tasks @ two_race)))) = 5"
proof (rule conjI)
  show "unat (queue_fill (dmp (dm_run 2 True (three_tasks @ two_race)))) \<le> 5"
    using dm_ring_well_formed [OF dm_run_begin, of 2 True "three_tasks @ two_race"] by simp
  show "unat (queue_fill (dmp (dm_run 2 True (three_tasks @ two_race)))) = 5"
    by code_simp
qed

end
