(* ===== verification/Schedule.thy ===== *)
theory Schedule
  imports Kmp
begin

text \<open>
  The loop schedules of \<open>interface.h\<close>: the enumeration \<open>sched_type\<close> with its values, the macros
  on the schedule modifiers, and what the work sharing of \<open>kmp.c\<close> does with a modifier.
\<close>

section \<open>The enumeration\<close>

datatype sched_type =
  Kmp_sch_lower | Kmp_sch_static_chunked | Kmp_sch_static | Kmp_sch_dynamic_chunked |
  Kmp_sch_guided_chunked | Kmp_sch_runtime | Kmp_sch_auto | Kmp_sch_trapezoidal |
  Kmp_sch_static_greedy | Kmp_sch_static_balanced | Kmp_sch_guided_iterative_chunked |
  Kmp_sch_guided_analytical_chunked | Kmp_sch_static_steal | Kmp_sch_static_balanced_chunked |
  Kmp_sch_guided_simd | Kmp_sch_runtime_simd | Kmp_sch_upper | Kmp_ord_lower |
  Kmp_ord_static_chunked | Kmp_ord_static | Kmp_ord_dynamic_chunked | Kmp_ord_guided_chunked |
  Kmp_ord_runtime | Kmp_ord_auto | Kmp_ord_trapezoidal | Kmp_ord_upper |
  Kmp_distribute_static_chunked | Kmp_distribute_static | Kmp_nm_lower | Kmp_nm_static_chunked |
  Kmp_nm_static | Kmp_nm_dynamic_chunked | Kmp_nm_guided_chunked | Kmp_nm_runtime |
  Kmp_nm_auto | Kmp_nm_trapezoidal | Kmp_nm_static_greedy | Kmp_nm_static_balanced |
  Kmp_nm_guided_iterative_chunked | Kmp_nm_guided_analytical_chunked | Kmp_nm_static_steal |
  Kmp_nm_ord_static_chunked | Kmp_nm_ord_static | Kmp_nm_ord_dynamic_chunked |
  Kmp_nm_ord_guided_chunked | Kmp_nm_ord_runtime | Kmp_nm_ord_auto | Kmp_nm_ord_trapezoidal |
  Kmp_nm_upper | Kmp_sch_modifier_monotonic | Kmp_sch_modifier_nonmonotonic

definition sched_types :: "sched_type list" where
  "sched_types = [Kmp_sch_lower, Kmp_sch_static_chunked, Kmp_sch_static, Kmp_sch_dynamic_chunked,
    Kmp_sch_guided_chunked, Kmp_sch_runtime, Kmp_sch_auto, Kmp_sch_trapezoidal,
    Kmp_sch_static_greedy, Kmp_sch_static_balanced, Kmp_sch_guided_iterative_chunked,
    Kmp_sch_guided_analytical_chunked, Kmp_sch_static_steal, Kmp_sch_static_balanced_chunked,
    Kmp_sch_guided_simd, Kmp_sch_runtime_simd, Kmp_sch_upper, Kmp_ord_lower,
    Kmp_ord_static_chunked, Kmp_ord_static, Kmp_ord_dynamic_chunked, Kmp_ord_guided_chunked,
    Kmp_ord_runtime, Kmp_ord_auto, Kmp_ord_trapezoidal, Kmp_ord_upper,
    Kmp_distribute_static_chunked, Kmp_distribute_static, Kmp_nm_lower, Kmp_nm_static_chunked,
    Kmp_nm_static, Kmp_nm_dynamic_chunked, Kmp_nm_guided_chunked, Kmp_nm_runtime, Kmp_nm_auto,
    Kmp_nm_trapezoidal, Kmp_nm_static_greedy, Kmp_nm_static_balanced,
    Kmp_nm_guided_iterative_chunked, Kmp_nm_guided_analytical_chunked, Kmp_nm_static_steal,
    Kmp_nm_ord_static_chunked, Kmp_nm_ord_static, Kmp_nm_ord_dynamic_chunked,
    Kmp_nm_ord_guided_chunked, Kmp_nm_ord_runtime, Kmp_nm_ord_auto, Kmp_nm_ord_trapezoidal,
    Kmp_nm_upper, Kmp_sch_modifier_monotonic, Kmp_sch_modifier_nonmonotonic]"

fun sched_value :: "sched_type \<Rightarrow> i32" where
  "sched_value Kmp_sch_lower = 32"
| "sched_value Kmp_sch_static_chunked = 33"
| "sched_value Kmp_sch_static = 34"
| "sched_value Kmp_sch_dynamic_chunked = 35"
| "sched_value Kmp_sch_guided_chunked = 36"
| "sched_value Kmp_sch_runtime = 37"
| "sched_value Kmp_sch_auto = 38"
| "sched_value Kmp_sch_trapezoidal = 39"
| "sched_value Kmp_sch_static_greedy = 40"
| "sched_value Kmp_sch_static_balanced = 41"
| "sched_value Kmp_sch_guided_iterative_chunked = 42"
| "sched_value Kmp_sch_guided_analytical_chunked = 43"
| "sched_value Kmp_sch_static_steal = 44"
| "sched_value Kmp_sch_static_balanced_chunked = 45"
| "sched_value Kmp_sch_guided_simd = 46"
| "sched_value Kmp_sch_runtime_simd = 47"
| "sched_value Kmp_sch_upper = 48"
| "sched_value Kmp_ord_lower = 64"
| "sched_value Kmp_ord_static_chunked = 65"
| "sched_value Kmp_ord_static = 66"
| "sched_value Kmp_ord_dynamic_chunked = 67"
| "sched_value Kmp_ord_guided_chunked = 68"
| "sched_value Kmp_ord_runtime = 69"
| "sched_value Kmp_ord_auto = 70"
| "sched_value Kmp_ord_trapezoidal = 71"
| "sched_value Kmp_ord_upper = 72"
| "sched_value Kmp_distribute_static_chunked = 91"
| "sched_value Kmp_distribute_static = 92"
| "sched_value Kmp_nm_lower = 160"
| "sched_value Kmp_nm_static_chunked = 161"
| "sched_value Kmp_nm_static = 162"
| "sched_value Kmp_nm_dynamic_chunked = 163"
| "sched_value Kmp_nm_guided_chunked = 164"
| "sched_value Kmp_nm_runtime = 165"
| "sched_value Kmp_nm_auto = 166"
| "sched_value Kmp_nm_trapezoidal = 167"
| "sched_value Kmp_nm_static_greedy = 168"
| "sched_value Kmp_nm_static_balanced = 169"
| "sched_value Kmp_nm_guided_iterative_chunked = 170"
| "sched_value Kmp_nm_guided_analytical_chunked = 171"
| "sched_value Kmp_nm_static_steal = 172"
| "sched_value Kmp_nm_ord_static_chunked = 193"
| "sched_value Kmp_nm_ord_static = 194"
| "sched_value Kmp_nm_ord_dynamic_chunked = 195"
| "sched_value Kmp_nm_ord_guided_chunked = 196"
| "sched_value Kmp_nm_ord_runtime = 197"
| "sched_value Kmp_nm_ord_auto = 198"
| "sched_value Kmp_nm_ord_trapezoidal = 199"
| "sched_value Kmp_nm_upper = 200"
| "sched_value Kmp_sch_modifier_monotonic = push_bit 29 1"
| "sched_value Kmp_sch_modifier_nonmonotonic = push_bit 30 1"

text \<open>\<open>kmp_sch_default\<close> is another name of \<open>kmp_sch_static\<close>.\<close>

definition kmp_sch_default :: sched_type where
  "kmp_sch_default = Kmp_sch_static"

section \<open>Modifiers\<close>

definition modifiers :: i32 where
  "modifiers = sched_value Kmp_sch_modifier_nonmonotonic OR sched_value Kmp_sch_modifier_monotonic"

definition SCHEDULE_WITHOUT_MODIFIERS :: "i32 \<Rightarrow> i32" where
  "SCHEDULE_WITHOUT_MODIFIERS s = s AND NOT modifiers"

definition SCHEDULE_HAS_MONOTONIC :: "i32 \<Rightarrow> bool" where
  "SCHEDULE_HAS_MONOTONIC s \<longleftrightarrow> s AND sched_value Kmp_sch_modifier_monotonic \<noteq> 0"

definition SCHEDULE_HAS_NONMONOTONIC :: "i32 \<Rightarrow> bool" where
  "SCHEDULE_HAS_NONMONOTONIC s \<longleftrightarrow> s AND sched_value Kmp_sch_modifier_nonmonotonic \<noteq> 0"

definition SCHEDULE_HAS_NO_MODIFIERS :: "i32 \<Rightarrow> bool" where
  "SCHEDULE_HAS_NO_MODIFIERS s \<longleftrightarrow> s AND modifiers = 0"

definition SCHEDULE_GET_MODIFIERS :: "i32 \<Rightarrow> i32" where
  "SCHEDULE_GET_MODIFIERS s = s AND modifiers"

definition SCHEDULE_SET_MODIFIERS :: "i32 \<Rightarrow> i32 \<Rightarrow> i32" where
  "SCHEDULE_SET_MODIFIERS s m = s OR m"

section \<open>Properties\<close>

text \<open>A schedule is everything but a modifier; its values lie below the modifier bits.\<close>

definition is_modifier :: "sched_type \<Rightarrow> bool" where
  "is_modifier t \<longleftrightarrow> t = Kmp_sch_modifier_monotonic \<or> t = Kmp_sch_modifier_nonmonotonic"

definition sched_of :: "i32 \<Rightarrow> sched_type option" where
  "sched_of v = find (\<lambda>t. sched_value t = v) sched_types"

lemma find_value: "distinct (List.map f xs) \<Longrightarrow> x \<in> set xs \<Longrightarrow> find (\<lambda>t. f t = f x) xs = Some x"
  by (induction xs) (auto simp: image_iff)

lemma sched_types_all: "t \<in> set sched_types"
  by (cases t) (simp_all add: sched_types_def)

lemma sched_values_sorted: "sorted_wrt (<) (List.map sched_value sched_types)"
  by (simp add: sched_types_def sorted_wrt2_simps)

lemma sched_of_value: "sched_of (sched_value t) = Some t"
  unfolding sched_of_def
  by (rule find_value) (use sched_values_sorted sched_types_all in \<open>auto simp: strict_sorted_iff\<close>)

lemma modifiers_eq: "modifiers = 0x60000000"
  by (simp add: modifiers_def)

lemma sched_value_bits: "\<not> is_modifier t \<Longrightarrow> sched_value t AND modifiers = 0"
  by (cases t) (simp_all add: is_modifier_def modifiers_eq)

lemma static_values: "sched_value Kmp_sch_static = kmp_sch_static"
  "sched_value Kmp_sch_static_chunked = kmp_sch_static_chunked"
  by (simp_all add: kmp_sch_static_def kmp_sch_static_chunked_def)

instantiation sched_type :: linorder
begin

definition less_eq_sched_type :: "sched_type \<Rightarrow> sched_type \<Rightarrow> bool" where
  "s \<le> t \<longleftrightarrow> sched_value s \<le> sched_value t"

definition less_sched_type :: "sched_type \<Rightarrow> sched_type \<Rightarrow> bool" where
  "s < t \<longleftrightarrow> sched_value s < sched_value t"

instance
proof
  fix x y z :: sched_type
  show "x < y \<longleftrightarrow> x \<le> y \<and> \<not> y \<le> x"
    unfolding less_eq_sched_type_def less_sched_type_def by (rule less_le_not_le)
  show "x \<le> x" unfolding less_eq_sched_type_def by (rule order_refl)
  show "x \<le> y \<or> y \<le> x" unfolding less_eq_sched_type_def by (rule linear)
  show "x \<le> z" if "x \<le> y" "y \<le> z" using that unfolding less_eq_sched_type_def by (rule order_trans)
  show "x = y" if "x \<le> y" "y \<le> x"
  proof -
    have "sched_value x = sched_value y"
      using that unfolding less_eq_sched_type_def by (rule order_antisym)
    then have "sched_of (sched_value x) = sched_of (sched_value y)" by (rule arg_cong)
    then show ?thesis unfolding sched_of_value by (rule option.inject [THEN iffD1])
  qed
qed

end

text \<open>
  C32: a schedule and a set of modifiers can be packed into one word and recovered from it:
  stripping the modifiers gives the value of the schedule, which determines the schedule, the
  modifier bits come back, and the three tests say which modifiers are present.
\<close>

theorem schedule_modifiers_roundtrip:
  assumes "\<not> is_modifier t" "m AND modifiers = m"
  defines "w \<equiv> SCHEDULE_SET_MODIFIERS (sched_value t) m"
  shows "sched_of (SCHEDULE_WITHOUT_MODIFIERS w) = Some t \<and> SCHEDULE_GET_MODIFIERS w = m \<and>
    SCHEDULE_HAS_NO_MODIFIERS w = (m = 0) \<and>
    SCHEDULE_HAS_MONOTONIC w = bit m 29 \<and> SCHEDULE_HAS_NONMONOTONIC w = bit m 30"
proof -
  have v: "sched_value t AND modifiers = 0" using assms(1) by (rule sched_value_bits)
  have g: "w AND modifiers = m" unfolding w_def SCHEDULE_SET_MODIFIERS_def
    using v assms(2) by (simp add: bit.conj_disj_distrib2)
  have "w AND NOT modifiers = sched_value t"
  proof (rule bit_word_eqI)
    fix n assume n: "n < LENGTH(32)"
    have b: "\<not> (bit (sched_value t) n \<and> bit modifiers n)" "bit m n \<longrightarrow> bit modifiers n"
      using arg_cong [OF v, of "\<lambda>x. bit x n"] arg_cong [OF assms(2), of "\<lambda>x. bit x n"]
      by (auto simp: bit_simps)
    show "bit (w AND NOT modifiers) n = bit (sched_value t) n"
      using b n by (auto simp: w_def SCHEDULE_SET_MODIFIERS_def bit_simps)
  qed
  then have s: "sched_of (SCHEDULE_WITHOUT_MODIFIERS w) = Some t"
    by (simp add: SCHEDULE_WITHOUT_MODIFIERS_def sched_of_value)
  have b: "bit w k = bit m k" if "bit modifiers k" for k
    using arg_cong [OF g, of "\<lambda>x. bit x k"] that by (simp add: bit_simps)
  have k: "bit modifiers 29" "bit modifiers 30" by (simp_all add: modifiers_eq bit_simps)
  have one: "w AND push_bit k 1 \<noteq> 0 \<longleftrightarrow> bit w k" if "k < 32" for k
    using that by (simp add: and_exp_eq_0_iff_not_bit push_bit_of_1)
  show ?thesis
    using s g b [OF k(1)] b [OF k(2)] one [of 29] one [of 30]
    by (simp add: SCHEDULE_GET_MODIFIERS_def SCHEDULE_HAS_NO_MODIFIERS_def SCHEDULE_HAS_MONOTONIC_def
        SCHEDULE_HAS_NONMONOTONIC_def)
qed

theorem schedule_modifiers_roundtrip_witness:
  "sched_of (SCHEDULE_WITHOUT_MODIFIERS
     (SCHEDULE_SET_MODIFIERS (sched_value Kmp_sch_dynamic_chunked) (push_bit 29 1))) =
   Some Kmp_sch_dynamic_chunked"
proof -
  have "\<not> is_modifier Kmp_sch_dynamic_chunked" by (simp add: is_modifier_def)
  moreover have "push_bit 29 1 AND modifiers = push_bit 29 1" by (simp add: modifiers_eq)
  ultimately show ?thesis using schedule_modifiers_roundtrip by blast
qed

text \<open>
  The static work sharing does not strip the modifiers: a schedule that carries one, such as
  the value of \<open>schedule(monotonic: static)\<close>, matches no branch, the bounds are left as they
  are, and every thread is given the whole loop.
\<close>

theorem modified_static_repeats_loop:
  assumes "m AND modifiers = m" "m \<noteq> 0" "incr \<noteq> 0" "sched \<in> {Kmp_sch_static, Kmp_sch_static_chunked}"
  shows "kmpc_for_static_init_4 team threadNum (SCHEDULE_SET_MODIFIERS (sched_value sched) m) incr chunk b = Some b"
proof -
  let ?w = "SCHEDULE_SET_MODIFIERS (sched_value sched) m"
  have "\<not> is_modifier sched" using assms(4) by (auto simp: is_modifier_def)
  from schedule_modifiers_roundtrip [OF this assms(1)] have "\<not> SCHEDULE_HAS_NO_MODIFIERS ?w"
    using assms(2) by blast
  moreover have "SCHEDULE_HAS_NO_MODIFIERS (sched_value Kmp_sch_static)"
    "SCHEDULE_HAS_NO_MODIFIERS (sched_value Kmp_sch_static_chunked)"
    by (simp_all add: SCHEDULE_HAS_NO_MODIFIERS_def modifiers_eq)
  ultimately have "?w \<noteq> kmp_sch_static" "?w \<noteq> kmp_sch_static_chunked"
    using static_values by metis+
  then show ?thesis using assms(3) by (simp add: kmpc_for_static_init_4_def Let_def)
qed

theorem modified_static_repeats_loop_witness:
  "kmpc_for_static_init_4 team4 2 (SCHEDULE_SET_MODIFIERS (sched_value Kmp_sch_static) (push_bit 29 1)) 1 1
     (bounds_of 0 9) = Some (bounds_of 0 9)"
  by (rule modified_static_repeats_loop) (simp_all add: modifiers_eq)

end
