(* ===== verification/Dma.thy ===== *)
theory Dma
  imports Prelude
begin

text \<open>
  The DMA calls of \<open>dma.c\<close>. The instructions are hand-assembled words; the model assembles the
  same words, decodes them with the match and mask constants of \<open>encoding.h\<close> and records the
  commands that reach the DMA engine. The engine is outside the repository: its answers are
  parameters.
\<close>

section \<open>Instruction words\<close>

definition insn :: "u32 \<Rightarrow> u32 \<Rightarrow> u32 \<Rightarrow> u32 \<Rightarrow> u32 \<Rightarrow> u32" where
  "insn funct7 rs2 rs1 funct3 rd =
     push_bit 25 funct7 OR push_bit 20 rs2 OR push_bit 15 rs1 OR push_bit 12 funct3 OR push_bit 7 rd OR 0b0101011"

definition dmsrc_word :: u32 where "dmsrc_word = insn 0b0000000 13 12 0b000 0"
definition dmdst_word :: u32 where "dmdst_word = insn 0b0000001 11 10 0b000 0"
definition dmstr_word :: u32 where "dmstr_word = insn 0b0000110 15 16 0b000 0"
definition dmrep_word :: u32 where "dmrep_word = insn 0b0000111 0 17 0b000 0"
definition dmcpyi_1d_word :: u32 where "dmcpyi_1d_word = insn 0b0000010 0b00000 14 0b000 10"
definition dmcpyi_2d_word :: u32 where "dmcpyi_2d_word = insn 0b0000010 0b00010 14 0b000 10"
definition dmstati_completed_word :: u32 where "dmstati_completed_word = insn 0b0000100 0b00000 0 0b000 5"
definition dmstati_busy_word :: u32 where "dmstati_busy_word = insn 0b0000100 0b00010 0 0b000 5"

lemmas dma_words = dmsrc_word_def dmdst_word_def dmstr_word_def dmrep_word_def dmcpyi_1d_word_def
  dmcpyi_2d_word_def dmstati_completed_word_def dmstati_busy_word_def

text \<open>The encodings of the instruction set.\<close>

definition MATCH_DMSRC :: u32 where "MATCH_DMSRC = 0x2b"
definition MASK_DMSRC :: u32 where "MASK_DMSRC = 0xfe007fff"
definition MATCH_DMDST :: u32 where "MATCH_DMDST = 0x200002b"
definition MASK_DMDST :: u32 where "MASK_DMDST = 0xfe007fff"
definition MATCH_DMCPYI :: u32 where "MATCH_DMCPYI = 0x400002b"
definition MASK_DMCPYI :: u32 where "MASK_DMCPYI = 0xfe00707f"
definition MATCH_DMSTATI :: u32 where "MATCH_DMSTATI = 0x800002b"
definition MASK_DMSTATI :: u32 where "MASK_DMSTATI = 0xfe0ff07f"
definition MATCH_DMSTR :: u32 where "MATCH_DMSTR = 0xc00002b"
definition MASK_DMSTR :: u32 where "MASK_DMSTR = 0xfe007fff"
definition MATCH_DMREP :: u32 where "MATCH_DMREP = 0xe00002b"
definition MASK_DMREP :: u32 where "MASK_DMREP = 0xfff07fff"

lemmas dma_masks = MATCH_DMSRC_def MASK_DMSRC_def MATCH_DMDST_def MASK_DMDST_def MATCH_DMCPYI_def
  MASK_DMCPYI_def MATCH_DMSTATI_def MASK_DMSTATI_def MATCH_DMSTR_def MASK_DMSTR_def MATCH_DMREP_def
  MASK_DMREP_def

text \<open>An instruction with the numbers of its fields: destination, sources, immediate.\<close>

datatype dma_insn =
  Dmsrc nat nat | Dmdst nat nat | Dmstr nat nat | Dmrep nat | Dmcpyi nat nat nat | Dmstati nat nat

definition bits5 :: "nat \<Rightarrow> u32 \<Rightarrow> nat" where
  "bits5 k w = unat (drop_bit k w AND 31)"

definition decode :: "u32 \<Rightarrow> dma_insn option" where
  "decode w =
     (if w AND MASK_DMSRC = MATCH_DMSRC then Some (Dmsrc (bits5 15 w) (bits5 20 w))
      else if w AND MASK_DMDST = MATCH_DMDST then Some (Dmdst (bits5 15 w) (bits5 20 w))
      else if w AND MASK_DMCPYI = MATCH_DMCPYI then Some (Dmcpyi (bits5 7 w) (bits5 15 w) (bits5 20 w))
      else if w AND MASK_DMSTATI = MATCH_DMSTATI then Some (Dmstati (bits5 7 w) (bits5 20 w))
      else if w AND MASK_DMSTR = MATCH_DMSTR then Some (Dmstr (bits5 15 w) (bits5 20 w))
      else if w AND MASK_DMREP = MATCH_DMREP then Some (Dmrep (bits5 15 w))
      else None)"

lemma decode_words:
  "decode dmsrc_word = Some (Dmsrc 12 13)"
  "decode dmdst_word = Some (Dmdst 10 11)"
  "decode dmstr_word = Some (Dmstr 16 15)"
  "decode dmrep_word = Some (Dmrep 17)"
  "decode dmcpyi_1d_word = Some (Dmcpyi 10 14 0)"
  "decode dmcpyi_2d_word = Some (Dmcpyi 10 14 2)"
  "decode dmstati_completed_word = Some (Dmstati 5 0)"
  "decode dmstati_busy_word = Some (Dmstati 5 2)"
  by (simp_all add: decode_def dma_words dma_masks insn_def bits5_def)

section \<open>Starting transfers\<close>

text \<open>What the engine receives: the operand values and the immediate.\<close>

datatype dma_cmd =
  Src u32 u32 | Dst u32 u32 | Strides u32 u32 | Reps u32 | Copy u32 nat

type_synonym regs = "nat \<Rightarrow> u32"

text \<open>
  A hart executes a word: the command of the engine is appended to the trace; \<open>answer\<close> gives
  the transfer id for the commands so far, which goes into the destination register.
\<close>

definition exec :: "(dma_cmd list \<Rightarrow> u32) \<Rightarrow> u32 \<Rightarrow> regs \<times> dma_cmd list \<Rightarrow> (regs \<times> dma_cmd list) option" where
  "exec answer w = (\<lambda>(r, cmds). case decode w of
      Some (Dmsrc a b) \<Rightarrow> Some (r, cmds @ [Src (r a) (r b)])
    | Some (Dmdst a b) \<Rightarrow> Some (r, cmds @ [Dst (r a) (r b)])
    | Some (Dmstr a b) \<Rightarrow> Some (r, cmds @ [Strides (r a) (r b)])
    | Some (Dmrep a) \<Rightarrow> Some (r, cmds @ [Reps (r a)])
    | Some (Dmcpyi d a i) \<Rightarrow>
        (let cmds = cmds @ [Copy (r a) i] in Some (r(d := answer cmds), cmds))
    | _ \<Rightarrow> None)"

fun exec_all ::
  "(dma_cmd list \<Rightarrow> u32) \<Rightarrow> u32 list \<Rightarrow> regs \<times> dma_cmd list \<Rightarrow> (regs \<times> dma_cmd list) option" where
  "exec_all answer [] s = Some s"
| "exec_all answer (w # ws) s = Option.bind (exec answer w s) (exec_all answer ws)"

text \<open>
  The variables are bound to the argument registers \<open>a0\<close> (10) to \<open>a7\<close> (17), \<open>r\<close> holds what
  the other registers contain; the result is read from \<open>a0\<close>.
\<close>

definition snrt_dma_start_1d_wideptr ::
  "(dma_cmd list \<Rightarrow> u32) \<Rightarrow> regs \<Rightarrow> u64 \<Rightarrow> u64 \<Rightarrow> u32 \<Rightarrow> (u32 \<times> dma_cmd list) option" where
  "snrt_dma_start_1d_wideptr answer r dst src size' =
     map_option (\<lambda>(r, cmds). (r 10, cmds))
       (exec_all answer [dmsrc_word, dmdst_word, dmcpyi_1d_word]
         (r(10 := ucast dst, 11 := ucast (drop_bit 32 dst), 12 := ucast src,
            13 := ucast (drop_bit 32 src), 14 := size'), []))"

definition snrt_dma_start_1d ::
  "(dma_cmd list \<Rightarrow> u32) \<Rightarrow> regs \<Rightarrow> u32 \<Rightarrow> u32 \<Rightarrow> u32 \<Rightarrow> (u32 \<times> dma_cmd list) option" where
  "snrt_dma_start_1d answer r dst src size' =
     snrt_dma_start_1d_wideptr answer r (ucast dst) (ucast src) size'"

definition snrt_dma_start_2d_wideptr ::
  "(dma_cmd list \<Rightarrow> u32) \<Rightarrow> regs \<Rightarrow> u64 \<Rightarrow> u64 \<Rightarrow> u32 \<Rightarrow> u32 \<Rightarrow> u32 \<Rightarrow> u32 \<Rightarrow>
     (u32 \<times> dma_cmd list) option" where
  "snrt_dma_start_2d_wideptr answer r dst src size' dst_stride src_stride repeat =
     map_option (\<lambda>(r, cmds). (r 10, cmds))
       (exec_all answer [dmsrc_word, dmdst_word, dmstr_word, dmrep_word, dmcpyi_2d_word]
         (r(10 := ucast dst, 11 := ucast (drop_bit 32 dst), 12 := ucast src,
            13 := ucast (drop_bit 32 src), 14 := size', 15 := dst_stride, 16 := src_stride,
            17 := repeat), []))"

definition snrt_dma_start_2d ::
  "(dma_cmd list \<Rightarrow> u32) \<Rightarrow> regs \<Rightarrow> u32 \<Rightarrow> u32 \<Rightarrow> u32 \<Rightarrow> u32 \<Rightarrow> u32 \<Rightarrow> u32 \<Rightarrow>
     (u32 \<times> dma_cmd list) option" where
  "snrt_dma_start_2d answer r dst src size' dst_stride src_stride repeat =
     snrt_dma_start_2d_wideptr answer r (ucast dst) (ucast src) size' dst_stride src_stride repeat"

section \<open>Waiting\<close>

text \<open>
  The status of the engine has numbered fields; \<open>dmstati\<close> reads the field that its immediate names
  into its destination register. \<open>t0_after\<close> is what \<open>t0\<close> (register 5) holds after the word \<open>w\<close>.
\<close>

type_synonym dma_status = "nat \<Rightarrow> u32"

definition t0_after :: "u32 \<Rightarrow> dma_status \<Rightarrow> u32 option" where
  "t0_after w stat = (case decode w of
      Some (Dmstati d field) \<Rightarrow> if d = 5 then Some (stat field) else None
    | _ \<Rightarrow> None)"

text \<open>
  The polling loops on the successive states of the engine; \<open>None\<close> is a loop that has not
  ended when the states are used up. The result is the rest of them.
\<close>

fun snrt_dma_wait :: "u32 \<Rightarrow> dma_status list \<Rightarrow> dma_status list option" where
  "snrt_dma_wait tid [] = None"
| "snrt_dma_wait tid (stat # stats) = (case t0_after dmstati_completed_word stat of
      None \<Rightarrow> None
    | Some t0 \<Rightarrow> let t0 = t0 - tid in if sint t0 \<le> 0 then snrt_dma_wait tid stats else Some stats)"

fun snrt_dma_wait_all :: "dma_status list \<Rightarrow> dma_status list option" where
  "snrt_dma_wait_all [] = None"
| "snrt_dma_wait_all (stat # stats) = (case t0_after dmstati_busy_word stat of
      None \<Rightarrow> None
    | Some t0 \<Rightarrow> if t0 \<noteq> 0 then snrt_dma_wait_all stats else Some stats)"

lemma t0_after_words [simp]:
  "t0_after dmstati_completed_word stat = Some (stat 0)" "t0_after dmstati_busy_word stat = Some (stat 2)"
  by (simp_all add: t0_after_def decode_words)

section \<open>Properties\<close>

text \<open>The 64-bit address that a pair of operand registers stands for.\<close>

definition wide :: "u32 \<Rightarrow> u32 \<Rightarrow> u64" where
  "wide lo hi = ucast lo OR push_bit 32 (ucast hi)"

lemma wide_split: "wide (ucast x) (ucast (drop_bit 32 x)) = x"
  by (rule bit_word_eqI) (auto simp: wide_def bit_simps)

lemma wide_narrow: "wide x 0 = ucast x"
  by (simp add: wide_def)

lemma drop_bit_narrow: "drop_bit 32 (ucast (x :: u32) :: u64) = 0"
  by (rule bit_word_eqI) (auto simp: bit_simps dest: bit_imp_le_length)

lemma ucast_narrow: "ucast (ucast (x :: u32) :: u64) = x"
  by (rule bit_word_eqI) (auto simp: bit_simps)

text \<open>
  C33: every call hands the DMA engine the transfer it was asked for: decoded with the
  instruction set's own constants, the hand-assembled words name registers that hold the two
  halves of the source and of the destination address, the size, and for a two-dimensional
  transfer both strides (source first), the number of repetitions and the two-dimensional
  mode; the id that the engine answers is the result.
\<close>

theorem dma_start_issues_transfer:
  "snrt_dma_start_1d_wideptr answer r dst src n =
     (let cmds = [Src (ucast src) (ucast (drop_bit 32 src)), Dst (ucast dst) (ucast (drop_bit 32 dst)), Copy n 0]
      in Some (answer cmds, cmds)) \<and>
   snrt_dma_start_2d_wideptr answer r dst src n ds ss reps =
     (let cmds = [Src (ucast src) (ucast (drop_bit 32 src)), Dst (ucast dst) (ucast (drop_bit 32 dst)),
        Strides ss ds, Reps reps, Copy n 2]
      in Some (answer cmds, cmds)) \<and>
   snrt_dma_start_1d answer r d s n =
     (let cmds = [Src s 0, Dst d 0, Copy n 0] in Some (answer cmds, cmds)) \<and>
   snrt_dma_start_2d answer r d s n ds ss reps =
     (let cmds = [Src s 0, Dst d 0, Strides ss ds, Reps reps, Copy n 2] in Some (answer cmds, cmds)) \<and>
   wide (ucast src) (ucast (drop_bit 32 src)) = src"
  by (simp add: snrt_dma_start_1d_wideptr_def snrt_dma_start_2d_wideptr_def snrt_dma_start_1d_def
      snrt_dma_start_2d_def exec_def decode_words Let_def wide_split drop_bit_narrow ucast_narrow)

text \<open>Transfer ids count modulo \<open>2 ^ 32\<close>; \<open>t\<close> and \<open>c\<close> are the counts.\<close>

lemma sint_diff_pos:
  assumes "c < t + 2147483648" "t < c + 2147483648"
  shows "sint (of_nat c - of_nat t :: u32) \<le> 0 \<longleftrightarrow> c \<le> t"
proof -
  have "(of_nat c - of_nat t :: u32) = word_of_int (int c - int t)" by simp
  then have "sint (of_nat c - of_nat t :: u32) = int c - int t"
    using assms by (simp only:) (rule sint_word_of_int_u32; linarith)
  then show ?thesis by simp
qed

text \<open>
  C34: \<open>snrt_dma_wait\<close> is exact across the wrap-around of the ids: it reads field 0 of the status. If that counts the
  completed transfers modulo \<open>2 ^ 32\<close>, and their number stays within \<open>2 ^ 31\<close> of the transfer waited
  for, the loop ends with the first status that counts more than \<open>t\<close> completed transfers, and does not end before.
\<close>

theorem dma_wait_exact:
  assumes "\<And>c stat. (c, stat) \<in> set stats \<Longrightarrow> stat 0 = of_nat c \<and> c < t + 2147483648 \<and> t < c + 2147483648"
  shows "snrt_dma_wait (of_nat t) (List.map snd stats) =
    (case dropWhile (\<lambda>(c, stat). c \<le> t) stats of [] \<Rightarrow> None | _ # rest \<Rightarrow> Some (List.map snd rest))"
  using assms
proof (induction stats)
  case (Cons x stats)
  obtain c stat where x: "x = (c, stat)" by (cases x)
  then have c: "stat 0 = of_nat c" "c < t + 2147483648" "t < c + 2147483648" using Cons.prems [of c stat] by auto
  have "sint (of_nat c - of_nat t :: u32) \<le> 0 \<longleftrightarrow> c \<le> t" by (rule sint_diff_pos [OF c(2,3)])
  moreover have "snrt_dma_wait (of_nat t) (List.map snd stats) =
      (case dropWhile (\<lambda>(c, stat). c \<le> t) stats of [] \<Rightarrow> None | _ # rest \<Rightarrow> Some (List.map snd rest))"
    by (rule Cons.IH) (use Cons.prems in auto)
  ultimately show ?case by (simp add: x c(1))
qed simp

definition status_of :: "u32 \<Rightarrow> dma_status" where
  "status_of c = (\<lambda>field. if field = 0 then c else 1)"

theorem dma_wait_exact_witness:
  "snrt_dma_wait (of_nat 4294967295) [status_of 4294967295, status_of 0, status_of 7] = Some [status_of 7]"
proof -
  have "snrt_dma_wait (of_nat 4294967295) (List.map snd
      [(4294967295 :: nat, status_of 4294967295), (4294967296, status_of 0), (4294967303, status_of 7)]) = Some [status_of 7]"
    by (subst dma_wait_exact) (auto simp: status_of_def)
  then show ?thesis by simp
qed

text \<open>
  An id that is \<open>2 ^ 31\<close> or more transfers old looks unfinished: the wait for a transfer
  that has long completed goes on.
\<close>

theorem dma_wait_stale_id:
  assumes "t + 2147483648 \<le> c" "c \<le> t + 4294967296" "stat 0 = of_nat c"
  shows "snrt_dma_wait (of_nat t) (stat # stats) = snrt_dma_wait (of_nat t) stats"
proof -
  have "(of_nat c - of_nat t :: u32) = word_of_int (int c - int t)" by simp
  also have "\<dots> = word_of_int (int c - int t - 4294967296)"
    unfolding word_of_int_eq_iff by (simp add: take_bit_eq_mod minus_mod_self2)
  finally have "sint (of_nat c - of_nat t :: u32) = int c - int t - 4294967296"
    using assms(1,2) by (simp only:) (rule sint_word_of_int_u32; linarith)
  then show ?thesis using assms by simp
qed

theorem dma_wait_stale_id_witness:
  "snrt_dma_wait (of_nat 0) [status_of (of_nat 2147483649)] = None"
  using dma_wait_stale_id [of 0 2147483649 "status_of (of_nat 2147483649)" "[]"] by (simp add: status_of_def)

end
