(* ===== verification/Boot.thy ===== *)
theory Boot
  imports Kmp DataMover
begin

text \<open>
  The shipped configuration: the boot data of \<open>bootdata.cc\<close> and \<open>bootdata_bootrom.cc\<close>, what
  the start-up code makes of them on each core, and the structures that core 0 sets up in
  \<open>snrt_omp_bootstrap\<close>.
\<close>

section \<open>Boot data\<close>

definition BOOTDATA :: snrt_cluster_bootdata where
  "BOOTDATA = \<lparr>boot_addr = 0x1000, core_count = 16, hartid_base = 0, tcdm_start = 0xbffff800,
     tcdm_size = 0x800, tcdm_offset = 0, global_mem_start = 0x80000000,
     global_mem_end = 0xa0000000, tile_count = 4\<rparr>"

definition bootrom_BOOTDATA :: snrt_cluster_bootdata where
  "bootrom_BOOTDATA = \<lparr>boot_addr = 0x1000, core_count = 16, hartid_base = 0, tcdm_start = 0xbffff800,
     tcdm_size = 0x800, tcdm_offset = 0, global_mem_start = 0x80000000,
     global_mem_end = 0xa0000000, tile_count = 4\<rparr>"

section \<open>Bootstrap of core 0\<close>

text \<open>\<open>sizeof(eu_t)\<close>: four words and the five words of the event.\<close>

definition sizeof_eu :: u32 where
  "sizeof_eu = 4 * 4 + 5 * 4"

definition eu_init :: "hart_team \<Rightarrow> u32 \<times> hart_team" where
  "eu_init h = (let (eu_p, al) = snrt_l1alloc sizeof_eu (allocator (root h))
     in (eu_p, h\<lparr>root := (root h)\<lparr>allocator := al\<rparr>\<rparr>))"

text \<open>
  \<open>snrt_omp_bootstrap\<close> on core 0, up to its wait for the workers: \<open>dm_init\<close> only fetches the
  data mover's structure, then \<open>eu_init\<close> and \<open>omp_init\<close> allocate.
\<close>

definition snrt_omp_bootstrap :: "hart_team \<Rightarrow> omp \<Rightarrow> (u32 \<times> (u32 \<times> u32 \<times> u32) \<times> omp) \<times> hart_team" where
  "snrt_omp_bootstrap h old =
     (let (eu_p, h) = eu_init h; ((ptrs, omp), h) = omp_init h old in ((eu_p, ptrs, omp), h))"

text \<open>
  What a core does in \<open>snrt_omp_bootstrap\<close> after the initialisation, and the value the call returns
  in the end: core 0 waits until all workers sleep, the data mover core serves in \<open>dm_main\<close>, the others
  enter \<open>eu_event_loop\<close> with their index.
\<close>

datatype bootstrap_role = WaitForWorkers u32 | RunDmMain | RunEventLoop u32

definition omp_bootstrap_role :: "u32 \<Rightarrow> hart_team \<Rightarrow> bootstrap_role \<times> u32" where
  "omp_bootstrap_role core_idx h =
     (if core_idx = 0 then (WaitForWorkers (snrt_cluster_compute_core_num h - 1), 0)
      else if snrt_is_dm_core h then (RunDmMain, 1)
      else (RunEventLoop core_idx, 1))"

section \<open>Properties\<close>

definition boot_team :: "snrt_team_root \<Rightarrow> u32 \<Rightarrow> nat \<Rightarrow> hart_team" where
  "boot_team old edram i = core_team BOOTDATA (tcdm_start BOOTDATA) edram old 16 i"

lemma BOOTDATA_ok: "boot_ok BOOTDATA (tcdm_start BOOTDATA) 16"
  by (simp add: boot_ok_def BOOTDATA_def)

lemma boot_team_idx: "i < 16 \<Longrightarrow> snrt_cluster_core_idx (boot_team old edram i) = of_nat i"
  "i < 16 \<Longrightarrow> snrt_cluster_core_num (boot_team old edram i) = 16"
  using core_team_idx [OF BOOTDATA_ok] by (simp_all add: boot_team_def)

lemma boot_allocator:
  "l1 (allocator (root (boot_team old edram i))) =
     \<lparr>base = 0xbffff800, alloc_size = 0x800, next_free = 0xbffff800\<rparr>"
  by (simp add: boot_team_def core_team_def snrt_init_team_def BOOTDATA_def snrt_int_init_def
      snrt_alloc_init_def ALIGN_UP_def MIN_CHUNK_SIZE_def Let_def)

text \<open>
  C35: the shipped boot data describe a cluster of 16 cores that the runtime understands: both
  copies agree; core \<open>i\<close> lies in tile \<open>i div 4\<close>, core 15 is the data mover and the others
  compute; the registers start right behind the 2 KiB of cluster memory; and on core 0 the
  structures of the event unit and of the OpenMP runtime fit into that memory one after the
  other, with 15 threads at most; and core 0 then waits for the 14 cores that enter the event loop.
\<close>

theorem boot_cluster_layout:
  assumes "i < 16"
  shows "bootrom_BOOTDATA = BOOTDATA \<and>
    snrt_cluster_tile_idx (boot_team old edram i) = Some (of_nat (i div 4)) \<and>
    snrt_is_dm_core (boot_team old edram i) = (i = 15) \<and>
    snrt_barrier_reg_ptr (boot_team old edram i) = 0xc0000010 \<and>
    clint_p (boot_team old edram i) = 0xc0000008 \<and>
    (let ((eu_p, (args, omp_p, prof), omp), h) = snrt_omp_bootstrap (boot_team old edram 0) w
     in [eu_p, args, omp_p, kmpc_barrier omp, prof, next_free (l1 (allocator (root h)))] =
          [0xbffff800, 0xbffff828, 0xbffff858, 0xbffff8c8, 0xbffff8d0, 0xbffff8d8] \<and>
        numThreads omp = 15 \<and> nb_threads (plainTeam omp) = 15) \<and>
    omp_bootstrap_role (of_nat i) (boot_team old edram i) =
      (if i = 0 then (WaitForWorkers 14, 0) else if i = 15 then (RunDmMain, 1) else (RunEventLoop (of_nat i), 1))"
proof -
  let ?h = "boot_team old edram i"
  have n: "snrt_cluster_core_num ?h div 4 = 4" using boot_team_idx(2) [OF assms] by simp
  have t: "snrt_cluster_tile_num ?h = 4"
    using core_team_tiles [OF BOOTDATA_ok] by (simp add: boot_team_def BOOTDATA_def)
  have "(of_nat i :: u32) div of_nat 4 = of_nat (i div 4)" using assms by (intro of_nat_div_u32) auto
  then have tile: "snrt_cluster_tile_idx ?h = Some (of_nat (i div 4))"
    using n boot_team_idx(1) [OF assms] by (simp add: snrt_cluster_tile_idx_def t)
  have "(of_nat i :: u32) < 15 \<longleftrightarrow> i < 15" using assms by (simp add: word_less_nat_alt)
  then have role: "snrt_is_dm_core ?h = (i = 15)"
    using assms boot_team_idx [OF assms] by (auto simp: snrt_is_dm_core_def snrt_is_compute_core_def)
  have regs: "snrt_barrier_reg_ptr ?h = 0xc0000010" "clint_p ?h = 0xc0000008"
    by (simp_all add: boot_team_def core_team_def snrt_init_team_def BOOTDATA_def snrt_int_init_def
        snrt_barrier_reg_ptr_def Let_def)
  have c: "snrt_cluster_compute_core_num (boot_team old edram 0) = 15"
    using boot_team_idx(2) [of 0] by (simp add: snrt_cluster_compute_core_num_def)
  have c': "snrt_cluster_compute_core_num ((boot_team old edram 0)\<lparr>root := r\<rparr>) = 15"
    if "cluster_core_num r = 16" for r
    using that by (simp add: snrt_cluster_compute_core_num_def snrt_cluster_core_num_def)
  have k: "cluster_core_num (root (boot_team old edram 0)) = 16"
    using boot_team_idx(2) [of 0] by (simp add: snrt_cluster_core_num_def)
  have zero: "(of_nat i :: u32) = 0 \<longleftrightarrow> i = 0" using of_nat_u32_eq_iff [of i 0] assms by simp
  show ?thesis
    using tile role regs c zero
    by (simp add: bootrom_BOOTDATA_def BOOTDATA_def snrt_omp_bootstrap_def eu_init_def omp_init_def
        snrt_l1alloc_def boot_allocator ALIGN_UP_def MIN_CHUNK_SIZE_def sizeof_eu_def sizeof_omp_def
        KMP_FORK_MAX_NARGS_def c' k nb_threads_def omp_bootstrap_role_def Let_def)
qed

theorem boot_cluster_layout_witness:
  "snrt_cluster_tile_idx (boot_team blank_root 0 7) = Some 1"
  using boot_cluster_layout [of 7 blank_root 0] by simp

text \<open>
  Every core has an allocator of its own, starting at the same address: the data mover core puts
  the data mover's structure where core 0 puts that of the event unit. Both pointers are published to
  the other cores; they cannot both mean shared memory.
\<close>

lemma published_pointers_coincide:
  "fst (fst (dm_init (boot_team old edram 15))) = fst (eu_init (boot_team old edram 0))"
  by (simp add: dm_init_def eu_init_def snrt_l1alloc_def boot_allocator ALIGN_UP_def MIN_CHUNK_SIZE_def
      sizeof_eu_def sizeof_dm_def Let_def)

end
