(* ===== verification/Console.thy ===== *)
theory Console
  imports Team
begin

text \<open>
  The two consoles: \<open>snrt_putchar\<close> of \<open>putchar.c\<close>, which buffers characters and hands full
  buffers and lines to the host, \<open>_putchar\<close> of \<open>printf.c\<close>, and the UART of the test bench,
  \<open>uartdpi.c\<close>. The host and the operating system are outside the repository: what they answer
  is a parameter, what they are asked is recorded. \<open>snrt_putchar\<close> is modelled for one hart with its own buffer
  that has the host to itself: \<open>tohost\<close> and \<open>fromhost\<close> are shared by all harts without a lock, and what harts that
  print at the same time do to each other's requests is not modelled.
\<close>

section \<open>Buffered output to the host\<close>

record putc_buffer =
  hdr_size :: nat
  putc_data :: "u8 list"

text \<open>
  A request in \<open>syscall_mem\<close>: the number of the call (64, \<open>sys_write\<close>), the file descriptor
  and the characters that pointer and length describe.
\<close>

type_synonym request = "nat \<times> nat \<times> u8 list"

definition newline :: u8 where
  "newline = 10"

text \<open>
  The values that a hart reads while it polls: of the word at address 1000, until it is zero,
  and of \<open>fromhost\<close>, until it is not. \<open>None\<close> is a loop that has not ended.
\<close>

fun poll_until :: "('a \<Rightarrow> bool) \<Rightarrow> 'a list \<Rightarrow> 'a list option" where
  "poll_until P [] = None"
| "poll_until P (v # vs) = (if P v then Some vs else poll_until P vs)"

record host =
  busy_reads :: "u32 list"
  fromhost_reads :: "u32 list"
  requests :: "request list"

definition snrt_putchar :: "u8 \<Rightarrow> putc_buffer \<times> host \<Rightarrow> (putc_buffer \<times> host) option" where
  "snrt_putchar character = (\<lambda>(buf, h).
     let buf = buf\<lparr>hdr_size := hdr_size buf + 1, putc_data := (putc_data buf)[hdr_size buf := character]\<rparr>
     in if hdr_size buf = PUTC_BUFFER_LEN \<or> character = newline then
          (case poll_until (\<lambda>v. v = 0) (busy_reads h) of None \<Rightarrow> None | Some bs \<Rightarrow>
             (case poll_until (\<lambda>v. v \<noteq> 0) (fromhost_reads h) of None \<Rightarrow> None | Some fs \<Rightarrow>
                Some (buf\<lparr>hdr_size := 0\<rparr>,
                  \<lparr>busy_reads = bs, fromhost_reads = fs,
                   requests = requests h @ [(64, 1, take (hdr_size buf) (putc_data buf))]\<rparr>)))
        else Some (buf, h))"

fun put_string :: "u8 list \<Rightarrow> putc_buffer \<times> host \<Rightarrow> (putc_buffer \<times> host) option" where
  "put_string [] s = Some s"
| "put_string (c # cs) s = Option.bind (snrt_putchar c s) (put_string cs)"

text \<open>\<open>_putchar\<close>, which \<open>printf\<close> uses, stores each character into the register \<open>fake_uart\<close>.\<close>

definition putchar_uart :: "u8 \<Rightarrow> u8 list \<Rightarrow> u8 list" where
  "putchar_uart character fake_uart = fake_uart @ [character]"

text \<open>What has been handed over, and what is still in the buffer.\<close>

definition written :: "putc_buffer \<times> host \<Rightarrow> u8 list" where
  "written = (\<lambda>(buf, h). concat (List.map (\<lambda>(n, fd, cs). cs) (requests h)) @ take (hdr_size buf) (putc_data buf))"

definition flush_ok :: "request \<Rightarrow> bool" where
  "flush_ok = (\<lambda>(n, fd, cs). n = 64 \<and> fd = 1 \<and> cs \<noteq> [] \<and> length cs \<le> PUTC_BUFFER_LEN \<and>
     (length cs = PUTC_BUFFER_LEN \<or> last cs = newline))"

definition console_ok :: "putc_buffer \<times> host \<Rightarrow> bool" where
  "console_ok = (\<lambda>(buf, h). hdr_size buf < PUTC_BUFFER_LEN \<and> length (putc_data buf) = PUTC_BUFFER_LEN \<and>
     list_all flush_ok (requests h))"

lemma take_Suc_update: "k < length xs \<Longrightarrow> take (Suc k) (xs[k := x]) = take k xs @ [x]"
  by (simp add: take_Suc_conv_app_nth)

lemma putchar_step:
  assumes "console_ok s" "snrt_putchar c s = Some t"
  shows "console_ok t \<and> written t = written s @ [c]"
proof -
  obtain buf h where s: "s = (buf, h)" by (cases s)
  have k: "hdr_size buf < length (putc_data buf)" using assms(1) s by (simp add: console_ok_def)
  note u = take_Suc_update [OF k, of c]
  show ?thesis
    using assms s u
    by (auto simp: snrt_putchar_def Let_def console_ok_def written_def flush_ok_def split: if_splits option.splits)
qed

lemma put_string_from:
  "console_ok s \<Longrightarrow> put_string cs s = Some t \<Longrightarrow> console_ok t \<and> written t = written s @ cs"
proof (induction cs arbitrary: s)
  case (Cons c cs)
  then obtain u where u: "snrt_putchar c s = Some u" "put_string cs u = Some t"
    by (auto simp: bind_eq_Some_conv)
  from putchar_step [OF Cons.prems(1) u(1)] Cons.IH [OF _ u(2)] show ?case by simp
qed simp

text \<open>
  C36: the buffered console loses nothing while no other hart talks to the host: whatever string is put, the requests handed to the
  host and the characters still buffered are that string in order; every request is a
  \<open>sys_write\<close> of one to 1020 characters to standard output that ends a line or fills the
  buffer, and the index never leaves the buffer.
\<close>

theorem console_loses_nothing:
  assumes "put_string cs (buf, h) = Some (buf', h')"
    "hdr_size buf = 0" "length (putc_data buf) = 1020" "requests h = []"
  shows "concat (List.map (\<lambda>(n, fd, cs). cs) (requests h')) @ take (hdr_size buf') (putc_data buf') = cs \<and>
    list_all flush_ok (requests h') \<and> hdr_size buf' < 1020"
proof -
  have "console_ok (buf, h)" using assms(2-) by (simp add: console_ok_def PUTC_BUFFER_LEN_def)
  from put_string_from [OF this assms(1)] show ?thesis
    using assms(2,4) by (simp add: written_def console_ok_def PUTC_BUFFER_LEN_def)
qed

definition buf0 :: putc_buffer where
  "buf0 = \<lparr>hdr_size = 0, putc_data = replicate 1020 0\<rparr>"

definition host0 :: host where
  "host0 = \<lparr>busy_reads = [1, 0], fromhost_reads = [0, 1], requests = []\<rparr>"

lemma demo_put:
  "put_string [72, 105, 10, 33] (buf0, host0) =
     Some (\<lparr>hdr_size = 1, putc_data = 33 # 105 # 10 # replicate 1017 0\<rparr>,
       \<lparr>busy_reads = [], fromhost_reads = [], requests = [(64, 1, [72, 105, 10])]\<rparr>)"
proof -
  have "replicate 1020 (0 :: u8) = 0 # 0 # 0 # replicate 1017 0"
    using replicate_add [of 3 1017 "0 :: u8"] by (simp add: numeral_3_eq_3)
  then show ?thesis
    by (simp add: buf0_def host0_def snrt_putchar_def PUTC_BUFFER_LEN_def newline_def)
qed

theorem console_loses_nothing_witness:
  "concat (List.map (\<lambda>(n, fd, cs). cs) [(64 :: nat, 1 :: nat, [72, 105, 10])]) @
     take 1 (33 # 105 # 10 # replicate 1017 0) = [72, 105, 10, 33 :: u8]"
  using console_loses_nothing [OF demo_put] by (simp add: buf0_def host0_def)

section \<open>The UART of the test bench\<close>

datatype log_target = NoLog | Stdout | LogFile nat

text \<open>
  The context: the two ends of the pseudo-terminal, the character last read and the log. What
  has been sent to the terminal and to the log, and which handles are open, is recorded.
\<close>

record uartdpi_ctx =
  ptyname :: string
  host_fd :: nat
  device_fd :: nat
  tmp_read :: u8
  log_file :: log_target

record uart_world =
  to_pty :: "u8 list"
  to_log :: "u8 list"
  open_fds :: "nat set"
  open_logs :: "nat set"

text \<open>What the operating system answers during the creation.\<close>

record os_answers =
  openpty_fds :: "(nat \<times> nat) option"
  ttyname_r :: "string option"
  getfl_ok :: bool
  setfl_ok :: bool
  fopen_log :: "nat option"
  setvbuf_ok :: bool

text \<open>\<open>None\<close> is a failing assertion.\<close>

definition uartdpi_create :: "os_answers \<Rightarrow> string \<Rightarrow> uart_world \<Rightarrow> (uartdpi_ctx \<times> uart_world) option" where
  "uartdpi_create os log_file_path w = (case openpty_fds os of None \<Rightarrow> None | Some (hst, dev) \<Rightarrow>
     (case ttyname_r os of None \<Rightarrow> None | Some nm \<Rightarrow>
       if \<not> getfl_ok os \<or> \<not> setfl_ok os then None
       else
         let ctx = \<lparr>ptyname = nm, host_fd = hst, device_fd = dev, tmp_read = 0, log_file = NoLog\<rparr>;
             w = w\<lparr>open_fds := open_fds w \<union> {hst, dev}\<rparr>
         in if log_file_path = [] then Some (ctx, w)
            else if log_file_path = ''-'' then Some (ctx\<lparr>log_file := Stdout\<rparr>, w)
            else (case fopen_log os of None \<Rightarrow> Some (ctx, w)
              | Some f \<Rightarrow> if setvbuf_ok os
                         then Some (ctx\<lparr>log_file := LogFile f\<rparr>, w\<lparr>open_logs := insert f (open_logs w)\<rparr>)
                         else None)))"

definition uartdpi_close :: "uartdpi_ctx option \<Rightarrow> uart_world \<Rightarrow> uart_world" where
  "uartdpi_close c w = (case c of None \<Rightarrow> w | Some ctx \<Rightarrow>
     let w = w\<lparr>open_fds := open_fds w - {host_fd ctx} - {device_fd ctx}\<rparr>
     in case log_file ctx of LogFile f \<Rightarrow> w\<lparr>open_logs := open_logs w - {f}\<rparr> | _ \<Rightarrow> w)"

text \<open>\<open>read\<close> either delivers a character into \<open>tmp_read\<close> or nothing.\<close>

definition uartdpi_can_read :: "u8 option \<Rightarrow> uartdpi_ctx \<Rightarrow> bool \<times> uartdpi_ctx" where
  "uartdpi_can_read got ctx = (case got of None \<Rightarrow> (False, ctx) | Some c \<Rightarrow> (True, ctx\<lparr>tmp_read := c\<rparr>))"

definition uartdpi_read :: "uartdpi_ctx \<Rightarrow> u8" where
  "uartdpi_read ctx = tmp_read ctx"

definition uartdpi_write :: "bool \<Rightarrow> bool \<Rightarrow> u8 \<Rightarrow> uartdpi_ctx \<Rightarrow> uart_world \<Rightarrow> uart_world option" where
  "uartdpi_write write_ok fwrite_ok c ctx w =
     (if \<not> write_ok then None
      else
        let w = w\<lparr>to_pty := to_pty w @ [c]\<rparr>
        in if log_file ctx = NoLog then Some w
           else if fwrite_ok then Some (w\<lparr>to_log := to_log w @ [c]\<rparr>) else None)"

fun write_all :: "u8 list \<Rightarrow> uartdpi_ctx \<Rightarrow> uart_world \<Rightarrow> uart_world option" where
  "write_all [] ctx w = Some w"
| "write_all (c # cs) ctx w = Option.bind (uartdpi_write True True c ctx w) (write_all cs ctx)"

lemma write_all_result:
  "write_all cs ctx w = Some (w\<lparr>to_pty := to_pty w @ cs,
     to_log := (if log_file ctx = NoLog then to_log w else to_log w @ cs)\<rparr>)"
  by (induction cs arbitrary: w) (simp_all add: uartdpi_write_def Let_def)

text \<open>
  A session of the test bench's UART: after a successful creation every written character
  goes to the pseudo-terminal, and also to the log exactly if a path was given and, for a path
  other than \<open>-\<close>, the file could be opened; closing releases both ends of the terminal and the
  log file and nothing else, and standard output stays open.
\<close>

theorem uart_session:
  assumes "uartdpi_create os path w = Some (ctx, v)" "write_all cs ctx v = Some u"
    "openpty_fds os = Some (a, b)" "{a, b} \<inter> open_fds w = {}"
    "\<And>f. fopen_log os = Some f \<Longrightarrow> f \<notin> open_logs w"
  shows "to_pty u = to_pty w @ cs \<and>
    to_log u = to_log w @ (if path = [] \<or> path \<noteq> ''-'' \<and> fopen_log os = None then [] else cs) \<and>
    open_fds (uartdpi_close (Some ctx) u) = open_fds w \<and>
    open_logs (uartdpi_close (Some ctx) u) = open_logs w"
  using assms
  by (auto simp: write_all_result uartdpi_create_def uartdpi_close_def Let_def split: option.splits if_splits)

definition os0 :: os_answers where
  "os0 = \<lparr>openpty_fds = Some (3, 4), ttyname_r = Some ''pts'', getfl_ok = True, setfl_ok = True,
     fopen_log = Some 5, setvbuf_ok = True\<rparr>"

definition world0 :: uart_world where
  "world0 = \<lparr>to_pty = [], to_log = [], open_fds = {0, 1, 2}, open_logs = {}\<rparr>"

theorem uart_session_witness:
  "to_log (the (write_all [72, 105] (fst (the (uartdpi_create os0 ''uart.log'' world0)))
     (snd (the (uartdpi_create os0 ''uart.log'' world0))))) = [72, 105]"
proof -
  have "\<exists>ctx v. uartdpi_create os0 ''uart.log'' world0 = Some (ctx, v)"
    by (simp add: uartdpi_create_def os0_def Let_def)
  then obtain ctx v where c: "uartdpi_create os0 ''uart.log'' world0 = Some (ctx, v)" by blast
  obtain u where w: "write_all [72, 105] ctx v = Some u" by (simp add: write_all_result)
  have "to_log u = [72, 105]"
    using uart_session [OF c w, of 3 4] by (simp add: os0_def world0_def)
  then show ?thesis by (simp only: c w option.sel fst_conv snd_conv)
qed

end
