(* ===== verification/Elf.thy ===== *)
theory Elf
  imports Prelude
begin

text \<open>
  The ELF loader of the test bench, \<open>elfloader.cpp\<close>: it reads the program headers of a 32-bit
  or 64-bit ELF file into the lists that the simulator fetches section by section. Failing
  assertions, reads outside the mapped file and other undefined behaviour are error values.
  The operating system's file access is a parameter: the contents of the file, if it opens.
\<close>

section \<open>Data\<close>

datatype elf_error = AssertFailed | OutOfBounds | IntOverflow | LengthError

type_synonym 'a result = "elf_error + 'a"

fun bind_result :: "'a result \<Rightarrow> ('a \<Rightarrow> 'b result) \<Rightarrow> 'b result" where
  "bind_result (Inl e) f = Inl e"
| "bind_result (Inr x) f = f x"

definition assert_that :: "bool \<Rightarrow> 'b result \<Rightarrow> 'b result" where
  "assert_that b k = (if b then k else Inl AssertFailed)"

text \<open>
  The header structures; \<open>'w\<close> is the 32-bit or 64-bit word of addresses and sizes. Fields that the
  loader never reads are kept.
\<close>

record 'w ehdr =
  e_ident :: "u8 list"
  e_type :: u16
  e_machine :: u16
  e_version :: u32
  e_entry :: 'w
  e_phoff :: 'w
  e_shoff :: 'w
  e_flags :: u32
  e_ehsize :: u16
  e_phentsize :: u16
  e_phnum :: u16
  e_shentsize :: u16
  e_shnum :: u16
  e_shstrndx :: u16

record 'w shdr =
  sh_name :: u32
  sh_type :: u32
  sh_flags :: 'w
  sh_addr :: 'w
  sh_offset :: 'w
  sh_size :: 'w
  sh_link :: u32
  sh_info :: u32
  sh_addralign :: 'w
  sh_entsize :: 'w

record 'w phdr =
  p_type :: u32
  p_offset :: 'w
  p_vaddr :: 'w
  p_paddr :: 'w
  p_filesz :: 'w
  p_memsz :: 'w
  p_flags :: u32
  p_align :: 'w

definition PT_LOAD :: u32 where "PT_LOAD = 1"
definition SHT_PROGBITS :: u32 where "SHT_PROGBITS = 0x1"
definition SHT_GROUP :: u32 where "SHT_GROUP = 0x11"

text \<open>The global variables; the map \<open>symbols\<close> is shadowed by a local one and never written.\<close>

record loader =
  sections :: "(u64 \<times> u64) list"
  mems :: "u64 \<Rightarrow> u8 list option"
  entry :: u64
  section_index :: nat

section \<open>Reading structures from the file\<close>

fun le_val :: "u8 list \<Rightarrow> nat" where
  "le_val [] = 0"
| "le_val (b # bs) = unat b + 256 * le_val bs"

text \<open>The little-endian field of \<open>w\<close> bytes at an offset.\<close>

definition field :: "u8 list \<Rightarrow> nat \<Rightarrow> nat \<Rightarrow> 'a::len word" where
  "field buf off w = of_nat (le_val (take w (drop off buf)))"

definition elf32_ehdr :: "u8 list \<Rightarrow> nat \<Rightarrow> u32 ehdr" where
  "elf32_ehdr b o' = \<lparr>e_ident = take 16 (drop o' b), e_type = field b (o' + 16) 2,
     e_machine = field b (o' + 18) 2, e_version = field b (o' + 20) 4, e_entry = field b (o' + 24) 4,
     e_phoff = field b (o' + 28) 4, e_shoff = field b (o' + 32) 4, e_flags = field b (o' + 36) 4,
     e_ehsize = field b (o' + 40) 2, e_phentsize = field b (o' + 42) 2, e_phnum = field b (o' + 44) 2,
     e_shentsize = field b (o' + 46) 2, e_shnum = field b (o' + 48) 2, e_shstrndx = field b (o' + 50) 2\<rparr>"

definition elf32_shdr :: "u8 list \<Rightarrow> nat \<Rightarrow> u32 shdr" where
  "elf32_shdr b o' = \<lparr>sh_name = field b o' 4, sh_type = field b (o' + 4) 4,
     sh_flags = field b (o' + 8) 4, sh_addr = field b (o' + 12) 4, sh_offset = field b (o' + 16) 4,
     sh_size = field b (o' + 20) 4, sh_link = field b (o' + 24) 4, sh_info = field b (o' + 28) 4,
     sh_addralign = field b (o' + 32) 4, sh_entsize = field b (o' + 36) 4\<rparr>"

definition elf32_phdr :: "u8 list \<Rightarrow> nat \<Rightarrow> u32 phdr" where
  "elf32_phdr b o' = \<lparr>p_type = field b o' 4, p_offset = field b (o' + 4) 4,
     p_vaddr = field b (o' + 8) 4, p_paddr = field b (o' + 12) 4, p_filesz = field b (o' + 16) 4,
     p_memsz = field b (o' + 20) 4, p_flags = field b (o' + 24) 4, p_align = field b (o' + 28) 4\<rparr>"

definition elf64_ehdr :: "u8 list \<Rightarrow> nat \<Rightarrow> u64 ehdr" where
  "elf64_ehdr b o' = \<lparr>e_ident = take 16 (drop o' b), e_type = field b (o' + 16) 2,
     e_machine = field b (o' + 18) 2, e_version = field b (o' + 20) 4, e_entry = field b (o' + 24) 8,
     e_phoff = field b (o' + 32) 8, e_shoff = field b (o' + 40) 8, e_flags = field b (o' + 48) 4,
     e_ehsize = field b (o' + 52) 2, e_phentsize = field b (o' + 54) 2, e_phnum = field b (o' + 56) 2,
     e_shentsize = field b (o' + 58) 2, e_shnum = field b (o' + 60) 2, e_shstrndx = field b (o' + 62) 2\<rparr>"

definition elf64_shdr :: "u8 list \<Rightarrow> nat \<Rightarrow> u64 shdr" where
  "elf64_shdr b o' = \<lparr>sh_name = field b o' 4, sh_type = field b (o' + 4) 4,
     sh_flags = field b (o' + 8) 8, sh_addr = field b (o' + 16) 8, sh_offset = field b (o' + 24) 8,
     sh_size = field b (o' + 32) 8, sh_link = field b (o' + 40) 4, sh_info = field b (o' + 44) 4,
     sh_addralign = field b (o' + 48) 8, sh_entsize = field b (o' + 56) 8\<rparr>"

definition elf64_phdr :: "u8 list \<Rightarrow> nat \<Rightarrow> u64 phdr" where
  "elf64_phdr b o' = \<lparr>p_type = field b o' 4, p_offset = field b (o' + 8) 8,
     p_vaddr = field b (o' + 16) 8, p_paddr = field b (o' + 24) 8, p_filesz = field b (o' + 32) 8,
     p_memsz = field b (o' + 40) 8, p_flags = field b (o' + 4) 4, p_align = field b (o' + 48) 8\<rparr>"

text \<open>
  The arguments of the macro \<open>LOAD_ELF\<close>: for each structure type how it is read and its size.
  Of a symbol only \<open>st_name\<close>, at offset 0, and \<open>st_value\<close> are read.
\<close>

record 'w elf_types =
  ehdr_t :: "u8 list \<Rightarrow> nat \<Rightarrow> 'w ehdr"
  phdr_t :: "u8 list \<Rightarrow> nat \<Rightarrow> 'w phdr"
  sizeof_phdr :: nat
  shdr_t :: "u8 list \<Rightarrow> nat \<Rightarrow> 'w shdr"
  sizeof_shdr :: nat
  sizeof_sym :: nat
  st_value_offset :: nat
  addr_bytes :: nat

definition elf32_types :: "u32 elf_types" where
  "elf32_types = \<lparr>ehdr_t = elf32_ehdr, phdr_t = elf32_phdr, sizeof_phdr = 32, shdr_t = elf32_shdr,
     sizeof_shdr = 40, sizeof_sym = 16, st_value_offset = 4, addr_bytes = 4\<rparr>"

definition elf64_types :: "u64 elf_types" where
  "elf64_types = \<lparr>ehdr_t = elf64_ehdr, phdr_t = elf64_phdr, sizeof_phdr = 56, shdr_t = elf64_shdr,
     sizeof_shdr = 64, sizeof_sym = 24, st_value_offset = 8, addr_bytes = 8\<rparr>"

definition in_file :: "u8 list \<Rightarrow> nat \<Rightarrow> nat \<Rightarrow> 'b result \<Rightarrow> 'b result" where
  "in_file buf off n k = (if off + n \<le> length buf then k else Inl OutOfBounds)"

definition size_of_file :: "u8 list \<Rightarrow> u64" where
  "size_of_file buf = of_nat (length buf)"

section \<open>Program headers\<close>

text \<open>
  \<open>write\<close> copies \<open>len\<close> bytes with an \<open>int\<close> counter and inserts them into \<open>mems\<close>; an
  insertion at an address that is already there is ignored.
\<close>

definition write_mem :: "u64 \<Rightarrow> u64 \<Rightarrow> u8 list \<Rightarrow> nat \<Rightarrow> loader \<Rightarrow> loader result" where
  "write_mem address len buf off s =
     in_file buf off (unat len)
       (if 2147483648 \<le> len then Inl IntOverflow
        else Inr (if mems s address = None
                  then s\<lparr>mems := (mems s)(address \<mapsto> take (unat len) (drop off buf))\<rparr> else s))"

text \<open>\<open>zeros.resize\<close> throws when the size exceeds the largest vector.\<close>

definition resize_zeros :: "u64 \<Rightarrow> loader \<Rightarrow> loader result" where
  "resize_zeros n s = (if 9223372036854775808 \<le> n then Inl LengthError else Inr s)"

definition load_segment :: "'a::len word elf_types \<Rightarrow> u8 list \<Rightarrow> nat \<Rightarrow> loader \<Rightarrow> loader result" where
  "load_segment T buf off s =
     in_file buf off (sizeof_phdr T)
       (let ph = phdr_t T buf off
        in if p_type ph = PT_LOAD \<and> p_memsz ph \<noteq> 0 then
             bind_result
               (if p_filesz ph \<noteq> 0 then
                  assert_that (ucast (p_offset ph + p_filesz ph) \<le> size_of_file buf)
                    (write_mem (ucast (p_paddr ph)) (ucast (p_filesz ph)) buf (unat (p_offset ph))
                      (s\<lparr>sections := sections s @ [(ucast (p_paddr ph), ucast (p_memsz ph))]\<rparr>))
                else Inr s)
               (resize_zeros (ucast (p_memsz ph - p_filesz ph)))
           else Inr s)"

fun load_segments :: "'a::len word elf_types \<Rightarrow> u8 list \<Rightarrow> nat list \<Rightarrow> loader \<Rightarrow> loader result" where
  "load_segments T buf [] s = Inr s"
| "load_segments T buf (off # offs) s =
     bind_result (load_segment T buf off s) (load_segments T buf offs)"

section \<open>Section headers and symbols\<close>

text \<open>\<open>strcmp(...) == 0\<close> against a constant, and \<open>strnlen\<close>, reading the file byte by byte.\<close>

fun str_eq :: "u8 list \<Rightarrow> nat \<Rightarrow> u8 list \<Rightarrow> bool result" where
  "str_eq buf off [] = in_file buf off 1 (Inr (buf ! off = 0))"
| "str_eq buf off (c # cs) =
     in_file buf off 1 (if buf ! off = c then str_eq buf (off + 1) cs else Inr False)"

definition strnlen :: "u8 list \<Rightarrow> nat \<Rightarrow> u32 \<Rightarrow> nat result" where
  "strnlen buf off maxlen =
     (let n = length (takeWhile (\<lambda>c. c \<noteq> 0) (take (unat maxlen) (drop off buf)))
      in if n < unat maxlen then in_file buf (off + n) 1 (Inr n) else Inr n)"

definition ascii :: "string \<Rightarrow> u8 list" where
  "ascii cs = List.map (\<lambda>c. of_nat (of_char c)) cs"

text \<open>One turn of the scan for the indices of the string and symbol tables.\<close>

definition scan_section ::
  "'a::len word elf_types \<Rightarrow> u8 list \<Rightarrow> 'a word ehdr \<Rightarrow> nat \<Rightarrow> nat \<times> nat \<Rightarrow> (nat \<times> nat) result" where
  "scan_section T buf eh i idx =
     (let sh = (\<lambda>j. shdr_t T buf (unat (e_shoff eh) + j * sizeof_shdr T));
          strsec = sh (unat (e_shstrndx eh));
          name = unat (sh_offset strsec) + unat (sh_name (sh i));
          max_len = ucast (sh_size strsec - ucast (sh_name (sh i))) :: u32
      in bind_result
           (if sh_type (sh i) AND SHT_GROUP = 0 then Inr True
            else bind_result (str_eq buf name (ascii ''.strtab'')) (\<lambda>a.
              if a then Inr True else str_eq buf name (ascii ''.shstrtab'')))
           (\<lambda>exempt. bind_result
             (if exempt then Inr ()
              else bind_result (strnlen buf name max_len) (\<lambda>n. assert_that (n < unat max_len) (Inr ())))
             (\<lambda>_. if sh_type (sh i) AND SHT_PROGBITS \<noteq> 0 then Inr idx
               else bind_result (str_eq buf name (ascii ''.strtab'')) (\<lambda>str.
                 bind_result (str_eq buf name (ascii ''.symtab'')) (\<lambda>sym.
                   Inr (if str then i else fst idx, if sym then i else snd idx))))))"

fun scan_sections ::
  "'a::len word elf_types \<Rightarrow> u8 list \<Rightarrow> 'a word ehdr \<Rightarrow> nat list \<Rightarrow> nat \<times> nat \<Rightarrow> (nat \<times> nat) result" where
  "scan_sections T buf eh [] idx = Inr idx"
| "scan_sections T buf eh (i # is) idx =
     bind_result (scan_section T buf eh i idx) (scan_sections T buf eh is)"

text \<open>The symbols go into a local map that is dropped; what remains are the assertions.\<close>

definition check_symbol ::
  "'a::len word elf_types \<Rightarrow> u8 list \<Rightarrow> 'a word shdr \<Rightarrow> nat \<Rightarrow> unit result" where
  "check_symbol T buf strsec off =
     in_file buf off 4
       (let st_name = field buf off 4 :: u32;
            max_len = ucast (sh_size strsec - ucast st_name) :: u32
        in assert_that ((ucast st_name :: 'a word) < sh_size strsec)
             (bind_result (strnlen buf (unat (sh_offset strsec) + unat st_name) max_len) (\<lambda>n.
               assert_that (n < unat max_len)
                 (in_file buf (off + st_value_offset T) (addr_bytes T) (Inr ())))))"

function check_symbols ::
  "'a::len word elf_types \<Rightarrow> u8 list \<Rightarrow> 'a word shdr \<Rightarrow> nat \<Rightarrow> nat \<Rightarrow> nat \<Rightarrow> unit result" where
  "check_symbols T buf strsec off i n =
     (if i < n then bind_result (check_symbol T buf strsec (off + i * sizeof_sym T))
                      (\<lambda>_. check_symbols T buf strsec off (i + 1) n)
      else Inr ())"
  by pat_completeness auto

termination
  by (relation "measure (\<lambda>(_, _, _, _, i, n). n - i)") auto

declare check_symbols.simps [simp del]

section \<open>The loader\<close>

definition load_elf :: "'a::len word elf_types \<Rightarrow> u8 list \<Rightarrow> loader \<Rightarrow> loader result" where
  "load_elf T buf s =
     (let eh = ehdr_t T buf 0;
          s = s\<lparr>entry := ucast (e_entry eh)\<rparr>;
          sh = (\<lambda>j. shdr_t T buf (unat (e_shoff eh) + j * sizeof_shdr T));
          strsec = sh (unat (e_shstrndx eh))
      in assert_that (ucast (e_phoff eh) + ucast (e_phnum eh) * of_nat (sizeof_phdr T) \<le> size_of_file buf)
           (bind_result
             (load_segments T buf
               (List.map (\<lambda>i. unat (e_phoff eh) + i * sizeof_phdr T) [0..<unat (e_phnum eh)]) s) (\<lambda>s.
             assert_that (ucast (e_shoff eh) + ucast (e_shnum eh) * of_nat (sizeof_shdr T) \<le> size_of_file buf)
               (assert_that (e_shstrndx eh < e_shnum eh)
                 (in_file buf (unat (e_shoff eh) + unat (e_shstrndx eh) * sizeof_shdr T) (sizeof_shdr T)
                   (assert_that (ucast (sh_offset strsec + sh_size strsec) \<le> size_of_file buf)
                     (bind_result (scan_sections T buf eh [0..<unat (e_shnum eh)] (0, 0)) (\<lambda>(str, sym).
                       bind_result
                         (if str \<noteq> 0 \<and> sym \<noteq> 0
                          then check_symbols T buf (sh str) (unat (sh_offset (sh sym))) 0
                                 (unat (sh_size (sh sym)) div sizeof_sym T)
                          else Inr ())
                         (\<lambda>_. Inr s)))))))))"

definition IS_ELF :: "u8 list \<Rightarrow> bool" where
  "IS_ELF ident \<longleftrightarrow> ident ! 0 = 0x7f \<and> ident ! 1 = 0x45 \<and> ident ! 2 = 0x4c \<and> ident ! 3 = 0x46"

definition IS_ELF32 :: "u8 list \<Rightarrow> bool" where
  "IS_ELF32 ident \<longleftrightarrow> IS_ELF ident \<and> ident ! 4 = 1"

definition IS_ELF64 :: "u8 list \<Rightarrow> bool" where
  "IS_ELF64 ident \<longleftrightarrow> IS_ELF ident \<and> ident ! 4 = 2"

definition read_elf :: "u8 list option \<Rightarrow> loader \<Rightarrow> loader result" where
  "read_elf file s = (case file of None \<Rightarrow> Inl AssertFailed
     | Some buf \<Rightarrow>
         assert_that (64 \<le> size_of_file buf)
           (assert_that (IS_ELF32 buf \<or> IS_ELF64 buf)
             (if IS_ELF32 buf then load_elf elf32_types buf s else load_elf elf64_types buf s)))"

text \<open>The calls of the simulator; \<open>buffer\<close> is the array it passes.\<close>

definition get_section :: "loader \<Rightarrow> (u64 \<times> u64) option \<times> loader" where
  "get_section s =
     (if section_index s < length (sections s)
      then (Some (sections s ! section_index s), s\<lparr>section_index := section_index s + 1\<rparr>)
      else (None, s))"

definition read_section :: "u64 \<Rightarrow> u8 list \<Rightarrow> loader \<Rightarrow> u8 list result" where
  "read_section address buffer s = (case mems s address of None \<Rightarrow> Inl AssertFailed
     | Some mem \<Rightarrow> if length mem \<le> length buffer then Inr (mem @ drop (length mem) buffer)
                    else Inl OutOfBounds)"

text \<open>
  The loop of the test bench: it fetches section after section into a zeroed buffer of whole
  memory words of \<open>be\<close> bytes, and stores it at the section's address when that is in the DRAM, from
  \<open>DramBase\<close> on.
\<close>

definition DramBase :: u64 where "DramBase = 0x80000000"

function load_dram :: "nat \<Rightarrow> loader \<Rightarrow> ((u64 \<times> u8 list) list \<times> loader) result" where
  "load_dram be s = (case get_section s of
      (None, s') \<Rightarrow> Inr ([], s')
    | (Some (address, len), s') \<Rightarrow>
        bind_result (read_section address (replicate ((unat len + be - 1) div be * be) 0) s') (\<lambda>buffer.
          bind_result (load_dram be s') (\<lambda>(img, s'').
            Inr (if DramBase \<le> address then (address, buffer) # img else img, s''))))"
  by pat_completeness auto

termination
  by (relation "measure (\<lambda>(be, s). length (sections s) - section_index s)")
    (auto simp: get_section_def split: if_splits)

declare load_dram.simps [simp del]

section \<open>What is loaded\<close>

lemma bind_Inr: "bind_result m f = Inr y \<longleftrightarrow> (\<exists>x. m = Inr x \<and> f x = Inr y)"
  by (cases m) auto

lemma assert_Inr: "assert_that b k = Inr y \<longleftrightarrow> b \<and> k = Inr y"
  by (simp add: assert_that_def)

lemma in_file_Inr: "in_file buf off n k = Inr y \<longleftrightarrow> off + n \<le> length buf \<and> k = Inr y"
  by (simp add: in_file_def)

lemmas result_simps = bind_Inr assert_Inr in_file_Inr

text \<open>
  The program headers that describe a loadable segment, and the bytes the file holds for it. A
  segment of zeros only has none.
\<close>

definition loadable :: "'a::len word phdr \<Rightarrow> bool" where
  "loadable ph \<longleftrightarrow> p_type ph = PT_LOAD \<and> p_memsz ph \<noteq> 0"

definition segment :: "u8 list \<Rightarrow> 'a::len word phdr \<Rightarrow> u64 \<times> u64 \<times> u8 list" where
  "segment buf ph =
     (ucast (p_paddr ph), ucast (p_memsz ph), take (unat (p_filesz ph)) (drop (unat (p_offset ph)) buf))"

definition segments_at :: "'a::len word elf_types \<Rightarrow> u8 list \<Rightarrow> nat list \<Rightarrow> (u64 \<times> u64 \<times> u8 list) list" where
  "segments_at T buf offs = List.map (segment buf) (filter loadable (List.map (phdr_t T buf) offs))"

definition phdr_offsets :: "'a::len word elf_types \<Rightarrow> u8 list \<Rightarrow> nat list" where
  "phdr_offsets T buf = (let eh = ehdr_t T buf 0
     in List.map (\<lambda>i. unat (e_phoff eh) + i * sizeof_phdr T) [0..<unat (e_phnum eh)])"

definition elf_segments :: "u8 list \<Rightarrow> (u64 \<times> u64 \<times> u8 list) list" where
  "elf_segments buf =
     (if IS_ELF32 buf then segments_at elf32_types buf (phdr_offsets elf32_types buf)
      else segments_at elf64_types buf (phdr_offsets elf64_types buf))"

text \<open>\<open>adds s segs t\<close>: the loader state \<open>t\<close> is \<open>s\<close> with these segments read.\<close>

definition adds :: "loader \<Rightarrow> (u64 \<times> u64 \<times> u8 list) list \<Rightarrow> loader \<Rightarrow> bool" where
  "adds s segs t \<longleftrightarrow> sections t = sections s @ List.map (\<lambda>(a, m, bs). (a, m)) segs \<and>
     section_index t = section_index s \<and>
     mems t = map_of (List.map (\<lambda>(a, m, bs). (a, bs)) segs) ++ mems s"

definition in_file_segments :: "u8 list \<Rightarrow> (u64 \<times> u64 \<times> u8 list) list" where
  "in_file_segments buf = filter (\<lambda>(a, m, bs). bs \<noteq> []) (elf_segments buf)"

lemma adds_trans: "adds s xs t \<Longrightarrow> adds t ys u \<Longrightarrow> adds s (xs @ ys) u"
  by (simp add: adds_def map_add_assoc)

lemma unat_ucast_u64: "LENGTH('a::len) \<le> 64 \<Longrightarrow> unat (ucast (x :: 'a word) :: u64) = unat x"
proof -
  assume "LENGTH('a) \<le> 64"
  then have "(2 :: nat) ^ LENGTH('a) \<le> 2 ^ 64" by (rule power_increasing) simp
  then have "unat x < 2 ^ 64" using unsigned_less [of x] by (rule less_le_trans [rotated])
  then show ?thesis by (simp add: unsigned_ucast_eq take_bit_nat_eq_self)
qed

lemma load_segment_adds:
  fixes T :: "'a::len word elf_types"
  assumes "LENGTH('a) \<le> 64" "load_segment T buf off s = Inr t"
  shows "adds s (filter (\<lambda>(a, m, bs). bs \<noteq> []) (segments_at T buf [off])) t"
proof -
  have len: "unat (ucast (p_filesz (phdr_t T buf off)) :: u64) = unat (p_filesz (phdr_t T buf off))"
    using assms(1) by (rule unat_ucast_u64)
  have "p_filesz (phdr_t T buf off) = 0 \<longleftrightarrow> unat (p_filesz (phdr_t T buf off)) = 0" by (simp add: unat_eq_zero)
  then show ?thesis
    using assms(2) len
    by (auto simp: load_segment_def result_simps Let_def write_mem_def resize_zeros_def adds_def
        segments_at_def loadable_def segment_def map_add_def fun_eq_iff split: if_splits option.splits)
qed

lemma load_segments_adds:
  fixes T :: "'a::len word elf_types"
  assumes "LENGTH('a) \<le> 64"
  shows "load_segments T buf offs s = Inr t \<Longrightarrow> adds s (filter (\<lambda>(a, m, bs). bs \<noteq> []) (segments_at T buf offs)) t"
proof (induction offs arbitrary: s)
  case Nil
  then show ?case by (simp add: adds_def segments_at_def)
next
  case (Cons off offs)
  then obtain u where u: "load_segment T buf off s = Inr u" "load_segments T buf offs u = Inr t"
    by (auto simp: result_simps)
  have "segments_at T buf (off # offs) = segments_at T buf [off] @ segments_at T buf offs"
    by (simp add: segments_at_def)
  then show ?case
    using adds_trans [OF load_segment_adds [OF assms u(1)] Cons.IH [OF u(2)]] by simp
qed

lemma load_elf_adds:
  fixes T :: "'a::len word elf_types"
  assumes "LENGTH('a) \<le> 64" "load_elf T buf s = Inr t"
  shows "adds s (filter (\<lambda>(a, m, bs). bs \<noteq> []) (segments_at T buf (phdr_offsets T buf))) t"
proof -
  have "load_segments T buf (phdr_offsets T buf) (s\<lparr>entry := ucast (e_entry (ehdr_t T buf 0))\<rparr>) = Inr t"
    using assms(2) by (auto simp: load_elf_def phdr_offsets_def result_simps Let_def split: prod.splits)
  from load_segments_adds [OF assms(1) this] show ?thesis by (simp add: adds_def)
qed

lemma read_elf_adds: "read_elf (Some buf) s = Inr t \<Longrightarrow> adds s (in_file_segments buf) t"
  by (auto simp: read_elf_def in_file_segments_def elf_segments_def assert_Inr intro: load_elf_adds)

definition padded :: "nat \<Rightarrow> u64 \<Rightarrow> u8 list \<Rightarrow> u8 list" where
  "padded be m bs = bs @ replicate ((unat m + be - 1) div be * be - length bs) 0"

lemma round_up_ge: "0 < be \<Longrightarrow> n \<le> (n + be - 1) div be * (be :: nat)"
proof -
  assume "0 < be"
  then have "(n + be - 1) div be * be + be > n + be - 1"
    using mod_less_divisor [of be "n + be - 1"] div_mult_mod_eq [of "n + be - 1" be] by linarith
  then show ?thesis by linarith
qed

text \<open>The loop of the test bench over the sections that are left.\<close>

lemma load_dram_rest:
  assumes "0 < be" "section_index s \<le> length (sections s)"
    "drop (section_index s) (sections s) = List.map (\<lambda>(a, m, bs). (a, m)) segs"
    "\<And>a m bs. (a, m, bs) \<in> set segs \<Longrightarrow> mems s a = Some bs \<and> length bs \<le> unat m"
  shows "load_dram be s =
    Inr (List.map (\<lambda>(a, m, bs). (a, padded be m bs)) (filter (\<lambda>(a, m, bs). DramBase \<le> a) segs),
      s\<lparr>section_index := length (sections s)\<rparr>)"
  using assms(2-)
proof (induction segs arbitrary: s)
  case Nil
  then have "section_index s = length (sections s)" by simp
  then show ?case by (subst load_dram.simps) (simp add: get_section_def)
next
  case (Cons x segs)
  obtain a m bs where x: "x = (a, m, bs)" by (cases x)
  let ?t = "s\<lparr>section_index := section_index s + 1\<rparr>"
  have less: "section_index s < length (sections s)" 
    by (rule ccontr) (use Cons.prems(2) in simp)
  have sec: "sections s ! section_index s = (a, m)" "drop (section_index ?t) (sections ?t) = List.map (\<lambda>(a, m, bs). (a, m)) segs"
    using Cons.prems(2) less x by (auto simp: Cons_nth_drop_Suc [symmetric])
  have m: "mems s a = Some bs" "length bs \<le> unat m" using Cons.prems(3) [of a m bs] x by auto
  have rest: "load_dram be ?t = Inr (List.map (\<lambda>(a, m, bs). (a, padded be m bs)) (filter (\<lambda>(a, m, bs). DramBase \<le> a) segs),
      ?t\<lparr>section_index := length (sections ?t)\<rparr>)"
    by (rule Cons.IH) (use less sec(2) Cons.prems(3) in auto)
  have "length bs \<le> (unat m + be - 1) div be * be" using m(2) round_up_ge [OF assms(1), of "unat m"] by linarith
  then show ?case
    using less sec(1) m rest x
    by (subst load_dram.simps) (simp add: get_section_def read_section_def padded_def)
qed


section \<open>Small files\<close>

text \<open>
  Three 32-bit files: header, one or two program headers, one section header whose string table
  is a single zero byte, and the contents of the segments. The first has four bytes in the
  file and six in memory, the second two segments at one address, the third a segment whose
  offset is just below \<open>2 ^ 32\<close>.
\<close>

definition loader0 :: loader where
  "loader0 = \<lparr>sections = [], mems = (\<lambda>_. None), entry = 0, section_index = 0\<rparr>"



definition demo_twice :: "u8 list" where
  "demo_twice = [127, 69, 76, 70, 1, 1, 1, 0, 0, 0, 0, 0, 0, 0, 0, 0,
     2, 0, 243, 0, 1, 0, 0, 0, 0, 0, 0, 128, 52, 0, 0, 0, 116, 0, 0, 0,
     0, 0, 0, 0, 52, 0, 32, 0, 2, 0, 40, 0, 1, 0, 0, 0,
     1, 0, 0, 0, 157, 0, 0, 0, 0, 0, 0, 128, 0, 0, 0, 128, 4, 0, 0, 0, 4, 0, 0, 0, 7, 0, 0, 0, 4, 0, 0, 0,
     1, 0, 0, 0, 161, 0, 0, 0, 0, 0, 0, 128, 0, 0, 0, 128, 4, 0, 0, 0, 4, 0, 0, 0, 7, 0, 0, 0, 4, 0, 0, 0,
     0, 0, 0, 0, 3, 0, 0, 0, 0, 0, 0, 0, 0, 0, 0, 0, 156, 0, 0, 0, 1, 0, 0, 0, 0, 0, 0, 0, 0, 0, 0, 0, 1, 0, 0, 0, 0, 0, 0, 0,
     0, 1, 2, 3, 4, 5, 6, 7, 8]"

lemma demo_twice_headers:
  "elf32_ehdr demo_twice 0 = \<lparr>e_ident = [127, 69, 76, 70, 1, 1, 1, 0, 0, 0, 0, 0, 0, 0, 0, 0],
     e_type = 2, e_machine = 243, e_version = 1, e_entry = 0x80000000, e_phoff = 52, e_shoff = 116, e_flags = 0,
     e_ehsize = 52, e_phentsize = 32, e_phnum = 2, e_shentsize = 40, e_shnum = 1, e_shstrndx = 0\<rparr>"
  "elf32_phdr demo_twice 52 = \<lparr>p_type = 1, p_offset = 157, p_vaddr = 0x80000000, p_paddr = 0x80000000,
     p_filesz = 4, p_memsz = 4, p_flags = 7, p_align = 4\<rparr>"
  "elf32_phdr demo_twice 84 = \<lparr>p_type = 1, p_offset = 161, p_vaddr = 0x80000000, p_paddr = 0x80000000,
     p_filesz = 4, p_memsz = 4, p_flags = 7, p_align = 4\<rparr>"
  "elf32_shdr demo_twice 116 = \<lparr>sh_name = 0, sh_type = 3, sh_flags = 0, sh_addr = 0, sh_offset = 156,
     sh_size = 1, sh_link = 0, sh_info = 0, sh_addralign = 1, sh_entsize = 0\<rparr>"
  "IS_ELF32 demo_twice"
  "demo_twice ! 156 = 0"
  "drop 156 demo_twice = 0 # drop 157 demo_twice"
  "length demo_twice = 165"
  by (simp_all add: demo_twice_def elf32_ehdr_def elf32_phdr_def elf32_shdr_def field_def IS_ELF32_def IS_ELF_def)

definition demo_wrap :: "u8 list" where
  "demo_wrap = [127, 69, 76, 70, 1, 1, 1, 0, 0, 0, 0, 0, 0, 0, 0, 0,
     2, 0, 243, 0, 1, 0, 0, 0, 0, 0, 0, 128, 52, 0, 0, 0, 84, 0, 0, 0,
     0, 0, 0, 0, 52, 0, 32, 0, 1, 0, 40, 0, 1, 0, 0, 0,
     1, 0, 0, 0, 252, 255, 255, 255, 0, 0, 0, 128, 0, 0, 0, 128, 8, 0, 0, 0, 8, 0, 0, 0, 7, 0, 0, 0, 4, 0, 0, 0,
     0, 0, 0, 0, 3, 0, 0, 0, 0, 0, 0, 0, 0, 0, 0, 0, 124, 0, 0, 0, 1, 0, 0, 0, 0, 0, 0, 0, 0, 0, 0, 0, 1, 0, 0, 0, 0, 0, 0, 0,
     0, 1, 2, 3, 4]"

lemma demo_wrap_headers:
  "elf32_ehdr demo_wrap 0 = \<lparr>e_ident = [127, 69, 76, 70, 1, 1, 1, 0, 0, 0, 0, 0, 0, 0, 0, 0],
     e_type = 2, e_machine = 243, e_version = 1, e_entry = 0x80000000, e_phoff = 52, e_shoff = 84, e_flags = 0,
     e_ehsize = 52, e_phentsize = 32, e_phnum = 1, e_shentsize = 40, e_shnum = 1, e_shstrndx = 0\<rparr>"
  "elf32_phdr demo_wrap 52 = \<lparr>p_type = 1, p_offset = 0xFFFFFFFC, p_vaddr = 0x80000000, p_paddr = 0x80000000,
     p_filesz = 8, p_memsz = 8, p_flags = 7, p_align = 4\<rparr>"
  "IS_ELF32 demo_wrap"
  "length demo_wrap = 129"
  by (simp_all add: demo_wrap_def elf32_ehdr_def elf32_phdr_def elf32_shdr_def field_def IS_ELF32_def IS_ELF_def)

lemmas demo_simps = read_elf_def load_elf_def load_segment_def write_mem_def resize_zeros_def
  result_simps assert_that_def in_file_def size_of_file_def scan_section_def elf32_types_def
  PT_LOAD_def SHT_GROUP_def SHT_PROGBITS_def loader0_def

definition loaded :: "u8 list \<Rightarrow> loader" where
  "loaded buf = projr (read_elf (Some buf) loader0)"

lemma ascii_names:
  "ascii ''.strtab'' = 0x2e # ascii ''strtab''" "ascii ''.shstrtab'' = 0x2e # ascii ''shstrtab''"
  by (simp_all add: ascii_def)

text \<open>The section scan of a file whose only section name is empty.\<close>

lemma str_eq_empty: "buf ! n = 0 \<Longrightarrow> n < length buf \<Longrightarrow> str_eq buf n (0x2e # cs) = Inr False"
  by (simp add: in_file_def)

lemma strnlen_empty: "drop n buf = 0 # rest \<Longrightarrow> n < length buf \<Longrightarrow> strnlen buf n 1 = Inr 0"
  by (simp add: strnlen_def in_file_def)




text \<open>
  The loader can read outside the file it has checked: in a 32-bit file the sum of the
  offset and the size of a segment is computed in 32 bits, so an offset just below \<open>2 ^ 32\<close>
  passes the size assertion and the copy starts far behind the end of the file.
\<close>

theorem elf32_bound_check_wraps:
  "read_elf (Some demo_wrap) loader0 = Inl OutOfBounds \<and>
   elf32_phdr demo_wrap 52 = \<lparr>p_type = PT_LOAD, p_offset = 0xFFFFFFFC, p_vaddr = 0x80000000,
     p_paddr = 0x80000000, p_filesz = 8, p_memsz = 8, p_flags = 7, p_align = 4\<rparr> \<and>
   ucast ((0xFFFFFFFC :: u32) + 8) \<le> size_of_file demo_wrap"
  by (simp add: demo_simps demo_wrap_headers Let_def)

text \<open>
  When two segments have the same physical address the loader keeps only the contents of
  the first, yet delivers two sections: the second one arrives with the bytes of the first.
\<close>

theorem elf_same_address_keeps_first:
  "elf_segments demo_twice = [(0x80000000, 4, [1, 2, 3, 4]), (0x80000000, 4, [5, 6, 7, 8])] \<and>
   read_elf (Some demo_twice) loader0 = Inr (loaded demo_twice) \<and>
   map_sum id fst (load_dram 4 (loaded demo_twice)) =
     Inr [(0x80000000, [1, 2, 3, 4]), (0x80000000, [1, 2, 3, 4])]"
proof (intro conjI)
  have s: "elf_segments demo_twice = [(0x80000000, 4, [1, 2, 3, 4]), (0x80000000, 4, [5, 6, 7, 8])]"
    by (simp add: elf_segments_def segments_at_def phdr_offsets_def elf32_types_def demo_twice_headers
        loadable_def segment_def PT_LOAD_def upt_rec) (simp add: demo_twice_def)
  then show "elf_segments demo_twice = [(0x80000000, 4, [1, 2, 3, 4]), (0x80000000, 4, [5, 6, 7, 8])]" .
  have "\<not> isl (read_elf (Some demo_twice) loader0)"
    by (simp add: demo_simps demo_twice_headers Let_def ascii_names str_eq_empty strnlen_empty upt_rec
        del: str_eq.simps)
  then show r: "read_elf (Some demo_twice) loader0 = Inr (loaded demo_twice)" by (simp add: loaded_def)
  let ?t = "loaded demo_twice"
  have "adds loader0 (in_file_segments demo_twice) ?t" using r by (rule read_elf_adds)
  then have "sections ?t = [(0x80000000, 4), (0x80000000, 4)]" "section_index ?t = 0"
    "mems ?t 0x80000000 = Some [1, 2, 3, 4]"
    by (simp_all add: adds_def in_file_segments_def s loader0_def)
  then have "load_dram 4 ?t = Inr (List.map (\<lambda>(a, m, bs). (a, padded 4 m bs)) (filter (\<lambda>(a, m, bs). DramBase \<le> a)
      [(0x80000000, 4, [1, 2, 3, 4]), (0x80000000, 4, [1, 2, 3, 4])]), ?t\<lparr>section_index := length (sections ?t)\<rparr>)"
    by (intro load_dram_rest) auto
  then show "map_sum id fst (load_dram 4 ?t) = Inr [(0x80000000, [1, 2, 3, 4]), (0x80000000, [1, 2, 3, 4])]"
    by (simp add: padded_def DramBase_def)
qed

end
