(* ===== verification/Critical.thy ===== *)
theory Critical
  imports SpinLock
begin

text \<open>
  Calls that run under a lock: \<open>lock; body; unlock\<close>, where the body is a sequence of single accesses
  to what the lock protects. Any number of harts make such calls, and the accesses of a hart in the
  critical section interleave with the attempts of the others to get the lock. The calls then
  behave as if they were made one after the other, in the order in which they got the lock.
\<close>

section \<open>Bodies and their serial execution\<close>

text \<open>
  An access changes the registers of the hart and the shared state; accesses on the side of a branch
  not taken leave both alone.
\<close>

type_synonym ('l, 'm) code = "('l \<times> 'm \<Rightarrow> 'l \<times> 'm) list"

definition run_code :: "('l, 'm) code \<Rightarrow> 'l \<times> 'm \<Rightarrow> 'l \<times> 'm" where
  "run_code as s = fold (\<lambda>a s. a s) as s"

lemma run_code_simps [simp]:
  "run_code [] s = s" "run_code (a # as) s = run_code as (a s)"
  by (simp_all add: run_code_def)

text \<open>
  Calls one after the other: the final state, and every call with the hart that makes it and the
  registers it ends with.
\<close>

primrec serial :: "('c \<Rightarrow> ('l, 'm) code) \<Rightarrow> ('c \<Rightarrow> 'l) \<Rightarrow> (nat \<times> 'c) list \<Rightarrow> 'm \<Rightarrow>
    (nat \<times> 'c \<times> 'l) list \<times> 'm" where
  "serial code regs [] m = ([], m)"
| "serial code regs (x # xs) m =
     (case run_code (code (snd x)) (regs (snd x), m) of (l, m) \<Rightarrow>
      case serial code regs xs m of (rs, m) \<Rightarrow> ((fst x, snd x, l) # rs, m))"

lemma serial_append:
  "serial code regs (xs @ ys) m =
     (case serial code regs xs m of (rs, m) \<Rightarrow>
      case serial code regs ys m of (qs, m) \<Rightarrow> (rs @ qs, m))"
  by (induction xs arbitrary: m) (auto split: prod.splits)

lemma length_serial: "length (fst (serial code regs xs m)) = length xs"
proof (induction xs arbitrary: m)
  case (Cons x xs)
  then show ?case by (simp add: split_def)
qed simp

lemma serial_Cons:
  assumes "run_code (code (snd x)) (regs (snd x), m) = (l, m')"
  shows "serial code regs (x # xs) m =
    ((fst x, snd x, l) # fst (serial code regs xs m'), snd (serial code regs xs m'))"
  using assms by (simp add: split_def)

lemma serial_calls: "map (fst \<circ> snd) (fst (serial code regs xs m)) = map snd xs"
  by (induction xs arbitrary: m) (simp_all add: split_def)

section \<open>The system\<close>

text \<open>
  \<open>cjob t\<close> is the call hart \<open>t\<close> is in, with its registers and the accesses still to come.
  \<open>cserved\<close> lists the calls in the order in which they got the lock, \<open>cdone\<close> the finished
  ones with their final registers; both observe the run.
\<close>

record ('c, 'l, 'm) crit_sys =
  cmem :: 'm
  cword :: u32
  cpos :: "nat \<Rightarrow> lock_pc"
  cjob :: "nat \<Rightarrow> ('c \<times> 'l \<times> ('l, 'm) code) option"
  cserved :: "(nat \<times> 'c) list"
  cdone :: "(nat \<times> 'c \<times> 'l) list"

inductive crit_step ::
    "(lock_pc \<times> u32 \<Rightarrow> lock_pc \<times> u32) \<Rightarrow> (lock_pc \<times> u32 \<Rightarrow> lock_pc \<times> u32) \<Rightarrow>
     ('c \<Rightarrow> ('l, 'm) code) \<Rightarrow> ('c \<Rightarrow> 'l) \<Rightarrow> ('c, 'l, 'm) crit_sys \<Rightarrow> ('c, 'l, 'm) crit_sys \<Rightarrow> bool"
  for acq rel code regs where
  crit_call: "cpos s t = Outside \<Longrightarrow> cjob s t = None \<Longrightarrow>
     crit_step acq rel code regs s (s\<lparr>cjob := (cjob s)(t \<mapsto> (c, regs c, code c))\<rparr>)"
| crit_lock: "\<not> holder (cpos s t) \<Longrightarrow> cjob s t = Some (c, l, as) \<Longrightarrow> acq (cpos s t, cword s) = (pc, w) \<Longrightarrow>
     crit_step acq rel code regs s
       (s\<lparr>cword := w, cpos := (cpos s)(t := pc), cserved := (if holder pc then cserved s @ [(t, c)] else cserved s)\<rparr>)"
| crit_access: "cpos s t = Inside \<Longrightarrow> cjob s t = Some (c, l, a # as) \<Longrightarrow> a (l, cmem s) = (l', m) \<Longrightarrow>
     crit_step acq rel code regs s (s\<lparr>cmem := m, cjob := (cjob s)(t \<mapsto> (c, l', as))\<rparr>)"
| crit_unlock: "holder (cpos s t) \<Longrightarrow> cjob s t = Some (c, l, []) \<Longrightarrow> rel (cpos s t, cword s) = (pc, w) \<Longrightarrow>
     crit_step acq rel code regs s
       (if holder pc then s\<lparr>cword := w, cpos := (cpos s)(t := pc)\<rparr>
        else s\<lparr>cword := w, cpos := (cpos s)(t := pc), cjob := (cjob s)(t := None), cdone := cdone s @ [(t, c, l)]\<rparr>)"

inductive_cases crit_stepE: "crit_step acq rel code regs s s'"

definition crit_start :: "'m \<Rightarrow> ('c, 'l, 'm) crit_sys \<Rightarrow> bool" where
  "crit_start m s \<longleftrightarrow> cmem s = m \<and> cword s = 0 \<and> (\<forall>t. cpos s t = Outside \<and> cjob s t = None) \<and>
     cserved s = [] \<and> cdone s = []"

definition crit_init :: "'m \<Rightarrow> ('c, 'l, 'm) crit_sys" where
  "crit_init m = \<lparr>cmem = m, cword = 0, cpos = (\<lambda>_. Outside), cjob = (\<lambda>_. None), cserved = [], cdone = []\<rparr>"

section \<open>The invariant\<close>

definition lock_view :: "('c, 'l, 'm) crit_sys \<Rightarrow> lock_sys" where
  "lock_view s = \<lparr>lword = cword s, lpc = cpos s\<rparr>"

text \<open>
  With nobody in the critical section the state is that of the serial run of all calls served.
  The hart in the critical section is in the middle of the last of them.
\<close>

definition crit_inv :: "('c \<Rightarrow> ('l, 'm) code) \<Rightarrow> ('c \<Rightarrow> 'l) \<Rightarrow> 'm \<Rightarrow> ('c, 'l, 'm) crit_sys \<Rightarrow> bool" where
  "crit_inv code regs m0 s \<longleftrightarrow> lock_inv (lock_view s) \<and>
     (\<forall>t. holder (cpos s t) \<longrightarrow> cjob s t \<noteq> None) \<and>
     (\<forall>t c l as. cjob s t = Some (c, l, as) \<longrightarrow> \<not> holder (cpos s t) \<longrightarrow> l = regs c \<and> as = code c) \<and>
     ((\<forall>t. \<not> holder (cpos s t)) \<longrightarrow> serial code regs (cserved s) m0 = (cdone s, cmem s)) \<and>
     (\<forall>t c l as. holder (cpos s t) \<longrightarrow> cjob s t = Some (c, l, as) \<longrightarrow>
        (\<exists>xs m. cserved s = xs @ [(t, c)] \<and> serial code regs xs m0 = (cdone s, m) \<and>
          run_code as (l, cmem s) = run_code (code c) (regs c, m)))"

text \<open>
  Releasing passes through \<open>Fenced\<close> only; this and \<open>spin_lock_impl\<close> is all that is needed of the lock.
\<close>

lemma lock_inv_iff:
  "lock_inv (lock_view s) \<longleftrightarrow> (\<forall>t. pc_ok (cpos s t)) \<and>
     (\<forall>t u. holder (cpos s t) \<longrightarrow> holder (cpos s u) \<longrightarrow> t = u) \<and> (cword s \<noteq> 0 \<longleftrightarrow> (\<exists>t. holder (cpos s t)))"
  by (simp add: lock_inv_def lock_view_def)

context spin_lock_impl
begin

lemma crit_lock_inv:
  assumes "crit_step acq rel code regs s s'" "lock_inv (lock_view s)"
  shows "lock_inv (lock_view s')"
  using assms(1)
proof cases
  case (crit_lock t c l as pc w)
  then have "lock_step acq rel (lock_view s) (lock_view s')"
    using lock_acq [of "lock_view s" t acq pc w rel] by (simp add: lock_view_def)
  then show ?thesis using assms(2) locks.inv_step by blast
next
  case (crit_unlock t c l pc w)
  then have "lock_step acq rel (lock_view s) (lock_view s')"
    using lock_rel [of "lock_view s" t rel pc w acq] by (simp add: lock_view_def)
  then show ?thesis using assms(2) locks.inv_step by blast
qed (use assms(2) in \<open>simp_all add: lock_view_def\<close>)

lemma crit_inv_step:
  assumes step: "crit_step acq rel code regs s s'" and inv: "crit_inv code regs m0 s"
  shows "crit_inv code regs m0 s'"
proof -
  have L': "lock_inv (lock_view s')" using crit_lock_inv [OF step] inv by (simp add: crit_inv_def)
  have one: "\<And>t u. holder (cpos s t) \<Longrightarrow> holder (cpos s u) \<Longrightarrow> t = u"
    and ok: "\<And>t. pc_ok (cpos s t)" and word: "cword s \<noteq> 0 \<longleftrightarrow> (\<exists>t. holder (cpos s t))"
    using inv unfolding crit_inv_def lock_inv_iff by blast+
  have job: "\<And>t. holder (cpos s t) \<Longrightarrow> cjob s t \<noteq> None"
    and fresh: "\<And>t c l as. cjob s t = Some (c, l, as) \<Longrightarrow> \<not> holder (cpos s t) \<Longrightarrow> l = regs c \<and> as = code c"
    and free: "(\<forall>t. \<not> holder (cpos s t)) \<Longrightarrow> serial code regs (cserved s) m0 = (cdone s, cmem s)"
    and busy: "\<And>t c l as. holder (cpos s t) \<Longrightarrow> cjob s t = Some (c, l, as) \<Longrightarrow>
        \<exists>xs m. cserved s = xs @ [(t, c)] \<and> serial code regs xs m0 = (cdone s, m) \<and>
          run_code as (l, cmem s) = run_code (code c) (regs c, m)"
    using inv unfolding crit_inv_def by blast+
  show ?thesis using step
  proof cases
    case (crit_call t c)
    have nh: "\<not> holder (cpos s t)" using crit_call by (simp add: holder_def)
    show ?thesis
      unfolding crit_inv_def
      using L' job fresh free busy nh by (auto simp: crit_call(1) split: if_splits)
  next
    case (crit_lock t c l as pc w)
    have entering: "holder pc \<Longrightarrow> cword s = 0"
      using acq_safe [OF crit_lock(2) ok crit_lock(4)] by (auto split: if_splits)
    show ?thesis
    proof (cases "holder pc")
      case True
      then have none: "\<And>u. \<not> holder (cpos s u)" using entering word by simp
      have fr: "l = regs c" "as = code c" using fresh crit_lock by blast+
      have pos: "holder (cpos s' u) \<longleftrightarrow> u = t" for u using none True by (simp add: crit_lock(1))
      show ?thesis
        unfolding crit_inv_def
        using L' True fr fresh none free crit_lock(3) pos by (auto simp: crit_lock(1))
    next
      case False
      have pos: "holder (cpos s' u) \<longleftrightarrow> holder (cpos s u)" for u
        using False crit_lock(2) by (simp add: crit_lock(1))
      have same: "cjob s' = cjob s" "cmem s' = cmem s" "cdone s' = cdone s" "cserved s' = cserved s"
        using False by (simp_all add: crit_lock(1))
      show ?thesis
        unfolding crit_inv_def pos same using L' job fresh free busy by blast
    qed
  next
    case (crit_access t c l a as l' m)
    have h: "holder (cpos s t)" using crit_access by (simp add: holder_def)
    then have only: "holder (cpos s u) \<longleftrightarrow> u = t" for u using one by blast
    have pos: "cpos s' = cpos s" by (simp add: crit_access(1))
    have "\<exists>xs m'. cserved s = xs @ [(t, c)] \<and> serial code regs xs m0 = (cdone s, m') \<and>
        run_code as (l', m) = run_code (code c) (regs c, m')"
      using busy [OF h crit_access(3)] crit_access(4) by simp
    then show ?thesis
      unfolding crit_inv_def pos only using L' fresh only by (auto simp: crit_access(1) split: if_splits)
  next
    case (crit_unlock t c l pc w)
    then have only: "holder (cpos s u) \<longleftrightarrow> u = t" for u using one by blast
    obtain xs m where xs: "cserved s = xs @ [(t, c)]" "serial code regs xs m0 = (cdone s, m)"
        "(l, cmem s) = run_code (code c) (regs c, m)"
      using busy [OF crit_unlock(2,3)] by auto
    show ?thesis
    proof (cases "holder pc")
      case True
      then have pos: "holder (cpos s' u) \<longleftrightarrow> holder (cpos s u)" for u
        using crit_unlock(2) by (simp add: crit_unlock(1))
      have same: "cjob s' = cjob s" "cmem s' = cmem s" "cdone s' = cdone s" "cserved s' = cserved s"
        using True by (simp_all add: crit_unlock(1))
      show ?thesis
        unfolding crit_inv_def pos same using L' job fresh free busy by blast
    next
      case False
      have pos: "\<not> holder (cpos s' u)" for u using False only by (simp add: crit_unlock(1))
      have "serial code regs (cserved s) m0 = (cdone s @ [(t, c, l)], cmem s)"
        using xs by (simp add: serial_append flip: xs(3))
      then show ?thesis
        unfolding crit_inv_def using L' pos fresh only False by (auto simp: crit_unlock(1) split: if_splits)
    qed
  qed
qed

lemma crit_inv_start: "crit_start m s \<Longrightarrow> crit_inv code regs m s"
  by (auto simp: crit_start_def crit_inv_def lock_inv_iff holder_def)

lemma crit_reach: "reach (crit_start m) (crit_step acq rel code regs) s \<Longrightarrow> crit_inv code regs m s"
  by (induction rule: reach.induct) (auto intro: crit_inv_start crit_inv_step)

text \<open>The serial order explains every state, and the calls that are done have the serial results.\<close>

lemma serialised:
  "reach (crit_start m) (crit_step acq rel code regs) s \<Longrightarrow> \<forall>t. \<not> holder (cpos s t) \<Longrightarrow>
   serial code regs (cserved s) m = (cdone s, cmem s)"
  using crit_reach [of m code regs s] unfolding crit_inv_def by blast

lemma done_serialised:
  assumes "reach (crit_start m) (crit_step acq rel code regs) s"
  shows "cdone s = take (length (cdone s)) (fst (serial code regs (cserved s) m)) \<and>
    length (cserved s) \<le> length (cdone s) + 1"
proof (cases "\<forall>t. \<not> holder (cpos s t)")
  case True
  then show ?thesis using serialised [OF assms True]
    by (metis fst_conv le_add1 length_serial order_refl take_all)
next
  case False
  then obtain t where t: "holder (cpos s t)" by blast
  have inv: "crit_inv code regs m s" by (rule crit_reach [OF assms])
  then obtain c l as where "cjob s t = Some (c, l, as)" using t by (cases "cjob s t") (auto simp: crit_inv_def)
  then obtain xs m1 where "cserved s = xs @ [(t, c)]" "serial code regs xs m = (cdone s, m1)"
    using inv t unfolding crit_inv_def by blast
  then show ?thesis using length_serial [of code regs xs m] by (simp add: serial_append split: prod.splits)
qed

end

section \<open>Calls that meet nobody\<close>

text \<open>
  From a state in which no hart is in a call, every call can run to its end: the runs the theorems
  speak of exist, with every sequence of calls in \<open>cserved\<close>.
\<close>

definition quiet :: "('c, 'l, 'm) crit_sys \<Rightarrow> bool" where
  "quiet s \<longleftrightarrow> cword s = 0 \<and> (\<forall>t. cpos s t = Outside \<and> cjob s t = None)"

lemma quiet_free: "quiet s \<Longrightarrow> \<forall>t. \<not> holder (cpos s t)"
  by (simp add: quiet_def holder_def)

lemma lone_body:
  assumes "cpos s t = Inside" "cjob s t = Some (c, l, as)" "run_code as (l, cmem s) = (l', m)"
    and "s' = s\<lparr>cmem := m, cjob := (cjob s)(t \<mapsto> (c, l', []))\<rparr>"
  shows "(crit_step acq rel code regs)\<^sup>*\<^sup>* s s'"
  using assms
proof (induction as arbitrary: s l)
  case Nil
  then have "s' = s" by (simp add: fun_upd_idem)
  then show ?case by simp
next
  case (Cons a as)
  obtain k n where a: "a (l, cmem s) = (k, n)" by (cases "a (l, cmem s)")
  let ?s = "s\<lparr>cmem := n, cjob := (cjob s)(t \<mapsto> (c, k, as))\<rparr>"
  have "crit_step acq rel code regs s ?s" by (rule crit_access [OF Cons.prems(1,2) a])
  moreover have "(crit_step acq rel code regs)\<^sup>*\<^sup>* ?s s'"
  proof (rule Cons.IH)
    have "(cjob ?s)(t \<mapsto> (c, l', [])) = (cjob s)(t \<mapsto> (c, l', []))" by simp
    then show "s' = ?s\<lparr>cmem := m, cjob := (cjob ?s)(t \<mapsto> (c, l', []))\<rparr>"
      using Cons.prems(4) by (simp del: fun_upd_apply)
  qed (use Cons.prems a in simp_all)
  ultimately show ?case by (rule converse_rtranclp_into_rtranclp)
qed

text \<open>The locks of the repository are taken in two steps and released in one or two.\<close>

lemma lone_call:
  assumes s: "quiet s"
    and acq: "acq (Outside, 0) = (Swap 1, 0)" "acq (Swap 1, 0) = (Inside, 1)"
    and rel: "rel (Inside, 1) = (Outside, 0) \<or> rel (Inside, 1) = (Fenced, 1) \<and> rel (Fenced, 1) = (Outside, 0)"
    and run: "run_code (code c) (regs c, cmem s) = (l, m)"
  shows "(crit_step acq rel code regs)\<^sup>*\<^sup>* s
    (s\<lparr>cmem := m, cserved := cserved s @ [(t, c)], cdone := cdone s @ [(t, c, l)]\<rparr>)"
proof -
  let ?R = "crit_step acq rel code regs"
  have q: "cpos s t = Outside" "cjob s t = None" "cword s = 0" using s by (auto simp: quiet_def)
  let ?s1 = "s\<lparr>cjob := (cjob s)(t \<mapsto> (c, regs c, code c))\<rparr>"
  let ?s2 = "?s1\<lparr>cword := 0, cpos := (cpos s)(t := Swap 1)\<rparr>"
  let ?s3 = "?s2\<lparr>cword := 1, cpos := (cpos s)(t := Inside), cserved := cserved s @ [(t, c)]\<rparr>"
  let ?s4 = "?s3\<lparr>cmem := m, cjob := (cjob s)(t \<mapsto> (c, l, []))\<rparr>"
  let ?s5 = "?s4\<lparr>cword := 1, cpos := (cpos s)(t := Fenced)\<rparr>"
  let ?s6 = "s\<lparr>cmem := m, cserved := cserved s @ [(t, c)], cdone := cdone s @ [(t, c, l)]\<rparr>"
  have 1: "?R s ?s1" by (rule crit_call) (use q in simp_all)
  have 2: "?R ?s1 ?s2" using crit_lock [of ?s1 t c "regs c" "code c" acq "Swap 1" 0] q acq by (simp add: holder_def)
  have 3: "?R ?s2 ?s3" using crit_lock [of ?s2 t c "regs c" "code c" acq Inside 1] q acq by (simp add: holder_def)
  have 4: "?R\<^sup>*\<^sup>* ?s3 ?s4" 
    by (rule lone_body [where as = "code c" and l = "regs c" and l' = l and m = m and t = t and c = c])
      (use run in \<open>simp_all add: fun_upd_same del: fun_upd_apply\<close>)
  have out: "(cpos s)(t := Outside) = cpos s" "(cjob s)(t := None) = cjob s" using q by (simp_all add: fun_upd_idem)
  have pos: "(cpos ?s4)(t := pc) = (cpos s)(t := pc)" "(cpos ?s5)(t := pc) = (cpos s)(t := pc)" for pc by simp_all
  have end4: "?s4\<lparr>cword := 0, cpos := (cpos ?s4)(t := Outside), cjob := (cjob ?s4)(t := None),
      cdone := cdone ?s4 @ [(t, c, l)]\<rparr> = ?s6"
    and end5: "?s5\<lparr>cword := 0, cpos := (cpos ?s5)(t := Outside), cjob := (cjob ?s5)(t := None),
      cdone := cdone ?s5 @ [(t, c, l)]\<rparr> = ?s6"
    unfolding pos using q out by simp_all
  have "?R\<^sup>*\<^sup>* ?s4 ?s6"
    using rel
  proof
    assume "rel (Inside, 1) = (Outside, 0)"
    then have "?R ?s4 ?s6"
      using crit_unlock [of ?s4 t c l rel Outside 0 acq code regs] unfolding end4 by (simp add: holder_def)
    then show ?thesis by (rule r_into_rtranclp)
  next
    assume r: "rel (Inside, 1) = (Fenced, 1) \<and> rel (Fenced, 1) = (Outside, 0)"
    have "?R ?s4 ?s5" using crit_unlock [of ?s4 t c l rel Fenced 1 acq code regs] r by (simp add: holder_def)
    moreover have "?R ?s5 ?s6"
      using crit_unlock [of ?s5 t c l rel Outside 0 acq code regs] r unfolding end5 by (simp add: holder_def)
    ultimately show ?thesis by (rule converse_rtranclp_into_rtranclp [OF _ r_into_rtranclp])
  qed
  then show ?thesis using 1 2 3 4 by (meson converse_rtranclp_into_rtranclp rtranclp_trans)
qed

lemma lone_calls:
  assumes "reach (crit_start m0) (crit_step acq rel code regs) s" "quiet s"
    and "acq (Outside, 0) = (Swap 1, 0)" "acq (Swap 1, 0) = (Inside, 1)"
    and "rel (Inside, 1) = (Outside, 0) \<or> rel (Inside, 1) = (Fenced, 1) \<and> rel (Fenced, 1) = (Outside, 0)"
  shows "\<exists>s'. reach (crit_start m0) (crit_step acq rel code regs) s' \<and> quiet s' \<and>
    cserved s' = cserved s @ xs"
  using assms(1,2)
proof (induction xs arbitrary: s)
  case (Cons x xs)
  obtain t c l m where x: "x = (t, c)" "run_code (code c) (regs c, cmem s) = (l, m)" by (metis surj_pair)
  let ?s = "s\<lparr>cmem := m, cserved := cserved s @ [(t, c)], cdone := cdone s @ [(t, c, l)]\<rparr>"
  have "reach (crit_start m0) (crit_step acq rel code regs) ?s"
    by (rule reach_rtranclp [OF _ Cons.prems(1)],
        rule lone_call [where acq = acq and rel = rel and code = code and regs = regs and c = c and t = t and l = l
          and m = m and s = s, OF Cons.prems(2) assms(3-5) x(2)])
  moreover have "quiet ?s" using Cons.prems(2) by (simp add: quiet_def)
  ultimately show ?case using Cons.IH [of ?s] x(1) by simp
qed blast

lemma crit_init_reach:
  "reach (crit_start m) (crit_step acq rel code regs) (crit_init m)" "quiet (crit_init m)" "cserved (crit_init m) = []"
  by (auto intro: reach_start simp: crit_start_def crit_init_def quiet_def)

lemma spin_calls:
  "\<exists>s. reach (crit_start m) (crit_step spin_lock spin_unlock code regs) s \<and> quiet s \<and> cserved s = xs"
  using lone_calls [OF crit_init_reach(1,2), where acq = spin_lock and rel = spin_unlock and xs = xs]
  by (simp add: amoswap_def crit_init_reach)

lemma mutex_calls:
  "\<exists>s. reach (crit_start m) (crit_step snrt_mutex_lock snrt_mutex_release code regs) s \<and> quiet s \<and> cserved s = xs"
  using lone_calls [OF crit_init_reach(1,2), where acq = snrt_mutex_lock and rel = snrt_mutex_release and xs = xs]
  by (simp add: amoswap_def crit_init_reach)

end
