(* ===== verification/ListConc.thy ===== *)
theory ListConc
  imports Critical LList
begin

text \<open>
  The packet lists under their spin lock: the bodies of \<open>list_push_back\<close>, \<open>list_pop_front\<close> and
  \<open>list_remove\<close> access by access, and what any number of harts see that call them at once. Theory
  \<open>LList\<close> has the same operations in one piece.
\<close>

section \<open>The bodies\<close>

text \<open>
  \<open>br\<close> is the value of the last outer condition, \<open>cond\<close> that of an inner one, \<open>ra\<close>, \<open>rb\<close> are
  temporaries, and \<open>popped\<close> is the local variable \<open>node\<close> of \<open>list_pop_front\<close>.
\<close>

record list_regs =
  br :: u32
  cond :: u32
  ra :: u32
  rb :: u32
  popped :: u32

type_synonym list_access = "list_regs \<times> list_state \<Rightarrow> list_regs \<times> list_state"

definition reads :: "((u32 \<Rightarrow> u32) \<Rightarrow> list_regs \<Rightarrow> list_regs) \<Rightarrow> (list_regs \<Rightarrow> list_state \<Rightarrow> u32) \<Rightarrow> list_access" where
  "reads upd src = (\<lambda>(r, s). (upd (\<lambda>_. src r s) r, s))"

definition writes :: "(list_regs \<Rightarrow> list_state \<Rightarrow> list_state) \<Rightarrow> list_access" where
  "writes f = (\<lambda>(r, s). (r, f r s))"

definition guarded :: "(list_regs \<Rightarrow> bool) \<Rightarrow> list_access \<Rightarrow> list_access" where
  "guarded P a = (\<lambda>(r, s). if P r then a (r, s) else (r, s))"

definition field_of :: "(list_regs \<Rightarrow> u32) \<Rightarrow> node_field \<Rightarrow> list_regs \<Rightarrow> list_state \<Rightarrow> u32" where
  "field_of n f r s = get_field (snd s) (n r) f"

definition set_node :: "(list_regs \<Rightarrow> u32) \<Rightarrow> node_field \<Rightarrow> (list_regs \<Rightarrow> u32) \<Rightarrow> list_access" where
  "set_node n f v = writes (\<lambda>r (l, m). (l, set_field m (n r) f (v r)))"

definition set_list :: "((u32 \<Rightarrow> u32) \<Rightarrow> linked_list \<Rightarrow> linked_list) \<Rightarrow> (list_regs \<Rightarrow> u32) \<Rightarrow> list_access" where
  "set_list upd v = writes (\<lambda>r (l, m). (upd (\<lambda>_. v r) l, m))"

lemmas access_defs = reads_def writes_def guarded_def field_of_def set_node_def set_list_def

definition push_back_body :: "u32 \<Rightarrow> (list_regs, list_state) code" where
  "push_back_body node =
    [set_node (\<lambda>_. node) Next (\<lambda>_. NULL),
     reads ra_update (\<lambda>r s. list_tail (fst s)),
     set_node (\<lambda>_. node) Prev ra,
     reads br_update (\<lambda>r s. list_tail (fst s)),
     guarded (\<lambda>r. br r \<noteq> NULL) (reads ra_update (\<lambda>r s. list_tail (fst s))),
     guarded (\<lambda>r. br r \<noteq> NULL) (set_node ra Next (\<lambda>_. node)),
     guarded (\<lambda>r. br r = NULL) (set_list list_head_update (\<lambda>_. node)),
     set_list list_tail_update (\<lambda>_. node),
     reads ra_update (\<lambda>r s. sduNum (fst s)),
     set_list sduNum_update (\<lambda>r. ra r + 1),
     reads ra_update (\<lambda>r s. sduBytes (fst s)),
     reads rb_update (field_of (\<lambda>_. node) DataSize),
     set_list sduBytes_update (\<lambda>r. ra r + rb r)]"

definition pop_front_body :: "(list_regs, list_state) code" where
  "pop_front_body =
    reads br_update (\<lambda>r s. list_head (fst s)) #
    map (guarded (\<lambda>r. br r \<noteq> NULL))
     [reads popped_update (\<lambda>r s. list_head (fst s)),
      reads ra_update (field_of popped Next),
      set_list list_head_update ra,
      reads cond_update (\<lambda>r s. list_head (fst s)),
      guarded (\<lambda>r. cond r \<noteq> NULL) (reads ra_update (\<lambda>r s. list_head (fst s))),
      guarded (\<lambda>r. cond r \<noteq> NULL) (set_node ra Prev (\<lambda>_. NULL)),
      guarded (\<lambda>r. cond r = NULL) (set_list list_tail_update (\<lambda>_. NULL)),
      set_node popped Next (\<lambda>_. NULL),
      set_node popped Prev (\<lambda>_. NULL),
      reads ra_update (\<lambda>r s. sduNum (fst s)),
      set_list sduNum_update (\<lambda>r. ra r - 1),
      reads ra_update (\<lambda>r s. sduBytes (fst s)),
      reads rb_update (field_of popped DataSize),
      set_list sduBytes_update (\<lambda>r. ra r - rb r)]"

definition remove_body :: "u32 \<Rightarrow> (list_regs, list_state) code" where
  "remove_body node =
    [reads br_update (field_of (\<lambda>_. node) Prev),
     reads rb_update (field_of (\<lambda>_. node) Next),
     guarded (\<lambda>r. br r \<noteq> NULL) (reads ra_update (field_of (\<lambda>_. node) Prev)),
     guarded (\<lambda>r. br r \<noteq> NULL) (set_node ra Next rb),
     guarded (\<lambda>r. br r = NULL) (set_list list_head_update rb),
     reads br_update (field_of (\<lambda>_. node) Next),
     reads rb_update (field_of (\<lambda>_. node) Prev),
     guarded (\<lambda>r. br r \<noteq> NULL) (reads ra_update (field_of (\<lambda>_. node) Next)),
     guarded (\<lambda>r. br r \<noteq> NULL) (set_node ra Prev rb),
     guarded (\<lambda>r. br r = NULL) (set_list list_tail_update rb),
     set_node (\<lambda>_. node) Prev (\<lambda>_. NULL),
     set_node (\<lambda>_. node) Next (\<lambda>_. NULL)]"

datatype list_call = PushBack u32 | PopFront | Remove u32

primrec list_code :: "list_call \<Rightarrow> (list_regs, list_state) code" where
  "list_code (PushBack node) = push_back_body node"
| "list_code PopFront = pop_front_body"
| "list_code (Remove node) = remove_body node"

definition list_enter :: "list_call \<Rightarrow> list_regs" where
  "list_enter c = \<lparr>br = 0, cond = 0, ra = 0, rb = 0, popped = NULL\<rparr>"

section \<open>The bodies in one piece\<close>

lemma run_push_back: "snd (run_code (push_back_body node) (r, s)) = list_push_back node s"
  by (cases s) (simp add: push_back_body_def list_push_back_def access_defs Let_def)

lemma run_pop_front:
  "popped r = NULL \<Longrightarrow> (case run_code pop_front_body (r, s) of (r', s') \<Rightarrow> (popped r', s')) = list_pop_front s"
  by (cases s) (simp add: pop_front_body_def list_pop_front_def access_defs Let_def)

lemma run_remove: "snd (run_code (remove_body node) (r, s)) = list_remove node s"
  by (cases s) (simp add: remove_body_def list_remove_def access_defs Let_def)

section \<open>Serial runs as runs of a queue\<close>

primrec call_of :: "u32 queue_op \<Rightarrow> list_call" where
  "call_of (Push node) = PushBack node"
| "call_of Pop = PopFront"

text \<open>The nodes the finished \<open>list_pop_front\<close> calls returned, in the order of the calls.\<close>

definition returned :: "(nat \<times> list_call \<times> list_regs) list \<Rightarrow> u32 list" where
  "returned ds = [popped r. (t, c, r) \<leftarrow> ds, c = PopFront \<and> popped r \<noteq> NULL]"

lemma returned_simps [simp]:
  "returned [] = []"
  "returned ((t, PushBack n, r) # ds) = returned ds"
  "returned ((t, PopFront, r) # ds) = (if popped r = NULL then returned ds else popped r # returned ds)"
  by (simp_all add: returned_def)

lemma serial_queue_run:
  assumes "map snd xs = map call_of ops"
  shows "returned (fst (serial list_code list_enter xs s)) = delivered (fst (queue_run list_push_back list_pop_opt ops s)) \<and>
    snd (serial list_code list_enter xs s) = snd (queue_run list_push_back list_pop_opt ops s)"
  using assms
proof (induction ops arbitrary: xs s)
  case (Cons oper ops)
  then obtain t xs' where xs: "xs = (t, call_of oper) # xs'" and eq: "map snd xs' = map call_of ops" by auto
  show ?case
  proof (cases oper)
    case (Push node)
    then show ?thesis
      using Cons.IH [OF eq, of "list_push_back node s"] run_push_back [of node "list_enter (PushBack node)" s]
      by (simp add: xs split_def)
  next
    case Pop
    have "popped (list_enter PopFront) = NULL" by (simp add: list_enter_def)
    from run_pop_front [OF this, of s] obtain r s' where
        run: "run_code pop_front_body (list_enter PopFront, s) = (r, s')" "list_pop_front s = (popped r, s')"
      by (auto split: prod.splits)
    have opt: "list_pop_opt s = (if popped r = NULL then None else Some (popped r), s')"
      by (simp add: list_pop_opt_def run)
    show ?thesis using Cons.IH [OF eq, of s'] by (simp add: xs Pop opt run split_def)
  qed
qed simp

section \<open>Properties\<close>

text \<open>
  C7: the packet lists are queues for any number of harts: \<open>list_push_back\<close> and \<open>list_pop_front\<close>
  interleave access by access under the spin lock, and whenever no hart is in its critical section
  the calls served so far have had the effect of a FIFO queue in the order in which they got the lock:
  the nodes returned, followed by those linked, are the nodes pushed, and links and counters are right.
\<close>

theorem concurrent_list_fifo:
  assumes "reach (crit_start (list_init, m)) (crit_step spin_lock spin_unlock list_code list_enter) s"
    and "\<forall>t. \<not> holder (cpos s t)"
    and "map snd (cserved s) = map call_of ops" "legal can_link ops []"
  shows "\<exists>rest. list_rep (cmem s) rest \<and> counts (cmem s) rest \<and> returned (cdone s) @ rest = pushed ops"
proof -
  have "serial list_code list_enter (cserved s) (list_init, m) = (cdone s, cmem s)"
    by (rule list_spin.serialised [OF assms(1,2)])
  then show ?thesis
    using serial_queue_run [OF assms(3), of "(list_init, m)"] llq.run_fifo [OF _ assms(4), of "(list_init, m)"]
      list_init_rep by (auto simp: list_ok_def)
qed

theorem concurrent_list_fifo_witness:
  "\<exists>(s :: (list_call, list_regs, list_state) crit_sys) rest. cserved s = [(0, PushBack 0x1000), (3, PushBack 0x1018), (1, PopFront)] \<and>
    list_rep (cmem s) rest \<and> returned (cdone s) @ rest = [0x1000, 0x1018]"
proof -
  obtain s where s: "reach (crit_start (list_init, \<lambda>_. 0)) (crit_step spin_lock spin_unlock list_code list_enter) s"
      "quiet s" "cserved s = [(0, PushBack 0x1000), (3, PushBack 0x1018), (1, PopFront)]"
    using spin_calls [of "(list_init, \<lambda>_. 0)" list_code list_enter] by metis
  have "map snd (cserved s) = map call_of [Push 0x1000, Push 0x1018, Pop]" by (simp add: s(3))
  moreover have "legal can_link [Push 0x1000, Push 0x1018, Pop] []" by (simp add: can_link_def node_apart_def)
  ultimately obtain rest where "list_rep (cmem s) rest" "returned (cdone s) @ rest = [0x1000, 0x1018]"
    using concurrent_list_fifo [OF s(1) quiet_free [OF s(2)]] by fastforce
  then show ?thesis using s(3) by blast
qed

end
