(* ===== verification/McsLock.thy ===== *)
theory McsLock
  imports Prelude
begin

text \<open>
  The queue lock of \<open>tests/benchmark/mcs_lock.c\<close>: harts that wait for a lock form a linked list
  of nodes, each hart spins on its own node, and a release hands the lock to the next node.
  Nodes live in a table with a row per hart; a row is read and written by its hart alone, except
  for the two fields of the nodes that other harts see. One step is one access to a lock's
  tail or to a node; a search of the own row is one step.
\<close>

section \<open>Data\<close>

definition MCS_MAX_HARTS :: nat where
  "MCS_MAX_HARTS = 4"

definition MCS_TLS_SLOTS :: nat where
  "MCS_TLS_SLOTS = MCS_MAX_HARTS * 2"

text \<open>
  A pointer to a node is the place of its binding in the table, hart and slot; \<open>None\<close> is the
  null pointer. Locks are known by their address.
\<close>

datatype node_ptr = Binding (hart: nat) (slot: nat)

record mcs_node =
  nxt :: "node_ptr option"
  locked :: u32

record mcs_binding_core_t =
  lock :: u32
  bnode :: mcs_node
  in_use :: bool

record mcs_mem =
  tail :: "u32 \<Rightarrow> node_ptr option"
  mcs_bindings :: "node_ptr \<Rightarrow> mcs_binding_core_t"

definition next_of :: "mcs_mem \<Rightarrow> node_ptr \<Rightarrow> node_ptr option" where
  "next_of m n = nxt (bnode (mcs_bindings m n))"

definition locked_of :: "mcs_mem \<Rightarrow> node_ptr \<Rightarrow> u32" where
  "locked_of m n = locked (bnode (mcs_bindings m n))"

definition store_next :: "node_ptr \<Rightarrow> node_ptr option \<Rightarrow> mcs_mem \<Rightarrow> mcs_mem" where
  "store_next n p m = (let b = mcs_bindings m n
     in m\<lparr>mcs_bindings := (mcs_bindings m)(n := b\<lparr>bnode := (bnode b)\<lparr>nxt := p\<rparr>\<rparr>)\<rparr>)"

definition store_locked :: "node_ptr \<Rightarrow> u32 \<Rightarrow> mcs_mem \<Rightarrow> mcs_mem" where
  "store_locked n v m = (let b = mcs_bindings m n
     in m\<lparr>mcs_bindings := (mcs_bindings m)(n := b\<lparr>bnode := (bnode b)\<lparr>locked := v\<rparr>\<rparr>)\<rparr>)"

definition store_tail :: "u32 \<Rightarrow> node_ptr option \<Rightarrow> mcs_mem \<Rightarrow> mcs_mem" where
  "store_tail L p m = m\<lparr>tail := (tail m)(L := p)\<rparr>"

definition mcs_lock_init :: "u32 \<Rightarrow> mcs_mem \<Rightarrow> mcs_mem" where
  "mcs_lock_init L m = store_tail L None m"

section \<open>The table of bindings\<close>

text \<open>
  The search of a hart starts at the slot of its own number. A row beyond the table is undefined
  behaviour, unless the loop has no slot to look at.
\<close>

datatype search = Slot nat | NoSlot | OutOfTable

definition row_search :: "nat \<Rightarrow> (nat \<Rightarrow> bool) \<Rightarrow> search" where
  "row_search h P =
     (if MCS_TLS_SLOTS \<le> h then NoSlot
      else if MCS_MAX_HARTS \<le> h then OutOfTable
      else case find P [h..<MCS_TLS_SLOTS] of None \<Rightarrow> NoSlot | Some i \<Rightarrow> Slot i)"

definition mcs_bind_free_slot :: "nat \<Rightarrow> mcs_mem \<Rightarrow> search" where
  "mcs_bind_free_slot h m = row_search h (\<lambda>i. \<not> in_use (mcs_bindings m (Binding h i)))"

definition mcs_bind_find :: "nat \<Rightarrow> u32 \<Rightarrow> mcs_mem \<Rightarrow> search" where
  "mcs_bind_find h L m =
     row_search h (\<lambda>i. in_use (mcs_bindings m (Binding h i)) \<and> lock (mcs_bindings m (Binding h i)) = L)"

definition mcs_bind_release_slot :: "node_ptr \<Rightarrow> mcs_mem \<Rightarrow> mcs_mem" where
  "mcs_bind_release_slot n m =
     m\<lparr>mcs_bindings := (mcs_bindings m)(n := (mcs_bindings m n)\<lparr>lock := 0, in_use := False\<rparr>)\<rparr>"

section \<open>One access of a hart\<close>

text \<open>
  Where a hart is: outside the calls, looking for a free slot, or at a place in a call for a
  lock with a node. The last place of an acquiring call and of \<open>mcs_lock_try_acquire\<close> differ, so
  the places of the slot's initialisation carry which call it is.
\<close>

datatype mcs_call = Acquire | TryAcquire

datatype place =
    BindNext mcs_call | BindLocked mcs_call | MeNext mcs_call
  | TryLocked | TryCas | Exchange
  | SetLocked node_ptr | LinkPred node_ptr | Spin
  | RelNext | RelCas | RelWait | Handoff node_ptr | Unbind

datatype mcs_pc = Out | Undef | Seek mcs_call u32 | At u32 node_ptr place

definition mcs_bind_acquire_slot :: "nat \<Rightarrow> mcs_call \<Rightarrow> u32 \<Rightarrow> mcs_mem \<Rightarrow> mcs_pc \<times> mcs_mem" where
  "mcs_bind_acquire_slot h c L m =
     (case mcs_bind_free_slot h m of
        Slot i \<Rightarrow> (At L (Binding h i) (BindNext c),
          m\<lparr>mcs_bindings := (mcs_bindings m)
             (Binding h i := (mcs_bindings m (Binding h i))\<lparr>in_use := True, lock := L\<rparr>)\<rparr>)
      | NoSlot \<Rightarrow> (Seek c L, m)
      | OutOfTable \<Rightarrow> (Undef, m))"

fun mcs_bind_init :: "u32 \<Rightarrow> node_ptr \<Rightarrow> place \<Rightarrow> mcs_mem \<Rightarrow> mcs_pc \<times> mcs_mem" where
  "mcs_bind_init L me (BindNext c) m = (At L me (BindLocked c), store_next me None m)"
| "mcs_bind_init L me (BindLocked c) m = (At L me (MeNext c), store_locked me 0 m)"
| "mcs_bind_init L me p m = (At L me p, m)"

fun mcs_lock_try_acquire :: "u32 \<Rightarrow> node_ptr \<Rightarrow> place \<Rightarrow> mcs_mem \<Rightarrow> mcs_pc \<times> mcs_mem" where
  "mcs_lock_try_acquire L me (MeNext c) m = (At L me TryLocked, store_next me None m)"
| "mcs_lock_try_acquire L me TryLocked m = (At L me TryCas, store_locked me 0 m)"
| "mcs_lock_try_acquire L me TryCas m =
     (if tail m L = None then (Out, store_tail L (Some me) m) else (At L me Unbind, m))"
| "mcs_lock_try_acquire L me p m = mcs_bind_init L me p m"

fun mcs_lock_acquire :: "u32 \<Rightarrow> node_ptr \<Rightarrow> place \<Rightarrow> mcs_mem \<Rightarrow> mcs_pc \<times> mcs_mem" where
  "mcs_lock_acquire L me (MeNext c) m = (At L me Exchange, store_next me None m)"
| "mcs_lock_acquire L me Exchange m =
     (case tail m L of
        None \<Rightarrow> (Out, store_tail L (Some me) m)
      | Some pred \<Rightarrow> (At L me (SetLocked pred), store_tail L (Some me) m))"
| "mcs_lock_acquire L me (SetLocked pred) m = (At L me (LinkPred pred), store_locked me 1 m)"
| "mcs_lock_acquire L me (LinkPred pred) m = (At L me Spin, store_next pred (Some me) m)"
| "mcs_lock_acquire L me Spin m = (if locked_of m me \<noteq> 0 then At L me Spin else Out, m)"
| "mcs_lock_acquire L me p m = mcs_bind_init L me p m"

fun mcs_lock_release :: "u32 \<Rightarrow> node_ptr \<Rightarrow> place \<Rightarrow> mcs_mem \<Rightarrow> mcs_pc \<times> mcs_mem" where
  "mcs_lock_release L me RelNext m =
     (case next_of m me of None \<Rightarrow> At L me RelCas | Some succ \<Rightarrow> At L me (Handoff succ), m)"
| "mcs_lock_release L me RelCas m =
     (if tail m L = Some me then (At L me Unbind, store_tail L None m) else (At L me RelWait, m))"
| "mcs_lock_release L me RelWait m =
     (case next_of m me of None \<Rightarrow> At L me RelWait | Some succ \<Rightarrow> At L me (Handoff succ), m)"
| "mcs_lock_release L me (Handoff succ) m = (At L me Unbind, store_locked succ 0 m)"
| "mcs_lock_release L me Unbind m = (Out, mcs_bind_release_slot me m)"
| "mcs_lock_release L me p m = (At L me p, m)"

text \<open>Which of the calls a place belongs to; \<open>Unbind\<close> is the same call in both.\<close>

fun releasing :: "place \<Rightarrow> bool" where
  "releasing RelNext \<longleftrightarrow> True"
| "releasing RelCas \<longleftrightarrow> True"
| "releasing RelWait \<longleftrightarrow> True"
| "releasing (Handoff s) \<longleftrightarrow> True"
| "releasing Unbind \<longleftrightarrow> True"
| "releasing _ \<longleftrightarrow> False"

fun trying :: "place \<Rightarrow> bool" where
  "trying (BindNext c) \<longleftrightarrow> c = TryAcquire"
| "trying (BindLocked c) \<longleftrightarrow> c = TryAcquire"
| "trying (MeNext c) \<longleftrightarrow> c = TryAcquire"
| "trying TryLocked \<longleftrightarrow> True"
| "trying TryCas \<longleftrightarrow> True"
| "trying _ \<longleftrightarrow> False"

definition mcs_access :: "u32 \<Rightarrow> node_ptr \<Rightarrow> place \<Rightarrow> mcs_mem \<Rightarrow> mcs_pc \<times> mcs_mem" where
  "mcs_access L me p m =
     (if releasing p then mcs_lock_release L me p m
      else if trying p then mcs_lock_try_acquire L me p m
      else mcs_lock_acquire L me p m)"

definition mcs_release_call :: "nat \<Rightarrow> u32 \<Rightarrow> mcs_mem \<Rightarrow> mcs_pc" where
  "mcs_release_call h L m =
     (case mcs_bind_find h L m of
        Slot i \<Rightarrow> At L (Binding h i) RelNext | NoSlot \<Rightarrow> Out | OutOfTable \<Rightarrow> Undef)"

section \<open>Any number of harts\<close>

text \<open>
  \<open>held\<close> are the locks a hart has been given and not begun to release; \<open>waiting\<close> are the nodes
  in the order in which they reached the tail of a lock, the first being served. Both observe the run.
\<close>

record mcs_sys =
  mmem :: mcs_mem
  mpc :: "nat \<Rightarrow> mcs_pc"
  held :: "nat \<Rightarrow> u32 set"
  waiting :: "u32 \<Rightarrow> node_ptr list"

fun waiting_after :: "u32 \<Rightarrow> node_ptr \<Rightarrow> place \<Rightarrow> mcs_mem \<Rightarrow> node_ptr list \<Rightarrow> node_ptr list" where
  "waiting_after L me Exchange m q = q @ [me]"
| "waiting_after L me TryCas m q = (if tail m L = None then q @ [me] else q)"
| "waiting_after L me RelCas m q = (if tail m L = Some me then tl q else q)"
| "waiting_after L me (Handoff s) m q = tl q"
| "waiting_after L me p m q = q"

definition mcs_advance :: "nat \<Rightarrow> u32 \<Rightarrow> node_ptr \<Rightarrow> place \<Rightarrow> mcs_sys \<Rightarrow> mcs_sys" where
  "mcs_advance h L me p s = (case mcs_access L me p (mmem s) of (pc, m) \<Rightarrow>
     s\<lparr>mmem := m, mpc := (mpc s)(h := pc),
       held := (if pc = Out \<and> p \<noteq> Unbind then (held s)(h := insert L (held s h)) else held s),
       waiting := (waiting s)(L := waiting_after L me p (mmem s) (waiting s L))\<rparr>)"

inductive mcs_step :: "nat \<Rightarrow> mcs_sys \<Rightarrow> mcs_sys \<Rightarrow> bool" for n where
  mcs_acquire: "h < n \<Longrightarrow> mpc s h = Out \<Longrightarrow> L \<notin> held s h \<Longrightarrow>
     mcs_bind_acquire_slot h c L (mmem s) = (pc, m) \<Longrightarrow>
     mcs_step n s (s\<lparr>mmem := m, mpc := (mpc s)(h := pc)\<rparr>)"
| mcs_seek: "h < n \<Longrightarrow> mpc s h = Seek c L \<Longrightarrow>
     mcs_bind_acquire_slot h c L (mmem s) = (pc, m) \<Longrightarrow>
     mcs_step n s (s\<lparr>mmem := m, mpc := (mpc s)(h := pc)\<rparr>)"
| mcs_release: "h < n \<Longrightarrow> mpc s h = Out \<Longrightarrow>
     mcs_step n s (s\<lparr>mpc := (mpc s)(h := mcs_release_call h L (mmem s)),
       held := (held s)(h := held s h - {L})\<rparr>)"
| mcs_moves: "h < n \<Longrightarrow> mpc s h = At L me p \<Longrightarrow> mcs_step n s (mcs_advance h L me p s)"

inductive_cases mcs_stepE: "mcs_step n s s'"

definition mcs_start :: "mcs_sys \<Rightarrow> bool" where
  "mcs_start s \<longleftrightarrow> (\<forall>L. tail (mmem s) L = None \<and> waiting s L = []) \<and>
     (\<forall>b. \<not> in_use (mcs_bindings (mmem s) b)) \<and> (\<forall>h. mpc s h = Out \<and> held s h = {})"

section \<open>The protocol of one lock\<close>

text \<open>
  What a node is used for, and the invariant of the queue of one lock in terms of the tail, the
  two fields of the nodes and their use: links are set behind nodes that have been linked, a waiting
  node is locked, and the first node is the only one that may go on.
\<close>

datatype status = Free | Taken | Busy place

definition link_ok where
  "link_ok nx lk st a b \<longleftrightarrow>
     st b = Busy (SetLocked a) \<and> nx a = None \<or>
     st b = Busy (LinkPred a) \<and> lk b \<noteq> (0 :: u32) \<and> nx a = None \<or>
     st b = Busy Spin \<and> lk b \<noteq> 0 \<and> nx a = Some (b :: node_ptr)"

definition head_ok where
  "head_ok nx lk st a r \<longleftrightarrow>
     st a = Taken \<or> st a = Busy Spin \<and> lk a = (0 :: u32) \<or> st a = Busy RelNext \<or> st a = Busy RelCas \<or>
     st a = Busy RelWait \<and> r \<noteq> [] \<or>
     (\<exists>b :: node_ptr. r \<noteq> [] \<and> b = hd r \<and> st a = Busy (Handoff b) \<and> nx a = Some b)"

definition queue_inv :: "node_ptr list \<Rightarrow> node_ptr option \<Rightarrow> (node_ptr \<Rightarrow> node_ptr option) \<Rightarrow>
    (node_ptr \<Rightarrow> u32) \<Rightarrow> (node_ptr \<Rightarrow> status) \<Rightarrow> bool" where
  "queue_inv q t nx lk st \<longleftrightarrow> distinct q \<and> t = (if q = [] then None else Some (last q)) \<and>
     (q \<noteq> [] \<longrightarrow> nx (last q) = None \<and> head_ok nx lk st (hd q) (tl q)) \<and>
     successively (link_ok nx lk st) q"

lemma queue_inv_empty [simp]: "queue_inv [] t nx lk st \<longleftrightarrow> t = None"
  by (simp add: queue_inv_def)

lemma queue_inv_cong:
  assumes "queue_inv q t nx lk st" "\<And>n. n \<in> set q \<Longrightarrow> nx' n = nx n \<and> lk' n = lk n \<and> st' n = st n"
  shows "queue_inv q t nx' lk' st'"
proof -
  have "link_ok nx' lk' st' a b = link_ok nx lk st a b" if "a \<in> set q" "b \<in> set q" for a b
    using that assms(2) by (simp add: link_ok_def)
  then have "successively (link_ok nx' lk' st') q = successively (link_ok nx lk st) q"
    by (intro successively_cong) auto
  then show ?thesis using assms by (cases q) (auto simp: queue_inv_def head_ok_def)
qed

lemma waits_not_first:
  assumes "queue_inv q t nx lk st" "n \<in> set q" "\<exists>p. st n = Busy (SetLocked p) \<or> st n = Busy (LinkPred p)"
  shows "\<exists>xs a ys. q = xs @ a # n # ys \<and> (st n = Busy (SetLocked a) \<or> st n = Busy (LinkPred a))"
proof -
  obtain us vs where q: "q = us @ n # vs" using assms(2) by (meson split_list)
  have "us \<noteq> []" using assms(1,3) by (auto simp: queue_inv_def head_ok_def q)
  then obtain xs a where us: "us = xs @ [a]" by (metis rev_exhaust)
  have "link_ok nx lk st a n" using assms(1) by (simp add: queue_inv_def q us successively_append_iff)
  then show ?thesis using q us assms(3) by (auto simp: link_ok_def)
qed

lemma first_of_queue:
  assumes "queue_inv q t nx lk st" "n \<in> set q"
    "st n = Taken \<or> (\<exists>p. st n = Busy p \<and> releasing p) \<or> st n = Busy Spin \<and> lk n = 0"
  shows "\<exists>r. q = n # r"
proof -
  obtain us vs where q: "q = us @ n # vs" using assms(2) by (meson split_list)
  have "us = []"
  proof (rule ccontr)
    assume "us \<noteq> []"
    then obtain xs a where us: "us = xs @ [a]" by (metis rev_exhaust)
    have "link_ok nx lk st a n" using assms(1) by (simp add: queue_inv_def q us successively_append_iff)
    then show False using assms(3) by (auto simp: link_ok_def)
  qed
  then show ?thesis using q by simp
qed

lemma queue_first:
  "queue_inv (a # r) t nx lk st \<longleftrightarrow> a \<notin> set r \<and> distinct r \<and> t = Some (last (a # r)) \<and>
     nx (last (a # r)) = None \<and> head_ok nx lk st a r \<and> successively (link_ok nx lk st) (a # r)"
  by (auto simp: queue_inv_def)

lemma last_in: "last (a # r) = a \<or> last (a # r) \<in> set r"
  by simp

text \<open>The steps of the protocol.\<close>

lemma queue_enter:
  assumes "queue_inv q t nx lk st" "n \<notin> set q" "nx n = None"
    "\<And>m. m \<noteq> n \<Longrightarrow> st' m = st m" "st' n = (case t of None \<Rightarrow> Taken | Some a \<Rightarrow> Busy (SetLocked a))"
  shows "queue_inv (q @ [n]) (Some n) nx lk st'"
proof -
  have "queue_inv q t nx lk st'"
    by (rule queue_inv_cong [OF assms(1)]) (metis assms(2,4))
  then show ?thesis
    using assms(2,3,5)
    by (cases q) (auto simp: queue_inv_def head_ok_def link_ok_def successively_append_iff successively_Cons)
qed

lemma queue_set_locked:
  assumes q: "queue_inv q t nx lk st" "n \<in> set q" "st n = Busy (SetLocked a)"
    and st': "\<And>m. m \<noteq> n \<Longrightarrow> st' m = st m" "st' n = Busy (LinkPred a)"
  shows "queue_inv q t nx (lk(n := 1)) st'"
proof -
  have "hd q \<noteq> n" using q by (auto simp: queue_inv_def head_ok_def)
  moreover have "successively (link_ok nx (lk(n := 1)) st') q"
  proof (rule successively_mono)
    show "successively (link_ok nx lk st) q" using q(1) by (simp add: queue_inv_def)
    show "link_ok nx (lk(n := 1)) st' b c" if "link_ok nx lk st b c" for b c
      using that q(3) st' by (cases "c = n") (auto simp: link_ok_def)
  qed
  ultimately show ?thesis using q(1) st' by (auto simp: queue_inv_def head_ok_def)
qed

lemma queue_link:
  assumes q: "queue_inv q t nx lk st" "n \<in> set q" "st n = Busy (LinkPred a)"
    and st': "\<And>m. m \<noteq> n \<Longrightarrow> st' m = st m" "st' n = Busy Spin"
  shows "a \<in> set q" "queue_inv q t (nx(a := Some n)) lk st'"
proof -
  obtain xs ys where s: "q = xs @ a # n # ys" using waits_not_first [OF q(1,2)] q(3) by auto
  then show "a \<in> set q" by simp
  have d: "distinct q" using q(1) by (simp add: queue_inv_def)
  have "nx a = None" using q(1,3) by (auto simp: s queue_inv_def successively_append_iff link_ok_def)
  moreover have "hd q \<noteq> n" "last q \<noteq> a" using d by (auto simp: s hd_append)
  moreover have "successively (link_ok (nx(a := Some n)) lk st') q"
    unfolding successively_conv_nth
  proof (intro allI impI)
    fix i assume i: "Suc i < length q"
    have l: "link_ok nx lk st (q ! i) (q ! Suc i)"
      using q(1) i by (simp add: queue_inv_def successively_conv_nth)
    have k: "q ! length xs = a" "q ! Suc (length xs) = n" "Suc (length xs) < length q"
      by (simp_all add: s nth_append)
    have "q ! i = a \<longleftrightarrow> i = length xs" "q ! Suc i = n \<longleftrightarrow> i = length xs"
      using d i k nth_eq_iff_index_eq [of q i "length xs"] nth_eq_iff_index_eq [of q "Suc i" "Suc (length xs)"]
      by auto
    then show "link_ok (nx(a := Some n)) lk st' (q ! i) (q ! Suc i)"
      using l q(3) st' by (cases "i = length xs") (auto simp: link_ok_def)
  qed
  ultimately show "queue_inv q t (nx(a := Some n)) lk st'"
    using q(1) st' by (auto simp: queue_inv_def head_ok_def)
qed

text \<open>The steps of the first node.\<close>

lemma chain_of_first:
  assumes "n \<notin> set r" "\<And>m. m \<noteq> n \<Longrightarrow> lk' m = lk m" "\<And>m. m \<noteq> n \<Longrightarrow> st' m = st m"
  shows "successively (link_ok nx lk' st') (n # r) = successively (link_ok nx lk st) (n # r)"
proof -
  have *: "link_ok nx lk' st' b c = link_ok nx lk st b c" if "c \<noteq> n" for b c
    using assms(2,3) that by (simp add: link_ok_def)
  have "successively (link_ok nx lk' st') r = successively (link_ok nx lk st) r"
    by (rule successively_cong [OF _ refl]) (metis assms(1) *)
  moreover have "link_ok nx lk' st' n (hd r) = link_ok nx lk st n (hd r)" if "r \<noteq> []"
    using assms(1) that by (intro *) auto
  ultimately show ?thesis by (cases "r = []") (simp_all add: successively_Cons)
qed

lemma queue_first_moves:
  assumes q: "queue_inv q t nx lk st" "n \<in> set q"
    and st': "\<And>m. m \<noteq> n \<Longrightarrow> st' m = st m"
    and move: "st n = Busy Spin \<and> lk n = 0 \<and> st' n = Taken \<or>
      st n = Taken \<and> st' n = Busy RelNext \<or>
      st n = Busy RelNext \<and> nx n = None \<and> st' n = Busy RelCas \<or>
      st n = Busy RelCas \<and> t \<noteq> Some n \<and> st' n = Busy RelWait \<or>
      (st n = Busy RelNext \<or> st n = Busy RelWait) \<and> (\<exists>b. nx n = Some b \<and> st' n = Busy (Handoff b))"
  shows "queue_inv q t nx lk st'"
proof -
  obtain r where r: "q = n # r" using first_of_queue [OF q] move by fastforce
  have i: "n \<notin> set r" "successively (link_ok nx lk st) (n # r)" "t = Some (last q)" "nx (last q) = None"
    using q(1) by (auto simp: r queue_first)
  have "successively (link_ok nx lk st') q"
    unfolding r using i(2) chain_of_first [of n r lk lk st' st nx] i(1) st' by simp
  moreover have "head_ok nx lk st' n r"
    using move i by (cases r) (auto simp: r head_ok_def link_ok_def)
  ultimately show ?thesis using q(1) by (simp add: r queue_first)
qed

lemma queue_leaves:
  assumes q: "queue_inv q t nx lk st" "n \<in> set q" "st n = Busy RelCas" "t = Some n"
  shows "q = [n]"
proof -
  obtain r where r: "q = n # r" using first_of_queue [OF q(1,2)] q(3) by fastforce
  then show ?thesis using q(1,4) by (cases r) (auto simp: queue_first dest: last_in_set split: if_splits)
qed

lemma queue_hands_off:
  assumes q: "queue_inv q t nx lk st" "n \<in> set q" "st n = Busy (Handoff b)"
    and st': "\<And>m. m \<noteq> n \<Longrightarrow> st' m = st m"
  shows "b \<in> set q" "b \<noteq> n" "queue_inv (tl q) t nx (lk(b := 0)) st'"
proof -
  obtain r where r: "q = n # r" using first_of_queue [OF q(1,2)] q(3) by fastforce
  then obtain r' where r': "q = n # b # r'" using q(1,3) by (cases r) (auto simp: queue_first head_ok_def)
  have d: "distinct q" and b: "st b = Busy Spin" and c: "successively (link_ok nx lk st) (b # r')"
    using q(1) q(3) by (auto simp: r' queue_inv_def head_ok_def link_ok_def)
  show "b \<in> set q" "b \<noteq> n" using d r' by auto
  have "successively (link_ok nx lk st') (b # r')"
    by (rule successively_mono [OF c]) (metis d distinct.simps(2) link_ok_def r' st')
  then have "successively (link_ok nx (lk(b := 0)) st') (b # r')"
    using chain_of_first [of b r' "lk(b := 0)" lk st' st' nx] d by (simp add: r')
  then show "queue_inv (tl q) t nx (lk(b := 0)) st'"
    using q(1) d b st' by (auto simp: r' queue_inv_def head_ok_def)
qed

end
