(* ===== verification/McsSystem.thy ===== *)
theory McsSystem
  imports McsLock
begin

text \<open>
  The queue lock used by any number of harts on any number of locks: its invariant, and what follows
  for callers: exclusion in the order of arrival, no lost hand-over, and the harts that the table
  of bindings does not serve.
\<close>

section \<open>The invariant of the system\<close>

definition used :: "mcs_sys \<Rightarrow> node_ptr \<Rightarrow> bool" where
  "used s b = in_use (mcs_bindings (mmem s) b)"

definition lock_of :: "mcs_sys \<Rightarrow> node_ptr \<Rightarrow> u32" where
  "lock_of s b = lock (mcs_bindings (mmem s) b)"

definition status_of :: "mcs_sys \<Rightarrow> node_ptr \<Rightarrow> status" where
  "status_of s b = (case mpc s (hart b) of
     At L me p \<Rightarrow> if me = b then Busy p else if used s b then Taken else Free
   | _ \<Rightarrow> if used s b then Taken else Free)"

fun queued :: "place \<Rightarrow> bool" where
  "queued (SetLocked a) \<longleftrightarrow> True"
| "queued (LinkPred a) \<longleftrightarrow> True"
| "queued Spin \<longleftrightarrow> True"
| "queued RelNext \<longleftrightarrow> True"
| "queued RelCas \<longleftrightarrow> True"
| "queued RelWait \<longleftrightarrow> True"
| "queued (Handoff b) \<longleftrightarrow> True"
| "queued _ \<longleftrightarrow> False"

text \<open>
  Every queue obeys the protocol and consists of bindings for its lock; a hart has one binding
  per lock, taken exactly for the locks it holds; the node of a running call is in the queue from the
  exchange of the tail to the hand-over, and its link is empty when it enters.
\<close>

definition mcs_inv :: "mcs_sys \<Rightarrow> bool" where
  "mcs_inv s \<longleftrightarrow>
     (\<forall>L. queue_inv (waiting s L) (tail (mmem s) L) (next_of (mmem s)) (locked_of (mmem s)) (status_of s)) \<and>
     (\<forall>L. \<forall>b\<in>set (waiting s L). used s b \<and> lock_of s b = L) \<and>
     (\<forall>b. used s b \<longrightarrow> hart b \<le> slot b \<and> slot b < MCS_TLS_SLOTS) \<and>
     (\<forall>b c. used s b \<longrightarrow> used s c \<longrightarrow> hart b = hart c \<longrightarrow> lock_of s b = lock_of s c \<longrightarrow> b = c) \<and>
     (\<forall>b. status_of s b = Taken \<longrightarrow> b \<in> set (waiting s (lock_of s b)) \<and> lock_of s b \<in> held s (hart b)) \<and>
     (\<forall>h. \<forall>L\<in>held s h. \<exists>b. hart b = h \<and> lock_of s b = L \<and> status_of s b = Taken) \<and>
     (\<forall>h L me p. mpc s h = At L me p \<longrightarrow> hart me = h \<and> used s me \<and> lock_of s me = L \<and>
        (me \<in> set (waiting s L) \<longleftrightarrow> queued p) \<and>
        (p \<in> {TryLocked, TryCas, Exchange} \<longrightarrow> next_of (mmem s) me = None)) \<and>
     (\<forall>h c L. mpc s h = Seek c L \<longrightarrow> L \<notin> held s h)"

lemma mcs_inv_start: "mcs_start s \<Longrightarrow> mcs_inv s"
  by (auto simp: mcs_start_def mcs_inv_def used_def status_of_def)

lemma mcs_invD:
  assumes "mcs_inv s"
  shows "queue_inv (waiting s L) (tail (mmem s) L) (next_of (mmem s)) (locked_of (mmem s)) (status_of s)"
    and "b \<in> set (waiting s L) \<Longrightarrow> used s b" and "b \<in> set (waiting s L) \<Longrightarrow> lock_of s b = L"
    and "used s b \<Longrightarrow> hart b \<le> slot b" and "used s b \<Longrightarrow> slot b < MCS_TLS_SLOTS"
    and "used s b \<Longrightarrow> used s c \<Longrightarrow> hart b = hart c \<Longrightarrow> lock_of s b = lock_of s c \<Longrightarrow> b = c"
    and "status_of s b = Taken \<Longrightarrow> b \<in> set (waiting s (lock_of s b))"
    and "status_of s b = Taken \<Longrightarrow> lock_of s b \<in> held s (hart b)"
    and "L \<in> held s h \<Longrightarrow> \<exists>b. hart b = h \<and> lock_of s b = L \<and> status_of s b = Taken"
    and "mpc s h = At L b p \<Longrightarrow> hart b = h" and "mpc s h = At L b p \<Longrightarrow> used s b"
    and "mpc s h = At L b p \<Longrightarrow> lock_of s b = L"
    and "mpc s h = At L b p \<Longrightarrow> b \<in> set (waiting s L) \<longleftrightarrow> queued p"
    and "mpc s h = At L b p \<Longrightarrow> p \<in> {TryLocked, TryCas, Exchange} \<Longrightarrow> next_of (mmem s) b = None"
    and "mpc s h = Seek d L \<Longrightarrow> L \<notin> held s h"
  using assms unfolding mcs_inv_def by blast+

lemma mcs_invI:
  assumes "\<And>L. queue_inv (waiting s L) (tail (mmem s) L) (next_of (mmem s)) (locked_of (mmem s)) (status_of s)"
    and "\<And>L b. b \<in> set (waiting s L) \<Longrightarrow> used s b \<and> lock_of s b = L"
    and "\<And>b. used s b \<Longrightarrow> hart b \<le> slot b \<and> slot b < MCS_TLS_SLOTS"
    and "\<And>b c. used s b \<Longrightarrow> used s c \<Longrightarrow> hart b = hart c \<Longrightarrow> lock_of s b = lock_of s c \<Longrightarrow> b = c"
    and "\<And>b. status_of s b = Taken \<Longrightarrow> b \<in> set (waiting s (lock_of s b)) \<and> lock_of s b \<in> held s (hart b)"
    and "\<And>L h. L \<in> held s h \<Longrightarrow> \<exists>b. hart b = h \<and> lock_of s b = L \<and> status_of s b = Taken"
    and "\<And>h L b p. mpc s h = At L b p \<Longrightarrow> hart b = h \<and> used s b \<and> lock_of s b = L \<and>
      (b \<in> set (waiting s L) \<longleftrightarrow> queued p) \<and>
      (p \<in> {TryLocked, TryCas, Exchange} \<longrightarrow> next_of (mmem s) b = None)"
    and "\<And>h L d. mpc s h = Seek d L \<Longrightarrow> L \<notin> held s h"
  shows "mcs_inv s"
  using assms unfolding mcs_inv_def by blast

text \<open>The same with the parts of the state given.\<close>

lemma mcs_inv_parts:
  assumes "waiting s = W" "tail (mmem s) = T" "next_of (mmem s) = N" "locked_of (mmem s) = K"
    "\<And>b. used s b = U b" "\<And>b. lock_of s b = LO b" "\<And>b. status_of s b = ST b"
    "\<And>h. held s h = H h" "\<And>h. mpc s h = P h"
    and "\<And>L. queue_inv (W L) (T L) N K ST"
    and "\<And>L b. b \<in> set (W L) \<Longrightarrow> U b \<and> LO b = L"
    and "\<And>b. U b \<Longrightarrow> hart b \<le> slot b \<and> slot b < MCS_TLS_SLOTS"
    and "\<And>b c. U b \<Longrightarrow> U c \<Longrightarrow> hart b = hart c \<Longrightarrow> LO b = LO c \<Longrightarrow> b = c"
    and "\<And>b. ST b = Taken \<Longrightarrow> b \<in> set (W (LO b)) \<and> LO b \<in> H (hart b)"
    and "\<And>L h. L \<in> H h \<Longrightarrow> \<exists>b. hart b = h \<and> LO b = L \<and> ST b = Taken"
    and "\<And>h L b p. P h = At L b p \<Longrightarrow> hart b = h \<and> U b \<and> LO b = L \<and> (b \<in> set (W L) \<longleftrightarrow> queued p) \<and>
      (p \<in> {TryLocked, TryCas, Exchange} \<longrightarrow> N b = None)"
    and "\<And>h L d. P h = Seek d L \<Longrightarrow> L \<notin> H h"
  shows "mcs_inv s"
proof -
  have [simp]: "used s = U" "lock_of s = LO" "status_of s = ST" "held s = H" "mpc s = P"
    using assms(5-9) by auto
  show ?thesis using assms(1-4,10-) by (intro mcs_invI) simp_all
qed

text \<open>What a step of a call has to show: its effect on the queue of its own lock.\<close>

lemma mcs_inv_advance:
  assumes inv: "mcs_inv s" and pc: "mpc s h = At L me p" "pc = Out \<or> pc = At L me p'"
    and s': "s' = s\<lparr>mmem := m, mpc := (mpc s)(h := pc),
      held := (if pc = Out then (held s)(h := insert L (held s h)) else held s),
      waiting := (waiting s)(L := q)\<rparr>"
    and use: "\<And>b. in_use (mcs_bindings m b) = used s b" "\<And>b. lock (mcs_bindings m b) = lock_of s b"
    and tails: "\<And>K. K \<noteq> L \<Longrightarrow> tail m K = tail (mmem s) K"
    and frame: "\<And>b. b \<notin> set (waiting s L) \<Longrightarrow> b \<noteq> me \<Longrightarrow>
      next_of m b = next_of (mmem s) b \<and> locked_of m b = locked_of (mmem s) b"
    and queue: "(\<And>b. b \<noteq> me \<Longrightarrow> status_of s' b = status_of s b) \<Longrightarrow>
      status_of s' me = (if pc = Out then Taken else Busy p') \<Longrightarrow>
      queue_inv q (tail m L) (next_of m) (locked_of m) (status_of s')"
    and q: "\<And>b. b \<noteq> me \<Longrightarrow> b \<in> set q \<longleftrightarrow> b \<in> set (waiting s L)" "me \<in> set q \<longleftrightarrow> pc = Out \<or> queued p'"
    and next_None: "p' \<in> {TryLocked, TryCas, Exchange} \<Longrightarrow> next_of m me = None"
  shows "mcs_inv s'"
proof -
  have me: "hart me = h" "used s me" "lock_of s me = L" using mcs_invD(10-12) [OF inv pc(1)] by auto
  have fields: "used s' b = used s b" "lock_of s' b = lock_of s b" for b
    using use by (simp_all add: s' used_def lock_of_def)
  have st: "status_of s' b = status_of s b" if "b \<noteq> me" for b
    using that pc fields(1) [of b] by (auto simp: status_of_def s' me split: mcs_pc.splits)
  have st_me: "status_of s' me = (if pc = Out then Taken else Busy p')"
    using pc(2) fields(1) [of me] me by (auto simp: status_of_def s')
  have in_q: "b \<in> set (waiting s' K) \<longleftrightarrow> (if b = me \<and> K = L then pc = Out \<or> queued p' else b \<in> set (waiting s K))"
    for b K using q by (auto simp: s')
  have mem: "mmem s' = m" by (simp add: s')
  have held: "K \<in> held s' g \<longleftrightarrow> K \<in> held s g \<or> g = h \<and> K = L \<and> pc = Out" for K g by (auto simp: s')
  show ?thesis
  proof (rule mcs_invI)
    fix K
    show "queue_inv (waiting s' K) (tail (mmem s') K) (next_of (mmem s')) (locked_of (mmem s')) (status_of s')"
    proof (cases "K = L")
      case True then show ?thesis using queue [OF st st_me] by (simp add: s')
    next
      case False
      have "b \<notin> set (waiting s L) \<and> b \<noteq> me" if "b \<in> set (waiting s K)" for b
        using that False mcs_invD(3) [OF inv] me by metis
      then have "queue_inv (waiting s K) (tail (mmem s) K) (next_of m) (locked_of m) (status_of s')"
        by (intro queue_inv_cong [OF mcs_invD(1) [OF inv]]) (metis frame st)
      then show ?thesis using False tails by (simp add: s')
    qed
  next
    fix K b assume "b \<in> set (waiting s' K)"
    then show "used s' b \<and> lock_of s' b = K"
      using mcs_invD(2,3) [OF inv] me by (auto simp: in_q fields split: if_splits)
  next
    fix b assume "used s' b"
    then show "hart b \<le> slot b \<and> slot b < MCS_TLS_SLOTS" using mcs_invD(4,5) [OF inv] by (simp add: fields)
  next
    fix b c assume "used s' b" "used s' c" "hart b = hart c" "lock_of s' b = lock_of s' c"
    then show "b = c" using mcs_invD(6) [OF inv] by (simp add: fields)
  next
    fix b assume "status_of s' b = Taken"
    then show "b \<in> set (waiting s' (lock_of s' b)) \<and> lock_of s' b \<in> held s' (hart b)"
      using mcs_invD(7,8) [OF inv, of b] st [of b] st_me me
      by (cases "b = me") (auto simp: in_q fields held split: if_splits)
  next
    fix K g assume K: "K \<in> held s' g"
    show "\<exists>b. hart b = g \<and> lock_of s' b = K \<and> status_of s' b = Taken"
    proof (cases "g = h \<and> K = L \<and> pc = Out")
      case True then show ?thesis using me st_me fields by metis
    next
      case False
      then have "K \<in> held s g" using K by (auto simp: held)
      then obtain b where b: "hart b = g" "lock_of s b = K" "status_of s b = Taken"
        using mcs_invD(9) [OF inv] by blast
      then have "b \<noteq> me" using pc(1) me by (auto simp: status_of_def)
      then show ?thesis using b st fields by metis
    qed
  next
    fix g K b p0 assume g: "mpc s' g = At K b p0"
    show "hart b = g \<and> used s' b \<and> lock_of s' b = K \<and> (b \<in> set (waiting s' K) \<longleftrightarrow> queued p0) \<and>
      (p0 \<in> {TryLocked, TryCas, Exchange} \<longrightarrow> next_of (mmem s') b = None)"
    proof (cases "g = h")
      case True
      then have "K = L" "b = me" "p0 = p'" "pc \<noteq> Out" using g pc(2) by (auto simp: s')
      then show ?thesis using me True next_None q(2) mem unfolding fields in_q by auto
    next
      case False
      then have g': "mpc s g = At K b p0" using g by (simp add: s')
      note B = mcs_invD(10-14) [OF inv g']
      have "b \<noteq> me" using B(1) me(1) False by auto
      moreover have "next_of m b = None" if "p0 \<in> {TryLocked, TryCas, Exchange}"
      proof -
        have "b \<notin> set (waiting s L)" using B(3,4) mcs_invD(3) [OF inv, of b L] that by auto
        then show ?thesis using frame \<open>b \<noteq> me\<close> B(5) [OF that] by simp
      qed
      ultimately show ?thesis using B mem unfolding fields in_q by auto
    qed
  next
    fix g K d assume "mpc s' g = Seek d K"
    then show "K \<notin> held s' g" using mcs_invD(15) [OF inv] pc(2) by (auto simp: s' split: if_splits)
  qed
qed


lemma store_simps [simp]:
  "next_of (store_next a v m) = (next_of m)(a := v)" "locked_of (store_next a v m) = locked_of m"
  "next_of (store_locked a w m) = next_of m" "locked_of (store_locked a w m) = (locked_of m)(a := w)"
  "next_of (store_tail L v m) = next_of m" "locked_of (store_tail L v m) = locked_of m"
  "tail (store_next a v m) = tail m" "tail (store_locked a w m) = tail m"
  "tail (store_tail L v m) = (tail m)(L := v)"
  "in_use (mcs_bindings (store_next a v m) b) = in_use (mcs_bindings m b)"
  "in_use (mcs_bindings (store_locked a w m) b) = in_use (mcs_bindings m b)"
  "in_use (mcs_bindings (store_tail L v m) b) = in_use (mcs_bindings m b)"
  "lock (mcs_bindings (store_next a v m) b) = lock (mcs_bindings m b)"
  "lock (mcs_bindings (store_locked a w m) b) = lock (mcs_bindings m b)"
  "lock (mcs_bindings (store_tail L v m) b) = lock (mcs_bindings m b)"
  by (auto simp: store_next_def store_locked_def store_tail_def next_of_def locked_of_def Let_def)

lemma mcs_inv_access:
  assumes inv: "mcs_inv s" and pc: "mpc s h = At L me p"
    and acc: "mcs_access L me p (mmem s) = (pc, m)" "pc = Out \<or> pc = At L me p'" "p \<noteq> Unbind"
    and use: "\<And>b. in_use (mcs_bindings m b) = in_use (mcs_bindings (mmem s) b)"
      "\<And>b. lock (mcs_bindings m b) = lock (mcs_bindings (mmem s) b)"
    and tails: "\<And>K. K \<noteq> L \<Longrightarrow> tail m K = tail (mmem s) K"
    and frame: "\<And>b. b \<notin> set (waiting s L) \<Longrightarrow> b \<noteq> me \<Longrightarrow>
      next_of m b = next_of (mmem s) b \<and> locked_of m b = locked_of (mmem s) b"
    and q: "waiting_after L me p (mmem s) (waiting s L) = q"
    and queue: "\<And>st. (\<And>b. b \<noteq> me \<Longrightarrow> st b = status_of s b) \<Longrightarrow>
      st me = (if pc = Out then Taken else Busy p') \<Longrightarrow> queue_inv q (tail m L) (next_of m) (locked_of m) st"
    and q_in: "\<And>b. b \<noteq> me \<Longrightarrow> b \<in> set q \<longleftrightarrow> b \<in> set (waiting s L)" "me \<in> set q \<longleftrightarrow> pc = Out \<or> queued p'"
    and next_None: "p' \<in> {TryLocked, TryCas, Exchange} \<Longrightarrow> next_of m me = None"
  shows "mcs_inv (mcs_advance h L me p s)"
proof (rule mcs_inv_advance [OF inv pc acc(2)])
  show "mcs_advance h L me p s = s\<lparr>mmem := m, mpc := (mpc s)(h := pc),
      held := (if pc = Out then (held s)(h := insert L (held s h)) else held s),
      waiting := (waiting s)(L := q)\<rparr>"
    using acc(3) by (simp add: mcs_advance_def acc(1) q)
qed (use use tails frame queue q_in next_None in \<open>auto simp: used_def lock_of_def\<close>)

lemma mcs_inv_moves:
  assumes inv: "mcs_inv s" and pc: "mpc s h = At L me p" and bound: "p \<noteq> Unbind"
  shows "mcs_inv (mcs_advance h L me p s)"
proof -
  let ?q = "waiting s L" and ?m = "mmem s" and ?st = "status_of s"
  note Q = mcs_invD(1) [OF inv, of L] and me = mcs_invD(11,13,14) [OF inv pc]
  have st: "?st me = Busy p" using pc mcs_invD(10) [OF inv pc] by (simp add: status_of_def)
  have tail: "tail ?m L = (if ?q = [] then None else Some (last ?q))" using Q by (simp add: queue_inv_def)
  note adv = mcs_inv_access [OF inv pc]
  have quiet: "queue_inv ?q (tail ?m L) nx lk st'"
    if "me \<notin> set ?q" "\<And>b. b \<noteq> me \<Longrightarrow> nx b = next_of ?m b \<and> lk b = locked_of ?m b \<and> st' b = ?st b" for nx lk st'
    by (rule queue_inv_cong [OF Q]) (metis that)
  have same: "queue_inv ?q (tail ?m L) (next_of ?m) (locked_of ?m) st'"
    if "\<And>b. b \<noteq> me \<Longrightarrow> st' b = ?st b" "st' me = Busy p" for st'
    by (rule queue_inv_cong [OF Q]) (metis that st)
  have first: "queue_inv ?q (tail ?m L) (next_of ?m) (locked_of ?m) st'"
    if "me \<in> set ?q" "\<And>b. b \<noteq> me \<Longrightarrow> st' b = ?st b"
      "p = Spin \<and> locked_of ?m me = 0 \<and> st' me = Taken \<or>
       p = RelNext \<and> next_of ?m me = None \<and> st' me = Busy RelCas \<or>
       p = RelCas \<and> tail ?m L \<noteq> Some me \<and> st' me = Busy RelWait \<or>
       (p = RelNext \<or> p = RelWait) \<and> (\<exists>b. next_of ?m me = Some b \<and> st' me = Busy (Handoff b))" for st'
    by (rule queue_first_moves [OF Q that(1,2)]) (use that(3) st in auto)
  note [simp] = mcs_access_def
  show ?thesis
  proof (cases p)
    case (BindNext c)
    show ?thesis
      by (rule adv [where pc = "At L me (BindLocked c)" and p' = "BindLocked c" and m = "store_next me None ?m"
          and q = ?q]) (use BindNext me in \<open>auto intro!: quiet\<close>)
  next
    case (BindLocked c)
    show ?thesis
      by (rule adv [where pc = "At L me (MeNext c)" and p' = "MeNext c" and m = "store_locked me 0 ?m"
          and q = ?q]) (use BindLocked me in \<open>auto intro!: quiet\<close>)
  next
    case (MeNext c)
    let ?p' = "if c = TryAcquire then TryLocked else Exchange"
    show ?thesis
      by (rule adv [where pc = "At L me ?p'" and p' = "?p'" and m = "store_next me None ?m" and q = ?q])
        (use MeNext me in \<open>auto intro!: quiet\<close>)
  next
    case TryLocked
    show ?thesis
      by (rule adv [where pc = "At L me TryCas" and p' = TryCas and m = "store_locked me 0 ?m" and q = ?q])
        (use TryLocked me in \<open>auto intro!: quiet\<close>)
  next
    case TryCas
    show ?thesis
    proof (cases "tail ?m L")
      case None
      show ?thesis
        by (rule adv [where pc = Out and p' = Unbind and m = "store_tail L (Some me) ?m" and q = "?q @ [me]"])
          (use TryCas None me in \<open>auto intro!: queue_enter [OF Q]\<close>)
    next
      case (Some a)
      show ?thesis
        by (rule adv [where pc = "At L me Unbind" and p' = Unbind and m = ?m and q = ?q])
          (use TryCas Some me in \<open>auto intro!: quiet [unfolded Some]\<close>)
    qed
  next
    case Exchange
    show ?thesis
    proof (cases "tail ?m L")
      case None
      show ?thesis
        by (rule adv [where pc = Out and p' = Unbind and m = "store_tail L (Some me) ?m" and q = "?q @ [me]"])
          (use Exchange None me in \<open>auto intro!: queue_enter [OF Q]\<close>)
    next
      case (Some a)
      show ?thesis
        by (rule adv [where pc = "At L me (SetLocked a)" and p' = "SetLocked a"
              and m = "store_tail L (Some me) ?m" and q = "?q @ [me]"])
          (use Exchange Some me in \<open>auto intro!: queue_enter [OF Q]\<close>)
    qed
  next
    case (SetLocked a)
    show ?thesis
      by (rule adv [where pc = "At L me (LinkPred a)" and p' = "LinkPred a" and m = "store_locked me 1 ?m"
          and q = ?q]) (use SetLocked me st in \<open>auto intro!: queue_set_locked [OF Q]\<close>)
  next
    case (LinkPred a)
    then have in_q: "me \<in> set ?q" and st_a: "?st me = Busy (LinkPred a)" using me st by auto
    have a: "a \<in> set ?q"
      by (rule queue_link(1) [OF Q in_q st_a, of "?st(me := Busy Spin)"]) auto
    show ?thesis
      by (rule adv [where pc = "At L me Spin" and p' = Spin and m = "store_next a (Some me) ?m" and q = ?q])
        (use LinkPred me in_q a in \<open>auto intro!: queue_link(2) [OF Q in_q st_a]\<close>)
  next
    case Spin
    show ?thesis
    proof (cases "locked_of ?m me = 0")
      case True
      show ?thesis
        by (rule adv [where pc = Out and p' = Unbind and m = ?m and q = ?q])
          (use Spin True me in \<open>auto intro!: first\<close>)
    next
      case False
      show ?thesis
        by (rule adv [where pc = "At L me Spin" and p' = Spin and m = ?m and q = ?q])
          (use Spin False me in \<open>auto intro!: same\<close>)
    qed
  next
    case RelNext
    let ?p' = "case next_of ?m me of None \<Rightarrow> RelCas | Some b \<Rightarrow> Handoff b"
    show ?thesis
      by (rule adv [where pc = "At L me ?p'" and p' = ?p' and m = ?m and q = ?q])
        (use RelNext me in \<open>auto intro!: first split: option.splits\<close>)
  next
    case RelCas
    show ?thesis
    proof (cases "tail ?m L = Some me")
      case True
      have "?q = [me]" using queue_leaves [OF Q] RelCas True me st by simp
      then show ?thesis
        by (intro adv [where pc = "At L me Unbind" and p' = Unbind and m = "store_tail L None ?m" and q = "[]"])
          (use RelCas True me in auto)
    next
      case False
      show ?thesis
        by (rule adv [where pc = "At L me RelWait" and p' = RelWait and m = ?m and q = ?q])
          (use RelCas False me in \<open>auto intro!: first\<close>)
    qed
  next
    case RelWait
    show ?thesis
    proof (cases "next_of ?m me")
      case None
      show ?thesis
        by (rule adv [where pc = "At L me RelWait" and p' = RelWait and m = ?m and q = ?q])
          (use RelWait None me in \<open>auto intro!: same\<close>)
    next
      case (Some b)
      show ?thesis
        by (rule adv [where pc = "At L me (Handoff b)" and p' = "Handoff b" and m = ?m and q = ?q])
          (use RelWait Some me in \<open>auto intro!: first\<close>)
    qed
  next
    case (Handoff b)
    then have in_q: "me \<in> set ?q" and st_b: "?st me = Busy (Handoff b)" using me st by auto
    obtain r where r: "?q = me # r" "me \<notin> set r"
      using first_of_queue [OF Q in_q] st_b Q by (fastforce simp: queue_first)
    have b: "b \<in> set r" using queue_hands_off(1,2) [OF Q in_q st_b, of ?st] r by auto
    have off: "queue_inv r (tail ?m L) (next_of ?m) ((locked_of ?m)(b := 0)) st'"
      if "\<And>c. c \<noteq> me \<Longrightarrow> st' c = ?st c" for st'
      using queue_hands_off(3) [OF Q in_q st_b, of st'] that r by simp
    show ?thesis
      by (rule adv [where pc = "At L me Unbind" and p' = Unbind and m = "store_locked b 0 ?m" and q = r])
        (use Handoff me r b in \<open>auto intro!: off\<close>)
  qed (use bound in simp)
qed

text \<open>A finished call gives its slot back.\<close>

lemma mcs_inv_unbind:
  assumes inv: "mcs_inv s" and pc: "mpc s h = At L me Unbind"
  shows "mcs_inv (mcs_advance h L me Unbind s)"
proof -
  let ?m = "mcs_bind_release_slot me (mmem s)"
  let ?s = "s\<lparr>mmem := ?m, mpc := (mpc s)(h := Out)\<rparr>"
  have s': "mcs_advance h L me Unbind s = ?s" by (simp add: mcs_advance_def mcs_access_def)
  have me: "hart me = h" "used s me" "lock_of s me = L" "me \<notin> set (waiting s L)"
    using mcs_invD(10-13) [OF inv pc] by auto
  have out: "b \<noteq> me" if "b \<in> set (waiting s K)" for b K using that me mcs_invD(3) [OF inv] by blast
  have fields: "used ?s b \<longleftrightarrow> b \<noteq> me \<and> used s b" "lock_of ?s b = (if b = me then 0 else lock_of s b)" for b
    by (auto simp: used_def lock_of_def mcs_bind_release_slot_def)
  have mem: "tail ?m = tail (mmem s)" "next_of ?m = next_of (mmem s)" "locked_of ?m = locked_of (mmem s)"
    by (auto simp: mcs_bind_release_slot_def next_of_def locked_of_def)
  have st: "status_of ?s b = (if b = me then Free else status_of s b)" for b
    using fields [of b] me(1) pc by (auto simp: status_of_def split: mcs_pc.splits)
  let ?ST = "\<lambda>b. if b = me then Free else status_of s b" and ?LO = "\<lambda>b. if b = me then 0 else lock_of s b"
  show ?thesis unfolding s'
  proof (rule mcs_inv_parts [where W = "waiting s" and T = "tail (mmem s)" and N = "next_of (mmem s)"
        and K = "locked_of (mmem s)" and U = "\<lambda>b. b \<noteq> me \<and> used s b" and LO = ?LO and ST = ?ST
        and H = "held s" and P = "(mpc s)(h := Out)"])
    show "queue_inv (waiting s K) (tail (mmem s) K) (next_of (mmem s)) (locked_of (mmem s)) ?ST" for K
      by (rule queue_inv_cong [OF mcs_invD(1) [OF inv]]) (use out in auto)
    show "(b \<noteq> me \<and> used s b) \<and> ?LO b = K" if "b \<in> set (waiting s K)" for K b
      using that mcs_invD(2,3) [OF inv] out by auto
    show "\<exists>b. hart b = g \<and> ?LO b = K \<and> ?ST b = Taken" if K: "K \<in> held s g" for K g
    proof -
      obtain b where b: "hart b = g" "lock_of s b = K" "status_of s b = Taken"
        using mcs_invD(9) [OF inv K] by blast
      moreover have "b \<noteq> me" using b(3) me(1) pc by (auto simp: status_of_def)
      ultimately show ?thesis by auto
    qed
    show "hart b = g \<and> (b \<noteq> me \<and> used s b) \<and> ?LO b = K \<and> (b \<in> set (waiting s K) \<longleftrightarrow> queued p) \<and>
        (p \<in> {TryLocked, TryCas, Exchange} \<longrightarrow> next_of (mmem s) b = None)"
      if "((mpc s)(h := Out)) g = At K b p" for g K b p
      using that mcs_invD(10-14) [OF inv, of g K b p] me(1) by (auto split: if_splits)
  qed (use mcs_invD(4-8,15) [OF inv] fields mem st in \<open>auto split: if_splits\<close>)
qed

text \<open>The search of a row, for a hart that the table has.\<close>

lemma row_search_hart:
  assumes "h < MCS_MAX_HARTS"
  shows "row_search h P = Slot i \<Longrightarrow> P i \<and> h \<le> i \<and> i < MCS_TLS_SLOTS"
    and "row_search h P = NoSlot \<Longrightarrow> h \<le> i \<Longrightarrow> i < MCS_TLS_SLOTS \<Longrightarrow> \<not> P i"
    and "row_search h P \<noteq> OutOfTable"
  using assms
  by (auto simp: row_search_def MCS_TLS_SLOTS_def find_Some_iff find_None_iff split: option.splits if_splits)

lemma mcs_inv_bind:
  assumes inv: "mcs_inv s" and h: "h < MCS_MAX_HARTS"
    and pc: "mpc s h = Out \<and> L \<notin> held s h \<or> mpc s h = Seek c L"
    and bind: "mcs_bind_acquire_slot h c L (mmem s) = (pc', m)"
  shows "mcs_inv (s\<lparr>mmem := m, mpc := (mpc s)(h := pc')\<rparr>)" (is "mcs_inv ?s")
proof -
  have idle: "status_of s b = (if used s b then Taken else Free)" if "hart b = h" for b
    using pc that by (auto simp: status_of_def)
  have L: "L \<notin> held s h" using pc mcs_invD(15) [OF inv] by blast
  show ?thesis
  proof (cases "mcs_bind_free_slot h (mmem s)")
    case NoSlot
    then have eq: "pc' = Seek c L" "m = mmem s" using bind by (simp_all add: mcs_bind_acquire_slot_def)
    have same: "used ?s = used s" "lock_of ?s = lock_of s" by (auto simp: eq used_def lock_of_def)
    have st: "status_of ?s = status_of s"
      using pc by (intro ext) (auto simp: status_of_def used_def eq split: mcs_pc.splits)
    have other: "waiting ?s = waiting s" "held ?s = held s" "mmem ?s = mmem s" 
        "mpc ?s g = (if g = h then Seek c L else mpc s g)" for g
      by (simp_all add: eq)
    show ?thesis
      by (rule mcs_invI; unfold other same st)
        (use mcs_invD(1-15) [OF inv] L in \<open>auto split: if_splits\<close>)
  next
    case (Slot i)
    let ?b = "Binding h i"
    have free: "\<not> used s ?b" "h \<le> i" "i < MCS_TLS_SLOTS"
      using row_search_hart(1) [OF h Slot [unfolded mcs_bind_free_slot_def]] by (auto simp: used_def)
    have eq: "pc' = At L ?b (BindNext c)" "m = (mmem s)\<lparr>mcs_bindings := (mcs_bindings (mmem s))
        (?b := (mcs_bindings (mmem s) ?b)\<lparr>in_use := True, lock := L\<rparr>)\<rparr>"
      using bind Slot by (simp_all add: mcs_bind_acquire_slot_def)
    have new: "b \<noteq> ?b" if "b \<in> set (waiting s K)" for b K using that free(1) mcs_invD(2) [OF inv] by blast
    have fields: "used ?s b \<longleftrightarrow> b = ?b \<or> used s b" "lock_of ?s b = (if b = ?b then L else lock_of s b)" for b
      by (simp_all add: eq used_def lock_of_def)
    have mem: "next_of m = next_of (mmem s)" "locked_of m = locked_of (mmem s)" "tail m = tail (mmem s)"
      by (auto simp: eq next_of_def locked_of_def)
    have st: "status_of ?s b = (if b = ?b then Busy (BindNext c) else status_of s b)" for b
      using fields [of b] idle [of b] by (auto simp: status_of_def eq split: mcs_pc.splits)
    let ?ST = "\<lambda>b. if b = ?b then Busy (BindNext c) else status_of s b"
      and ?LO = "\<lambda>b. if b = ?b then L else lock_of s b"
    have no_L: "lock_of s b \<noteq> L" if "used s b" "hart b = h" for b
      using that idle mcs_invD(8) [OF inv, of b] L by auto
    show ?thesis
    proof (rule mcs_inv_parts [where W = "waiting s" and T = "tail (mmem s)" and N = "next_of (mmem s)"
          and K = "locked_of (mmem s)" and U = "\<lambda>b. b = ?b \<or> used s b" and LO = ?LO and ST = ?ST
          and H = "held s" and P = "(mpc s)(h := At L ?b (BindNext c))"])
      show "queue_inv (waiting s K) (tail (mmem s) K) (next_of (mmem s)) (locked_of (mmem s)) ?ST" for K
        by (rule queue_inv_cong [OF mcs_invD(1) [OF inv]]) (use new in auto)
      show "(b = ?b \<or> used s b) \<and> ?LO b = K" if "b \<in> set (waiting s K)" for K b
        using that mcs_invD(2,3) [OF inv] new by auto
      show "b = c'" if "b = ?b \<or> used s b" "c' = ?b \<or> used s c'" "hart b = hart c'" "?LO b = ?LO c'" for b c'
        using that mcs_invD(6) [OF inv, of b c'] no_L by (auto split: if_splits)
      show "\<exists>b. hart b = g \<and> ?LO b = K \<and> ?ST b = Taken" if K: "K \<in> held s g" for K g
      proof -
        obtain b where b: "hart b = g" "lock_of s b = K" "status_of s b = Taken"
          using mcs_invD(9) [OF inv K] by blast
        moreover have "b \<noteq> ?b" using b(3) new mcs_invD(7) [OF inv] by blast
        ultimately show ?thesis by auto
      qed
      show "hart b = g \<and> (b = ?b \<or> used s b) \<and> ?LO b = K \<and> (b \<in> set (waiting s K) \<longleftrightarrow> queued p) \<and>
          (p \<in> {TryLocked, TryCas, Exchange} \<longrightarrow> next_of (mmem s) b = None)"
        if g: "((mpc s)(h := At L ?b (BindNext c))) g = At K b p" for g K b p
        using g new mcs_invD(10-14) [OF inv, of g K b p] free(1) by (auto split: if_splits)
    qed (use mcs_invD(4,5,7,8,15) [OF inv] fields mem st free eq in \<open>auto split: if_splits\<close>)
  next
    case OutOfTable
    then show ?thesis using row_search_hart(3) [OF h] by (simp add: mcs_bind_free_slot_def)
  qed
qed

lemma mcs_inv_release:
  assumes inv: "mcs_inv s" and h: "h < MCS_MAX_HARTS" and pc: "mpc s h = Out"
  shows "mcs_inv (s\<lparr>mpc := (mpc s)(h := mcs_release_call h L (mmem s)), held := (held s)(h := held s h - {L})\<rparr>)"
    (is "mcs_inv ?s")
proof -
  have idle: "status_of s b = (if used s b then Taken else Free)" if "hart b = h" for b
    using pc that by (auto simp: status_of_def)
  have fields: "used ?s = used s" "lock_of ?s = lock_of s" by (auto simp: used_def lock_of_def)
  show ?thesis
  proof (cases "mcs_bind_find h L (mmem s)")
    case NoSlot
    then have eq: "mcs_release_call h L (mmem s) = Out" by (simp add: mcs_release_call_def)
    have none: "L \<notin> held s h"
    proof
      assume "L \<in> held s h"
      then obtain b where b: "hart b = h" "lock_of s b = L" "status_of s b = Taken"
        using mcs_invD(9) [OF inv] by blast
      then have u: "used s b" using idle by (metis status.distinct(1))
      show False
        using row_search_hart(2) [OF h NoSlot [unfolded mcs_bind_find_def], of "slot b"] b u
          mcs_invD(4,5) [OF inv u] by (cases b) (simp add: used_def lock_of_def)
    qed
    have "?s = s" using none pc by (simp add: eq fun_upd_idem)
    then show ?thesis using inv by simp
  next
    case (Slot i)
    let ?b = "Binding h i"
    have b: "used s ?b" "lock_of s ?b = L"
      using row_search_hart(1) [OF h Slot [unfolded mcs_bind_find_def]] by (auto simp: used_def lock_of_def)
    have eq: "mcs_release_call h L (mmem s) = At L ?b RelNext" using Slot by (simp add: mcs_release_call_def)
    have taken: "status_of s ?b = Taken" using b idle by simp
    have in_q: "?b \<in> set (waiting s L)" using mcs_invD(7) [OF inv taken] b by simp
    have st: "status_of ?s c = (if c = ?b then Busy RelNext else status_of s c)" for c
      using idle [of c] pc by (auto simp: status_of_def used_def eq split: mcs_pc.splits)
    let ?ST = "\<lambda>c. if c = ?b then Busy RelNext else status_of s c"
    show ?thesis
    proof (rule mcs_inv_parts [where W = "waiting s" and T = "tail (mmem s)" and N = "next_of (mmem s)"
          and K = "locked_of (mmem s)" and U = "used s" and LO = "lock_of s" and ST = ?ST
          and H = "(held s)(h := held s h - {L})" and P = "(mpc s)(h := At L ?b RelNext)"])
      show "queue_inv (waiting s K) (tail (mmem s) K) (next_of (mmem s)) (locked_of (mmem s)) ?ST" for K
      proof (cases "K = L")
        case True
        show ?thesis unfolding True
          by (rule queue_first_moves [OF mcs_invD(1) [OF inv] in_q]) (auto simp: taken)
      next
        case False
        then have "c \<noteq> ?b" if "c \<in> set (waiting s K)" for c using that b(2) mcs_invD(3) [OF inv] by metis
        then show ?thesis by (intro queue_inv_cong [OF mcs_invD(1) [OF inv]]) auto
      qed
      show "c \<in> set (waiting s (lock_of s c)) \<and> lock_of s c \<in> ((held s)(h := held s h - {L})) (hart c)"
        if "?ST c = Taken" for c
      proof -
        have c: "c \<noteq> ?b" "status_of s c = Taken" using that by (auto split: if_splits)
        have "lock_of s c \<noteq> L" if "hart c = h"
          using mcs_invD(6) [OF inv, of c ?b] that c b idle [of c] by (auto split: if_splits)
        then show ?thesis using mcs_invD(7,8) [OF inv c(2)] by auto
      qed
      show "\<exists>c. hart c = g \<and> lock_of s c = K \<and> ?ST c = Taken"
        if "K \<in> ((held s)(h := held s h - {L})) g" for K g
      proof -
        have K: "K \<in> held s g" "g = h \<Longrightarrow> K \<noteq> L" using that by (auto split: if_splits)
        then obtain c where c: "hart c = g" "lock_of s c = K" "status_of s c = Taken"
          using mcs_invD(9) [OF inv] by blast
        then have "c \<noteq> ?b" using K(2) b(2) by auto
        then show ?thesis using c by auto
      qed
      show "hart c = g \<and> used s c \<and> lock_of s c = K \<and> (c \<in> set (waiting s K) \<longleftrightarrow> queued p) \<and>
          (p \<in> {TryLocked, TryCas, Exchange} \<longrightarrow> next_of (mmem s) c = None)"
        if "((mpc s)(h := At L ?b RelNext)) g = At K c p" for g K c p
        using that b in_q mcs_invD(10-14) [OF inv, of g K c p] by (auto split: if_splits)
    qed (use mcs_invD(2-6,15) [OF inv] fields st eq in \<open>auto split: if_splits\<close>)
  next
    case OutOfTable
    then show ?thesis using row_search_hart(3) [OF h] by (simp add: mcs_bind_find_def)
  qed
qed

lemma mcs_inv_step:
  assumes inv: "mcs_inv s" and step: "mcs_step n s s'" and n: "n \<le> MCS_MAX_HARTS"
  shows "mcs_inv s'"
  using step
proof cases
  case (mcs_moves h L me p)
  then show ?thesis using mcs_inv_moves [OF inv] mcs_inv_unbind [OF inv] by (cases "p = Unbind") auto
qed (use mcs_inv_bind [OF inv] mcs_inv_release [OF inv] n in auto)

interpretation mcs: inductive_invariant mcs_start "mcs_step MCS_MAX_HARTS" mcs_inv
  by unfold_locales (auto intro: mcs_inv_start mcs_inv_step)

section \<open>Properties\<close>

lemma held_first:
  assumes "mcs_inv s" "L \<in> held s h"
  shows "\<exists>i r. waiting s L = Binding h i # r"
proof -
  obtain b where b: "hart b = h" "lock_of s b = L" "status_of s b = Taken"
    using mcs_invD(9) [OF assms] by blast
  obtain r where "waiting s L = b # r"
    using first_of_queue [OF mcs_invD(1) [OF assms(1)], of b L] mcs_invD(7) [OF assms(1) b(3)] b by auto
  then show ?thesis using b(1) by (cases b) auto
qed

lemma waiting_moves:
  "waiting_after L me p m q = q \<or> waiting_after L me p m q = q @ [me] \<or> waiting_after L me p m q = tl q"
  by (cases p) auto

lemma waiting_step:
  "mcs_step n s s' \<Longrightarrow>
    waiting s' L = waiting s L \<or> (\<exists>b. waiting s' L = waiting s L @ [b]) \<or> waiting s' L = tl (waiting s L)"
  by (erule mcs_stepE) (auto simp: mcs_advance_def waiting_moves split: prod.splits,
    metis waiting_moves)

text \<open>
  C14: for the harts the table has room for, in any interleaving and with any number of locks, at most
  one hart holds a lock at a time, and it is the one that reached the tail of the lock first of
  those not served yet: the line of waiting harts grows at its end only and is served from its front.
\<close>

theorem mcs_exclusive_fifo:
  assumes "reach mcs_start (mcs_step MCS_MAX_HARTS) s"
  shows "(\<forall>h g. L \<in> held s h \<longrightarrow> L \<in> held s g \<longrightarrow> h = g) \<and>
    (\<forall>h. L \<in> held s h \<longrightarrow> (\<exists>i r. waiting s L = Binding h i # r)) \<and>
    (\<forall>s'. mcs_step MCS_MAX_HARTS s s' \<longrightarrow>
      waiting s' L = waiting s L \<or> (\<exists>b. waiting s' L = waiting s L @ [b]) \<or> waiting s' L = tl (waiting s L))"
proof -
  have first: "\<exists>i r. waiting s L = Binding h i # r" if "L \<in> held s h" for h
    using held_first [OF mcs.reach_inv [OF assms] that] .
  have "h = g" if "L \<in> held s h" "L \<in> held s g" for h g
    using first [OF that(1)] first [OF that(2)] by auto
  then show ?thesis using first waiting_step by blast
qed

lemma mcs_head_moves:
  assumes inv: "mcs_inv s" and q: "waiting s L = a # r"
  shows "L \<in> held s (hart a) \<or> (\<exists>h me p. mpc s h = At L me p \<and> me \<in> set (waiting s L) \<and>
    mcs_access L me p (mmem s) \<noteq> (At L me p, mmem s))"
proof -
  note Q = mcs_invD(1) [OF inv, of L, unfolded q queue_first]
  have at: "mpc s (hart b) = At L b p" if "status_of s b = Busy p" "b \<in> set (waiting s L)" for b p
    using that mcs_invD(3) [OF inv that(2)] mcs_invD(12) [OF inv, of "hart b" _ b p]
    by (auto simp: status_of_def split: mcs_pc.splits if_splits)
  have h: "head_ok (next_of (mmem s)) (locked_of (mmem s)) (status_of s) a r" using Q by blast
  then consider "status_of s a = Taken"
    | p where "status_of s a = Busy p" "mcs_access L a p (mmem s) \<noteq> (At L a p, mmem s)"
    | "status_of s a = Busy RelWait" "next_of (mmem s) a = None" "r \<noteq> []"
    unfolding head_ok_def by (fastforce simp: mcs_access_def split: option.splits if_splits)
  then show ?thesis
  proof cases
    case 1
    then show ?thesis using mcs_invD(8) [OF inv 1] mcs_invD(3) [OF inv, of a L] q by auto
  next
    case 2
    then show ?thesis using at [of a] q by auto
  next
    case 3
    then obtain b r' where r: "r = b # r'" by (cases r) auto
    have "link_ok (next_of (mmem s)) (locked_of (mmem s)) (status_of s) a b" using Q by (simp add: r)
    then obtain p where p: "status_of s b = Busy p" "p = SetLocked a \<or> p = LinkPred a"
      using 3(2) by (auto simp: link_ok_def)
    then have "mcs_access L b p (mmem s) \<noteq> (At L b p, mmem s)" by (auto simp: mcs_access_def)
    then show ?thesis using at [OF p(1)] q r by auto
  qed
qed

text \<open>
  C37: while a lock has a line of harts, it is held by one of them, or one of them is about to make a
  step that is not a turn of a waiting loop: no hand-over is lost.
\<close>

theorem mcs_no_lost_handover:
  assumes "reach mcs_start (mcs_step MCS_MAX_HARTS) s" "waiting s L \<noteq> []"
  shows "(\<exists>h. L \<in> held s h) \<or> (\<exists>h me p. mpc s h = At L me p \<and> me \<in> set (waiting s L) \<and>
    mcs_access L me p (mmem s) \<noteq> (At L me p, mmem s))"
  using mcs_head_moves [OF mcs.reach_inv [OF assms(1)]] assms(2) by (cases "waiting s L") blast+

lemma no_slots: "MCS_TLS_SLOTS \<le> h \<Longrightarrow> row_search h P = NoSlot"
  by (simp add: row_search_def)

lemma seek_stays:
  assumes "MCS_TLS_SLOTS \<le> h" "mcs_step n s s'" "mpc s h = Seek c L"
  shows "mpc s' h = Seek c L"
  using assms(2)
proof cases
  case (mcs_acquire g K d pc m)
  then show ?thesis using assms by auto
next
  case (mcs_seek g d K pc m)
  then show ?thesis
    using assms by (cases "g = h") (auto simp: mcs_bind_acquire_slot_def mcs_bind_free_slot_def no_slots)
next
  case (mcs_moves g K me p)
  then show ?thesis using assms by (cases "g = h") (auto simp: mcs_advance_def split: prod.splits)
qed (use assms in auto)

text \<open>
  A hart whose number is at least \<open>MCS_TLS_SLOTS\<close> (the shipped configuration has 16 harts, the table 8
  slots) finds no slot in an acquiring call, and the call never returns.
\<close>

theorem mcs_hart_beyond_slots_hangs:
  assumes "MCS_TLS_SLOTS \<le> h" "mcs_step n s t" "mpc s h = Out" "mpc t h \<noteq> Out" "(mcs_step n)\<^sup>*\<^sup>* t u"
  shows "\<exists>c L. mpc t h = Seek c L \<and> mpc u h = Seek c L"
proof -
  have "\<exists>c L. mpc t h = Seek c L"
    using assms(2)
  proof cases
    case (mcs_acquire g K d pc m)
    then show ?thesis
      using assms(1,3,4)
      by (cases "g = h") (auto simp: mcs_bind_acquire_slot_def mcs_bind_free_slot_def no_slots)
  next
    case (mcs_release g K)
    then show ?thesis
      using assms(1,3,4) by (cases "g = h") (auto simp: mcs_release_call_def mcs_bind_find_def no_slots)
  next
    case (mcs_moves g K me p)
    then show ?thesis using assms(3,4) by (cases "g = h") (auto simp: mcs_advance_def split: prod.splits)
  qed (use assms(3,4) in \<open>auto split: if_splits\<close>)
  then obtain c L where t: "mpc t h = Seek c L" by blast
  have "mpc u h = Seek c L"
    using assms(5) by (induction rule: rtranclp_induct) (auto simp: t intro: seek_stays [OF assms(1)])
  then show ?thesis using t by blast
qed

section \<open>A run\<close>

text \<open>The state after start-up, a call and a step of one hart.\<close>

definition mcs_boot :: mcs_sys where
  "mcs_boot = \<lparr>mmem = \<lparr>tail = \<lambda>_. None,
       mcs_bindings = \<lambda>_. \<lparr>lock = 0, bnode = \<lparr>nxt = None, locked = 0\<rparr>, in_use = False\<rparr>\<rparr>,
     mpc = \<lambda>_. Out, held = \<lambda>_. {}, waiting = \<lambda>_. []\<rparr>"

definition call_acquire :: "nat \<Rightarrow> u32 \<Rightarrow> mcs_sys \<Rightarrow> mcs_sys" where
  "call_acquire h L s = (if mpc s h = Out \<and> L \<notin> held s h
     then case mcs_bind_acquire_slot h Acquire L (mmem s) of (pc, m) \<Rightarrow> s\<lparr>mmem := m, mpc := (mpc s)(h := pc)\<rparr>
     else s)"

fun turns :: "nat list \<Rightarrow> mcs_sys \<Rightarrow> mcs_sys" where
  "turns [] s = s"
| "turns (h # hs) s = turns hs (case mpc s h of At L me p \<Rightarrow> mcs_advance h L me p s | _ \<Rightarrow> s)"

lemma reach_call:
  "reach mcs_start (mcs_step n) s \<Longrightarrow> h < n \<Longrightarrow> reach mcs_start (mcs_step n) (call_acquire h L s)"
  by (auto simp: call_acquire_def split: prod.splits intro: reach_step mcs_step.mcs_acquire)

lemma reach_turns:
  "reach mcs_start (mcs_step n) s \<Longrightarrow> \<forall>h\<in>set hs. h < n \<Longrightarrow> reach mcs_start (mcs_step n) (turns hs s)"
proof (induction hs arbitrary: s)
  case (Cons h hs)
  then show ?case by (auto intro!: Cons.IH split: mcs_pc.splits intro: reach_step mcs_step.mcs_moves)
qed simp

lemma reach_boot: "reach mcs_start (mcs_step n) mcs_boot"
  by (rule reach_start) (simp add: mcs_start_def mcs_boot_def)

text \<open>Hart 0 has the lock, hart 1 is in line behind it.\<close>

definition two_in_line :: mcs_sys where
  "two_in_line = turns [0, 1, 0, 1, 0, 1, 0, 1, 1, 1] (call_acquire 1 5 (call_acquire 0 5 mcs_boot))"

lemma reach_two: "reach mcs_start (mcs_step MCS_MAX_HARTS) two_in_line"
  unfolding two_in_line_def by (intro reach_turns reach_call reach_boot) (auto simp: MCS_MAX_HARTS_def)

lemma two_in_line: "5 \<in> held two_in_line 0" "waiting two_in_line 5 = [Binding 0 0, Binding 1 1]"
  by code_simp+

theorem mcs_exclusive_fifo_witness:
  "5 \<in> held two_in_line 0 \<and> 5 \<notin> held two_in_line 1 \<and> waiting two_in_line 5 = [Binding 0 0, Binding 1 1]"
  using mcs_exclusive_fifo [OF reach_two, of 5] two_in_line by auto

theorem mcs_no_lost_handover_witness:
  "waiting two_in_line 5 \<noteq> [] \<and> ((\<exists>h. 5 \<in> held two_in_line h) \<or> (\<exists>h me p. mpc two_in_line h = At 5 me p \<and>
     me \<in> set (waiting two_in_line 5) \<and> mcs_access 5 me p (mmem two_in_line) \<noteq> (At 5 me p, mmem two_in_line)))"
  using mcs_no_lost_handover [OF reach_two, of 5] two_in_line by simp

theorem mcs_hart_beyond_slots_hangs_witness:
  "\<exists>c L. mpc (call_acquire 8 5 mcs_boot) 8 = Seek c L \<and>
     mpc (call_acquire 0 5 (call_acquire 8 5 mcs_boot)) 8 = Seek c L"
proof (rule mcs_hart_beyond_slots_hangs)
  show "MCS_TLS_SLOTS \<le> 8" by (simp add: MCS_TLS_SLOTS_def MCS_MAX_HARTS_def)
  have call: "mcs_step 16 s (call_acquire h 5 s)" if "h < 16" "mpc s h = Out" "5 \<notin> held s h" for s h
    using that by (auto simp: call_acquire_def split: prod.splits intro: mcs_step.mcs_acquire)
  show "mcs_step 16 mcs_boot (call_acquire 8 5 mcs_boot)"
    by (rule call) (simp_all add: mcs_boot_def)
  show "mpc mcs_boot 8 = Out" by (simp add: mcs_boot_def)
  show "mpc (call_acquire 8 5 mcs_boot) 8 \<noteq> Out" by code_simp
  show "(mcs_step 16)\<^sup>*\<^sup>* (call_acquire 8 5 mcs_boot) (call_acquire 0 5 (call_acquire 8 5 mcs_boot))"
    by (rule r_into_rtranclp, rule call) (simp, code_simp+)
qed

end
