(* ===== verification/McsLine.thy ===== *)
theory McsLine
  imports McsSystem
begin

text \<open>
  The line of a queue lock seen from the callers: which nodes have reached the tail and still wait
  for the lock, and how each step of the protocol changes them. A step appends the arriving node or
  takes out the first one when its hart is given the lock, and nothing else.
\<close>

section \<open>The nodes that wait\<close>

text \<open>
  The nodes behind the exchange of the tail that have not got the lock yet: all of the line, without
  its first node once that one's hart has been given the lock.
\<close>

definition served_first :: "mcs_sys \<Rightarrow> u32 \<Rightarrow> node_ptr \<Rightarrow> bool" where
  "served_first k L b \<longleftrightarrow> L \<in> held k (hart b) \<or> (\<exists>p. mpc k (hart b) = At L b p \<and> releasing p)"

definition pend :: "mcs_sys \<Rightarrow> u32 \<Rightarrow> node_ptr list" where
  "pend k L = (case waiting k L of [] \<Rightarrow> [] | b # r \<Rightarrow> if served_first k L b then r else b # r)"

lemma pend_sub: "set (pend k L) \<subseteq> set (waiting k L)"
  by (cases "waiting k L") (auto simp: pend_def)

lemma pend_same:
  assumes "waiting k' L = waiting k L" "\<And>b. b \<in> set (waiting k L) \<Longrightarrow> served_first k' L b = served_first k L b"
  shows "pend k' L = pend k L"
  using assms by (cases "waiting k L") (simp_all add: pend_def)

text \<open>Two nodes of one hart in one line are the same.\<close>

lemma line_unique:
  "mcs_inv k \<Longrightarrow> b \<in> set (waiting k L) \<Longrightarrow> c \<in> set (waiting k L) \<Longrightarrow> hart b = hart c \<Longrightarrow> b = c"
  using mcs_invD(2,3,6) by metis

lemma in_call_not_held:
  assumes inv: "mcs_inv k" and pc: "mpc k h = At L me p"
  shows "L \<notin> held k h"
proof
  assume "L \<in> held k h"
  then obtain b where b: "hart b = h" "lock_of k b = L" "status_of k b = Taken"
    using mcs_invD(9) [OF inv] by blast
  then have "used k b" by (auto simp: status_of_def split: mcs_pc.splits if_splits)
  then have "b = me" using mcs_invD(6) [OF inv, of b me] mcs_invD(10-12) [OF inv pc] b by simp
  then show False using b(1,3) pc by (simp add: status_of_def)
qed

text \<open>A hart outside the calls that does not hold the lock has no node in its line.\<close>

lemma out_not_in_line:
  assumes inv: "mcs_inv k" and "mpc k h = Out \<or> (\<exists>d K. mpc k h = Seek d K)" "L \<notin> held k h" "b \<in> set (waiting k L)"
  shows "hart b \<noteq> h"
proof
  assume h: "hart b = h"
  have "status_of k b = Taken" using mcs_invD(2) [OF inv assms(4)] assms(2) h by (auto simp: status_of_def)
  then show False using mcs_invD(8) [OF inv, of b] mcs_invD(3) [OF inv assms(4)] h assms(3) by simp
qed

lemma holder_first:
  assumes inv: "mcs_inv k" and "L \<in> held k h"
  shows "\<exists>b r. waiting k L = b # r \<and> hart b = h \<and> pend k L = r"
proof -
  obtain i r where "waiting k L = Binding h i # r" using held_first [OF assms] by blast
  then show ?thesis using assms(2) by (auto simp: pend_def served_first_def)
qed

lemma held_advance:
  "L \<in> held (mcs_advance h K me p k) g \<longleftrightarrow>
     L \<in> held k g \<or> g = h \<and> L = K \<and> p \<noteq> Unbind \<and> fst (mcs_access K me p (mmem k)) = Out"
  by (auto simp: mcs_advance_def split: prod.splits)

lemma mpc_advance: "mpc (mcs_advance h K me p k) = (mpc k)(h := fst (mcs_access K me p (mmem k)))"
  by (simp add: mcs_advance_def split: prod.splits)

lemma waiting_advance:
  "waiting (mcs_advance h K me p k) = (waiting k)(K := waiting_after K me p (mmem k) (waiting k K))"
  by (simp add: mcs_advance_def split: prod.splits)

text \<open>A step in a call for another lock.\<close>

lemma access_shape: "fst (mcs_access K me p m) = Out \<or> (\<exists>p'. fst (mcs_access K me p m) = At K me p')"
  by (cases p) (auto simp: mcs_access_def split: option.splits)

lemma pend_other:
  assumes "mpc k h = At K me p" "K \<noteq> L"
  shows "pend (mcs_advance h K me p k) L = pend k L"
proof -
  have "served_first (mcs_advance h K me p k) L b = served_first k L b" for b
    using assms access_shape [of K me p "mmem k"] by (auto simp: served_first_def held_advance mpc_advance)
  then show ?thesis using assms(2) by (intro pend_same) (simp_all add: waiting_advance)
qed

text \<open>A step in a call for the lock itself: who enters the line last, and who gets the lock.\<close>

lemma served_others:
  assumes inv: "mcs_inv k" and pc: "mpc k h = At L me p" and b: "b \<in> set (waiting k L)" "b \<noteq> me"
  shows "hart b \<noteq> h" "served_first (mcs_advance h L me p k) L b = served_first k L b"
proof -
  show h: "hart b \<noteq> h"
    using mcs_invD(6) [OF inv mcs_invD(2) [OF inv b(1)] mcs_invD(11) [OF inv pc]] mcs_invD(3) [OF inv b(1)]
      mcs_invD(10,12) [OF inv pc] b(2) by auto
  show "served_first (mcs_advance h L me p k) L b = served_first k L b"
    using h by (simp add: served_first_def held_advance mpc_advance)
qed

lemma served_me:
  assumes inv: "mcs_inv k" and pc: "mpc k h = At L me p"
  shows "served_first k L me \<longleftrightarrow> releasing p"
  using in_call_not_held [OF assms] mcs_invD(10) [OF assms] pc by (auto simp: served_first_def)

lemma served_me_after:
  assumes inv: "mcs_inv k" and pc: "mpc k h = At L me p" "p \<noteq> Unbind"
  shows "served_first (mcs_advance h L me p k) L me \<longleftrightarrow>
    (case fst (mcs_access L me p (mmem k)) of At _ _ p' \<Rightarrow> releasing p' | _ \<Rightarrow> True)"
  using in_call_not_held [OF assms(1,2)] mcs_invD(10) [OF assms(1,2)] pc(2) access_shape [of L me p "mmem k"]
  by (auto simp: served_first_def held_advance mpc_advance)

lemma not_served_behind:
  assumes inv: "mcs_inv k" and q: "waiting k L = a # r" "b \<in> set r"
  shows "\<not> served_first k L b"
proof
  assume s: "served_first k L b"
  have b: "b \<in> set (waiting k L)" "b \<noteq> a" using q queue_first mcs_invD(1) [OF inv, of L] by auto
  have "status_of k b = Taken \<or> (\<exists>p. status_of k b = Busy p \<and> releasing p)"
  proof (cases "L \<in> held k (hart b)")
    case True
    then obtain c where c: "hart c = hart b" "lock_of k c = L" "status_of k c = Taken" using mcs_invD(9) [OF inv] by blast
    then have "c \<in> set (waiting k L)" using mcs_invD(7) [OF inv, of c] by simp
    then have "b = c" using c line_unique [OF inv b(1)] by simp
    then show ?thesis using c by simp
  next
    case False
    then show ?thesis using s by (auto simp: served_first_def status_of_def)
  qed
  then obtain r' where "waiting k L = b # r'"
    using first_of_queue [OF mcs_invD(1) [OF inv, of L] b(1)] by blast
  then show False using b(2) q(1) by simp
qed

lemma first_served:
  assumes inv: "mcs_inv k" and pc: "mpc k h = At L me p" and "me \<in> set (waiting k L)" "releasing p \<or> p = Spin \<and> locked_of (mmem k) me = 0"
  shows "\<exists>r. waiting k L = me # r"
proof -
  have "status_of k me = Busy p" using pc mcs_invD(10) [OF inv pc] by (simp add: status_of_def)
  then show ?thesis using first_of_queue [OF mcs_invD(1) [OF inv, of L] assms(3)] assms(4) by blast
qed

lemma pend_stays:
  assumes inv: "mcs_inv k" and pc: "mpc k h = At L me p" "p \<noteq> Unbind"
    and "waiting_after L me p (mmem k) (waiting k L) = waiting k L" "fst (mcs_access L me p (mmem k)) = At L me p'"
    "releasing p' = releasing p"
  shows "pend (mcs_advance h L me p k) L = pend k L"
proof (rule pend_same)
  fix b assume "b \<in> set (waiting k L)"
  then show "served_first (mcs_advance h L me p k) L b = served_first k L b"
    using served_others(2) [OF inv pc(1)] served_me [OF inv pc(1)] served_me_after [OF inv pc] assms(5,6)
    by (cases "b = me") auto
qed (simp add: waiting_advance assms(4))

lemma pend_moves:
  assumes inv: "mcs_inv k" and pc: "mpc k h = At L me p" and "\<not> trying p"
  shows "pend k L @ (if p = Exchange then [me] else []) =
    (if L \<in> held (mcs_advance h L me p k) h then [me] else []) @ pend (mcs_advance h L me p k) L"
proof -
  let ?k = "mcs_advance h L me p k" and ?m = "mmem k"
  note Q = mcs_invD(1) [OF inv, of L] and in_line = mcs_invD(13) [OF inv pc]
  note stays = pend_stays [OF inv pc] and others = served_others(2) [OF inv pc]
  have me: "hart me = h" using mcs_invD(10) [OF inv pc] .
  have no: "L \<notin> held k h" by (rule in_call_not_held [OF inv pc])
  have held: "L \<in> held (mcs_advance h L me p k) h \<longleftrightarrow> p \<noteq> Unbind \<and> fst (mcs_access L me p ?m) = Out" for p
    using no by (simp add: held_advance)
  have tail: "tail ?m L = None \<longleftrightarrow> waiting k L = []" using Q by (auto simp: queue_inv_def)
  have st: "status_of k me = Busy p" using pc me by (simp add: status_of_def)
  note A = mcs_access_def held
  show ?thesis
  proof (cases p)
    case (BindNext c)
    then show ?thesis using stays [of "BindLocked c"] assms(3) by (simp add: A)
  next
    case (BindLocked c)
    then show ?thesis using stays [of "MeNext c"] assms(3) by (simp add: A)
  next
    case (MeNext c)
    then show ?thesis using stays [of Exchange] assms(3) by (simp add: A)
  next
    case Exchange
    show ?thesis
    proof (cases "waiting k L")
      case Nil
      have "served_first ?k L me" using tail Nil served_me_after [OF inv pc] by (simp add: A Exchange)
      then show ?thesis using Nil tail by (simp add: A Exchange pend_def waiting_advance)
    next
      case (Cons a r)
      then obtain c where c: "tail ?m L = Some c" using tail by (cases "tail ?m L") auto
      have "a \<noteq> me" using in_line Cons by (auto simp: Exchange)
      then have "served_first ?k L a = served_first k L a" using others [of a] Cons by simp
      then show ?thesis using Cons c by (simp add: A Exchange pend_def waiting_advance)
    qed
  next
    case (SetLocked a)
    then show ?thesis using stays [of "LinkPred a"] by (simp add: A)
  next
    case (LinkPred a)
    then show ?thesis using stays [of Spin] by (simp add: A)
  next
    case Spin
    show ?thesis
    proof (cases "locked_of ?m me = 0")
      case True
      then obtain r where r: "waiting k L = me # r" using first_served [OF inv pc] in_line by (auto simp: Spin)
      have "served_first ?k L me" "\<not> served_first k L me"
        using served_me_after [OF inv pc] served_me [OF inv pc] True by (simp_all add: A Spin)
      then show ?thesis using True r by (simp add: A Spin pend_def waiting_advance)
    next
      case False
      then show ?thesis using stays [of Spin] by (simp add: A Spin)
    qed
  next
    case RelNext
    then show ?thesis
      using stays [of RelCas] stays [of "Handoff (the (next_of ?m me))"] by (cases "next_of ?m me") (simp_all add: A)
  next
    case RelCas
    show ?thesis
    proof (cases "tail ?m L = Some me")
      case True
      then have "waiting k L = [me]" using queue_leaves [OF Q _ st [unfolded RelCas]] in_line by (simp add: RelCas)
      then show ?thesis using True served_me [OF inv pc] by (simp add: A RelCas pend_def waiting_advance)
    next
      case False
      then show ?thesis using stays [of RelWait] by (simp add: A RelCas)
    qed
  next
    case RelWait
    then show ?thesis
      using stays [of RelWait] stays [of "Handoff (the (next_of ?m me))"] by (cases "next_of ?m me") (simp_all add: A)
  next
    case (Handoff b)
    then obtain r where r: "waiting k L = me # r" using first_served [OF inv pc] in_line by auto
    have "me \<notin> set r" using Q by (simp add: r queue_first)
    then have not: "\<not> served_first ?k L c" if "c \<in> set r" for c
      using not_served_behind [OF inv r that] others [of c] r that by auto
    have "pend ?k L = r" using not r by (cases r) (simp_all add: pend_def waiting_advance Handoff)
    moreover have "pend k L = r" using r served_me [OF inv pc] by (simp add: pend_def Handoff)
    ultimately show ?thesis by (simp add: A Handoff)
  next
    case Unbind
    then have "me \<notin> set (waiting k L)" using in_line by simp
    then have "served_first ?k L b = served_first k L b" if "b \<in> set (waiting k L)" for b
      using others [of b] that by auto
    then have "pend ?k L = pend k L" by (intro pend_same) (simp_all add: waiting_advance Unbind)
    then show ?thesis by (simp add: A Unbind)
  qed (use assms(3) in auto)
qed

text \<open>Acquiring calls before they reach the line, and the call of a release.\<close>

lemma pend_bind:
  assumes "mpc k h = Out \<or> (\<exists>d K. mpc k h = Seek d K)" "pc = Seek d K \<or> (\<exists>b. pc = At K b (BindNext d))"
  shows "pend (k\<lparr>mmem := m, mpc := (mpc k)(h := pc)\<rparr>) L = pend k L"
proof (rule pend_same)
  fix b
  show "served_first (k\<lparr>mmem := m, mpc := (mpc k)(h := pc)\<rparr>) L b = served_first k L b"
    using assms by (cases "hart b = h") (auto simp: served_first_def)
qed simp

lemma pend_release_other:
  assumes "mpc k h = Out" "K \<noteq> L" "pc = Out \<or> (\<exists>b. pc = At K b RelNext)"
  shows "pend (k\<lparr>mpc := (mpc k)(h := pc), held := (held k)(h := held k h - {K})\<rparr>) L = pend k L"
proof (rule pend_same)
  fix b
  show "served_first (k\<lparr>mpc := (mpc k)(h := pc), held := (held k)(h := held k h - {K})\<rparr>) L b = served_first k L b"
    using assms by (cases "hart b = h") (auto simp: served_first_def)
qed simp

lemma pend_release:
  assumes inv: "mcs_inv k" "mcs_inv (k\<lparr>mpc := (mpc k)(h := pc), held := (held k)(h := held k h - {L})\<rparr>)" (is "mcs_inv ?k")
    and k: "L \<in> held k h" "pc = Out \<or> (\<exists>b. pc = At L b RelNext)"
  shows "pend ?k L = pend k L"
proof -
  obtain b r where r: "waiting k L = b # r" "hart b = h" "pend k L = r" using holder_first [OF inv(1) k(1)] by blast
  have used: "used ?k b" "lock_of ?k b = L" using mcs_invD(2,3) [OF inv(2), of b L] r(1) by simp_all
  have "status_of ?k b \<noteq> Taken" using mcs_invD(8) [OF inv(2), of b] used(2) r(2) by auto
  then have "mpc ?k h = At L b RelNext" using k(2) used(1) r(2) by (auto simp: status_of_def split: if_splits)
  then have "served_first ?k L b" using r(2) by (simp add: served_first_def)
  then show ?thesis using r by (simp add: pend_def)
qed

lemma holder_not_pending:
  assumes inv: "mcs_inv k" and "L \<in> held k h" "b \<in> set (pend k L)"
  shows "hart b \<noteq> h"
proof
  obtain c r where r: "waiting k L = c # r" "hart c = h" "pend k L = r" using holder_first [OF assms(1,2)] by blast
  assume "hart b = h"
  then have "b = c" using line_unique [OF inv, of b L c] r assms(3) by simp
  then show False using mcs_invD(1) [OF inv, of L] r assms(3) by (simp add: queue_first)
qed

end
