(* ===== verification/McsConc.thy ===== *)
theory McsConc
  imports ListConc McsLine
begin

text \<open>
  Calls under the queue lock of \<open>mcs_lock.c\<close>, the shape of the list operations when
  \<open>llist.c\<close> is built with \<open>USE_MCS_LOCK\<close>: \<open>mcs_lock_acquire; body; mcs_lock_release\<close>. The accesses of a
  body interleave with the protocol steps of the other harts and with calls on other locks. The
  calls take effect one after the other, and unlike under a spin lock the order is that in which they
  reached the tail of the lock.
\<close>

section \<open>The system\<close>

text \<open>
  \<open>qjob h\<close> is the call hart \<open>h\<close> makes under the lock \<open>L\<close>, from the call of \<open>mcs_lock_acquire\<close> to that
  of \<open>mcs_lock_release\<close>. \<open>qarrived\<close> lists the calls in the order of the exchange of the tail,
  \<open>qserved\<close> in the order in which they were given the lock, \<open>qdone\<close> the finished ones with their
  final registers; the three observe the run.
\<close>

record ('c, 'l, 'm) queue_sys =
  qlock :: mcs_sys
  qmem :: 'm
  qjob :: "nat \<Rightarrow> ('c \<times> 'l \<times> ('l, 'm) code) option"
  qarrived :: "(nat \<times> 'c) list"
  qserved :: "(nat \<times> 'c) list"
  qdone :: "(nat \<times> 'c \<times> 'l) list"

definition caller :: "(nat \<Rightarrow> ('c \<times> 'l \<times> ('l, 'm) code) option) \<Rightarrow> nat \<Rightarrow> nat \<times> 'c" where
  "caller j h = (h, fst (the (j h)))"

text \<open>
  A hart without a call may use other locks in any way, one with a call may do so inside the
  critical section.
\<close>

inductive queue_step ::
    "u32 \<Rightarrow> ('c \<Rightarrow> ('l, 'm) code) \<Rightarrow> ('c \<Rightarrow> 'l) \<Rightarrow> ('c, 'l, 'm) queue_sys \<Rightarrow> ('c, 'l, 'm) queue_sys \<Rightarrow> bool"
  for L code regs where
  queue_call: "h < MCS_MAX_HARTS \<Longrightarrow> mpc (qlock s) h = Out \<Longrightarrow> qjob s h = None \<Longrightarrow>
     mcs_bind_acquire_slot h Acquire L (mmem (qlock s)) = (pc, m) \<Longrightarrow>
     queue_step L code regs s
       (s\<lparr>qlock := (qlock s)\<lparr>mmem := m, mpc := (mpc (qlock s))(h := pc)\<rparr>, qjob := (qjob s)(h \<mapsto> (c, regs c, code c))\<rparr>)"
| queue_seek: "h < MCS_MAX_HARTS \<Longrightarrow> mpc (qlock s) h = Seek d K \<Longrightarrow>
     mcs_bind_acquire_slot h d K (mmem (qlock s)) = (pc, m) \<Longrightarrow>
     queue_step L code regs s (s\<lparr>qlock := (qlock s)\<lparr>mmem := m, mpc := (mpc (qlock s))(h := pc)\<rparr>\<rparr>)"
| queue_moves: "h < MCS_MAX_HARTS \<Longrightarrow> mpc (qlock s) h = At K me p \<Longrightarrow> mcs_advance h K me p (qlock s) = k \<Longrightarrow>
     queue_step L code regs s
       (s\<lparr>qlock := k,
          qarrived := qarrived s @ (if K = L \<and> p = Exchange then [caller (qjob s) h] else []),
          qserved := qserved s @ (if L \<in> held k h \<and> L \<notin> held (qlock s) h then [caller (qjob s) h] else [])\<rparr>)"
| queue_access: "L \<in> held (qlock s) h \<Longrightarrow> mpc (qlock s) h = Out \<Longrightarrow> qjob s h = Some (c, l, a # as) \<Longrightarrow>
     a (l, qmem s) = (l', m) \<Longrightarrow>
     queue_step L code regs s (s\<lparr>qmem := m, qjob := (qjob s)(h \<mapsto> (c, l', as))\<rparr>)"
| queue_release: "h < MCS_MAX_HARTS \<Longrightarrow> L \<in> held (qlock s) h \<Longrightarrow> mpc (qlock s) h = Out \<Longrightarrow> qjob s h = Some (c, l, []) \<Longrightarrow>
     queue_step L code regs s
       (s\<lparr>qlock := (qlock s)\<lparr>mpc := (mpc (qlock s))(h := mcs_release_call h L (mmem (qlock s))),
            held := (held (qlock s))(h := held (qlock s) h - {L})\<rparr>,
          qjob := (qjob s)(h := None), qdone := qdone s @ [(h, c, l)]\<rparr>)"
| queue_acquire_other: "h < MCS_MAX_HARTS \<Longrightarrow> mpc (qlock s) h = Out \<Longrightarrow> K \<noteq> L \<Longrightarrow> K \<notin> held (qlock s) h \<Longrightarrow>
     mcs_bind_acquire_slot h d K (mmem (qlock s)) = (pc, m) \<Longrightarrow>
     queue_step L code regs s (s\<lparr>qlock := (qlock s)\<lparr>mmem := m, mpc := (mpc (qlock s))(h := pc)\<rparr>\<rparr>)"
| queue_release_other: "h < MCS_MAX_HARTS \<Longrightarrow> mpc (qlock s) h = Out \<Longrightarrow> K \<noteq> L \<Longrightarrow>
     queue_step L code regs s
       (s\<lparr>qlock := (qlock s)\<lparr>mpc := (mpc (qlock s))(h := mcs_release_call h K (mmem (qlock s))),
            held := (held (qlock s))(h := held (qlock s) h - {K})\<rparr>\<rparr>)"

definition queue_start :: "'m \<Rightarrow> ('c, 'l, 'm) queue_sys \<Rightarrow> bool" where
  "queue_start m s \<longleftrightarrow> mcs_start (qlock s) \<and> qmem s = m \<and> (\<forall>h. qjob s h = None) \<and>
     qarrived s = [] \<and> qserved s = [] \<and> qdone s = []"

section \<open>The invariant\<close>

text \<open>
  What the lock and the calls have to do with each other, the serial run as in theory
  \<open>Critical\<close>, and the order: the calls served, followed by those of the waiting nodes, are
  those that arrived.
\<close>

definition calls_match :: "u32 \<Rightarrow> mcs_sys \<Rightarrow> (nat \<Rightarrow> ('c \<times> 'l \<times> ('l, 'm) code) option) \<Rightarrow> bool" where
  "calls_match L k j \<longleftrightarrow> mcs_inv k \<and>
     (\<forall>h. L \<in> held k h \<longrightarrow> j h \<noteq> None) \<and>
     (\<forall>h me p. mpc k h = At L me p \<longrightarrow> \<not> trying p \<and> (j h = None \<longleftrightarrow> releasing p)) \<and>
     (\<forall>h d. mpc k h = Seek d L \<longrightarrow> d = Acquire \<and> j h \<noteq> None)"

definition served_serially ::
    "u32 \<Rightarrow> ('c \<Rightarrow> ('l, 'm) code) \<Rightarrow> ('c \<Rightarrow> 'l) \<Rightarrow> 'm \<Rightarrow> ('c, 'l, 'm) queue_sys \<Rightarrow> bool" where
  "served_serially L code regs m0 s \<longleftrightarrow>
     (\<forall>h c l as. qjob s h = Some (c, l, as) \<longrightarrow> L \<notin> held (qlock s) h \<longrightarrow> l = regs c \<and> as = code c) \<and>
     ((\<forall>h. L \<notin> held (qlock s) h) \<longrightarrow> serial code regs (qserved s) m0 = (qdone s, qmem s)) \<and>
     (\<forall>h c l as. L \<in> held (qlock s) h \<longrightarrow> qjob s h = Some (c, l, as) \<longrightarrow>
        (\<exists>xs m. qserved s = xs @ [(h, c)] \<and> serial code regs xs m0 = (qdone s, m) \<and>
          run_code as (l, qmem s) = run_code (code c) (regs c, m)))"

definition in_order :: "u32 \<Rightarrow> ('c, 'l, 'm) queue_sys \<Rightarrow> bool" where
  "in_order L s \<longleftrightarrow> qarrived s = qserved s @ map (\<lambda>b. caller (qjob s) (hart b)) (pend (qlock s) L)"

definition queue_sys_inv where
  "queue_sys_inv L code regs m0 s \<longleftrightarrow>
     calls_match L (qlock s) (qjob s) \<and> served_serially L code regs m0 s \<and> in_order L s"

lemma calls_matchD:
  assumes "calls_match L k j"
  shows "mcs_inv k" "L \<in> held k h \<Longrightarrow> j h \<noteq> None" "mpc k h = At L me p \<Longrightarrow> \<not> trying p"
    "mpc k h = At L me p \<Longrightarrow> j h = None \<longleftrightarrow> releasing p" "mpc k h = Seek d L \<Longrightarrow> d = Acquire" "mpc k h = Seek d L \<Longrightarrow> j h \<noteq> None"
  using assms unfolding calls_match_def by blast+

text \<open>The shape of what a call does next.\<close>

lemma bind_shape:
  assumes "mcs_bind_acquire_slot h d K m = (pc, m')" "h < MCS_MAX_HARTS"
  shows "pc = Seek d K \<or> (\<exists>b. pc = At K b (BindNext d))"
  using assms(1) row_search_hart(3) [OF assms(2)]
  by (auto simp: mcs_bind_acquire_slot_def mcs_bind_free_slot_def split: search.splits)

lemma release_shape:
  assumes "h < MCS_MAX_HARTS"
  shows "mcs_release_call h K m = Out \<or> (\<exists>b. mcs_release_call h K m = At K b RelNext)"
  using row_search_hart(3) [OF assms]
  by (auto simp: mcs_release_call_def mcs_bind_find_def split: search.splits)

lemma next_place:
  "\<not> trying p \<Longrightarrow> fst (mcs_access K me p m) = At K' me' p' \<Longrightarrow>
    K' = K \<and> me' = me \<and> \<not> trying p' \<and> releasing p' = releasing p"
  by (cases p) (auto simp: mcs_access_def split: option.splits if_splits)

lemma last_place: "releasing p \<Longrightarrow> fst (mcs_access K me p m) = Out \<Longrightarrow> p = Unbind"
  by (cases p) (auto simp: mcs_access_def split: option.splits if_splits)

lemma never_seeks: "fst (mcs_access K me p m) \<noteq> Seek d K'"
  using access_shape [of K me p m] by auto

section \<open>Calls and the lock\<close>

lemma match_bind:
  assumes c: "calls_match L k j" and h: "h < MCS_MAX_HARTS" and pc: "mpc k h = Out \<or> mpc k h = Seek d K"
    and bind: "mcs_bind_acquire_slot h d K (mmem k) = (pc', m)" and K: "K \<notin> held k h"
    and j: "\<And>g. g \<noteq> h \<Longrightarrow> j' g = j g" "j' h = None \<longrightarrow> j h = None" "K = L \<Longrightarrow> d = Acquire \<and> j' h \<noteq> None"
  shows "calls_match L (k\<lparr>mmem := m, mpc := (mpc k)(h := pc')\<rparr>) j'" (is "calls_match L ?k j'")
proof -
  have "mcs_step MCS_MAX_HARTS k ?k" using mcs_step.mcs_acquire [OF h _ K bind] mcs_step.mcs_seek [OF h _ bind] pc by blast
  then have "mcs_inv ?k" using mcs_inv_step [OF calls_matchD(1) [OF c]] by simp
  moreover have "j' g \<noteq> None" if "L \<in> held k g" for g using calls_matchD(2) [OF c that] j by (cases "g = h") auto
  moreover have "\<not> trying p \<and> (j' g = None \<longleftrightarrow> releasing p)" if "mpc ?k g = At L b p" for g b p
    using that bind_shape [OF bind h] calls_matchD(3,4) [OF c] j by (cases "g = h") auto
  moreover have "e = Acquire \<and> j' g \<noteq> None" if "mpc ?k g = Seek e L" for g e
    using that bind_shape [OF bind h] calls_matchD(5,6) [OF c] j by (cases "g = h") auto
  ultimately show ?thesis by (simp add: calls_match_def)
qed

lemma match_moves:
  assumes c: "calls_match L k j" and h: "h < MCS_MAX_HARTS" and pc: "mpc k h = At K me p"
  shows "calls_match L (mcs_advance h K me p k) j" (is "calls_match L ?k j")
proof -
  have "mcs_inv ?k" using mcs_inv_step [OF calls_matchD(1) [OF c] mcs_step.mcs_moves [OF h pc]] by simp
  moreover have "j g \<noteq> None" if "L \<in> held ?k g" for g
    using that calls_matchD(2) [OF c, of g] calls_matchD(4) [OF c, of h me p] pc last_place [of p K me "mmem k"]
    by (auto simp: held_advance)
  moreover have "\<not> trying p' \<and> (j g = None \<longleftrightarrow> releasing p')" if "mpc ?k g = At L b p'" for g b p'
    using that calls_matchD(3,4) [OF c] pc next_place [of p K me "mmem k" L b p'] access_shape [of K me p "mmem k"]
    by (cases "g = h") (auto simp: mpc_advance)
  moreover have "e = Acquire \<and> j g \<noteq> None" if "mpc ?k g = Seek e L" for g e
    using that calls_matchD(5,6) [OF c] never_seeks by (cases "g = h") (auto simp: mpc_advance)
  ultimately show ?thesis by (simp add: calls_match_def)
qed

lemma match_release:
  assumes c: "calls_match L k j" and h: "h < MCS_MAX_HARTS" and pc: "mpc k h = Out"
    and j: "\<And>g. g \<noteq> h \<Longrightarrow> j' g = j g" "K = L \<Longrightarrow> j' h = None" "K \<noteq> L \<Longrightarrow> j' h = j h"
  shows "calls_match L (k\<lparr>mpc := (mpc k)(h := mcs_release_call h K (mmem k)), held := (held k)(h := held k h - {K})\<rparr>) j'"
    (is "calls_match L ?k j'")
proof -
  have "mcs_inv ?k" using mcs_inv_step [OF calls_matchD(1) [OF c] mcs_step.mcs_release [OF h pc]] by simp
  moreover have "j' g \<noteq> None" if "L \<in> held ?k g" for g
    using that calls_matchD(2) [OF c] j by (cases "g = h") auto
  moreover have "\<not> trying p \<and> (j' g = None \<longleftrightarrow> releasing p)" if "mpc ?k g = At L b p" for g b p
    using that release_shape [OF h, of K "mmem k"] calls_matchD(3,4) [OF c] j by (cases "g = h") auto
  moreover have "e = Acquire \<and> j' g \<noteq> None" if "mpc ?k g = Seek e L" for g e
    using that release_shape [OF h, of K "mmem k"] calls_matchD(5,6) [OF c] j by (cases "g = h") auto
  ultimately show ?thesis by (simp add: calls_match_def)
qed

lemma match_cong: "calls_match L k j \<Longrightarrow> (\<And>h. j' h = None \<longleftrightarrow> j h = None) \<Longrightarrow> calls_match L k j'"
  by (simp add: calls_match_def)

lemma match_step:
  assumes step: "queue_step L code regs s s'" and c: "calls_match L (qlock s) (qjob s)"
  shows "calls_match L (qlock s') (qjob s')"
  using step
proof cases
  case (queue_call h pc m c')
  moreover have "L \<notin> held (qlock s) h" using calls_matchD(2) [OF c, of h] queue_call by auto
  ultimately show ?thesis using match_bind [OF c, of h Acquire L pc m "(qjob s)(h \<mapsto> (c', regs c', code c'))"] by simp
next
  case (queue_seek h d K pc m)
  moreover have "K \<notin> held (qlock s) h" using mcs_invD(15) [OF calls_matchD(1) [OF c]] queue_seek by blast
  moreover have "K = L \<Longrightarrow> d = Acquire \<and> qjob s h \<noteq> None" using calls_matchD(5,6) [OF c] queue_seek by blast
  ultimately show ?thesis using match_bind [OF c, of h d K pc m "qjob s"] by simp
next
  case (queue_moves h K me p k)
  then show ?thesis using match_moves [OF c, of h K me p] by simp
next
  case (queue_access h c' l a as l' m)
  then show ?thesis using match_cong [OF c, of "qjob s'"] by simp
next
  case (queue_release h c' l)
  then show ?thesis using match_release [OF c, of h "(qjob s)(h := None)" L] by simp
next
  case (queue_acquire_other h K d pc m)
  then show ?thesis using match_bind [OF c, of h d K pc m "qjob s"] by simp
next
  case (queue_release_other h K)
  then show ?thesis using match_release [OF c, of h "qjob s" K] by simp
qed

section \<open>The order of the calls\<close>

lemma in_order_cong:
  assumes "in_order L s" "pend (qlock s') L = pend (qlock s) L" "qarrived s' = qarrived s" "qserved s' = qserved s"
    and "\<And>b. b \<in> set (pend (qlock s) L) \<Longrightarrow> caller (qjob s') (hart b) = caller (qjob s) (hart b)"
  shows "in_order L s'"
  using assms by (simp add: in_order_def)

lemma in_order_moves:
  assumes ord: "in_order L s" and c: "calls_match L (qlock s) (qjob s)"
    and pc: "mpc (qlock s) h = At K me p" and k: "mcs_advance h K me p (qlock s) = k"
  shows "in_order L (s\<lparr>qlock := k,
          qarrived := qarrived s @ (if K = L \<and> p = Exchange then [caller (qjob s) h] else []),
          qserved := qserved s @ (if L \<in> held k h \<and> L \<notin> held (qlock s) h then [caller (qjob s) h] else [])\<rparr>)"
proof (cases "K = L")
  case True
  note inv = calls_matchD(1) [OF c] and pc = pc [unfolded True]
  let ?f = "\<lambda>b. caller (qjob s) (hart b)"
  have "map ?f (pend (qlock s) L @ (if p = Exchange then [me] else [])) = map ?f ((if L \<in> held k h then [me] else []) @ pend k L)"
    using pend_moves [OF inv pc calls_matchD(3) [OF c pc]] k True by simp
  then show ?thesis
    using ord in_call_not_held [OF inv pc] mcs_invD(10) [OF inv pc] True by (auto simp: in_order_def split: if_splits)
next
  case False
  then have "L \<in> held k h \<longleftrightarrow> L \<in> held (qlock s) h" using k held_advance [of L h K me p "qlock s" h] by simp
  then show ?thesis using ord pend_other [OF pc False] k False by (simp add: in_order_def)
qed

lemma order_step:
  assumes step: "queue_step L code regs s s'" and c: "calls_match L (qlock s) (qjob s)" and ord: "in_order L s"
  shows "in_order L s'"
  using step
proof cases
  case (queue_call h pc m c')
  have "hart b \<noteq> h" if "b \<in> set (pend (qlock s) L)" for b
    using out_not_in_line [OF calls_matchD(1) [OF c], of h L b] that pend_sub calls_matchD(2) [OF c, of h] queue_call by blast
  then show ?thesis
    using queue_call pend_bind [OF disjI1, of "qlock s" h pc Acquire L m L] bind_shape [of h Acquire L "mmem (qlock s)" pc m]
    by (intro in_order_cong [OF ord]) (auto simp: caller_def)
next
  case (queue_seek h d K pc m)
  then show ?thesis
    using pend_bind [of "qlock s" h pc d K m L] bind_shape [of h d K "mmem (qlock s)" pc m]
    by (intro in_order_cong [OF ord]) auto
next
  case (queue_moves h K me p k)
  then show ?thesis using in_order_moves [OF ord c] by simp
next
  case (queue_access h c' l a as l' m)
  then show ?thesis by (intro in_order_cong [OF ord]) (auto simp: caller_def)
next
  case (queue_release h c' l)
  have "mcs_inv (qlock s')" using calls_matchD(1) [OF match_step [OF step c]] .
  then have "pend (qlock s') L = pend (qlock s) L"
    using pend_release [OF calls_matchD(1) [OF c] _ queue_release(3) release_shape [OF queue_release(2), of L "mmem (qlock s)"]]
    by (simp add: queue_release(1))
  then show ?thesis
    using queue_release holder_not_pending [OF calls_matchD(1) [OF c], of L h]
    by (intro in_order_cong [OF ord]) (auto simp: caller_def)
next
  case (queue_acquire_other h K d pc m)
  then show ?thesis
    using pend_bind [of "qlock s" h pc d K m L] bind_shape [of h d K "mmem (qlock s)" pc m]
    by (intro in_order_cong [OF ord]) auto
next
  case (queue_release_other h K)
  then show ?thesis
    using pend_release_other [of "qlock s" h K L] release_shape [of h K "mmem (qlock s)"]
    by (intro in_order_cong [OF ord]) auto
qed

section \<open>The serial run\<close>

lemma one_holder: "mcs_inv k \<Longrightarrow> L \<in> held k h \<Longrightarrow> L \<in> held k g \<Longrightarrow> g = h"
  by (metis held_first list.inject node_ptr.inject)

lemma serially_cong:
  assumes "served_serially L code regs m0 s" "\<And>g. L \<in> held (qlock s') g \<longleftrightarrow> L \<in> held (qlock s) g"
    "qmem s' = qmem s" "qserved s' = qserved s" "qdone s' = qdone s"
    "\<And>g. qjob s' g = qjob s g \<or> L \<notin> held (qlock s) g \<and> (\<exists>c. qjob s' g = Some (c, regs c, code c))"
  shows "served_serially L code regs m0 s'"
proof -
  have old: "\<And>h c l as. qjob s h = Some (c, l, as) \<Longrightarrow> L \<notin> held (qlock s) h \<Longrightarrow> l = regs c \<and> as = code c"
    "(\<forall>h. L \<notin> held (qlock s) h) \<Longrightarrow> serial code regs (qserved s) m0 = (qdone s, qmem s)"
    "\<And>h c l as. L \<in> held (qlock s) h \<Longrightarrow> qjob s h = Some (c, l, as) \<Longrightarrow>
        \<exists>xs m. qserved s = xs @ [(h, c)] \<and> serial code regs xs m0 = (qdone s, m) \<and>
          run_code as (l, qmem s) = run_code (code c) (regs c, m)"
    using assms(1) unfolding served_serially_def by blast+
  have "l = regs c \<and> as = code c" if "qjob s' h = Some (c, l, as)" "L \<notin> held (qlock s) h" for h c l as
    using that old(1) assms(6) [of h] by fastforce
  moreover have "qjob s' h = qjob s h" if "L \<in> held (qlock s) h" for h using that assms(6) [of h] by blast
  ultimately show ?thesis using old(2,3) unfolding served_serially_def assms(2-5) by presburger
qed

lemma serial_step:
  assumes step: "queue_step L code regs s s'" and c: "calls_match L (qlock s) (qjob s)"
    and ser: "served_serially L code regs m0 s"
  shows "served_serially L code regs m0 s'"
proof -
  note inv = calls_matchD(1) [OF c] and inv' = calls_matchD(1) [OF match_step [OF step c]]
  have fresh: "\<And>h c l as. qjob s h = Some (c, l, as) \<Longrightarrow> L \<notin> held (qlock s) h \<Longrightarrow> l = regs c \<and> as = code c"
    and free: "(\<And>h. L \<notin> held (qlock s) h) \<Longrightarrow> serial code regs (qserved s) m0 = (qdone s, qmem s)"
    and busy: "\<And>h c l as. L \<in> held (qlock s) h \<Longrightarrow> qjob s h = Some (c, l, as) \<Longrightarrow>
        \<exists>xs m. qserved s = xs @ [(h, c)] \<and> serial code regs xs m0 = (qdone s, m) \<and>
          run_code as (l, qmem s) = run_code (code c) (regs c, m)"
    using ser unfolding served_serially_def by blast+
  show ?thesis
    using step
  proof cases
    case (queue_call h pc m c')
    then have "L \<notin> held (qlock s) h" using calls_matchD(2) [OF c, of h] by auto
    then show ?thesis using queue_call by (intro serially_cong [OF ser]) auto
  next
    case (queue_moves h K me p k)
    show ?thesis
    proof (cases "L \<in> held k h \<and> L \<notin> held (qlock s) h")
      case True
      have held: "L \<in> held k g \<longleftrightarrow> g = h" for g
        using True one_holder [OF inv', of L h g] queue_moves by auto
      then have none: "L \<notin> held (qlock s) g" for g
        using True held_advance [of L h K me p "qlock s" g] queue_moves(4) by auto
      obtain c' l as where j: "qjob s h = Some (c', l, as)"
        using calls_matchD(2) [OF match_step [OF step c], of h] True queue_moves(1) by auto
      then have "l = regs c'" "as = code c'" using fresh none by blast+
      then show ?thesis
        using held none free j fresh by (auto simp: served_serially_def queue_moves(1) caller_def)
    next
      case False
      have "L \<in> held k g \<longleftrightarrow> L \<in> held (qlock s) g" for g
        using False held_advance [of L h K me p "qlock s" g] queue_moves(4) by (cases "g = h") auto
      then show ?thesis using False queue_moves by (intro serially_cong [OF ser]) auto
    qed
  next
    case (queue_access h c' l a as l' m)
    then have held: "L \<in> held (qlock s) g \<longleftrightarrow> g = h" for g using one_holder [OF inv, of L h g] by auto
    have "\<exists>xs m'. qserved s = xs @ [(h, c')] \<and> serial code regs xs m0 = (qdone s, m') \<and>
        run_code as (l', m) = run_code (code c') (regs c', m')"
      using busy [OF queue_access(2,4)] queue_access(5) by simp
    then show ?thesis using held fresh by (auto simp: served_serially_def queue_access(1))
  next
    case (queue_release h c' l)
    then have held: "L \<in> held (qlock s) g \<longleftrightarrow> g = h" for g using one_holder [OF inv, of L h g] by auto
    obtain xs m where "qserved s = xs @ [(h, c')]" "serial code regs xs m0 = (qdone s, m)"
        "(l, qmem s) = run_code (code c') (regs c', m)"
      using busy [OF queue_release(3,5)] by auto
    then have "serial code regs (qserved s) m0 = (qdone s @ [(h, c', l)], qmem s)"
      by (simp add: serial_append flip: \<open>(l, qmem s) = _\<close>)
    then show ?thesis using held fresh by (auto simp: served_serially_def queue_release(1))
  qed (intro serially_cong [OF ser]; auto)+
qed

lemma queue_sys_start:
  assumes s: "queue_start m s"
  shows "queue_sys_inv L code regs m s"
proof -
  have "calls_match L (qlock s) (qjob s)"
    using s mcs_inv_start by (auto simp: queue_start_def calls_match_def mcs_start_def)
  then show ?thesis
    using s by (auto simp: queue_sys_inv_def served_serially_def in_order_def queue_start_def mcs_start_def pend_def)
qed

lemma queue_sys_step:
  assumes "queue_sys_inv L code regs m s" "queue_step L code regs s t"
  shows "queue_sys_inv L code regs m t"
  using assms(1) match_step [OF assms(2)] order_step [OF assms(2)] serial_step [OF assms(2)]
  by (simp add: queue_sys_inv_def)

interpretation queue_calls: inductive_invariant "queue_start m" "queue_step L code regs" "queue_sys_inv L code regs m"
  for m L code regs
  by unfold_locales (auto intro: queue_sys_start queue_sys_step)

section \<open>A run\<close>

text \<open>The call of a hart under the lock, and the next step of a hart in a call.\<close>

definition queue_enter where
  "queue_enter L code regs h c s =
     (if mpc (qlock s) h = Out \<and> qjob s h = None
      then case mcs_bind_acquire_slot h Acquire L (mmem (qlock s)) of (pc, m) \<Rightarrow>
        s\<lparr>qlock := (qlock s)\<lparr>mmem := m, mpc := (mpc (qlock s))(h := pc)\<rparr>, qjob := (qjob s)(h \<mapsto> (c, regs c, code c))\<rparr>
      else s)"

definition queue_turn :: "u32 \<Rightarrow> nat \<Rightarrow> ('c, 'l, 'm) queue_sys \<Rightarrow> ('c, 'l, 'm) queue_sys" where
  "queue_turn L h s = (case mpc (qlock s) h of
     At K me p \<Rightarrow> (let k = mcs_advance h K me p (qlock s) in
       s\<lparr>qlock := k,
          qarrived := qarrived s @ (if K = L \<and> p = Exchange then [caller (qjob s) h] else []),
          qserved := qserved s @ (if L \<in> held k h \<and> L \<notin> held (qlock s) h then [caller (qjob s) h] else [])\<rparr>)
   | Out \<Rightarrow> if L \<notin> held (qlock s) h then s else (case qjob s h of
       None \<Rightarrow> s
     | Some (c, l, as) \<Rightarrow> (case as of
         a # as \<Rightarrow> (case a (l, qmem s) of (l', m) \<Rightarrow> s\<lparr>qmem := m, qjob := (qjob s)(h \<mapsto> (c, l', as))\<rparr>)
       | [] \<Rightarrow> s\<lparr>qlock := (qlock s)\<lparr>mpc := (mpc (qlock s))(h := mcs_release_call h L (mmem (qlock s))),
            held := (held (qlock s))(h := held (qlock s) h - {L})\<rparr>,
          qjob := (qjob s)(h := None), qdone := qdone s @ [(h, c, l)]\<rparr>))
   | _ \<Rightarrow> s)"

definition queue_turns :: "u32 \<Rightarrow> nat list \<Rightarrow> ('c, 'l, 'm) queue_sys \<Rightarrow> ('c, 'l, 'm) queue_sys" where
  "queue_turns L hs s = fold (queue_turn L) hs s"

definition queue_boot :: "'m \<Rightarrow> ('c, 'l, 'm) queue_sys" where
  "queue_boot m = \<lparr>qlock = mcs_boot, qmem = m, qjob = (\<lambda>_. None), qarrived = [], qserved = [], qdone = []\<rparr>"

abbreviation queue_reach where
  "queue_reach m L code regs \<equiv> reach (queue_start m) (queue_step L code regs)"

lemma reach_queue_boot: "queue_reach m L code regs (queue_boot m)"
  by (rule reach_start) (simp add: queue_start_def queue_boot_def mcs_start_def mcs_boot_def)

lemma reach_queue_enter:
  "queue_reach m L code regs s \<Longrightarrow> h < MCS_MAX_HARTS \<Longrightarrow> queue_reach m L code regs (queue_enter L code regs h c s)"
  by (auto simp: queue_enter_def split: prod.splits intro: reach_step queue_step.queue_call)

lemma reach_queue_turn:
  assumes s: "queue_reach m L code regs s" and h: "h < MCS_MAX_HARTS"
  shows "queue_reach m L code regs (queue_turn L h s)"
proof (cases "mpc (qlock s) h")
  case (At K me p)
  then show ?thesis using reach_step [OF s queue_moves [OF h At refl]] by (simp add: queue_turn_def Let_def)
next
  case Out
  show ?thesis
  proof (cases "L \<notin> held (qlock s) h \<or> qjob s h = None")
    case False
    then obtain c l as where j: "qjob s h = Some (c, l, as)" "L \<in> held (qlock s) h" by auto
    show ?thesis
    proof (cases as)
      case Nil
      then show ?thesis
        using reach_step [OF s queue_release [OF h j(2) Out j(1) [unfolded Nil]]] j by (simp add: queue_turn_def Out)
    next
      case (Cons a r)
      obtain l' m' where "a (l, qmem s) = (l', m')" by (cases "a (l, qmem s)")
      then show ?thesis
        using reach_step [OF s queue_access [OF j(2) Out j(1) [unfolded Cons]]] j Cons by (simp add: queue_turn_def Out)
    qed
  qed (auto simp: queue_turn_def Out s)
qed (simp_all add: queue_turn_def s)

lemma reach_queue_turns:
  "queue_reach m L code regs s \<Longrightarrow> \<forall>h\<in>set hs. h < MCS_MAX_HARTS \<Longrightarrow> queue_reach m L code regs (queue_turns L hs s)"
  by (induction hs arbitrary: s) (auto simp: queue_turns_def intro: reach_queue_turn)

text \<open>Only the hart of the first node of a line can hold the lock.\<close>

lemma nobody_holds:
  assumes "queue_reach m L code regs s" "\<forall>b\<in>set (take 1 (waiting (qlock s) L)). L \<notin> held (qlock s) (hart b)"
  shows "\<forall>h. L \<notin> held (qlock s) h"
proof
  fix h
  have "mcs_inv (qlock s)"
    using queue_calls.reach_inv [OF assms(1)] by (auto simp: queue_sys_inv_def dest: calls_matchD(1))
  then show "L \<notin> held (qlock s) h" using holder_first [of "qlock s" L h] assms(2) by auto
qed

text \<open>
  Hart 2 pushes a node, hart 0 has called \<open>list_pop_front\<close> meanwhile and stands in line; hart 2 has begun to
  release the lock. The other run is that of two harts which add to a counter.
\<close>

definition push_then_wait :: "(list_call, list_regs, list_state) queue_sys" where
  "push_then_wait = queue_turns 5 ([2, 2, 0, 2, 2, 0, 0, 0, 0] @ replicate 14 2)
     (queue_enter 5 list_code list_enter 0 PopFront
       (queue_enter 5 list_code list_enter 2 (PushBack 0x1000) (queue_boot (list_init, \<lambda>_. 0))))"

definition add_code :: "u32 \<Rightarrow> (u32, u32) code" where
  "add_code c = [\<lambda>(r, m). (m, m), \<lambda>(r, m). (r, r + c)]"

definition two_adders :: "(u32, u32, u32) queue_sys" where
  "two_adders = queue_turns 5 [2, 2, 0, 2, 2, 0, 0, 0, 0, 2, 0, 2, 0, 2, 2, 2, 2, 0, 0, 0, 0, 0, 0]
     (queue_enter 5 add_code (\<lambda>_. 0) 0 7 (queue_enter 5 add_code (\<lambda>_. 0) 2 3 (queue_boot 10)))"

lemma reach_push_then_wait: "queue_reach (list_init, \<lambda>_. 0) 5 list_code list_enter push_then_wait"
  unfolding push_then_wait_def
  by (intro reach_queue_turns reach_queue_enter reach_queue_boot) (auto simp: MCS_MAX_HARTS_def)

lemma reach_two_adders: "queue_reach 10 5 add_code (\<lambda>_. 0) two_adders"
  unfolding two_adders_def
  by (intro reach_queue_turns reach_queue_enter reach_queue_boot) (auto simp: MCS_MAX_HARTS_def)

lemma push_then_wait:
  "qserved push_then_wait = [(2, PushBack 0x1000)]" "qarrived push_then_wait = [(2, PushBack 0x1000), (0, PopFront)]"
  "\<forall>b\<in>set (take 1 (waiting (qlock push_then_wait) 5)). 5 \<notin> held (qlock push_then_wait) (hart b)"
  by code_simp+

lemma two_adders:
  "qserved two_adders = [(2, 3), (0, 7)]" "qmem two_adders = 20"
  "\<forall>b\<in>set (take 1 (waiting (qlock two_adders) 5)). 5 \<notin> held (qlock two_adders) (hart b)"
  by code_simp+

section \<open>Properties\<close>

text \<open>
  C15: calls that the harts below \<open>MCS_MAX_HARTS\<close>, which is 4, make under the queue lock are served in the order of
  arrival, for any bodies and any interleaving with other harts and other locks: the calls that have got the lock are a prefix of
  those that reached the tail, at most one is in progress, and whenever none is, memory and results
  are those of the calls made one after the other in that order.
\<close>

theorem queue_calls_in_arrival_order:
  assumes "reach (queue_start m) (queue_step L code regs) s"
  shows "(\<exists>later. qarrived s = qserved s @ later) \<and>
    (\<forall>h g. L \<in> held (qlock s) h \<longrightarrow> L \<in> held (qlock s) g \<longrightarrow> g = h) \<and>
    ((\<forall>h. L \<notin> held (qlock s) h) \<longrightarrow> serial code regs (qserved s) m = (qdone s, qmem s))"
proof -
  have inv: "queue_sys_inv L code regs m s" by (rule queue_calls.reach_inv [OF assms])
  then have "mcs_inv (qlock s)" by (auto simp: queue_sys_inv_def dest: calls_matchD(1))
  then show ?thesis
    using inv one_holder unfolding queue_sys_inv_def in_order_def served_serially_def by blast
qed

text \<open>
  C16: the packet lists under the queue lock are queues in the order of arrival, for callers on the harts below
  \<open>MCS_MAX_HARTS\<close>, which is 4; the lock has no table entries for further harts. When no hart is in its critical section the nodes returned, followed by those linked, are the nodes pushed by the calls
  served, and those calls are the first ones that reached the tail of the lock.
\<close>

theorem queue_lock_list_fifo:
  assumes "reach (queue_start (list_init, m)) (queue_step L list_code list_enter) s"
    and "\<forall>h. L \<notin> held (qlock s) h"
    and "map snd (qserved s) = map call_of ops" "legal can_link ops []"
  shows "(\<exists>later. qarrived s = qserved s @ later) \<and>
    (\<exists>rest. list_rep (qmem s) rest \<and> counts (qmem s) rest \<and> returned (qdone s) @ rest = pushed ops)"
proof -
  have inv: "queue_sys_inv L list_code list_enter (list_init, m) s" by (rule queue_calls.reach_inv [OF assms(1)])
  then have "serial list_code list_enter (qserved s) (list_init, m) = (qdone s, qmem s)"
    using assms(2) unfolding queue_sys_inv_def served_serially_def by blast
  then have "\<exists>rest. list_rep (qmem s) rest \<and> counts (qmem s) rest \<and> returned (qdone s) @ rest = pushed ops"
    using serial_queue_run [OF assms(3), of "(list_init, m)"] llq.run_fifo [OF _ assms(4), of "(list_init, m)"]
      list_init_rep by (auto simp: list_ok_def)
  then show ?thesis using inv unfolding queue_sys_inv_def in_order_def by blast
qed

theorem queue_calls_in_arrival_order_witness:
  "qserved two_adders = [(2, 3), (0, 7)] \<and> qmem two_adders = 20 \<and>
    serial add_code (\<lambda>_. 0) [(2, 3), (0, 7)] 10 = (qdone two_adders, qmem two_adders)"
  using queue_calls_in_arrival_order [OF reach_two_adders] nobody_holds [OF reach_two_adders two_adders(3)]
    two_adders(1,2) by simp

theorem queue_lock_list_fifo_witness:
  "qarrived push_then_wait = qserved push_then_wait @ [(0, PopFront)] \<and>
    (\<exists>rest. list_rep (qmem push_then_wait) rest \<and> returned (qdone push_then_wait) @ rest = [0x1000])"
proof -
  have "map snd (qserved push_then_wait) = map call_of [Push 0x1000]" by (simp add: push_then_wait)
  moreover have "legal can_link [Push 0x1000] []" by (simp add: can_link_def node_apart_def)
  ultimately have "\<exists>rest. list_rep (qmem push_then_wait) rest \<and> counts (qmem push_then_wait) rest \<and>
      returned (qdone push_then_wait) @ rest = pushed [Push 0x1000]"
    using queue_lock_list_fifo [OF reach_push_then_wait nobody_holds [OF reach_push_then_wait push_then_wait(3)]] by blast
  then show ?thesis using push_then_wait by auto
qed

end
