(* ===== verification/AllocConc.thy ===== *)
theory AllocConc
  imports Critical PageAlloc
begin

text \<open>
  The page allocator under its lock: the bodies of \<open>mm_alloc\<close> and \<open>mm_free\<close> access by access, called
  by any number of harts at once. Theory \<open>PageAlloc\<close> has the same operations in one piece.
\<close>

section \<open>The bodies\<close>

text \<open>
  \<open>fits\<close> is the condition on the bump pointer, \<open>fl\<close> and \<open>tmp\<close> are temporaries, \<open>got\<close> is the
  local variable \<open>page\<close>.
\<close>

record mm_regs =
  fits :: bool
  fl :: u32
  tmp :: u32
  got :: u32

type_synonym mm_access = "mm_regs \<times> mm_state \<Rightarrow> mm_regs \<times> mm_state"

definition fetch :: "(mm_regs \<Rightarrow> mm_state \<Rightarrow> mm_regs) \<Rightarrow> mm_access" where
  "fetch f = (\<lambda>(r, s). (f r s, s))"

definition store_ctx :: "(mm_regs \<Rightarrow> mm_context \<Rightarrow> mm_context) \<Rightarrow> mm_access" where
  "store_ctx f = (\<lambda>(r, c, m). (r, f r c, m))"

definition only_if :: "(mm_regs \<Rightarrow> bool) \<Rightarrow> mm_access \<Rightarrow> mm_access" where
  "only_if P a = (\<lambda>(r, s). if P r then a (r, s) else (r, s))"

lemmas mm_access_defs = fetch_def store_ctx_def only_if_def

definition mm_alloc_body :: "u32 \<Rightarrow> (mm_regs, mm_state) code" where
  "mm_alloc_body bulk_buffer =
    [fetch (\<lambda>r (c, m). r\<lparr>fits := alloc_offset c + PAGE_SIZE \<le> BUFFER_SIZE\<rparr>),
     only_if fits (fetch (\<lambda>r (c, m). r\<lparr>got := bulk_buffer + 4 * (alloc_offset c div 4)\<rparr>)),
     only_if fits (fetch (\<lambda>r (c, m). r\<lparr>tmp := alloc_offset c\<rparr>)),
     only_if fits (store_ctx (\<lambda>r c. c\<lparr>alloc_offset := tmp r + PAGE_SIZE\<rparr>)),
     only_if (\<lambda>r. \<not> fits r) (fetch (\<lambda>r (c, m). r\<lparr>fl := free_list c\<rparr>)),
     only_if (\<lambda>r. \<not> fits r \<and> fl r \<noteq> NULL) (fetch (\<lambda>r (c, m). r\<lparr>got := free_list c\<rparr>)),
     only_if (\<lambda>r. \<not> fits r \<and> fl r \<noteq> NULL) (fetch (\<lambda>r (c, m). r\<lparr>tmp := free_list c\<rparr>)),
     only_if (\<lambda>r. \<not> fits r \<and> fl r \<noteq> NULL) (fetch (\<lambda>r (c, m). r\<lparr>tmp := free_page_next m (tmp r)\<rparr>)),
     only_if (\<lambda>r. \<not> fits r \<and> fl r \<noteq> NULL) (store_ctx (\<lambda>r c. c\<lparr>free_list := tmp r\<rparr>)),
     only_if (\<lambda>r. \<not> fits r \<and> fl r = NULL) (fetch (\<lambda>r s. r\<lparr>got := NULL\<rparr>))]"

text \<open>\<open>mm_free\<close> of NULL returns before it takes the lock; its body is for other pages.\<close>

definition mm_free_body :: "u32 \<Rightarrow> (mm_regs, mm_state) code" where
  "mm_free_body p =
    [fetch (\<lambda>r (c, m). r\<lparr>tmp := free_list c\<rparr>),
     (\<lambda>(r, c, m). (r, c, set_free_page_next m p (tmp r))),
     store_ctx (\<lambda>r c. c\<lparr>free_list := p\<rparr>)]"

primrec mm_code :: "u32 \<Rightarrow> alloc_op \<Rightarrow> (mm_regs, mm_state) code" where
  "mm_code bulk_buffer Alloc = mm_alloc_body bulk_buffer"
| "mm_code bulk_buffer (Free p) = mm_free_body p"

definition mm_enter :: "alloc_op \<Rightarrow> mm_regs" where
  "mm_enter c = \<lparr>fits = False, fl = NULL, tmp = NULL, got = NULL\<rparr>"

section \<open>The bodies in one piece\<close>

lemma run_mm_alloc:
  "got r = NULL \<Longrightarrow> (case run_code (mm_alloc_body bulk) (r, s) of (r', s') \<Rightarrow> (got r', s')) = mm_alloc bulk s"
  by (cases s) (simp add: mm_alloc_body_def mm_alloc_def mm_access_defs)

lemma run_mm_free: "p \<noteq> NULL \<Longrightarrow> snd (run_code (mm_free_body p) (r, s)) = mm_free p s"
  by (cases s) (simp add: mm_free_body_def mm_free_def mm_access_defs)

section \<open>Serial runs as runs of a client\<close>

text \<open>
  The pages that are held after a sequence of finished calls; \<open>None\<close> if a call frees a page that
  is not held.
\<close>

fun held_after :: "(nat \<times> alloc_op \<times> mm_regs) list \<Rightarrow> u32 multiset \<Rightarrow> u32 multiset option" where
  "held_after [] h = Some h"
| "held_after ((t, Alloc, r) # ds) h = held_after ds (if got r = NULL then h else add_mset (got r) h)"
| "held_after ((t, Free p, r) # ds) h = (if p \<in># h then held_after ds (h - {#p#}) else None)"

lemma serial_serve:
  assumes "held_after (fst (serial (mm_code bulk) mm_enter xs s)) h = Some h'" "NULL \<notin># h"
  shows "serve (mm_alloc bulk) mm_free (map snd xs) (s, h) = (snd (serial (mm_code bulk) mm_enter xs s), h')"
  using assms
proof (induction xs arbitrary: s h)
  case (Cons x xs)
  obtain t c where x: "x = (t, c)" by (cases x)
  show ?case
  proof (cases c)
    case Alloc
    have "got (mm_enter Alloc) = NULL" by (simp add: mm_enter_def)
    from run_mm_alloc [OF this, of bulk s] obtain r s' where
        run: "run_code (mm_alloc_body bulk) (mm_enter Alloc, s) = (r, s')" "mm_alloc bulk s = (got r, s')"
      by (auto split: prod.splits)
    show ?thesis
      using Cons.prems Cons.IH [of s' "if got r = NULL then h else add_mset (got r) h"]
      by (auto simp: x Alloc run split_def)
  next
    case (Free p)
    obtain r s' where run: "run_code (mm_free_body p) (mm_enter (Free p), s) = (r, s')"
      using prod.exhaust by blast
    have p: "p \<in># h" using Cons.prems(1) by (auto simp: x Free run split_def split: if_splits)
    then have "p \<noteq> NULL" using Cons.prems(2) by auto
    then have "mm_free p s = s'" using run_mm_free [of p "mm_enter (Free p)" s] run by simp
    then show ?thesis
      using Cons.prems Cons.IH [of s' "h - {#p#}"] p in_diffD by (fastforce simp: x Free run split_def)
  qed
qed simp

section \<open>Properties\<close>

text \<open>
  C6: for any number of harts calling \<open>mm_alloc\<close> and \<open>mm_free\<close> at once, with their accesses
  interleaved under the lock: as long as only pages are freed that are held, no page is ever
  handed to two callers, and at most 1024 pages are out.
\<close>

theorem concurrent_mm_no_double_handout:
  assumes "pool_ok bulk"
    and "reach (crit_start (mm_init bulk, m)) (crit_step spin_lock spin_unlock (mm_code bulk) mm_enter) s"
    and "\<forall>t. \<not> holder (cpos s t)" "held_after (cdone s) {#} = Some h"
  shows "count h p \<le> 1 \<and> size h \<le> 1024"
proof -
  have "serial (mm_code bulk) mm_enter (cserved s) (mm_init bulk, m) = (cdone s, cmem s)"
    by (rule list_spin.serialised [OF assms(2,3)])
  then have "serve (mm_alloc bulk) mm_free (map snd (cserved s)) ((mm_init bulk, m), {#}) = (cmem s, h)"
    using serial_serve [of bulk "cserved s" "(mm_init bulk, m)" "{#}" h] assms(4) by simp
  moreover have "mm_available bulk (mm_init bulk, m) (map (page bulk) [0..<1024])"
    using mm_rep_init [OF assms(1), of m] by (auto simp: mm_available_def available_def)
  ultimately show ?thesis using mm.serve_no_double_handout [of bulk "(mm_init bulk, m)" "map (page bulk) [0..<1024]" "map snd (cserved s)" p]
    by simp
qed

theorem concurrent_mm_no_double_handout_witness:
  "\<exists>(s :: (alloc_op, mm_regs, mm_state) crit_sys) h. cserved s = [(0, Alloc), (1, Alloc)] \<and> held_after (cdone s) {#} = Some h \<and> count h bulk0 \<le> 1"
proof -
  obtain s where s: "reach (crit_start (mm_init bulk0, \<lambda>_. 0)) (crit_step spin_lock spin_unlock (mm_code bulk0) mm_enter) s"
      "quiet s" "cserved s = [(0, Alloc), (1, Alloc)]"
    using spin_calls [of "(mm_init bulk0, \<lambda>_. 0)" "mm_code bulk0" mm_enter] by metis
  have "serial (mm_code bulk0) mm_enter (cserved s) (mm_init bulk0, \<lambda>_. 0) = (cdone s, cmem s)"
    by (rule list_spin.serialised [OF s(1) quiet_free [OF s(2)]])
  then have "\<exists>r q. cdone s = [(0, Alloc, r), (1, Alloc, q)]"
    unfolding s(3) by (simp add: split_def) (metis fst_conv)
  then obtain r q where "cdone s = [(0, Alloc, r), (1, Alloc, q)]" by blast
  then obtain h where h: "held_after (cdone s) {#} = Some h" by simp
  have "pool_ok bulk0" by (simp add: pool_ok_def bulk0_def)
  then show ?thesis
    using concurrent_mm_no_double_handout [OF _ s(1) quiet_free [OF s(2)] h] s(3) h by blast
qed

end
