(* ===== verification/DispatchConc.thy ===== *)
theory DispatchConc
  imports Critical Kmp
begin

text \<open>
  Dynamic loops under the mutex of the event unit: \<open>__kmpc_dispatch_init_4\<close> and
  \<open>__kmpc_dispatch_next_4\<close> access by access, called by all threads of the team at once. Theory
  \<open>Kmp\<close> has the same operations in one piece.
\<close>

section \<open>The bodies\<close>

text \<open>
  \<open>vars\<close> are the caller's variables behind \<open>p_last\<close>, \<open>p_lb\<close>, \<open>p_ub\<close> and \<open>p_st\<close>, \<open>taken\<close> is
  the last condition, \<open>start_reg\<close> and \<open>chunk_reg\<close> are temporaries, \<open>code_ret\<close> is the value returned.
\<close>

record loop_regs =
  vars :: chunk_vars
  taken :: bool
  unfinished :: bool
  start_reg :: i32
  chunk_reg :: i32
  code_ret :: i32

type_synonym loop_access = "loop_regs \<times> omp_team \<Rightarrow> loop_regs \<times> omp_team"

definition get_loop :: "(omp_team \<Rightarrow> loop_regs \<Rightarrow> loop_regs) \<Rightarrow> loop_access" where
  "get_loop f = (\<lambda>(r, team). (f team r, team))"

definition put_loop :: "(loop_regs \<Rightarrow> omp_team \<Rightarrow> omp_team) \<Rightarrow> loop_access" where
  "put_loop f = (\<lambda>(r, team). (r, f r team))"

definition branch :: "(loop_regs \<Rightarrow> bool) \<Rightarrow> loop_access \<Rightarrow> loop_access" where
  "branch P a = (\<lambda>(r, team). if P r then a (r, team) else (r, team))"

lemmas loop_access_defs = get_loop_def put_loop_def branch_def

datatype loop_call = DispatchInit i32 i32 i32 i32 | DispatchNext chunk_vars

definition dispatch_init_body :: "i32 \<Rightarrow> i32 \<Rightarrow> i32 \<Rightarrow> i32 \<Rightarrow> (loop_regs, omp_team) code" where
  "dispatch_init_body lb ub st chunk =
    get_loop (\<lambda>team r. r\<lparr>taken := loop_is_setup team = 0\<rparr>) #
    map (branch taken)
     [put_loop (\<lambda>r team. team\<lparr>loop_is_setup := 1\<rparr>),
      put_loop (\<lambda>r team. team\<lparr>loop_start := lb\<rparr>),
      put_loop (\<lambda>r team. team\<lparr>loop_end := ub\<rparr>),
      put_loop (\<lambda>r team. team\<lparr>loop_incr := st\<rparr>),
      put_loop (\<lambda>r team. team\<lparr>loop_chunk := chunk\<rparr>)]"

definition dispatch_next_body :: "(loop_regs, omp_team) code" where
  "dispatch_next_body =
    [get_loop (\<lambda>team r. r\<lparr>start_reg := loop_start team\<rparr>),
     get_loop (\<lambda>team r. r\<lparr>unfinished := sint (start_reg r) \<le> sint (loop_end team)\<rparr>),
     branch (\<lambda>r. \<not> unfinished r) (put_loop (\<lambda>r team. team\<lparr>loop_is_setup := 0\<rparr>)),
     branch (\<lambda>r. \<not> unfinished r) (get_loop (\<lambda>team r. r\<lparr>code_ret := 0\<rparr>))] @
    map (branch unfinished)
     [get_loop (\<lambda>team r. r\<lparr>vars := (vars r)\<lparr>p_lb := loop_start team\<rparr>\<rparr>),
      get_loop (\<lambda>team r. r\<lparr>vars := (vars r)\<lparr>p_ub := p_lb (vars r) + loop_chunk team - 1\<rparr>\<rparr>),
      get_loop (\<lambda>team r. r\<lparr>taken := sint (loop_end team) \<le> sint (p_ub (vars r))\<rparr>),
      branch taken (get_loop (\<lambda>team r. r\<lparr>vars := (vars r)\<lparr>p_ub := loop_end team\<rparr>\<rparr>)),
      branch taken (get_loop (\<lambda>team r. r\<lparr>vars := (vars r)\<lparr>p_last := 1\<rparr>\<rparr>)),
      get_loop (\<lambda>team r. r\<lparr>start_reg := loop_start team\<rparr>),
      get_loop (\<lambda>team r. r\<lparr>chunk_reg := loop_chunk team\<rparr>),
      put_loop (\<lambda>r team. team\<lparr>loop_start := start_reg r + chunk_reg r\<rparr>),
      get_loop (\<lambda>team r. r\<lparr>code_ret := 1\<rparr>)]"

primrec dispatch_code :: "loop_call \<Rightarrow> (loop_regs, omp_team) code" where
  "dispatch_code (DispatchInit lb ub st chunk) = dispatch_init_body lb ub st chunk"
| "dispatch_code (DispatchNext v) = dispatch_next_body"

text \<open>Before it takes the mutex, \<open>__kmpc_dispatch_next_4\<close> sets the stride.\<close>

definition dispatch_enter :: "loop_call \<Rightarrow> loop_regs" where
  "dispatch_enter c = \<lparr>vars = (case c of DispatchInit lb ub st chunk \<Rightarrow> \<lparr>p_last = 0, p_lb = 0, p_ub = 0, p_st = 0\<rparr>
      | DispatchNext v \<Rightarrow> v\<lparr>p_st := 1\<rparr>), taken = False, unfinished = False, start_reg = 0, chunk_reg = 0, code_ret = 0\<rparr>"

section \<open>The bodies in one piece\<close>

lemma run_dispatch_init:
  "snd (run_code (dispatch_init_body lb ub st chunk) (r, team)) = kmpc_dispatch_init_4 lb ub st chunk team"
  by (simp add: dispatch_init_body_def kmpc_dispatch_init_4_def loop_access_defs)

lemma run_dispatch_next:
  "(case run_code dispatch_next_body (dispatch_enter (DispatchNext v), team) of (r, team') \<Rightarrow>
     (code_ret r, vars r, team')) = kmpc_dispatch_next_4 team v"
  by (simp add: dispatch_next_body_def kmpc_dispatch_next_4_def loop_access_defs dispatch_enter_def Let_def not_less)

section \<open>The mutex\<close>

text \<open>\<open>eu_mutex_lock\<close> and \<open>eu_mutex_release\<close> work on the field \<open>workers_mutex\<close> of the event unit.\<close>

definition eu_mutex_lock :: "lock_pc \<times> u32 \<Rightarrow> lock_pc \<times> u32" where
  "eu_mutex_lock = snrt_mutex_lock"

definition eu_mutex_release :: "lock_pc \<times> u32 \<Rightarrow> lock_pc \<times> u32" where
  "eu_mutex_release = snrt_mutex_release"

interpretation eu_mutex: spin_lock_impl eu_mutex_lock eu_mutex_release
  unfolding eu_mutex_lock_def eu_mutex_release_def by (rule mutex.spin_lock_impl_axioms)

section \<open>Serial runs\<close>

text \<open>What the finished \<open>__kmpc_dispatch_next_4\<close> calls returned, in the order of the calls.\<close>

definition next_results :: "(nat \<times> loop_call \<times> loop_regs) list \<Rightarrow> (i32 \<times> chunk_vars) list" where
  "next_results ds = [(code_ret r, vars r). (t, c, r) \<leftarrow> ds, \<exists>v. c = DispatchNext v]"

primrec is_init :: "loop_call \<Rightarrow> bool" where
  "is_init (DispatchInit lb ub st chunk) \<longleftrightarrow> True"
| "is_init (DispatchNext v) \<longleftrightarrow> False"

definition next_vars :: "loop_call list \<Rightarrow> chunk_vars list" where
  "next_vars cs = [v. DispatchNext v \<leftarrow> cs]"

lemma next_results_simps [simp]:
  "next_results [] = []"
  "next_results ((t, DispatchInit lb ub st chunk, r) # ds) = next_results ds"
  "next_results ((t, DispatchNext v, r) # ds) = (code_ret r, vars r) # next_results ds"
  "next_vars [] = []"
  "next_vars (DispatchInit lb ub st chunk # cs) = next_vars cs"
  "next_vars (DispatchNext v # cs) = v # next_vars cs"
  by (simp_all add: next_results_def next_vars_def)

text \<open>No thread sets up the loop once a call has found it finished.\<close>

fun no_late_init :: "(nat \<times> loop_call \<times> loop_regs) list \<Rightarrow> bool" where
  "no_late_init [] \<longleftrightarrow> True"
| "no_late_init ((t, c, r) # ds) \<longleftrightarrow>
     (\<not> is_init c \<and> code_ret r = 0 \<longrightarrow> (\<forall>d\<in>set ds. \<not> is_init (fst (snd d)))) \<and> no_late_init ds"

text \<open>
  The results of \<open>__kmpc_dispatch_next_4\<close>, cut where a call of \<open>__kmpc_dispatch_init_4\<close> finds the loop not
  set up: at the first one, and at the first one after a call has returned 0. \<open>up\<close> says that the loop is set up.
\<close>

fun rounds :: "bool \<Rightarrow> (nat \<times> loop_call \<times> loop_regs) list \<Rightarrow> (i32 \<times> chunk_vars) list list" where
  "rounds up [] = [[]]"
| "rounds up ((t, c, r) # ds) =
     (if is_init c then (if up then rounds True ds else [] # rounds True ds)
      else case rounds (up \<and> code_ret r \<noteq> 0) ds of g # gs \<Rightarrow> ((code_ret r, vars r) # g) # gs)"

lemma rounds_Cons: "\<exists>g gs. rounds up ds = g # gs"
proof (induction up ds rule: rounds.induct)
  case (2 up t c r ds)
  then show ?case by (cases "is_init c") (auto split: list.split)
qed simp

lemma one_round:
  "length (rounds up ds) = 1 \<longleftrightarrow> (if up then no_late_init ds else \<forall>d\<in>set ds. \<not> is_init (fst (snd d)))"
proof (induction up ds rule: rounds.induct)
  case (2 up t c r ds)
  have late: "\<forall>d\<in>set ds. \<not> is_init (fst (snd d)) \<Longrightarrow> no_late_init ds"
    by (induction ds rule: no_late_init.induct) auto
  obtain g gs where "rounds (up \<and> code_ret r \<noteq> 0) ds = g # gs" using rounds_Cons by blast
  moreover obtain h hs where "rounds True ds = h # hs" using rounds_Cons by blast
  ultimately show ?case using 2 late by (cases "is_init c") (auto split: if_splits)
qed simp

lemma concat_rounds: "concat (rounds up ds) = next_results ds"
proof (induction up ds rule: rounds.induct)
  case (2 up t c r ds)
  obtain g gs where "rounds (up \<and> code_ret r \<noteq> 0) ds = g # gs" using rounds_Cons by blast
  then show ?case using 2 by (cases c) auto
qed simp

lemma next_keeps_setup:
  assumes "kmpc_dispatch_next_4 team v = (ret, v', team')"
  shows "loop_is_setup team' \<noteq> 0 \<longleftrightarrow> loop_is_setup team \<noteq> 0 \<and> ret \<noteq> 0"
  using assms by (auto simp: kmpc_dispatch_next_4_def Let_def split: if_splits)

text \<open>Every round is a run of \<open>__kmpc_dispatch_next_4\<close> on the loop as it was set up.\<close>

lemma serial_rounds:
  assumes "\<And>x. x \<in> set xs \<Longrightarrow> is_init (snd x) \<Longrightarrow> snd x = DispatchInit lb ub st ch"
  shows "(\<exists>vs. hd (rounds (loop_is_setup team \<noteq> 0) (fst (serial dispatch_code dispatch_enter xs team))) =
        fst (dispatch_run vs team)) \<and>
    (\<forall>g\<in>set (tl (rounds (loop_is_setup team \<noteq> 0) (fst (serial dispatch_code dispatch_enter xs team)))).
        \<exists>vs team'. loop_is_setup team' = 0 \<and> g = fst (dispatch_run vs (kmpc_dispatch_init_4 lb ub st ch team')))"
  using assms
proof (induction xs arbitrary: team)
  case Nil
  have "\<exists>vs. [] = fst (dispatch_run vs team)" by (rule exI [of _ "[]"]) simp
  then show ?case by simp
next
  case (Cons x xs)
  obtain r team' where run: "run_code (dispatch_code (snd x)) (dispatch_enter (snd x), team) = (r, team')" by fastforce
  note ser = serial_Cons [where code = dispatch_code and regs = dispatch_enter and xs = xs and x = x, OF run]
  let ?ds = "fst (serial dispatch_code dispatch_enter xs team')"
  obtain g gs where rs: "rounds (loop_is_setup team' \<noteq> 0) ?ds = g # gs" using rounds_Cons by blast
  obtain vs where IH: "g = fst (dispatch_run vs team')"
      "\<forall>g\<in>set gs. \<exists>vs team'. loop_is_setup team' = 0 \<and> g = fst (dispatch_run vs (kmpc_dispatch_init_4 lb ub st ch team'))"
    using Cons.IH [of team'] Cons.prems unfolding rs by auto
  show ?case
  proof (cases "snd x")
    case (DispatchInit lb' ub' st' ch')
    then have "snd x = DispatchInit lb ub st ch" using Cons.prems [of x] by simp
    then have t: "team' = kmpc_dispatch_init_4 lb ub st ch team"
      using run run_dispatch_init [of lb ub st ch "dispatch_enter (snd x)" team] by simp
    show ?thesis
    proof (cases "loop_is_setup team = 0")
      case True
      then have "loop_is_setup team' \<noteq> 0" by (simp add: t kmpc_dispatch_init_4_def)
      moreover have "\<exists>vs. [] = fst (dispatch_run vs team)" by (rule exI [of _ "[]"]) simp
      ultimately show ?thesis
        using rs IH True t unfolding ser by (auto simp: DispatchInit simp del: dispatch_run.simps)
    next
      case False
      then have "team' = team" by (simp add: t kmpc_dispatch_init_4_def)
      then show ?thesis using rs IH False unfolding ser by (auto simp: DispatchInit)
    qed
  next
    case (DispatchNext v)
    have nxt: "kmpc_dispatch_next_4 team v = (code_ret r, vars r, team')"
      using run_dispatch_next [of v team] run by (simp add: DispatchNext)
    have "(loop_is_setup team \<noteq> 0 \<and> code_ret r \<noteq> 0) = (loop_is_setup team' \<noteq> 0)"
      using next_keeps_setup [OF nxt] by simp
    moreover have "\<exists>vs. (code_ret r, vars r) # g = fst (dispatch_run vs team)"
      using IH(1) by (intro exI [of _ "v # vs"]) (simp add: nxt split_def Let_def)
    ultimately show ?thesis
      using rs IH(2) unfolding ser by (simp add: DispatchNext)
  qed
qed

section \<open>Properties\<close>

text \<open>
  C26: a dynamic loop that any number of threads set up and ask for work at the same time, with their
  accesses interleaved under the mutex. Each time the loop is set up, each iteration of \<open>lb .. ub\<close> goes to
  exactly one call once there have been enough calls, no other iteration is handed out, and a call
  returns 0 exactly when all are. The loop is set up a second time, and handed out again from the start, exactly
  when a thread comes to \<open>__kmpc_dispatch_init_4\<close> after a call has returned 0, which nothing in the code
  prevents; otherwise every iteration is handed out once.
\<close>

theorem concurrent_dispatch_once:
  assumes "reach (crit_start team) (crit_step eu_mutex_lock eu_mutex_release dispatch_code dispatch_enter) s"
    and "\<forall>t. \<not> holder (cpos s t)" "loop_is_setup team = 0"
    and "map snd (cserved s) = DispatchInit lb ub st (of_nat C) # cs"
    and "\<forall>c\<in>set cs. is_init c \<longrightarrow> c = DispatchInit lb ub st (of_nat C)"
    and "0 < C" "sint ub + int C < 2147483648"
  shows "(\<forall>rs\<in>set (tl (rounds False (cdone s))).
      (sint lb \<le> i \<longrightarrow> i \<le> sint ub \<longrightarrow> i < chunk_lo lb C (length rs) \<longrightarrow> (\<exists>!q. q < length rs \<and> hands_out rs q i))
    \<and> (\<forall>q<length rs. hands_out rs q i \<longrightarrow> sint lb \<le> i \<and> i \<le> sint ub)
    \<and> (\<forall>q<length rs. fst (rs ! q) = 0 \<longleftrightarrow> sint ub < chunk_lo lb C q))
    \<and> (no_late_init (cdone s) \<longleftrightarrow> length (tl (rounds False (cdone s))) = 1)
    \<and> concat (rounds False (cdone s)) = next_results (cdone s)"
proof (intro conjI ballI)
  have ser: "serial dispatch_code dispatch_enter (cserved s) team = (cdone s, cmem s)"
    by (rule eu_mutex.serialised [OF assms(1,2)])
  have same: "snd x = DispatchInit lb ub st (of_nat C)" if "x \<in> set (cserved s)" "is_init (snd x)" for x
  proof -
    have "snd x \<in> set (DispatchInit lb ub st (of_nat C) # cs)" using that(1) assms(4) by (metis image_eqI set_map)
    then show ?thesis using that(2) assms(5) by auto
  qed
  fix rs assume "rs \<in> set (tl (rounds False (cdone s)))"
  then obtain vs team' where rs: "loop_is_setup team' = 0"
      "rs = fst (dispatch_run vs (kmpc_dispatch_init_4 lb ub st (of_nat C) team'))"
    using serial_rounds [where xs = "cserved s" and team = team, OF same] assms(3) by (auto simp: ser)
  note once = dispatch_hands_out_once [OF rs(1) assms(6,7), where lb = lb and st = st and vs = vs and i = i]
  have len: "length rs = length vs" unfolding rs(2) by (rule length_dispatch_run)
  show "sint lb \<le> i \<longrightarrow> i \<le> sint ub \<longrightarrow> i < chunk_lo lb C (length rs) \<longrightarrow> (\<exists>!q. q < length rs \<and> hands_out rs q i)"
    "\<forall>q<length rs. hands_out rs q i \<longrightarrow> sint lb \<le> i \<and> i \<le> sint ub"
    "\<forall>q<length rs. fst (rs ! q) = 0 \<longleftrightarrow> sint ub < chunk_lo lb C q"
    using once unfolding len unfolding rs(2) by blast+
next
  have "map (fst \<circ> snd) (cdone s) = map snd (cserved s)"
    using serial_calls [of dispatch_code dispatch_enter "cserved s" team] eu_mutex.serialised [OF assms(1,2)] by simp
  then obtain t r ds where ds: "cdone s = (t, DispatchInit lb ub st (of_nat C), r) # ds"
    using assms(4) by (cases "cdone s") auto
  then show "no_late_init (cdone s) \<longleftrightarrow> length (tl (rounds False (cdone s))) = 1"
    using one_round [of True ds] by simp
  show "concat (rounds False (cdone s)) = next_results (cdone s)"
    by (rule concat_rounds)
qed

text \<open>
  Two threads set the loop up and ask for work until a call returns 0; then a third thread sets it up.
\<close>

definition late_calls :: "(nat \<times> loop_call) list" where
  "late_calls = (let v = \<lparr>p_last = 0, p_lb = 0, p_ub = 0, p_st = 0\<rparr> in
    [(0, DispatchInit 10 13 1 3), (1, DispatchInit 10 13 1 3), (1, DispatchNext v), (0, DispatchNext v), (1, DispatchNext v),
     (2, DispatchInit 10 13 1 3), (2, DispatchNext v)])"

theorem concurrent_dispatch_once_witness:
  "\<exists>s :: (loop_call, loop_regs, omp_team) crit_sys. cserved s = late_calls \<and>
    (\<exists>!q. q < 3 \<and> hands_out (rounds False (cdone s) ! 1) q 12) \<and> \<not> no_late_init (cdone s)"
proof -
  obtain s where s: "reach (crit_start team4) (crit_step eu_mutex_lock eu_mutex_release dispatch_code dispatch_enter) s"
      "quiet s" "cserved s = late_calls"
    using mutex_calls [of team4 dispatch_code dispatch_enter] unfolding eu_mutex_lock_def eu_mutex_release_def by metis
  have ser: "serial dispatch_code dispatch_enter late_calls team4 = (cdone s, cmem s)"
    using eu_mutex.serialised [OF s(1) quiet_free [OF s(2)]] by (simp only: s(3))
  have "map length (rounds False (fst (serial dispatch_code dispatch_enter late_calls team4))) = [0, 3, 1]"
    by (simp add: late_calls_def dispatch_enter_def dispatch_init_body_def dispatch_next_body_def loop_access_defs team4_def Let_def)
  then have len: "map length (rounds False (cdone s)) = [0, 3, 1]" using ser by simp
  then obtain g h where g: "rounds False (cdone s) = [[], g, h]" "length g = 3" by (auto simp: map_eq_Cons_conv)
  have "map snd (cserved s) = DispatchInit 10 13 1 (of_nat 3) # tl (map snd late_calls)"
    "\<forall>c\<in>set (tl (map snd late_calls)). is_init c \<longrightarrow> c = DispatchInit 10 13 1 (of_nat 3)"
    by (simp_all add: s(3) late_calls_def Let_def)
  then have once: "\<exists>!q. q < length g \<and> hands_out g q 12" and late: "\<not> no_late_init (cdone s)"
    using concurrent_dispatch_once [OF s(1) quiet_free [OF s(2)], of 10 13 1 3 "tl (map snd late_calls)" 12] g
    by (simp_all add: team4_def chunk_lo_def)
  show ?thesis by (rule exI [of _ s]) (use s(3) g once late in simp)
qed

end
