(* ===== verification/EuReturns.thy ===== *)
theory EuReturns
  imports EventUnit
begin

text \<open>
  With a clear of the cluster interrupt that works (\<open>clears\<close> is \<open>True\<close>), every call of the master of the event unit
  returns; with the shipped one it need not (\<open>EuOrder\<close>). Each access that changes the state takes the system
  nearer to the end of the call: the master moves on in its call, or a worker moves on in its turn of the
  loop. What is left of both gives a number that bounds how many such accesses there can be; polls that
  find nothing new leave the state as it is.
\<close>

section \<open>What is left of a call\<close>

fun master_rank :: "master_pc \<Rightarrow> nat" where
  "master_rank MBoot = 1"
| "master_rank MIdle = 0"
| "master_rank (MPushRead t nt) = 13"
| "master_rank (MPushWait t nt l) = 12"
| "master_rank (MPush t nt) = 11"
| "master_rank (MPushN nt) = 10"
| "master_rank MRun = 9"
| "master_rank (MZero k) = 8"
| "master_rank (MWakeRead k) = 7"
| "master_rank (MWakeWait k l) = 6"
| "master_rank (MWake k) = 5"
| "master_rank (MOwn k) = 4"
| "master_rank MFiniRead = 3"
| "master_rank (MFiniWait l) = 2"
| "master_rank MClear = 1"
| "master_rank MExitRun = 7"
| "master_rank MExitRead = 6"
| "master_rank (MExitWait l) = 5"
| "master_rank MExitFlag = 4"
| "master_rank MExitWakeRead = 3"
| "master_rank (MExitWakeWait l) = 2"
| "master_rank MExitWake = 1"
| "master_rank MGone = 0"

text \<open>A worker that sleeps has nothing left to do unless it has been woken.\<close>

fun worker_rank :: "bool \<Rightarrow> worker_pc \<Rightarrow> nat" where
  "worker_rank i WStart = 6"
| "worker_rank i WSleep = (if i then 8 else 0)"
| "worker_rank i WClr = 7"
| "worker_rank i WDec = 6"
| "worker_rank i WLoop = 5"
| "worker_rank i WCheck = 4"
| "worker_rank i WRun = 3"
| "worker_rank i WFini = 2"
| "worker_rank i WAdd = 1"
| "worker_rank i WGone = 0"

definition workers_left :: "nat \<Rightarrow> eu_sys \<Rightarrow> nat" where
  "workers_left n s = (\<Sum>w\<in>{1..<n}. worker_rank (irq s w) (wpc s w))"

definition call_measure :: "nat \<Rightarrow> eu_sys \<Rightarrow> nat" where
  "call_measure n s = master_rank (mpc s) * (8 * n) + workers_left n s"

lemma worker_rank_le: "worker_rank i p \<le> 8"
  by (cases p) simp_all

lemma workers_left_less: "0 < n \<Longrightarrow> workers_left n s < 8 * n"
proof -
  assume "0 < n"
  have "workers_left n s \<le> (\<Sum>w\<in>{1..<n}. 8)"
    unfolding workers_left_def by (rule sum_mono) (rule worker_rank_le)
  then show ?thesis using \<open>0 < n\<close> by simp
qed

section \<open>Every access that changes the state\<close>

lemma master_moves:
  assumes "mpc s \<noteq> MIdle"
  shows "master n s = s \<or> master_rank (mpc (master n s)) < master_rank (mpc s)"
  using assms by (cases "mpc s") (auto simp: master_unfold move_defs Let_def)

lemma master_step_less:
  assumes "0 < n" "mpc s \<noteq> MIdle" "master n s \<noteq> s"
  shows "call_measure n (master n s) < call_measure n s"
proof -
  have "master_rank (mpc (master n s)) < master_rank (mpc s)" using master_moves [OF assms(2)] assms(3) by blast
  then have "Suc (master_rank (mpc (master n s))) * (8 * n) \<le> master_rank (mpc s) * (8 * n)"
    by (intro mult_le_mono1) simp
  then show ?thesis using workers_left_less [OF assms(1), of "master n s"] by (simp add: call_measure_def)
qed

text \<open>A worker that has not gone to sleep yet has no interrupt pending.\<close>

lemma no_irq_before_sleep:
  assumes "eu_inv n s" "1 \<le> c" "c < n" "wpc s c = WAdd"
  shows "\<not> irq s c"
proof -
  have "phase n (mpc s) s" using assms(1) by (simp add: eu_inv_def)
  moreover have "\<not> irq s c" if "booting n s \<or> quiet n X s \<or> asleep n s \<or> active n s \<or> leaving n s" for X
    using that assms(2-4) unfolding booting_def quiet_def asleep_def active_def leaving_def by auto
  ultimately show ?thesis
    by (cases "mpc s") (auto simp: idle_def ready_def working_def split: if_splits)
qed

lemma worker_moves:
  assumes "eu_inv n s" "1 \<le> c" "c < n"
  shows "eu_event_loop True c s = s \<or>
    worker_rank (irq (eu_event_loop True c s) c) (wpc (eu_event_loop True c s) c) < worker_rank (irq s c) (wpc s c)"
proof (cases "wpc s c")
  case WAdd
  then show ?thesis using no_irq_before_sleep [OF assms] by (simp add: eu_event_loop_unfold move_defs Let_def)
next
  case WGone
  then show ?thesis by (simp add: eu_event_loop_unfold)
qed (auto simp: eu_event_loop_unfold move_defs Let_def)

lemma worker_step_less:
  assumes "eu_inv n s" "1 \<le> c" "c < n" "eu_event_loop True c s \<noteq> s"
  shows "call_measure n (eu_event_loop True c s) < call_measure n s"
proof -
  let ?t = "eu_event_loop True c s"
  have c: "c \<in> {1..<n}" using assms(2,3) by simp
  have "workers_left n ?t < workers_left n s"
    unfolding workers_left_def
  proof (rule sum_strict_mono_ex1)
    show "\<forall>w\<in>{1..<n}. worker_rank (irq ?t w) (wpc ?t w) \<le> worker_rank (irq s w) (wpc s w)"
    proof
      fix w assume "w \<in> {1..<n}"
      then show "worker_rank (irq ?t w) (wpc ?t w) \<le> worker_rank (irq s w) (wpc s w)"
        using worker_moves [OF assms(1-3)] assms(4) by (cases "w = c") (auto simp: worker_frame)
    qed
    show "\<exists>w\<in>{1..<n}. worker_rank (irq ?t w) (wpc ?t w) < worker_rank (irq s w) (wpc s w)"
      using c worker_moves [OF assms(1-3)] assms(4) by blast
  qed simp
  then show ?thesis by (simp add: call_measure_def worker_frame)
qed

text \<open>After the last store of \<open>eu_exit\<close> every worker that still sleeps has been woken.\<close>

definition all_woken :: "nat \<Rightarrow> eu_sys \<Rightarrow> bool" where
  "all_woken n s \<longleftrightarrow> (mpc s = MGone \<longrightarrow> (\<forall>w. 1 \<le> w \<longrightarrow> w < n \<longrightarrow> wpc s w = WSleep \<longrightarrow> irq s w))"

lemma all_woken_step:
  assumes "eu_inv n s" "all_woken n s" "eu_step n True s t"
  shows "all_woken n t"
  using assms(3)
proof cases
  case (worker_step c)
  have "wpc t c = WSleep \<longrightarrow> wpc s c = WSleep \<and> \<not> irq s c \<or> wpc s c = WAdd"
    by (cases "wpc s c") (auto simp: worker_step eu_event_loop_unfold move_defs Let_def)
  moreover have "mpc s = MGone \<Longrightarrow> wpc s c \<noteq> WAdd"
    using assms(1) worker_step by (auto simp: eu_inv_def leaving_def)
  moreover have "w \<noteq> c \<Longrightarrow> wpc t w = wpc s w \<and> irq t w = irq s w" for w
    by (simp add: worker_step worker_frame)
  ultimately show ?thesis
    using assms(2) worker_step unfolding all_woken_def by (metis worker_frame(1))
next
  case master_step
  have "n < 32" using assms(1) by (simp add: eu_inv_def)
  then show ?thesis
    using assms(2) bit_wake_mask [of n]
    by (cases "mpc s") (auto simp: master_step all_woken_def master_unfold move_defs Let_def)
qed (auto simp: all_woken_def to_def)

interpretation returning: inductive_invariant "eu_begin n" "eu_step n True" "\<lambda>s. eu_inv n s \<and> all_woken n s" for n
proof unfold_locales
  show "eu_inv n s \<and> all_woken n s" if "eu_begin n s" for s
    using that eu_inv_start by (simp add: all_woken_def eu_begin_def eu_start_def)
  show "eu_inv n t \<and> all_woken n t" if "eu_inv n s \<and> all_woken n s" "eu_step n True s t" for s t
    using that eu_inv_step all_woken_step by blast
qed

lemma gone_when_stuck:
  assumes "all_woken n s" "mpc s = MGone" "\<And>c. 1 \<le> c \<Longrightarrow> c < n \<Longrightarrow> eu_event_loop True c s = s" "1 \<le> c" "c < n"
  shows "wpc s c = WGone"
proof -
  have "wpc (eu_event_loop True c s) c = wpc s c" using assms(3-5) by simp
  then have "wpc s c = WSleep \<and> \<not> irq s c \<or> wpc s c = WGone"
    by (cases "wpc s c") (auto simp: eu_event_loop_unfold move_defs Let_def split: if_splits)
  then show ?thesis using assms(1,2,4,5) by (auto simp: all_woken_def)
qed

section \<open>Property\<close>

text \<open>
  With a working clear every call of the event unit returns: in a call, from the start-up wait and in the exit, every step
  changes nothing, or takes the system nearer to its end by a number that starts at most at \<open>112 n\<close>; and
  when no step changes anything any more, the exit is complete: master and workers have left. So whichever
  way master and workers interleave, there are at most that many accesses that change anything before
  the master is back from its call or all are gone.
\<close>

theorem regions_return:
  assumes "reach (eu_begin n) (eu_step n True) s" "mpc s \<noteq> MIdle"
  shows "(\<forall>t. eu_step n True s t \<longrightarrow> t = s \<or> call_measure n t < call_measure n s) \<and>
    call_measure n s < 112 * n \<and>
    ((\<forall>t. eu_step n True s t \<longrightarrow> t = s) \<longrightarrow> mpc s = MGone \<and> (\<forall>c. 1 \<le> c \<longrightarrow> c < n \<longrightarrow> wpc s c = WGone))"
proof (intro conjI)
  have inv: "eu_inv n s" and wk: "all_woken n s" using returning.reach_inv [OF assms(1)] by auto
  then have n: "0 < n" by (simp add: eu_inv_def)
  show "\<forall>t. eu_step n True s t \<longrightarrow> t = s \<or> call_measure n t < call_measure n s"
  proof (intro allI impI)
    fix t assume "eu_step n True s t"
    then show "t = s \<or> call_measure n t < call_measure n s"
      by cases (use master_step_less [OF n assms(2)] worker_step_less [OF inv] assms(2) in auto)
  qed
  have "master_rank (mpc s) \<le> 13" by (cases "mpc s") simp_all
  then have "master_rank (mpc s) * (8 * n) \<le> 13 * (8 * n)" by (rule mult_le_mono1)
  then show "call_measure n s < 112 * n"
    using workers_left_less [OF n, of s] unfolding call_measure_def by linarith
  show "(\<forall>t. eu_step n True s t \<longrightarrow> t = s) \<longrightarrow> mpc s = MGone \<and> (\<forall>c. 1 \<le> c \<longrightarrow> c < n \<longrightarrow> wpc s c = WGone)"
  proof
    assume stuck: "\<forall>t. eu_step n True s t \<longrightarrow> t = s"
    then have gone: "mpc s = MGone" using regions_progress [OF assms] by blast
    have "wpc s c = WGone" if "1 \<le> c" "c < n" for c
      by (rule gone_when_stuck [OF wk gone _ that]) (use stuck worker_step in blast)
    then show "mpc s = MGone \<and> (\<forall>c. 1 \<le> c \<longrightarrow> c < n \<longrightarrow> wpc s c = WGone)" using gone by simp
  qed
qed

theorem regions_return_witness:
  "mpc (eu_run 2 True until_wake) = MOwn 2 \<and> call_measure 2 (eu_run 2 True until_wake) < 224 \<and>
    (\<exists>t. eu_step 2 True (eu_run 2 True until_wake) t \<and> t \<noteq> eu_run 2 True until_wake)"
proof -
  have "mpc (eu_run 2 True until_wake) = MOwn 2" by (simp add: eu_run_simps bit_simps)
  then show ?thesis using regions_return [OF eu_run_reach, of 2 until_wake] by auto
qed

end
