(* ===== verification/OmpSession.thy ===== *)
theory OmpSession
  imports EuOrder MoverQueue
begin

text \<open>
  An OpenMP program on one cluster from \<open>snrt_omp_bootstrap\<close> to \<open>__snrt_omp_destroy\<close> (\<open>snrt.h\<close>): core 0
  runs the program, starts parallel regions and calls the data mover, cores 1 to \<open>n - 1\<close> are in
  \<open>eu_event_loop\<close> and core \<open>n\<close> in \<open>dm_main\<close>. In the end core 0 calls \<open>eu_exit\<close> and \<open>dm_exit\<close>, and every core
  goes to the last hardware barrier, after which \<open>main\<close> returns. \<open>clears\<close> says whether the store of
  \<open>snrt_int_cluster_clr\<close> reaches the clear register; in the shipped runtime it does not.
\<close>

section \<open>The system\<close>

text \<open>
  \<open>destroying\<close> says that core 0 has called \<open>dm_exit\<close>; \<open>arrived\<close> are the cores at the last barrier.
\<close>

record omp_session =
  sev :: eu_sys
  smv :: dm_sys
  destroying :: bool
  arrived :: "nat \<Rightarrow> bool"

text \<open>Core 0 is in one call at a time, of the event unit or of the data mover.\<close>

definition in_main :: "omp_session \<Rightarrow> bool" where
  "in_main s \<longleftrightarrow> mpc (sev s) = MIdle \<and> cpc (smv s) 0 = CIdle"

text \<open>
  A core has left its service, or core 0 its \<open>__snrt_omp_destroy\<close>, and goes to the barrier.
\<close>

definition leaves :: "nat \<Rightarrow> omp_session \<Rightarrow> nat \<Rightarrow> bool" where
  "leaves n s c \<longleftrightarrow>
     c = 0 \<and> destroying s \<and> cpc (smv s) 0 = CIdle \<or> 1 \<le> c \<and> c < n \<and> wpc (sev s) c = WGone \<or> c = n \<and> dpc (smv s) = DGone"

inductive session_step :: "nat \<Rightarrow> bool \<Rightarrow> omp_session \<Rightarrow> omp_session \<Rightarrow> bool" for n clears where
  ss_worker: "1 \<le> c \<Longrightarrow> c < n \<Longrightarrow> session_step n clears s (s\<lparr>sev := eu_event_loop clears c (sev s)\<rparr>)"
| ss_master: "session_step n clears s (s\<lparr>sev := master n (sev s)\<rparr>)"
| ss_mover: "session_step n clears s (s\<lparr>smv := dm_main clears (smv s)\<rparr>)"
| ss_client: "session_step n clears s (s\<lparr>smv := dm_client 0 (smv s)\<rparr>)"
| ss_dma: "completed (smv s) < length (issued (smv s)) \<Longrightarrow>
     session_step n clears s (s\<lparr>smv := (smv s)\<lparr>completed := completed (smv s) + 1\<rparr>\<rparr>)"
| ss_region: "in_main s \<Longrightarrow> session_step n clears s (s\<lparr>sev := to (MPushRead t nt) (sev s)\<rparr>)"
| ss_call: "in_main s \<Longrightarrow> f \<noteq> Exit \<Longrightarrow> session_step n clears s (s\<lparr>smv := cgo 0 (enter f) (smv s)\<rparr>)"
| ss_eu_exit: "in_main s \<Longrightarrow> session_step n clears s (s\<lparr>sev := to MExitRun (sev s)\<rparr>)"
| ss_dm_exit: "mpc (sev s) = MGone \<Longrightarrow> cpc (smv s) 0 = CIdle \<Longrightarrow> \<not> destroying s \<Longrightarrow>
     session_step n clears s (s\<lparr>smv := cgo 0 (enter Exit) (smv s), destroying := True\<rparr>)"
| ss_arrive: "leaves n s c \<Longrightarrow> session_step n clears s (s\<lparr>arrived := (arrived s)(c := True)\<rparr>)"

definition session_begin :: "nat \<Rightarrow> omp_session \<Rightarrow> bool" where
  "session_begin n s \<longleftrightarrow> eu_begin n (sev s) \<and> dm_start_state (smv s) \<and> \<not> destroying s \<and> (\<forall>c. \<not> arrived s c)"

section \<open>The event unit in the session\<close>

lemma session_eu:
  assumes "session_step n clears s t"
  shows "sev t = sev s \<or> eu_step n clears (sev s) (sev t)"
  using assms by cases (auto simp: in_main_def intro: eu_step.intros)

lemma session_eu_reach:
  assumes "reach (session_begin n) (session_step n clears) s"
  shows "reach (eu_begin n) (eu_step n clears) (sev s)"
  using assms
proof (induction rule: reach.induct)
  case (reach_start s)
  then show ?case by (intro reach.reach_start) (simp add: session_begin_def)
next
  case (reach_step s t)
  then show ?case using session_eu [OF reach_step.hyps(2)] reach.reach_step by metis
qed

text \<open>A worker on its way out.\<close>

fun worker_way_out :: "worker_pc \<Rightarrow> nat" where
  "worker_way_out WSleep = 4" | "worker_way_out WClr = 3" | "worker_way_out WDec = 2" | "worker_way_out WLoop = 1"
| "worker_way_out _ = 0"

definition workers_out :: "nat \<Rightarrow> eu_sys \<Rightarrow> nat" where
  "workers_out n s = (\<Sum>w\<in>{1..<n}. worker_way_out (wpc s w))"

lemma workers_out_less:
  assumes "order_inv n s" "mpc s = MGone" "1 \<le> c" "c < n" "eu_event_loop clears c s \<noteq> s"
  shows "workers_out n (eu_event_loop clears c s) < workers_out n s"
proof -
  let ?t = "eu_event_loop clears c s"
  have "wpc s c \<in> {WSleep, WClr, WDec, WLoop, WGone}" "exit_flag (eu s)"
    using assms(1-4) by (auto simp: order_inv_def on_way_out_def)
  then have "worker_way_out (wpc ?t c) < worker_way_out (wpc s c)"
    using assms(5) by (auto simp: eu_event_loop_unfold move_defs Let_def split: if_splits)
  moreover have "w \<noteq> c \<Longrightarrow> wpc ?t w = wpc s w" for w by (simp add: worker_frame)
  ultimately show ?thesis
    unfolding workers_out_def
    by (intro sum_strict_mono_ex1) (use assms(3,4) in \<open>auto intro!: bexI [of _ c], metis less_or_eq_imp_le\<close>)
qed

lemma stuck_workers_gone:
  assumes "order_inv n s" "mpc s = MGone" "eu_event_loop clears c s = s" "1 \<le> c" "c < n"
  shows "wpc s c = WGone"
proof -
  have "wpc (eu_event_loop clears c s) c = wpc s c" using assms(3) by simp
  moreover have "wpc s c \<in> {WSleep, WClr, WDec, WLoop, WGone}" "wpc s c = WSleep \<Longrightarrow> eu_sys.irq s c" "exit_flag (eu s)"
    using assms by (auto simp: order_inv_def on_way_out_def sleepers_woken_def)
  ultimately show ?thesis by (auto simp: eu_event_loop_unfold move_defs Let_def)
qed

section \<open>The data mover in the session\<close>

lemma session_dm:
  assumes "session_step n clears s t"
  shows "smv t = smv s \<or> dm_step 1 clears (smv s) (smv t)"
  using assms
proof cases
  case ss_dma
  then show ?thesis using dm_step.dma_step [of "smv s" 1 clears] by simp
next
  case ss_dm_exit
  then show ?thesis using dm_step.call_step [of 0 1 "smv s" clears Exit] by simp
qed (auto simp: in_main_def intro: dm_step.intros)

lemma session_dm_reach:
  assumes "reach (session_begin n) (session_step n clears) s"
  shows "reach dm_start_state (dm_step 1 clears) (smv s)"
  using assms
proof (induction rule: reach.induct)
  case (reach_start s)
  then show ?case by (intro reach.reach_start) (simp add: session_begin_def)
next
  case (reach_step s t)
  then show ?case using session_dm [OF reach_step.hyps(2)] reach.reach_step by metis
qed

lemma session_dm_asleep:
  assumes "reach (session_begin n) (session_step n clears) s" "dpc (smv s) = DWfi e"
  shows "dm_wfi (dmp (smv s)) = 1 \<and> completed (smv s) \<le> length (issued (smv s))"
proof -
  have h: "handshake (smv s)" and w: "wakeful (smv s)" using wakes.reach_inv [OF session_dm_reach [OF assms(1)]] by blast+
  have "completed (smv s) \<le> length (issued (smv s))" using h unfolding handshake_def Let_def by blast
  moreover have "dm_wfi (dmp (smv s)) = (if asleep (dpc (smv s)) then 1 else 0)" using w unfolding wakeful_def Let_def by blast
  ultimately show ?thesis using assms(2) by simp
qed

section \<open>The end of the session\<close>

text \<open>
  From the call of \<open>dm_exit\<close> on, when the data mover slept at that time: it sleeps until core 0 has stored the request
  and set its interrupt, and is then on its way out.
\<close>

fun way_out :: "dm_pc \<Rightarrow> nat" where
  "way_out (DWfi e) = 13" | "way_out (DClr e) = 12" | "way_out (DWfiDec e) = 11" | "way_out DTop = 10"
| "way_out DBlock = 9" | "way_out DIssue = 8" | "way_out DBump = 7" | "way_out DDec = 6" | "way_out DStat = 5"
| "way_out DSwitch = 4" | "way_out (DCheck e) = 3" | "way_out (DCheckQ e) = 2" | "way_out _ = 0"

fun exit_rank :: "client_pc \<Rightarrow> nat" where
  "exit_rank EReq = 3" | "exit_rank EWake = 2" | "exit_rank EIrq = 1" | "exit_rank _ = 0"

definition exits_well :: "dm_sys \<Rightarrow> bool" where
  "exits_well s \<longleftrightarrow> completed s \<le> length (issued s) \<and>
     (cpc s 0 \<in> {EReq, EWake, EIrq} \<and> dpc s = DWfi False \<and> \<not> irq s \<and> dm_wfi (dmp s) = 1 \<and>
        (cpc s 0 \<noteq> EReq \<longrightarrow> stat_q (dmp s) = STAT_EXIT) \<or>
      cpc s 0 = CIdle \<and> stat_q (dmp s) = STAT_EXIT \<and> (dpc s = DWfi False \<longrightarrow> irq s) \<and>
        dpc s \<in> {DWfi False, DClr False, DWfiDec False, DTop, DBlock, DIssue, DBump, DDec, DStat, DSwitch,
          DCheck True, DCheckQ True, DGone})"

definition exit_left :: "dm_sys \<Rightarrow> nat" where
  "exit_left s = exit_rank (cpc s 0) + 2 * way_out (dpc s) + (length (issued s) - completed s)"

lemma exits_mover:
  assumes "exits_well s"
  shows "exits_well (dm_main clears s) \<and> (dm_main clears s = s \<or> exit_left (dm_main clears s) < exit_left s)"
  using assms by (cases "dpc s") (auto simp: exits_well_def exit_left_def dm_defs stat_defs)

lemma exits_client:
  assumes "exits_well s"
  shows "exits_well (dm_client 0 s) \<and> (dm_client 0 s = s \<or> exit_left (dm_client 0 s) < exit_left s)"
  using assms by (cases "cpc s 0") (auto simp: exits_well_def exit_left_def client_defs stat_defs)

lemma exits_dma:
  assumes "exits_well s" "completed s < length (issued s)"
  shows "exits_well (s\<lparr>completed := Suc (completed s)\<rparr>)" "exit_left (s\<lparr>completed := Suc (completed s)\<rparr>) < exit_left s"
proof -
  show "exits_well (s\<lparr>completed := Suc (completed s)\<rparr>)" using assms unfolding exits_well_def by simp
  show "exit_left (s\<lparr>completed := Suc (completed s)\<rparr>) < exit_left s" using assms(2) by (simp add: exit_left_def)
qed

lemma exits_stuck:
  assumes "exits_well s" "dm_main clears s = s" "dm_client 0 s = s"
  shows "cpc s 0 = CIdle \<and> dpc s = DGone"
proof -
  have m: "dpc (dm_main clears s) = dpc s" and c: "cpc (dm_client 0 s) 0 = cpc s 0" using assms(2,3) by simp_all
  have "cpc s 0 = CIdle"
    using assms(1) c by (cases "cpc s 0") (auto simp: exits_well_def client_defs)
  then show ?thesis
    using assms(1) m by (cases "dpc s") (auto simp: exits_well_def dm_defs stat_defs split: if_splits)
qed

definition ending :: "nat \<Rightarrow> omp_session \<Rightarrow> bool" where
  "ending n s \<longleftrightarrow> order_inv n (sev s) \<and> mpc (sev s) = MGone \<and> destroying s \<and> exits_well (smv s)"

definition session_left :: "nat \<Rightarrow> omp_session \<Rightarrow> nat" where
  "session_left n s = workers_out n (sev s) + exit_left (smv s) + card {c. c \<le> n \<and> \<not> arrived s c}"

lemma arrive_less:
  assumes "\<not> arrived s c" "c \<le> n"
  shows "session_left n (s\<lparr>arrived := (arrived s)(c := True)\<rparr>) < session_left n s"
proof -
  have "{d. d \<le> n \<and> \<not> ((arrived s)(c := True)) d} \<subset> {d. d \<le> n \<and> \<not> arrived s d}" using assms by auto
  then have "card {d. d \<le> n \<and> \<not> ((arrived s)(c := True)) d} < card {d. d \<le> n \<and> \<not> arrived s d}"
    by (intro psubset_card_mono) simp_all
  then show ?thesis by (simp add: session_left_def)
qed

lemma ending_step:
  assumes e: "ending n s" and step: "session_step n clears s t"
  shows "ending n t \<and> (t = s \<or> session_left n t < session_left n s)"
proof -
  have inv: "order_inv n (sev s)" "mpc (sev s) = MGone" using e by (auto simp: ending_def)
  have part: "order_inv n (sev t)" using session_eu [OF step] order_inv_step inv(1) by metis
  have gone: "master n (sev s) = sev s" using inv(2) by (simp add: master_unfold)
  show ?thesis
    using step
  proof cases
    case (ss_worker c)
    then show ?thesis
      using part e workers_out_less [OF inv, of c clears]
      by (cases "eu_event_loop clears c (sev s) = sev s") (simp_all add: ending_def session_left_def worker_frame)
  next
    case ss_master
    then show ?thesis using gone e by simp
  next
    case ss_mover
    then show ?thesis using part e exits_mover [of "smv s" clears] by (auto simp: ending_def session_left_def)
  next
    case ss_client
    then show ?thesis using part e exits_client [of "smv s"] by (auto simp: ending_def session_left_def)
  next
    case ss_dma
    then show ?thesis using part e exits_dma [of "smv s"] by (simp add: ending_def session_left_def)
  next
    case (ss_arrive c)
    then have c: "c \<le> n" by (auto simp: leaves_def)
    show ?thesis
    proof (cases "arrived s c")
      case True
      then have "t = s" using ss_arrive by (simp add: fun_upd_idem)
      then show ?thesis using e by simp
    next
      case False
      then show ?thesis using part e ss_arrive arrive_less [OF False c] by (simp add: ending_def)
    qed
  qed (use e inv(2) in \<open>auto simp: ending_def in_main_def\<close>)
qed

lemma ending_stuck:
  assumes e: "ending n s" and stuck: "\<And>t. session_step n clears s t \<Longrightarrow> t = s" and c: "c \<le> n"
  shows "arrived s c"
proof -
  have mv: "dm_main clears (smv s) = smv s" "dm_client 0 (smv s) = smv s"
    using stuck [OF ss_mover] stuck [OF ss_client] by (metis omp_session.select_convs(2) omp_session.update_convs(2) omp_session.surjective)+
  have ev: "eu_event_loop clears w (sev s) = sev s" if "1 \<le> w" "w < n" for w
    using stuck [OF ss_worker [OF that]] by (metis omp_session.select_convs(1) omp_session.update_convs(1) omp_session.surjective)
  have "cpc (smv s) 0 = CIdle \<and> dpc (smv s) = DGone" using exits_stuck [OF _ mv] e by (simp add: ending_def)
  moreover have "wpc (sev s) w = WGone" if "1 \<le> w" "w < n" for w
    by (rule stuck_workers_gone [OF _ _ ev [OF that] that]) (use e in \<open>auto simp: ending_def\<close>)
  ultimately have "leaves n s c" using c e by (auto simp: leaves_def ending_def)
  then have "arrived (s\<lparr>arrived := (arrived s)(c := True)\<rparr>) = arrived s" using stuck [OF ss_arrive] by metis
  then show ?thesis by (metis fun_upd_same omp_session.select_convs(4) omp_session.update_convs(4) omp_session.surjective)
qed

lemma ran_when_gone:
  assumes "reach (eu_begin n) (eu_step n True) s" "mpc s = MGone" "c < n"
  shows "ran s c = map fst (filter (\<lambda>(x, nt). of_nat c < nt) (finished s))"
proof -
  have "leaving n s" using regions.reach_inv [OF assms(1)] assms(2) by (simp add: eu_inv_def)
  then show ?thesis using assms(3) by (cases "c = 0") (auto simp: leaving_def due_def)
qed

section \<open>Properties\<close>

text \<open>
  C9: how an OpenMP session ends, whether or not cluster interrupts get cleared: when \<open>eu_exit\<close> has returned and core 0
  calls \<open>dm_exit\<close> in \<open>__snrt_omp_destroy\<close> while the data mover sleeps with no interrupt pending, then from there on every step, in whatever
  order, changes nothing or takes the system nearer to its end, and when nothing changes any more all cores, core 0, the
  workers and the data mover, have reached the last barrier. Core 0 has then executed every parallel region exactly
  once, in order, and every worker only regions it was a member of, in order; each exactly once if the clear works. That
  \<open>eu_exit\<close> returns is not promised with the shipped clear (\<open>EuOrder.eu_exit_hangs\<close>), nor is the end when the data mover is
  awake (\<open>dm_exit_can_hang\<close>).
\<close>

theorem omp_destroy_ends:
  assumes "reach (session_begin n) (session_step n clears) s"
    and "mpc (sev s) = MGone" "cpc (smv s) 0 = CIdle" "\<not> destroying s"
    and "dpc (smv s) = DWfi False" "\<not> irq (smv s)"
    and "(session_step n clears)\<^sup>*\<^sup>* (s\<lparr>smv := cgo 0 (enter Exit) (smv s), destroying := True\<rparr>) t"
  shows "(\<forall>u. session_step n clears t u \<longrightarrow> u = t \<or> session_left n u < session_left n t) \<and>
    ((\<forall>u. session_step n clears t u \<longrightarrow> u = t) \<longrightarrow> (\<forall>c\<le>n. arrived t c)) \<and>
    ran (sev t) 0 = map fst (filter (\<lambda>(x, nt). 0 < nt) (finished (sev t))) \<and>
    (\<forall>c. 1 \<le> c \<and> c < n \<longrightarrow> repeats (ran (sev t) c) (map fst (filter (\<lambda>(x, nt). of_nat c < nt) (finished (sev t))))) \<and>
    (clears \<longrightarrow> (\<forall>c<n. ran (sev t) c = map fst (filter (\<lambda>(x, nt). of_nat c < nt) (finished (sev t)))))"
proof -
  let ?s = "s\<lparr>smv := cgo 0 (enter Exit) (smv s), destroying := True\<rparr>"
  have "order_inv n (sev s)" by (rule in_order.reach_inv [OF session_eu_reach [OF assms(1)]])
  then have start: "ending n ?s"
    using session_dm_asleep [OF assms(1,5)] assms(2-6) by (simp add: ending_def exits_well_def cgo_def)
  have e: "ending n t" using assms(7) start by (induction rule: rtranclp_induct) (auto dest: ending_step)
  have "session_step n clears s ?s" by (rule ss_dm_exit [OF assms(2-4)])
  then have "reach (session_begin n) (session_step n clears) t"
    using reach_rtranclp [OF assms(7)] reach_step [OF assms(1)] by blast
  then have once: "clears \<Longrightarrow> c < n \<Longrightarrow> ran (sev t) c = map fst (filter (\<lambda>(x, nt). of_nat c < nt) (finished (sev t)))" for c
    using ran_when_gone [of n "sev t" c] session_eu_reach e by (cases clears) (auto simp: ending_def)
  have "ran (sev t) 0 = map fst (filter (\<lambda>(x, nt). 0 < nt) (finished (sev t)))"
    using e by (simp add: ending_def order_inv_def due_def)
  moreover have "repeats (ran (sev t) c) (map fst (filter (\<lambda>(x, nt). of_nat c < nt) (finished (sev t))))" if "1 \<le> c" "c < n" for c
  proof -
    have "worker_ok (sev t) c" "e_nthreads (eu (sev t)) = 0" using e that by (auto simp: ending_def order_inv_def)
    then show ?thesis by (simp add: worker_ok_def owed_def due_def cur_def)
  qed
  ultimately show ?thesis using ending_step [OF e] ending_stuck [OF e] once by blast
qed

section \<open>Runs\<close>

text \<open>Actions of the event unit and of the data mover, the exits, and a core that goes to the barrier.\<close>

datatype session_action = E eu_action | V dm_action | EuExit | DmExit | Arrive nat

fun session_move :: "nat \<Rightarrow> bool \<Rightarrow> session_action \<Rightarrow> omp_session \<Rightarrow> omp_session" where
  "session_move n clears (E (W c)) s = (if 1 \<le> c \<and> c < n then s\<lparr>sev := eu_event_loop clears c (sev s)\<rparr> else s)"
| "session_move n clears (E M) s = s\<lparr>sev := master n (sev s)\<rparr>"
| "session_move n clears (E (Region t nt)) s = (if in_main s then s\<lparr>sev := to (MPushRead t nt) (sev s)\<rparr> else s)"
| "session_move n clears (V D) s = s\<lparr>smv := dm_main clears (smv s)\<rparr>"
| "session_move n clears (V (C c)) s = s\<lparr>smv := dm_client 0 (smv s)\<rparr>"
| "session_move n clears (V (Call c f)) s = (if in_main s \<and> f \<noteq> Exit then s\<lparr>smv := cgo 0 (enter f) (smv s)\<rparr> else s)"
| "session_move n clears (V Dma) s = s"
| "session_move n clears EuExit s = (if in_main s then s\<lparr>sev := to MExitRun (sev s)\<rparr> else s)"
| "session_move n clears DmExit s = (if mpc (sev s) = MGone \<and> cpc (smv s) 0 = CIdle \<and> \<not> destroying s
     then s\<lparr>smv := cgo 0 (enter Exit) (smv s), destroying := True\<rparr> else s)"
| "session_move n clears (Arrive c) s = (if leaves n s c then s\<lparr>arrived := (arrived s)(c := True)\<rparr> else s)"

lemma session_move_step: "session_move n clears m s = s \<or> session_step n clears s (session_move n clears m s)"
proof (cases "m = DmExit")
  case True
  then show ?thesis using ss_dm_exit [of s n clears] by simp
next
  case False
  then show ?thesis by (cases "(n, clears, m, s)" rule: session_move.cases) (auto intro: session_step.intros)
qed

definition session_run :: "nat \<Rightarrow> bool \<Rightarrow> session_action list \<Rightarrow> omp_session \<Rightarrow> omp_session" where
  "session_run n clears ms s = fold (session_move n clears) ms s"

lemma session_run_steps: "(session_step n clears)\<^sup>*\<^sup>* s (session_run n clears ms s)"
proof (induction ms rule: rev_induct)
  case (snoc m ms)
  have "session_run n clears (ms @ [m]) s = session_move n clears m (session_run n clears ms s)" by (simp add: session_run_def)
  then show ?case using snoc session_move_step [of n clears m "session_run n clears ms s"]
    by (metis rtranclp.rtrancl_into_rtrancl)
qed (simp add: session_run_def)

definition session0 :: omp_session where
  "session0 = \<lparr>sev = eu0, smv = dm0, destroying = False, arrived = \<lambda>_. False\<rparr>"

lemma session_reach:
  assumes "0 < n" "n < 32"
  shows "reach (session_begin n) (session_step n clears) (session_run n clears ms session0)"
proof (rule reach_rtranclp [OF session_run_steps])
  have "eu_begin n eu0" using assms by (simp add: eu_begin_def eu_start_def eu0_def)
  then show "reach (session_begin n) (session_step n clears) session0"
    by (intro reach_start) (simp add: session_begin_def session0_def dm0_start)
qed

text \<open>
  A session with one worker: it goes to sleep and the data mover too, core 0 finds nobody missing and
  ends the session at once.
\<close>

definition until_exit :: "session_action list" where
  "until_exit = map E [W 1, W 1, W 1, W 1, W 1, M] @ [EuExit] @ map E [M, M, M, M, M, M, M]"

definition mover_asleep :: "session_action list" where
  "mover_asleep = map V [D, D, D, D, D]"

definition clean_end :: "session_action list" where
  "clean_end = map V [C 0, C 0, C 0, D, D, D, D, D, D, D, D] @ map E [W 1, W 1, W 1, W 1] @ [Arrive 0, Arrive 1, Arrive 2]"

lemmas session_run_simps = session_run_def session0_def until_exit_def mover_asleep_def clean_end_def eu0_def dm0_def
  eu_event_loop_unfold master_unfold move_defs wake_mask_def dm_defs client_defs stat_defs in_main_def leaves_def

theorem omp_destroy_ends_witness:
  "\<exists>s t. dpc (smv s) = DWfi False \<and> (session_step 2 False)\<^sup>*\<^sup>* (s\<lparr>smv := cgo 0 (enter Exit) (smv s), destroying := True\<rparr>) t \<and>
    (\<forall>u. session_step 2 False t u \<longrightarrow> u = t \<or> session_left 2 u < session_left 2 t) \<and> arrived t 0 \<and> arrived t 1 \<and> arrived t 2"
proof (intro exI conjI)
  let ?s = "session_run 2 False (mover_asleep @ until_exit) session0"
  let ?t = "session_run 2 False clean_end (?s\<lparr>smv := cgo 0 (enter Exit) (smv ?s), destroying := True\<rparr>)"
  show d: "dpc (smv ?s) = DWfi False" by (simp add: session_run_simps bit_simps)
  show run: "(session_step 2 False)\<^sup>*\<^sup>* (?s\<lparr>smv := cgo 0 (enter Exit) (smv ?s), destroying := True\<rparr>) ?t"
    by (rule session_run_steps)
  have s: "mpc (sev ?s) = MGone" "cpc (smv ?s) 0 = CIdle" "\<not> destroying ?s" "\<not> irq (smv ?s)"
    by (simp_all add: session_run_simps bit_simps)
  show "\<forall>u. session_step 2 False ?t u \<longrightarrow> u = ?t \<or> session_left 2 u < session_left 2 ?t"
    using omp_destroy_ends [OF session_reach s(1-3) d s(4) run] by simp
  show "arrived ?t 0" "arrived ?t 1" "arrived ?t 2" by (simp_all add: session_run_simps bit_simps)
qed

section \<open>A data mover that is awake\<close>

text \<open>
  If the data mover is not asleep when core 0 calls \<open>dm_exit\<close>, it can take the request and leave before
  core 0 looks at \<open>dm_wfi\<close>; \<open>wake_dm\<close> then waits for a sleeper that never comes.
\<close>

definition exit_missed :: "omp_session \<Rightarrow> bool" where
  "exit_missed s \<longleftrightarrow> mpc (sev s) = MGone \<and> cpc (smv s) 0 = EWake \<and> dpc (smv s) = DGone \<and> dm_wfi (dmp (smv s)) = 0"

lemma exit_missed_step: "session_step n clears s t \<Longrightarrow> exit_missed s \<Longrightarrow> exit_missed t"
  by (erule session_step.cases)
    (auto simp: exit_missed_def worker_frame master_unfold dm_defs client_defs in_main_def)

lemma dm_exit_can_hang:
  "\<exists>s. reach (session_begin 2) (session_step 2 False) s \<and>
    {t. (session_step 2 False)\<^sup>*\<^sup>* s t} \<subseteq> {t. cpc (smv t) 0 = EWake \<and> dpc (smv t) = DGone}"
proof (intro exI conjI subsetI)
  let ?s = "session_run 2 False (until_exit @ [DmExit] @ map V [C 0, D, D, D, D, D]) session0"
  show "reach (session_begin 2) (session_step 2 False) ?s" by (rule session_reach) simp_all
  have s: "exit_missed ?s" by (simp add: exit_missed_def session_run_simps bit_simps)
  fix t assume "t \<in> {t. (session_step 2 False)\<^sup>*\<^sup>* ?s t}"
  then have "(session_step 2 False)\<^sup>*\<^sup>* ?s t" by simp
  then have "exit_missed t" using s by (induction rule: rtranclp_induct) (auto intro: exit_missed_step)
  then show "t \<in> {t. cpc (smv t) 0 = EWake \<and> dpc (smv t) = DGone}" by (simp add: exit_missed_def)
qed

end
