(* ===== verification/ClintConc.thy ===== *)
theory ClintConc
  imports Critical Interrupt
begin

text \<open>
  The interrupt registers under \<open>clint_mutex\<close>: the bodies of \<open>snrt_int_sw_set\<close>, \<open>snrt_int_sw_clear\<close>,
  \<open>snrt_int_sw_get\<close>, \<open>snrt_int_clint_set\<close> and of one turn of \<open>snrt_int_sw_poll\<close> as the loads and
  stores the code makes, called by any number of harts at once, and what becomes of a hart that is
  interrupted inside one of them. Theory \<open>Interrupt\<close> has the same operations in one piece.
\<close>

section \<open>The bodies\<close>

text \<open>\<open>val\<close> is the word loaded last, \<open>retv\<close> the value read by \<open>snrt_int_sw_get\<close>, \<open>leave\<close> the variable \<open>exit\<close>.\<close>

record clint_regs =
  val :: u32
  retv :: u32
  leave :: bool

type_synonym clint_access = "clint_regs \<times> clint_dev \<Rightarrow> clint_regs \<times> clint_dev"

definition load_word :: "u32 \<Rightarrow> u32 \<Rightarrow> clint_access" where
  "load_word p a = (\<lambda>(r, d). (r\<lparr>val := load_reg p a d\<rparr>, d))"

definition store_word :: "u32 \<Rightarrow> u32 \<Rightarrow> (u32 \<Rightarrow> u32) \<Rightarrow> clint_access" where
  "store_word p a f = (\<lambda>(r, d). (r, store_reg p a (f (val r)) d))"

datatype clint_call = SwSet u32 | SwClear u32 | SwGet u32 | ClintSet u32 u32 | PollTurn u32

definition sw_set_body :: "u32 \<Rightarrow> u32 \<Rightarrow> (clint_regs, clint_dev) code" where
  "sw_set_body p hartid =
    [load_word p (clint_word p hartid), store_word p (clint_word p hartid) (\<lambda>v. v OR push_bit (clint_bit hartid) 1)]"

definition sw_clear_body :: "u32 \<Rightarrow> u32 \<Rightarrow> (clint_regs, clint_dev) code" where
  "sw_clear_body p hartid =
    [load_word p (clint_word p hartid), store_word p (clint_word p hartid) (\<lambda>v. v AND NOT (push_bit (clint_bit hartid) 1))]"

definition sw_get_body :: "u32 \<Rightarrow> u32 \<Rightarrow> (clint_regs, clint_dev) code" where
  "sw_get_body p hartid =
    [load_word p (clint_word p hartid), (\<lambda>(r, d). (r\<lparr>retv := drop_bit (clint_bit hartid) (val r)\<rparr>, d))]"

definition clint_set_body :: "u32 \<Rightarrow> u32 \<Rightarrow> u32 \<Rightarrow> (clint_regs, clint_dev) code" where
  "clint_set_body p reg_off msk =
    [load_word p (p + 4 * reg_off), store_word p (p + 4 * reg_off) (\<lambda>v. v OR msk)]"

text \<open>The word is loaded twice: once for the test and once for the clearing.\<close>

definition poll_body :: "u32 \<Rightarrow> u32 \<Rightarrow> (clint_regs, clint_dev) code" where
  "poll_body p hartid =
    [load_word p (clint_word p hartid),
     (\<lambda>(r, d). (r\<lparr>leave := drop_bit (clint_bit hartid) (val r) \<noteq> 0\<rparr>, d)),
     (\<lambda>(r, d). if leave r then load_word p (clint_word p hartid) (r, d) else (r, d)),
     (\<lambda>(r, d). if leave r
       then store_word p (clint_word p hartid) (\<lambda>v. v AND NOT (push_bit (clint_bit hartid) 1)) (r, d)
       else (r, d))]"

primrec clint_code :: "u32 \<Rightarrow> clint_call \<Rightarrow> (clint_regs, clint_dev) code" where
  "clint_code p (SwSet h) = sw_set_body p h"
| "clint_code p (SwClear h) = sw_clear_body p h"
| "clint_code p (SwGet h) = sw_get_body p h"
| "clint_code p (ClintSet k msk) = clint_set_body p k msk"
| "clint_code p (PollTurn h) = poll_body p h"

definition clint_enter :: "clint_call \<Rightarrow> clint_regs" where
  "clint_enter c = \<lparr>val = 0, retv = 0, leave = False\<rparr>"

section \<open>The bodies in one piece\<close>

lemmas clint_access_defs = load_word_def store_word_def clint_enter_def

lemma run_sw_set: "snd (run_code (sw_set_body p h) (r, d)) = snrt_int_sw_set p h d"
  by (simp add: sw_set_body_def snrt_int_sw_set_def clint_access_defs Let_def)

lemma run_sw_clear: "snd (run_code (sw_clear_body p h) (r, d)) = snrt_int_sw_clear p h d"
  by (simp add: sw_clear_body_def snrt_int_sw_clear_def clint_access_defs Let_def)

lemma run_sw_get:
  "snd (run_code (sw_get_body p h) (r, d)) = d \<and> retv (fst (run_code (sw_get_body p h) (r, d))) = snrt_int_sw_get p h d"
  by (simp add: sw_get_body_def snrt_int_sw_get_def clint_access_defs)

lemma run_clint_set: "snd (run_code (clint_set_body p k msk) (r, d)) = snrt_int_clint_set p k msk d"
  by (simp add: clint_set_body_def snrt_int_clint_set_def clint_access_defs Let_def)

text \<open>A turn of the polling loop, as a wake-up of \<open>snrt_int_sw_poll\<close> in theory \<open>Interrupt\<close>.\<close>

lemma run_poll:
  "snrt_int_sw_poll p h [d] =
     (case run_code (poll_body p h) (r, d) of (r', d') \<Rightarrow> if leave r' then Some d' else None) \<and>
   (\<not> leave (fst (run_code (poll_body p h) (r, d))) \<longrightarrow> snd (run_code (poll_body p h) (r, d)) = d)"
  by (simp add: poll_body_def snrt_int_sw_clear_def clint_access_defs Let_def)

section \<open>The serial specification\<close>

text \<open>
  What a call does to the set of cores whose interrupt is pending. Only \<open>snrt_int_sw_set\<close> and
  \<open>snrt_int_clint_set\<close> do anything: they set interrupts through the set register, and clear some through the
  register behind it.
\<close>

primrec clint_effect :: "clint_call \<Rightarrow> nat set \<Rightarrow> nat set" where
  "clint_effect (SwSet h) P = (if unat h < 32 then insert (unat h) P else P - {unat h - 32})"
| "clint_effect (SwClear h) P = P"
| "clint_effect (SwGet h) P = P"
| "clint_effect (ClintSet k msk) P = (if k = 0 then P \<union> {c. bit msk c} else P - {c. bit msk c})"
| "clint_effect (PollTurn h) P = P"

text \<open>The value of \<open>snrt_int_sw_get\<close> is 0 and the polling loop goes on.\<close>

primrec clint_result :: "clint_call \<Rightarrow> clint_regs \<Rightarrow> bool" where
  "clint_result (SwSet h) r \<longleftrightarrow> True"
| "clint_result (SwClear h) r \<longleftrightarrow> True"
| "clint_result (SwGet h) r \<longleftrightarrow> retv r = 0"
| "clint_result (ClintSet k msk) r \<longleftrightarrow> True"
| "clint_result (PollTurn h) r \<longleftrightarrow> \<not> leave r"

text \<open>Hart ids and register numbers that stay on the set and the clear register.\<close>

primrec on_device :: "clint_call \<Rightarrow> bool" where
  "on_device (SwSet h) \<longleftrightarrow> unat h < 64"
| "on_device (SwClear h) \<longleftrightarrow> unat h < 64"
| "on_device (SwGet h) \<longleftrightarrow> unat h < 64"
| "on_device (ClintSet k msk) \<longleftrightarrow> k = 0 \<or> k = 1"
| "on_device (PollTurn h) \<longleftrightarrow> unat h < 64"

lemma clint_call_spec:
  assumes "run_code (clint_code p c) (clint_enter c, d) = (r, d')" "on_device c"
  shows "pending d' = clint_effect c (pending d) \<and> clint_result c r"
proof (cases c)
  case (SwSet h)
  then show ?thesis using assms run_sw_set [of p h "clint_enter c" d] by (simp add: pending_sw_set)
next
  case (SwClear h)
  then show ?thesis using assms run_sw_clear [of p h "clint_enter c" d] by (simp add: sw_clear_nothing)
next
  case (SwGet h)
  then show ?thesis using assms run_sw_get [of p h "clint_enter c" d] by (simp add: sw_get_zero)
next
  case (ClintSet k msk)
  then show ?thesis
    using assms run_clint_set [of p k msk "clint_enter c" d] by (auto simp: pending_clint_set)
next
  case (PollTurn h)
  have run: "run_code (poll_body p h) (clint_enter c, d) = (r, d')" using assms PollTurn by simp
  have "snrt_int_sw_poll p h [d] = None" using poll_never [of h p "[d]"] assms(2) PollTurn by simp
  then show ?thesis using run_poll [of p h d "clint_enter c"] run by (auto simp: PollTurn split: if_splits)
qed

lemma clint_serial:
  assumes "\<forall>x\<in>set xs. on_device (snd x)"
  shows "pending (snd (serial (clint_code p) clint_enter xs d)) = fold clint_effect (map snd xs) (pending d) \<and>
   (\<forall>(t, c, r)\<in>set (fst (serial (clint_code p) clint_enter xs d)). clint_result c r)"
  using assms
proof (induction xs arbitrary: d)
  case (Cons x xs)
  obtain r d' where run: "run_code (clint_code p (snd x)) (clint_enter (snd x), d) = (r, d')" by fastforce
  show ?case using Cons.IH [of d'] Cons.prems clint_call_spec [OF run] by (simp add: run split_def)
qed simp

section \<open>Properties\<close>

text \<open>
  C18: software interrupts on the registers of the cluster, for hart ids below 64, where the words are the
  set and the clear register: for any number of harts in
  \<open>snrt_int_sw_set\<close>, \<open>snrt_int_sw_clear\<close>, \<open>snrt_int_sw_get\<close>, \<open>snrt_int_clint_set\<close> and
  \<open>snrt_int_sw_poll\<close> at once, whose loads and stores interleave under \<open>clint_mutex\<close>, the pending
  interrupts are those left by the calls served, taken one after the other as set operations, so none that was set is lost. But
  as the register behind \<open>clint_p\<close> can only be written, and only sets, \<open>snrt_int_sw_clear\<close> and the turns of
  \<open>snrt_int_sw_poll\<close> change nothing, every \<open>snrt_int_sw_get\<close> returns 0 and no \<open>snrt_int_sw_poll\<close> leaves its loop.
\<close>

theorem concurrent_sw_interrupts:
  assumes "reach (crit_start d) (crit_step snrt_mutex_lock snrt_mutex_release (clint_code p) clint_enter) s"
    and "\<forall>t. \<not> holder (cpos s t)" "\<forall>x\<in>set (cserved s). on_device (snd x)"
  shows "pending (cmem s) = fold clint_effect (map snd (cserved s)) (pending d) \<and>
    (\<forall>(t, c, r)\<in>set (cdone s). clint_result c r)"
  using clint_serial [OF assms(3), of p d] mutex.serialised [OF assms(1,2)] by simp

theorem concurrent_sw_interrupts_witness:
  "\<exists>(s :: (clint_call, clint_regs, clint_dev) crit_sys).
    cserved s = [(0, SwSet 5), (3, SwSet 9), (5, PollTurn 5), (5, SwClear 5)] \<and> pending (cmem s) = {5, 9}"
proof -
  obtain s where s: "reach (crit_start dev0) (crit_step snrt_mutex_lock snrt_mutex_release (clint_code 0x10020008) clint_enter) s"
      "quiet s" "cserved s = [(0, SwSet 5), (3, SwSet 9), (5, PollTurn 5), (5, SwClear 5)]"
    using mutex_calls [of dev0 "clint_code 0x10020008" clint_enter] by metis
  have "pending dev0 = {}" by (simp add: pending_def dev0_def)
  then have "pending (cmem s) = {5, 9}"
    using concurrent_sw_interrupts [OF s(1) quiet_free [OF s(2)]] by (auto simp: s(3))
  then show ?thesis using s(3) by blast
qed

section \<open>Interrupted in the critical section\<close>

text \<open>
  A hart whose software interrupt is enabled can be interrupted anywhere. Its handler
  \<open>irq_m_soft\<close> calls \<open>snrt_int_sw_clear\<close>, and the interrupted code goes on when the handler
  has returned. \<open>ipos t\<close> is the position of the interrupted (or running) code of hart \<open>t\<close> with respect
  to \<open>clint_mutex\<close>, \<open>hpos t\<close> that of its handler, if it is active; handlers do not nest. The bodies
  do not touch the mutex and are left out.
\<close>

record isr_sys =
  iword :: u32
  ipos :: "nat \<Rightarrow> lock_pc"
  hpos :: "nat \<Rightarrow> lock_pc option"

definition lock_action :: "lock_pc \<times> u32 \<Rightarrow> lock_pc \<times> u32" where
  "lock_action x = (if holder (fst x) then snrt_mutex_release x else snrt_mutex_lock x)"

inductive isr_step :: "isr_sys \<Rightarrow> isr_sys \<Rightarrow> bool" where
  isr_code: "hpos s t = None \<Longrightarrow> lock_action (ipos s t, iword s) = (pc, w) \<Longrightarrow>
     isr_step s (s\<lparr>iword := w, ipos := (ipos s)(t := pc)\<rparr>)"
| isr_taken: "hpos s t = None \<Longrightarrow> isr_step s (s\<lparr>hpos := (hpos s)(t \<mapsto> Outside)\<rparr>)"
| isr_handler: "hpos s t = Some h \<Longrightarrow> lock_action (h, iword s) = (pc, w) \<Longrightarrow>
     isr_step s (s\<lparr>iword := w, hpos := (hpos s)(t := if holder h \<and> pc = Outside then None else Some pc)\<rparr>)"

definition isr_start :: "isr_sys \<Rightarrow> bool" where
  "isr_start s \<longleftrightarrow> iword s = 0 \<and> (\<forall>t. ipos s t = Outside \<and> hpos s t = None)"

text \<open>The code of hart \<open>t\<close> is client \<open>2 t\<close> of the mutex, its handler client \<open>2 t + 1\<close>.\<close>

definition isr_view :: "isr_sys \<Rightarrow> lock_sys" where
  "isr_view s = \<lparr>lword = iword s,
     lpc = (\<lambda>n. if even n then ipos s (n div 2) else case hpos s (n div 2) of None \<Rightarrow> Outside | Some pc \<Rightarrow> pc)\<rparr>"

lemma lock_action_step:
  assumes "lock_action (lpc s n, lword s) = (pc, w)"
  shows "lock_step snrt_mutex_lock snrt_mutex_release s (s\<lparr>lword := w, lpc := (lpc s)(n := pc)\<rparr>)"
  using assms by (cases "holder (lpc s n)") (auto simp: lock_action_def intro: lock_acq lock_rel)

lemma half_eq: "(n div 2 = t \<and> even n) = (n = 2 * t)" "(n div 2 = t \<and> odd n) = (n = Suc (2 * t))" for n t :: nat
  by (auto elim: evenE oddE)

lemma isr_view_step:
  assumes "isr_step s s'"
  shows "isr_view s' = isr_view s \<or> lock_step snrt_mutex_lock snrt_mutex_release (isr_view s) (isr_view s')"
  using assms
proof cases
  case (isr_code t pc w)
  have "isr_view s' = (isr_view s)\<lparr>lword := w, lpc := (lpc (isr_view s))(2 * t := pc)\<rparr>"
    using half_eq(1) [of _ t] by (auto simp: isr_view_def isr_code fun_eq_iff)
  moreover have "lock_action (lpc (isr_view s) (2 * t), lword (isr_view s)) = (pc, w)"
    using isr_code by (simp add: isr_view_def)
  ultimately show ?thesis using lock_action_step by metis
next
  case (isr_taken t)
  then show ?thesis by (auto simp: isr_view_def fun_eq_iff)
next
  case (isr_handler t h pc w)
  have "isr_view s' = (isr_view s)\<lparr>lword := w, lpc := (lpc (isr_view s))(Suc (2 * t) := pc)\<rparr>"
    using half_eq(2) [of _ t] by (auto simp: isr_view_def isr_handler fun_eq_iff)
  moreover have "lock_action (lpc (isr_view s) (Suc (2 * t)), lword (isr_view s)) = (pc, w)"
    using isr_handler by (simp add: isr_view_def)
  ultimately show ?thesis using lock_action_step by metis
qed

lemma isr_lock_inv: "reach isr_start isr_step s \<Longrightarrow> lock_inv (isr_view s)"
proof (induction rule: reach.induct)
  case (reach_start s)
  then show ?case by (auto simp: isr_start_def isr_view_def lock_inv_def holder_def)
next
  case (reach_step s s')
  then show ?case using isr_view_step mutex.locks.inv_step by metis
qed

text \<open>Hart \<open>t\<close> was interrupted between taking and releasing the mutex, and its handler is active.\<close>

definition self_locked :: "nat \<Rightarrow> isr_sys \<Rightarrow> bool" where
  "self_locked t s \<longleftrightarrow> holder (ipos s t) \<and> hpos s t \<noteq> None"

lemma self_locked_only:
  assumes "lock_inv (isr_view s)" "self_locked t s"
  shows "iword s \<noteq> 0 \<and> (\<forall>u. holder (ipos s u) \<longrightarrow> u = t) \<and> (\<forall>u h. hpos s u = Some h \<longrightarrow> \<not> holder h \<and> pc_ok h) \<and>
    (\<forall>u. pc_ok (ipos s u))"
proof -
  let ?v = "isr_view s"
  have main: "lpc ?v (2 * u) = ipos s u" and hand: "hpos s u = Some h \<Longrightarrow> lpc ?v (Suc (2 * u)) = h" for u h
    by (simp_all add: isr_view_def)
  have one: "\<And>a b. holder (lpc ?v a) \<Longrightarrow> holder (lpc ?v b) \<Longrightarrow> a = b" and ok: "\<And>a. pc_ok (lpc ?v a)"
    and word: "lword ?v \<noteq> 0 \<longleftrightarrow> (\<exists>a. holder (lpc ?v a))" using assms(1) unfolding lock_inv_def by blast+
  have t: "holder (lpc ?v (2 * t))" using assms(2) main by (simp add: self_locked_def)
  have "lword ?v = iword s" by (simp add: isr_view_def)
  then have "iword s \<noteq> 0" using word t by metis
  moreover have "u = t" if "holder (ipos s u)" for u using one [OF t, of "2 * u"] that main by simp
  moreover have "\<not> holder h \<and> pc_ok h" if "hpos s u = Some h" for u h
  proof -
    have "2 * t \<noteq> Suc (2 * u)" by presburger
    then show ?thesis using one [OF t, of "Suc (2 * u)"] ok [of "Suc (2 * u)"] hand [OF that] by auto
  qed
  moreover have "pc_ok (ipos s u)" for u using ok [of "2 * u"] main by simp
  ultimately show ?thesis by blast
qed

lemma self_locked_step:
  assumes "lock_inv (isr_view s)" "self_locked t s" "isr_step s s'"
  shows "self_locked t s' \<and> ipos s' t = ipos s t"
proof -
  have word: "iword s \<noteq> 0" and handlers: "\<And>u h. hpos s u = Some h \<Longrightarrow> \<not> holder h \<and> pc_ok h"
    using self_locked_only [OF assms(1,2)] by blast+
  show ?thesis using assms(3)
  proof cases
    case (isr_handler u h pc w)
    then have "\<not> holder h" using handlers by blast
    then show ?thesis using assms(2) by (auto simp: isr_handler self_locked_def)
  qed (use assms(2) in \<open>auto simp: self_locked_def\<close>)
qed

text \<open>
  C38: the default handler of the software interrupt can stop every hart: when a hart is interrupted
  between taking and releasing \<open>clint_mutex\<close>, its handler waits for the mutex the hart itself
  holds. From then on the hart stays where it was interrupted, no handler returns from its attempt, and no
  other hart ever gets the mutex.
\<close>

theorem soft_handler_deadlocks:
  assumes "reach isr_start isr_step s" "self_locked t s" "isr_step\<^sup>*\<^sup>* s s'"
  shows "ipos s' t = ipos s t \<and> hpos s' t \<noteq> None \<and> (\<forall>u. holder (ipos s' u) \<longleftrightarrow> u = t) \<and>
    (\<forall>u h. hpos s' u = Some h \<longrightarrow> \<not> holder h)"
proof -
  have "reach isr_start isr_step s' \<and> self_locked t s' \<and> ipos s' t = ipos s t"
    using assms(3)
  proof (induction rule: rtranclp_induct)
    case (step y z)
    then show ?case using self_locked_step [OF isr_lock_inv] reach_step by metis
  qed (use assms in simp)
  then show ?thesis using self_locked_only [OF isr_lock_inv] by (auto simp: self_locked_def)
qed

definition isr0 :: isr_sys where "isr0 = \<lparr>iword = 0, ipos = \<lambda>_. Outside, hpos = \<lambda>_. None\<rparr>"

theorem soft_handler_deadlocks_witness:
  "\<exists>s. reach isr_start isr_step s \<and> ipos s 3 = Inside \<and> (\<forall>s' u. isr_step\<^sup>*\<^sup>* s s' \<longrightarrow> (holder (ipos s' u) \<longleftrightarrow> u = 3))"
proof -
  let ?s1 = "isr0\<lparr>iword := 0, ipos := (ipos isr0)(3 := Swap 1)\<rparr>"
  let ?s2 = "?s1\<lparr>iword := 1, ipos := (ipos ?s1)(3 := Inside)\<rparr>"
  let ?s3 = "?s2\<lparr>hpos := (hpos ?s2)(3 \<mapsto> Outside)\<rparr>"
  have "reach isr_start isr_step isr0" by (rule reach_start) (simp add: isr_start_def isr0_def)
  moreover have "isr_step isr0 ?s1" by (rule isr_code) (simp_all add: isr0_def lock_action_def holder_def)
  moreover have "isr_step ?s1 ?s2" by (rule isr_code) (simp_all add: isr0_def lock_action_def holder_def amoswap_def)
  moreover have "isr_step ?s2 ?s3" by (rule isr_taken) (simp add: isr0_def)
  ultimately have r: "reach isr_start isr_step ?s3" by (meson reach_step)
  have "self_locked 3 ?s3" by (simp add: self_locked_def holder_def)
  then have "\<forall>s' u. isr_step\<^sup>*\<^sup>* ?s3 s' \<longrightarrow> (holder (ipos s' u) \<longleftrightarrow> u = 3)"
    using soft_handler_deadlocks [OF r] by blast
  moreover have "ipos ?s3 3 = Inside" by simp
  ultimately show ?thesis using r by blast
qed

end
