(* ===== verification/GlobalClint.thy ===== *)
theory GlobalClint
  imports EventUnit ClintConc
begin

text \<open>
  How the event unit built with \<open>EU_USE_GLOBAL_CLINT\<close> (and the data mover with
  \<open>DM_USE_GLOBAL_CLINT\<close>) wakes its cores: through \<open>snrt_int_clint_set\<close> on the registers at \<open>clint_p\<close>, here \<open>p\<close>. \<open>b\<close> is
  the first hart id of the cluster.
\<close>

section \<open>Waking the workers\<close>

text \<open>
  \<open>1 << n\<close> on 32 bits; undefined in C, here \<open>None\<close>, when \<open>n\<close> is 32 or more. The shift by 31, into the sign of the
  \<open>int\<close>, sets bit 31, as gcc and clang compile it.
\<close>

definition shl :: "u32 \<Rightarrow> u32 \<Rightarrow> u32 option" where
  "shl x n = (if n < 32 then Some (push_bit (unat n) x) else None)"

definition wake_hart :: "u32 \<Rightarrow> u32 \<Rightarrow> u32 \<Rightarrow> u32 \<times> clint_dev \<Rightarrow> (u32 \<times> clint_dev) option" where
  "wake_hart p b hart x = (case x of (msk, d) \<Rightarrow> case shl 1 (b + hart) of
       None \<Rightarrow> None
     | Some m \<Rightarrow> let msk = msk OR m
         in Some (if (b + hart + 1) mod 32 = 0 then (0, snrt_int_clint_set p ((b + hart) div 32) msk d)
                  else (msk, d)))"

function wake_loop :: "u32 \<Rightarrow> u32 \<Rightarrow> u32 \<Rightarrow> u32 \<Rightarrow> u32 \<times> clint_dev \<Rightarrow> (u32 \<times> u32 \<times> clint_dev) option" where
  "wake_loop p b numcores hart x =
     (if hart < numcores then
        case wake_hart p b hart x of None \<Rightarrow> None | Some x \<Rightarrow> wake_loop p b numcores (hart + 1) x
      else Some (hart, x))"
  by pat_completeness auto

lemma unat_Suc_less: "(h :: u32) < k \<Longrightarrow> unat (h + 1) = Suc (unat h)"
  using unat_u32_less [of k] by (simp add: unat_add_u32 word_less_nat_alt)

termination wake_loop
  by (relation "measure (\<lambda>(p, b, numcores, hart, x). unat numcores - unat hart)")
    (auto simp: unat_Suc_less word_less_nat_alt)

declare wake_loop.simps [simp del]

definition wake_workers_global :: "u32 \<Rightarrow> u32 \<Rightarrow> u32 \<Rightarrow> clint_dev \<Rightarrow> clint_dev option" where
  "wake_workers_global p b numcores d =
     map_option (\<lambda>(hart, msk, d). if msk \<noteq> 0 then snrt_int_clint_set p ((b + hart) div 32) msk d else d)
       (wake_loop p b numcores 1 (0, d))"

text \<open>The variant for \<open>N = OMPSTATIC_NUMTHREADS\<close> threads, a constant of the build.\<close>

definition WAKE_MASK :: "nat \<Rightarrow> u32" where
  "WAKE_MASK N = (push_bit N 1 - 1) AND NOT 1"

definition wake_workers_static :: "u32 \<Rightarrow> nat \<Rightarrow> u32 \<Rightarrow> clint_dev \<Rightarrow> clint_dev" where
  "wake_workers_static p N b d =
     (if 32 < b mod 32 + of_nat N
      then snrt_int_clint_set p (b div 32 + 1) (drop_bit (unat (32 - b mod 32)) (WAKE_MASK N))
        (snrt_int_clint_set p (b div 32) (push_bit (unat (b mod 32)) (WAKE_MASK N)) d)
      else snrt_int_clint_set p (b div 32) (push_bit (unat (b mod 32)) (WAKE_MASK N)) d)"

text \<open>\<open>wfi_dm\<close> and \<open>wake_dm\<close>: \<open>dm_core\<close> is the index of the data mover in its cluster.\<close>

definition wfi_dm_global :: "u32 \<Rightarrow> u32 \<Rightarrow> clint_dev list \<Rightarrow> clint_dev option" where
  "wfi_dm_global p hartid wakes = snrt_int_sw_poll p hartid wakes"

definition wake_dm_global :: "u32 \<Rightarrow> u32 \<Rightarrow> u32 \<Rightarrow> clint_dev \<Rightarrow> clint_dev" where
  "wake_dm_global p b dm_core d = snrt_int_sw_set p (b + dm_core) d"

section \<open>The interrupts that are set\<close>

text \<open>
  Before hart \<open>i\<close> of the loop the bits of the harts before it are in the mask; it is written when hart 31
  has been added.
\<close>

definition wake_inv :: "nat \<Rightarrow> nat set \<Rightarrow> nat \<Rightarrow> u32 \<times> clint_dev \<Rightarrow> bool" where
  "wake_inv B P i x \<longleftrightarrow> (case x of (msk, d) \<Rightarrow>
     B + i < 32 \<and> pending d = P \<and> (\<forall>k. bit msk k \<longleftrightarrow> B < k \<and> k < B + i) \<or>
     B + i = 32 \<and> msk = 0 \<and> pending d = P \<union> {B<..<B + i})"

lemma wake_hart_inv:
  assumes "wake_inv (unat b) P i (msk, d)" "1 \<le> i" "unat b + i < 32"
  shows "\<exists>x'. wake_hart p b (of_nat i) (msk, d) = Some x' \<and> wake_inv (unat b) P (Suc i) x'"
proof -
  let ?h = "b + of_nat i"
  have h: "unat ?h = unat b + i" using assms(3) by (simp add: unat_add_u32 unat_of_nat_u32)
  then have small: "?h < 32" using assms(3) by (simp add: word_less_nat_alt)
  let ?msk = "msk OR push_bit (unat ?h) 1"
  have old: "bit msk k \<longleftrightarrow> unat b < k \<and> k < unat b + i" for k
    using assms(1,3) by (simp add: wake_inv_def)
  have "bit (push_bit (unat ?h) (1 :: u32)) k \<longleftrightarrow> k = unat b + i" for k
    using assms(3) by (auto simp: h bit_simps)
  then have bits: "bit ?msk k \<longleftrightarrow> unat b < k \<and> k < unat b + Suc i" for k
    using assms(2) by (simp only: bit_or_iff old) linarith
  have "unat (?h + 1) = Suc (unat b + i)" using h assms(3) by (simp add: unat_add_u32)
  then have "unat ((?h + 1) mod 32) = Suc (unat b + i) mod 32" by (simp add: unat_mod)
  moreover have "Suc (unat b + i) mod 32 = 0 \<longleftrightarrow> unat b + Suc i = 32"
  proof (cases "Suc (unat b + i) < 32")
    case False
    then have "Suc (unat b + i) = 32" using assms(3) by linarith
    then show ?thesis by simp
  qed simp
  ultimately have test: "(?h + 1) mod 32 = 0 \<longleftrightarrow> unat b + Suc i = 32" by (metis unat_eq_zero)
  have zero: "?h div 32 = 0" using small by (simp add: div_word_less)
  have P: "pending d = P" using assms(1,3) by (simp add: wake_inv_def)
  have shift: "shl 1 ?h = Some (push_bit (unat ?h) 1)" using small by (simp add: shl_def)
  show ?thesis
  proof (cases "unat b + Suc i = 32")
    case True
    then have "(?h + 1) mod 32 = 0" unfolding test .
    then have "wake_hart p b (of_nat i) (msk, d) = Some (0, snrt_int_clint_set p 0 ?msk d)"
      unfolding wake_hart_def Let_def shift zero prod.case option.case by (simp only: simp_thms if_True)
    moreover have "pending (snrt_int_clint_set p 0 ?msk d) = P \<union> {unat b<..<unat b + Suc i}"
      unfolding pending_clint_set P bits by auto
    ultimately show ?thesis using True unfolding wake_inv_def by blast
  next
    case False
    then have "(?h + 1) mod 32 \<noteq> 0" unfolding test .
    then have "wake_hart p b (of_nat i) (msk, d) = Some (?msk, d)"
      unfolding wake_hart_def Let_def shift prod.case option.case by (simp only: simp_thms if_False)
    moreover have "unat b + Suc i < 32" using False assms(3) by linarith
    ultimately show ?thesis using bits P unfolding wake_inv_def by blast
  qed
qed

lemma wake_loop_inv:
  assumes "wake_inv (unat b) P i x" "1 \<le> i" "i \<le> unat numcores" "unat b + unat numcores \<le> 32"
  shows "\<exists>x'. wake_loop p b numcores (of_nat i) x = Some (numcores, x') \<and> wake_inv (unat b) P (unat numcores) x'"
  using assms(1-3)
proof (induction "unat numcores - i" arbitrary: i x)
  case 0
  then have "i = unat numcores" by simp
  then show ?case using 0 by (subst wake_loop.simps) simp
next
  case (Suc j)
  have less: "i < unat numcores" using Suc.hyps(2) by simp
  then have u: "unat (of_nat i :: u32) = i" by (simp add: unat_of_nat_u32 unat_u32_less order_less_trans)
  obtain y where y: "wake_hart p b (of_nat i) x = Some y" "wake_inv (unat b) P (Suc i) y"
    using wake_hart_inv [of b P i "fst x" "snd x" p] Suc.prems less assms(4) by auto
  have "wake_loop p b numcores (of_nat i) x = wake_loop p b numcores (of_nat (Suc i)) y"
    using less u y(1) by (subst wake_loop.simps) (simp add: word_less_nat_alt add.commute)
  moreover have "\<exists>x'. wake_loop p b numcores (of_nat (Suc i)) y = Some (numcores, x') \<and> wake_inv (unat b) P (unat numcores) x'"
    using Suc.hyps(2) less y(2) by (intro Suc.hyps(1)) simp_all
  ultimately show ?case by simp
qed

lemma wake_all:
  assumes "unat b + unat numcores \<le> 32"
  shows "\<exists>d'. wake_workers_global p b numcores d = Some d' \<and> pending d' = pending d \<union> {unat b<..<unat b + unat numcores}"
proof (cases "unat numcores = 0")
  case True
  then have "numcores = 0" by (simp add: unat_eq_zero)
  then show ?thesis by (auto simp: wake_workers_global_def wake_loop.simps)
next
  case False
  then have "wake_inv (unat b) (pending d) 1 (0, d)" using assms by (auto simp: wake_inv_def)
  from wake_loop_inv [OF this _ _ assms, of p] False obtain msk d' where
      x: "wake_loop p b numcores 1 (0, d) = Some (numcores, msk, d')" "wake_inv (unat b) (pending d) (unat numcores) (msk, d')"
    by fastforce
  show ?thesis
  proof (cases "unat b + unat numcores = 32")
    case True
    then show ?thesis using x by (auto simp: wake_workers_global_def wake_inv_def)
  next
    case less: False
    then have p: "pending d' = pending d" and bits: "{c. bit msk c} = {unat b<..<unat b + unat numcores}"
      using x(2) by (auto simp: wake_inv_def)
    have "unat (b + numcores) = unat b + unat numcores" using less assms by (simp add: unat_add_u32)
    then have "(b + numcores) div 32 = 0" using less assms by (simp add: div_word_less word_less_nat_alt)
    then show ?thesis
      using x(1) p bits by (auto simp: wake_workers_global_def pending_clint_set)
  qed
qed

lemma bit_WAKE_MASK: "N < 32 \<Longrightarrow> bit (WAKE_MASK N) j \<longleftrightarrow> 1 \<le> j \<and> j < N"
proof -
  assume N: "N < 32"
  have "WAKE_MASK N = mask N AND NOT 1" by (simp add: WAKE_MASK_def mask_eq_exp_minus_1)
  with N show ?thesis by (auto simp: bit_simps)
qed

lemma wake_static:
  assumes "N < 32" "unat b + N \<le> 32" "unat b < 32"
  shows "pending (wake_workers_static p N b d) = pending d \<union> {unat b<..<unat b + N}"
proof -
  have b: "b mod 32 = b" "b div 32 = 0" using assms(3) by (simp_all add: word_less_nat_alt mod_word_less div_word_less)
  have "unat (b + of_nat N) = unat b + N" using assms by (simp add: unat_add_u32 unat_of_nat_u32)
  then have "\<not> 32 < b mod 32 + of_nat N" using assms(2) by (simp add: b word_less_nat_alt)
  moreover have "{c. bit (push_bit (unat b) (WAKE_MASK N)) c} = {unat b<..<unat b + N}"
    using assms by (auto simp: bit_push_bit_iff bit_WAKE_MASK)
  ultimately show ?thesis by (simp add: wake_workers_static_def b pending_clint_set)
qed

section \<open>Properties of the wake-up\<close>

text \<open>
  C39: which cores \<open>wake_workers\<close> interrupts when it goes through the registers at \<open>clint_p\<close>. While all hart ids of the
  cluster are below 32 (beyond, the shift in the loop is undefined in C), the loop sets the interrupts with the
  numbers of the worker harts and no others, none stops being pending, and the variant for a fixed number of threads does the
  same. The number of an interrupt is that of a core in its own cluster: the right cores are woken if the
  hart ids of the cluster start at 0, as they do in the shipped boot data, and otherwise, with two cores or more, core
  1 is not among those woken.
\<close>

theorem global_wake_exact:
  assumes "unat b + unat numcores \<le> 32" "2 \<le> unat numcores"
  shows "\<exists>d'. wake_workers_global p b numcores d = Some d' \<and>
    pending d' = pending d \<union> {unat b<..<unat b + unat numcores} \<and>
    (unat numcores < 32 \<longrightarrow> pending (wake_workers_static p (unat numcores) b d) = pending d') \<and>
    (b = 0 \<longrightarrow> pending d' = pending d \<union> {1..<unat numcores}) \<and>
    (b \<noteq> 0 \<longrightarrow> 1 \<in> pending d' \<longrightarrow> 1 \<in> pending d)"
proof -
  obtain d' where d: "wake_workers_global p b numcores d = Some d'"
      "pending d' = pending d \<union> {unat b<..<unat b + unat numcores}"
    using wake_all [OF assms(1)] by blast
  have "unat b < 32" using assms by linarith
  then have "unat numcores < 32 \<longrightarrow> pending (wake_workers_static p (unat numcores) b d) = pending d'"
    using wake_static [of "unat numcores" b p d] assms(1) d(2) by simp
  moreover have "{0<..<unat numcores} = {1..<unat numcores}" by auto
  moreover have "b \<noteq> 0 \<Longrightarrow> \<not> unat b < 1" by (simp add: unat_eq_zero)
  ultimately show ?thesis using d by auto
qed

theorem global_wake_exact_witness:
  "\<exists>d'. wake_workers_global 0x10020008 0 9 dev0 = Some d' \<and> pending d' = {1..<9}"
  using global_wake_exact [of 0 9 "0x10020008" dev0] by (auto simp: pending_def dev0_def)

end
