(* ===== verification/GlobalEu.thy ===== *)
theory GlobalEu
  imports GlobalClint
begin

text \<open>
  The event unit of \<open>omp/eu.c\<close> built with \<open>EU_USE_GLOBAL_CLINT\<close>: \<open>wake_workers\<close> sets software
  interrupts through \<open>clint_p\<close> without waiting for the workers, and \<open>worker_wfi\<close> sleeps in
  \<open>snrt_int_sw_poll\<close>. Everything else is the code of theory \<open>EventUnit\<close>.
\<close>

section \<open>The system\<close>

text \<open>
  \<open>ev\<close> is the state of theory \<open>EventUnit\<close>, whose cluster interrupts are not used; \<open>clint\<close> holds
  the interrupt registers.
\<close>

record g_sys =
  ev :: eu_sys
  clint :: clint_dev

text \<open>
  A turn of \<open>snrt_int_sw_poll\<close> runs under \<open>clint_mutex\<close> and is one step (theory \<open>ClintConc\<close>). \<open>wfi\<close>
  may return at any time, as the instruction set allows, so a sleeping worker can always take a turn; \<open>None\<close> says that
  the turn has found nothing and goes back to \<open>wfi\<close>.
\<close>

definition worker_wfi_global :: "u32 \<Rightarrow> u32 \<Rightarrow> nat \<Rightarrow> g_sys \<Rightarrow> g_sys" where
  "worker_wfi_global p b c g =
     (if wpc (ev g) c = WSleep then
        case snrt_int_sw_poll p (b + of_nat c) [clint g] of
          None \<Rightarrow> g
        | Some d \<Rightarrow> g\<lparr>ev := go c WDec (ev g), clint := d\<rparr>
      else g\<lparr>ev := worker_wfi True c (ev g)\<rparr>)"

definition event_loop_global :: "u32 \<Rightarrow> u32 \<Rightarrow> nat \<Rightarrow> g_sys \<Rightarrow> g_sys" where
  "event_loop_global p b c g =
     (if wpc (ev g) c \<in> {WAdd, WSleep, WDec} then worker_wfi_global p b c g
      else g\<lparr>ev := eu_event_loop True c (ev g)\<rparr>)"

text \<open>
  The cluster's hart ids are below 32, so that \<open>wake_workers\<close> makes one call of
  \<open>snrt_int_clint_set\<close> and is one step. A shift that is undefined leaves the master where it is.
\<close>

definition wake_then :: "u32 \<Rightarrow> u32 \<Rightarrow> nat \<Rightarrow> master_pc \<Rightarrow> g_sys \<Rightarrow> g_sys" where
  "wake_then p b n next g = (case wake_workers_global p b (of_nat n) (clint g) of
       None \<Rightarrow> g
     | Some d \<Rightarrow> g\<lparr>ev := to next (ev g), clint := d\<rparr>)"

definition master_global :: "u32 \<Rightarrow> u32 \<Rightarrow> nat \<Rightarrow> g_sys \<Rightarrow> g_sys" where
  "master_global p b n g = (let s = ev g; e = eu s in case mpc s of
      MZero scratch \<Rightarrow>
        g\<lparr>ev := to (if 1 < scratch then MWake scratch else MOwn scratch) (set_eu (e\<lparr>e_fini_count := 0\<rparr>) s)\<rparr>
    | MWake scratch \<Rightarrow> wake_then p b n (MOwn scratch) g
    | MExitFlag \<Rightarrow> g\<lparr>ev := to MExitWake (set_eu (e\<lparr>exit_flag := True\<rparr>) s)\<rparr>
    | MExitWake \<Rightarrow> wake_then p b n MGone g
    | _ \<Rightarrow> g\<lparr>ev := master n s\<rparr>)"

text \<open>Anything else may happen to the registers at any time.\<close>

inductive g_step :: "u32 \<Rightarrow> u32 \<Rightarrow> nat \<Rightarrow> g_sys \<Rightarrow> g_sys \<Rightarrow> bool" for p b n where
  g_worker: "1 \<le> c \<Longrightarrow> c < n \<Longrightarrow> g_step p b n g (event_loop_global p b c g)"
| g_master: "g_step p b n g (master_global p b n g)"
| g_region: "mpc (ev g) = MIdle \<Longrightarrow> g_step p b n g (g\<lparr>ev := to (MPushRead t nt) (ev g)\<rparr>)"
| g_exit: "mpc (ev g) = MIdle \<Longrightarrow> g_step p b n g (g\<lparr>ev := to MExitRun (ev g)\<rparr>)"
| g_others: "g_step p b n g (g\<lparr>clint := d\<rparr>)"

definition g_begin :: "u32 \<Rightarrow> nat \<Rightarrow> g_sys \<Rightarrow> bool" where
  "g_begin b n g \<longleftrightarrow> unat b + n \<le> 32 \<and> eu_begin n (ev g)"

section \<open>The sleep of the workers\<close>

text \<open>
  Once the master is out of its start-up wait all workers sleep, and the count of those who have finished stays 0 from
  the next region on.
\<close>

definition slept :: "nat \<Rightarrow> eu_sys \<Rightarrow> bool" where
  "slept n s \<longleftrightarrow> (\<forall>w. 1 \<le> w \<longrightarrow> w < n \<longrightarrow> \<not> irq s w \<and> wpc s w = WSleep \<and> ran s w = [])"

fun progress :: "nat \<Rightarrow> master_pc \<Rightarrow> eu \<Rightarrow> bool" where
  "progress n (MZero k) e \<longleftrightarrow> e_nthreads e = k \<and> k \<noteq> 0"
| "progress n (MWake k) e \<longleftrightarrow> e_nthreads e = k \<and> 1 < k \<and> e_fini_count e = 0"
| "progress n (MOwn k) e \<longleftrightarrow> e_nthreads e = k \<and> k \<noteq> 0 \<and> e_fini_count e = 0"
| "progress n MFiniRead e \<longleftrightarrow> e_fini_count e = 0"
| "progress n (MFiniWait l) e \<longleftrightarrow> e_fini_count e = 0 \<and> l = of_nat n - 1"
| "progress n MClear e \<longleftrightarrow> e_nthreads e = 1"
| "progress n (MWakeRead k) e \<longleftrightarrow> False"
| "progress n (MWakeWait k l) e \<longleftrightarrow> False"
| "progress n MExitWakeRead e \<longleftrightarrow> False"
| "progress n (MExitWakeWait l) e \<longleftrightarrow> False"
| "progress n _ e \<longleftrightarrow> True"

definition sleep_inv :: "u32 \<Rightarrow> nat \<Rightarrow> g_sys \<Rightarrow> bool" where
  "sleep_inv b n g \<longleftrightarrow> 2 \<le> n \<and> unat b + n \<le> 32 \<and> n < 32 \<and> counts n (ev g) \<and>
     (\<forall>r\<in>set (finished (ev g)). snd r = 1) \<and>
     (if mpc (ev g) = MBoot then booting n (ev g)
      else slept n (ev g) \<and> progress n (mpc (ev g)) (eu (ev g)))"

text \<open>No turn of \<open>snrt_int_sw_poll\<close> finds an interrupt: a worker does what it does when none is ever pending.\<close>

lemma event_loop_eq:
  assumes "sleep_inv b n g" "1 \<le> c" "c < n"
  shows "event_loop_global p b c g = g\<lparr>ev := eu_event_loop True c (ev g)\<rparr>"
proof (cases "wpc (ev g) c = WSleep")
  case True
  have "unat (b + of_nat c) < 64" using assms by (simp add: sleep_inv_def unat_add_u32)
  then have "snrt_int_sw_poll p (b + of_nat c) [clint g] = None" by (rule poll_never)
  then have "event_loop_global p b c g = g" using True by (simp add: event_loop_global_def worker_wfi_global_def)
  moreover have "\<not> irq (ev g) c" using assms by (auto simp: sleep_inv_def booting_def slept_def split: if_splits)
  ultimately show ?thesis using True by (simp add: asleep_worker)
qed (auto simp: event_loop_global_def worker_wfi_global_def eu_event_loop_def Let_def)

lemma sleep_inv_worker:
  assumes "sleep_inv b n g" "1 \<le> c" "c < n"
  shows "sleep_inv b n (g\<lparr>ev := eu_event_loop True c (ev g)\<rparr>)"
proof (cases "mpc (ev g) = MBoot")
  case True
  then show ?thesis
    using assms counts_worker [of n "ev g" c True] booting_worker [of n "ev g" c True]
    by (simp add: sleep_inv_def worker_frame)
next
  case False
  then have "eu_event_loop True c (ev g) = ev g"
    using assms by (intro asleep_worker) (auto simp: sleep_inv_def slept_def)
  then show ?thesis using assms(1) by simp
qed

lemma wake_then_ok:
  assumes "unat b + n \<le> 32" "n < 32"
  shows "\<exists>d. wake_then p b n next g = g\<lparr>ev := to next (ev g), clint := d\<rparr>"
  using wake_all [of b "of_nat n" p "clint g"] assms by (auto simp: wake_then_def)

lemma slept_in_loop:
  assumes "sleep_inv b n g" "mpc (ev g) \<noteq> MBoot"
  shows "workers_in_loop (eu (ev g)) = of_nat n - 1" "workers_wfi (eu (ev g)) = of_nat n - 1"
  using assms cnt_all [of n "\<lambda>w. wpc (ev g) w \<noteq> WStart"] cnt_all [of n "in_wfi (ev g)"]
  by (auto simp: sleep_inv_def slept_def counts_def)

lemma not_alone: "2 \<le> n \<Longrightarrow> n < 32 \<Longrightarrow> (of_nat n - 1 :: u32) \<noteq> 0"
proof -
  assume n: "2 \<le> n" "n < 32"
  then have "unat (of_nat (n - 1) :: u32) = n - 1" by (intro unat_of_nat_u32) simp
  then show ?thesis using n by (auto simp: of_nat_diff)
qed

lemma booted_asleep:
  assumes "sleep_inv b n g" "mpc (ev g) = MBoot" "workers_wfi (eu (ev g)) = of_nat n - 1"
  shows "slept n (ev g)"
  unfolding slept_def
proof (intro allI impI)
  fix w assume w: "1 \<le> w" "w < n"
  have b: "booting n (ev g)" "counts n (ev g)" "n < 32" "0 < n" using assms(1,2) by (auto simp: sleep_inv_def)
  then have "in_wfi (ev g) w" using EventUnit.all_in_wfi [of n "ev g" w] assms(3) w by blast
  moreover have "\<not> irq (ev g) w \<and> ran (ev g) w = [] \<and> wpc (ev g) w \<in> {WStart, WLoop, WCheck, WFini, WAdd, WSleep}"
    using b(1) w unfolding booting_def by blast
  ultimately show "\<not> irq (ev g) w \<and> wpc (ev g) w = WSleep \<and> ran (ev g) w = []" by auto
qed

lemma sleep_inv_master:
  assumes "sleep_inv b n g"
  shows "sleep_inv b n (master_global p b n g)"
proof (cases "mpc (ev g) = MBoot")
  case True
  then have m: "master_global p b n g =
      (if workers_wfi (eu (ev g)) \<noteq> of_nat n - 1 then g\<lparr>ev := ev g\<rparr> else g\<lparr>ev := to MIdle (ev g)\<rparr>)"
    by (simp add: master_global_def master_unfold Let_def)
  show ?thesis
  proof (cases "workers_wfi (eu (ev g)) = of_nat n - 1")
    case woke: True
    then have "slept n (ev g)" by (rule booted_asleep [OF assms True])
    then show ?thesis using assms woke True unfolding m sleep_inv_def by (simp add: to_def slept_def counts_def)
  next
    case False
    then show ?thesis using assms unfolding m by simp
  qed
next
  case False
  have inv: "2 \<le> n" "unat b + n \<le> 32" "n < 32" "counts n (ev g)" "slept n (ev g)" "progress n (mpc (ev g)) (eu (ev g))"
      "\<forall>r\<in>set (finished (ev g)). snd r = 1"
    using assms False by (auto simp: sleep_inv_def)
  note in_loop = slept_in_loop [OF assms False]
  have n: "(of_nat n - 1 :: u32) \<noteq> 0" by (rule not_alone [OF inv(1,3)])
  have one: "k \<noteq> 0 \<Longrightarrow> \<not> 1 < k \<Longrightarrow> k = 1" for k :: u32 by (simp add: word_less_nat_alt word_unat_eq_iff)
  obtain d where d: "\<And>next. wake_then p b n next g = g\<lparr>ev := to next (ev g), clint := d\<rparr>"
    using wake_all [of b "of_nat n" p "clint g"] inv(2,3) by (auto simp: wake_then_def)
  have "mpc (ev (master_global p b n g)) \<noteq> MBoot \<and> counts n (ev (master_global p b n g)) \<and> slept n (ev (master_global p b n g))"
    using False inv(4,5) by (cases "mpc (ev g)") (simp_all add: master_global_def master_unfold d move_defs Let_def counts_def slept_def)
  moreover have "progress n (mpc (ev (master_global p b n g))) (eu (ev (master_global p b n g)))"
    using False inv(6) in_loop n one by (cases "mpc (ev g)") (auto simp: master_global_def master_unfold d move_defs Let_def)
  moreover have "\<forall>r\<in>set (finished (ev (master_global p b n g))). snd r = 1"
    using inv(6,7) by (cases "mpc (ev g)") (auto simp: master_global_def master_unfold d move_defs Let_def)
  ultimately show ?thesis using inv(1-3) by (simp add: sleep_inv_def)
qed

lemma sleep_inv_start: "2 \<le> n \<Longrightarrow> g_begin b n g \<Longrightarrow> sleep_inv b n g"
  by (auto simp: g_begin_def eu_begin_def eu_start_def sleep_inv_def booting_def counts_def cnt_none)

lemma sleep_inv_step:
  assumes "sleep_inv b n g" "g_step p b n g g'"
  shows "sleep_inv b n g'"
  using assms(2)
proof cases
  case (g_worker c)
  then show ?thesis using sleep_inv_worker [OF assms(1)] event_loop_eq [OF assms(1)] by simp
next
  case g_master
  then show ?thesis using sleep_inv_master [OF assms(1)] by simp
qed (use assms(1) in \<open>auto simp: sleep_inv_def to_def slept_def counts_def\<close>)

lemma sleep_inv_reach: "reach (g_begin b n) (g_step p b n) g \<Longrightarrow> 2 \<le> n \<Longrightarrow> sleep_inv b n g"
  by (induction rule: reach.induct) (auto intro: sleep_inv_start sleep_inv_step)

text \<open>The wait for the workers at the end of a region does not end.\<close>

lemma stuck_step:
  assumes "sleep_inv b n g" "g_step p b n g g'" "mpc (ev g) = MFiniWait l"
  shows "mpc (ev g') = MFiniWait l"
proof -
  have "(of_nat n - 1 :: u32) \<noteq> 0" using assms(1) by (intro not_alone) (simp_all add: sleep_inv_def)
  then have "master_global p b n g = g" using assms(1,3) by (auto simp: sleep_inv_def master_global_def master_unfold Let_def)
  with assms(2,3) event_loop_eq [OF assms(1)] show ?thesis by cases (auto simp: worker_frame)
qed

lemma stuck_for_ever:
  assumes "(g_step p b n)\<^sup>*\<^sup>* g g'" "sleep_inv b n g" "mpc (ev g) = MFiniWait l"
  shows "sleep_inv b n g' \<and> mpc (ev g') = MFiniWait l"
  using assms by (induction rule: rtranclp_induct) (auto intro: sleep_inv_step stuck_step)

text \<open>The master's own steps from the call of \<open>eu_dispatch_push\<close> to that wait.\<close>

lemma ev_master:
  assumes "unat b + n \<le> 32" "n < 32"
  shows "ev (master_global p b n g) = (let s = ev g; e = eu s in case mpc s of
      MZero scratch \<Rightarrow> to (if 1 < scratch then MWake scratch else MOwn scratch) (set_eu (e\<lparr>e_fini_count := 0\<rparr>) s)
    | MWake scratch \<Rightarrow> to (MOwn scratch) s
    | MExitFlag \<Rightarrow> to MExitWake (set_eu (e\<lparr>exit_flag := True\<rparr>) s)
    | MExitWake \<Rightarrow> to MGone s
    | _ \<Rightarrow> master n s)"
proof -
  have "ev (wake_then p b n pc g) = to pc (ev g)" for pc
    using wake_then_ok [OF assms, of p pc g] by auto
  then show ?thesis by (cases "mpc (ev g)") (simp_all add: master_global_def Let_def)
qed

lemma region_gets_stuck:
  assumes "sleep_inv b n g" "mpc (ev g) = MPushRead t nt" "1 < nt"
  shows "mpc (ev ((master_global p b n ^^ 9) g)) = MFiniWait (of_nat n - 1)"
proof -
  have "unat b + n \<le> 32" "n < 32" using assms(1) by (auto simp: sleep_inv_def)
  note ev = ev_master [OF this, of p]
  have "nt \<noteq> 0" "0 < nt" using assms(3) by (auto simp: word_less_nat_alt)
  then show ?thesis
    using assms(2,3) slept_in_loop [OF assms(1)]
    by (simp add: eval_nat_numeral ev master_unfold move_defs Let_def)
qed

section \<open>Properties\<close>

text \<open>
  C19: in this build the workers are never woken again, because \<open>snrt_int_sw_poll\<close> reads the write-only
  \<open>CL_CLINT_SET\<close>. In every interleaving, whatever else happens to the registers and whenever \<open>wfi\<close> returns, no worker of a cluster
  of two cores or more executes anything or leaves its loop; the only regions that complete are those for one
  thread; a region for more takes the master, in nine steps of its own, to the wait for the workers, and there
  it stays.
\<close>

theorem global_workers_never_woken:
  assumes "reach (g_begin b n) (g_step p b n) g" "2 \<le> n"
  shows "(\<forall>w. 1 \<le> w \<longrightarrow> w < n \<longrightarrow> ran (ev g) w = [] \<and> wpc (ev g) w \<noteq> WGone) \<and>
    (\<forall>r\<in>set (finished (ev g)). snd r = 1) \<and>
    (mpc (ev g) = MPushRead t nt \<longrightarrow> 1 < nt \<longrightarrow>
       mpc (ev ((master_global p b n ^^ 9) g)) = MFiniWait (of_nat n - 1)) \<and>
    (mpc (ev g) = MFiniWait l \<longrightarrow> (g_step p b n)\<^sup>*\<^sup>* g g' \<longrightarrow> mpc (ev g') = MFiniWait l)"
proof -
  have inv: "sleep_inv b n g" by (rule sleep_inv_reach [OF assms])
  have "ran (ev g) w = [] \<and> wpc (ev g) w \<noteq> WGone" if "1 \<le> w" "w < n" for w
    using inv that by (auto simp: sleep_inv_def booting_def slept_def split: if_splits)
  moreover have "\<forall>r\<in>set (finished (ev g)). snd r = 1" using inv by (simp add: sleep_inv_def)
  ultimately show ?thesis
    using region_gets_stuck [OF inv, of t nt p] stuck_for_ever [OF _ inv, of p g' l] by blast
qed

section \<open>Runs\<close>

fun g_move :: "u32 \<Rightarrow> u32 \<Rightarrow> nat \<Rightarrow> eu_action \<Rightarrow> g_sys \<Rightarrow> g_sys" where
  "g_move p b n (W c) g = (if 1 \<le> c \<and> c < n then event_loop_global p b c g else g)"
| "g_move p b n M g = master_global p b n g"
| "g_move p b n (Region t nt) g = (if mpc (ev g) = MIdle then g\<lparr>ev := to (MPushRead t nt) (ev g)\<rparr> else g)"

definition g_run :: "u32 \<Rightarrow> u32 \<Rightarrow> nat \<Rightarrow> eu_action list \<Rightarrow> g_sys" where
  "g_run p b n ms = fold (g_move p b n) ms \<lparr>ev = eu0, clint = dev0\<rparr>"

lemma g_run_reach:
  assumes "0 < n" "n < 32" "unat b + n \<le> 32"
  shows "reach (g_begin b n) (g_step p b n) (g_run p b n ms)"
proof (induction ms rule: rev_induct)
  case Nil
  then show ?case
    using assms by (intro reach_start) (simp add: g_run_def eu0_def g_begin_def eu_begin_def eu_start_def)
next
  case (snoc m ms)
  let ?g = "g_run p b n ms"
  have "g_run p b n (ms @ [m]) = g_move p b n m ?g" by (simp add: g_run_def)
  moreover have "g_move p b n m ?g = ?g \<or> g_step p b n ?g (g_move p b n m ?g)"
    by (cases m) (auto intro: g_step.intros)
  ultimately show ?case using snoc.IH by (metis reach_step)
qed

text \<open>Both cores of a cluster start, the worker sleeps, and the master starts a region for two.\<close>

definition region_of_two :: "eu_action list" where
  "region_of_two = [W 1, W 1, W 1, W 1, W 1, M, Region (7, 8, 9) 2]"

theorem global_workers_never_woken_witness:
  "mpc (ev ((master_global 0x10020008 0 2 ^^ 9) (g_run 0x10020008 0 2 region_of_two))) = MFiniWait 1"
proof -
  let ?g = "g_run 0x10020008 0 2 region_of_two"
  have "mpc (ev ?g) = MPushRead (7, 8, 9) 2"
    by (simp add: g_run_def region_of_two_def eu0_def event_loop_global_def worker_wfi_global_def worker_wfi_def
        eu_event_loop_unfold master_global_def master_unfold move_defs Let_def)
  with global_workers_never_woken [OF g_run_reach, of 2 0 "0x10020008" region_of_two "(7, 8, 9)" 2] show ?thesis by simp
qed

end
