(* ===== verification/GlobalMover.thy ===== *)
theory GlobalMover
  imports GlobalClint MoverQueue
begin

text \<open>
  The data mover of \<open>dm.c\<close> built with \<open>DM_USE_GLOBAL_CLINT\<close>:
  \<open>wake_dm\<close> sets the software interrupt of the data mover through \<open>clint_p\<close> and does not wait for it to
  sleep, \<open>wfi_dm\<close> sleeps in \<open>snrt_int_sw_poll\<close>. Everything else is the code of theory \<open>DataMover\<close>. The ring
  keeps its order, but the data mover never wakes up.
\<close>

section \<open>The system\<close>

text \<open>
  \<open>mv\<close> is the state of theory \<open>DataMover\<close>, whose cluster interrupt and count of sleeping movers are not
  used; \<open>dclint\<close> holds the interrupt registers. \<open>b\<close> is the first hart id of the
  cluster, \<open>k\<close> the index of the data mover core.
\<close>

record gm_sys =
  mv :: dm_sys
  dclint :: clint_dev

definition mover_hart :: "u32 \<Rightarrow> u32 \<Rightarrow> u32" where
  "mover_hart b k = b + k"

text \<open>
  A turn of \<open>snrt_int_sw_poll\<close> runs under \<open>clint_mutex\<close> and is one step (theory \<open>ClintConc\<close>). \<open>wfi\<close>
  may return at any time; \<open>None\<close> says that the turn has found nothing and goes back to \<open>wfi\<close>.
\<close>

definition dm_main_global :: "u32 \<Rightarrow> u32 \<Rightarrow> u32 \<Rightarrow> gm_sys \<Rightarrow> gm_sys" where
  "dm_main_global p b k g = (let s = mv g in case dpc s of
      DWfiInc do_exit \<Rightarrow>
        (case wfi_dm_global p (mover_hart b k) [dclint g] of
           None \<Rightarrow> g
         | Some d \<Rightarrow> g\<lparr>mv := dgo (if do_exit then DGone else DTop) s, dclint := d\<rparr>)
    | _ \<Rightarrow> g\<lparr>mv := dm_main True s\<rparr>)"

text \<open>The calls of \<open>wake_dm\<close> in \<open>dm_start\<close>, \<open>dm_wait\<close>, \<open>dm_wait_ready\<close> and \<open>dm_exit\<close>.\<close>

fun after_wake :: "client_pc \<Rightarrow> client_pc option" where
  "after_wake TWake = Some CIdle"
| "after_wake WWake = Some WFill"
| "after_wake (SWake r) = Some (SPoll r)"
| "after_wake EWake = Some CIdle"
| "after_wake _ = None"

definition dm_client_global :: "u32 \<Rightarrow> u32 \<Rightarrow> u32 \<Rightarrow> nat \<Rightarrow> gm_sys \<Rightarrow> gm_sys" where
  "dm_client_global p b k c g = (let s = mv g in case after_wake (cpc s c) of
      Some pc \<Rightarrow> g\<lparr>mv := cgo c pc s, dclint := wake_dm_global p b k (dclint g)\<rparr>
    | None \<Rightarrow> g\<lparr>mv := dm_client c s\<rparr>)"

text \<open>Anything else may happen to the registers at any time.\<close>

inductive gm_step :: "u32 \<Rightarrow> u32 \<Rightarrow> u32 \<Rightarrow> nat \<Rightarrow> gm_sys \<Rightarrow> gm_sys \<Rightarrow> bool" for p b k n where
  gm_mover: "gm_step p b k n g (dm_main_global p b k g)"
| gm_client: "c < n \<Longrightarrow> gm_step p b k n g (dm_client_global p b k c g)"
| gm_call: "c < n \<Longrightarrow> cpc (mv g) c = CIdle \<Longrightarrow> gm_step p b k n g (g\<lparr>mv := cgo c (enter f) (mv g)\<rparr>)"
| gm_dma: "completed (mv g) < length (issued (mv g)) \<Longrightarrow>
     gm_step p b k n g (g\<lparr>mv := (mv g)\<lparr>completed := completed (mv g) + 1\<rparr>\<rparr>)"
| gm_others: "gm_step p b k n g (g\<lparr>dclint := d\<rparr>)"

definition gm_begin :: "u32 \<Rightarrow> u32 \<Rightarrow> nat \<Rightarrow> gm_sys \<Rightarrow> bool" where
  "gm_begin b k n g \<longleftrightarrow> unat (mover_hart b k) < 64 \<and> dm_begin n (mv g)"

section \<open>The ring\<close>

definition ring_inv :: "u32 \<Rightarrow> u32 \<Rightarrow> nat \<Rightarrow> gm_sys \<Rightarrow> bool" where
  "ring_inv b k n g \<longleftrightarrow> unat (mover_hart b k) < 64 \<and> n < 2147483648 \<and> ring_type n (mv g)"

text \<open>The data mover stops in its first sleep and works as in \<open>DataMover\<close> before.\<close>

lemma dm_main_global_eq:
  assumes "unat (mover_hart b k) < 64"
  shows "dm_main_global p b k g = (if \<exists>e. dpc (mv g) = DWfiInc e then g else g\<lparr>mv := dm_main True (mv g)\<rparr>)"
  using poll_never [OF assms, of p "[dclint g]"]
  by (cases "dpc (mv g)") (simp_all add: dm_main_global_def wfi_dm_global_def del: snrt_int_sw_poll.simps)

lemma ring_inv_mover: "ring_inv b k n g \<Longrightarrow> ring_inv b k n (dm_main_global p b k g)"
  by (auto simp: ring_inv_def dm_main_global_eq ring_type_mover)

lemma fills_after_wake: "after_wake x = Some pc \<Longrightarrow> fills pc \<le> fills x"
  by (cases x) auto

lemma ring_inv_client: "ring_inv b k n g \<Longrightarrow> c < n \<Longrightarrow> ring_inv b k n (dm_client_global p b k c g)"
  using ring_type_go [of n "mv g" c] ring_type_client [of n "mv g" c]
  by (auto simp: ring_inv_def dm_client_global_def cgo_def Let_def fills_after_wake split: option.split)

lemma ring_inv_step:
  assumes "ring_inv b k n g" "gm_step p b k n g g'"
  shows "ring_inv b k n g'"
  using assms(2)
proof cases
  case (gm_call c f)
  then have "fills (enter f) \<le> fills (cpc (mv g) c)" by (cases f) simp_all
  then show ?thesis using assms(1) gm_call ring_type_go [of n "mv g" c] by (simp add: ring_inv_def cgo_def)
next
  case gm_mover
  then show ?thesis using ring_inv_mover [OF assms(1)] by simp
next
  case (gm_client c)
  then show ?thesis using ring_inv_client [OF assms(1)] by simp
qed (use assms(1) in \<open>simp_all add: ring_inv_def ring_type_def\<close>)

lemma ring_inv_start: "gm_begin b k n g \<Longrightarrow> ring_inv b k n g"
  by (simp add: gm_begin_def ring_inv_def dm_begin_def ring_type_start)

interpretation global_ring: inductive_invariant "gm_begin b k n" "gm_step p b k n" "ring_inv b k n" for p b k n
  by unfold_locales (auto intro: ring_inv_start ring_inv_step)

section \<open>The sleep\<close>

text \<open>What stays once the data mover sleeps and client \<open>c\<close> waits for the ring to drain, or for an answer.\<close>

definition asleep_with :: "bool \<Rightarrow> dm_task list \<Rightarrow> nat \<Rightarrow> client_pc \<Rightarrow> gm_sys \<Rightarrow> bool" where
  "asleep_with e done_tasks c pc g \<longleftrightarrow> (let s = mv g; d = dmp s in
     dpc s = DWfiInc e \<and> issued s = done_tasks \<and>
     (pc = WFill \<longrightarrow> cpc s c = WFill \<and> queue_fill d \<noteq> 0) \<and>
     (\<forall>r. pc = SPoll r \<longrightarrow> cpc s c = SPoll r \<and> stat_pvalid d = 0))"

lemma asleep_client:
  assumes "asleep_with e L c pc g" "ring_inv b k n g" "c' < n"
  shows "asleep_with e L c pc (dm_client_global p b k c' g)"
proof -
  have n: "unat (queue_fill (dmp (mv g))) \<le> 3 + n" "n < 2147483648"
    using assms(2) by (auto simp: ring_inv_def ring_type_def)
  have "queue_fill (dmp (mv g)) + 1 \<noteq> 0"
  proof
    assume "queue_fill (dmp (mv g)) + 1 = 0"
    then have "unat (queue_fill (dmp (mv g)) + 1) = 0" by simp
    then show False using n by (simp add: unat_inc_u32)
  qed
  then show ?thesis
    using assms(1)
    by (cases "cpc (mv g) c'") (auto simp: asleep_with_def dm_client_global_def client_defs)
qed

lemma asleep_step:
  assumes "asleep_with e L c pc g" "ring_inv b k n g" "gm_step p b k n g g'"
  shows "asleep_with e L c pc g'"
  using assms(3)
proof cases
  case gm_mover
  have "dm_main_global p b k g = g" using assms(1,2) by (simp add: ring_inv_def dm_main_global_eq asleep_with_def Let_def)
  then show ?thesis using gm_mover assms(1) by simp
next
  case (gm_client c')
  then show ?thesis using asleep_client [OF assms(1,2)] by simp
qed (use assms(1) in \<open>auto simp: asleep_with_def cgo_def Let_def\<close>)

lemma asleep_for_ever:
  assumes "(gm_step p b k n)\<^sup>*\<^sup>* g g'" "ring_inv b k n g" "asleep_with e L c pc g"
  shows "ring_inv b k n g' \<and> asleep_with e L c pc g'"
  using assms by (induction rule: rtranclp_induct) (auto intro: ring_inv_step asleep_step)

section \<open>Properties\<close>

text \<open>
  C20: in this build the data mover never wakes up, because \<open>snrt_int_sw_poll\<close> reads the write-only
  \<open>CL_CLINT_SET\<close>. From every reachable state in which it has gone to sleep, for any number of clients, whatever
  happens to the registers and whenever \<open>wfi\<close> returns, it stays asleep and gives no further transfer to the DMA engine; a client in
  \<open>dm_wait\<close> that waits for a ring that is not empty waits for ever, and so does one in \<open>dm_wait\<close> or \<open>dm_wait_ready\<close>
  whose request has not been answered.
\<close>

theorem global_mover_never_wakes:
  assumes "reach (gm_begin b k n) (gm_step p b k n) g" "dpc (mv g) = DWfiInc e" "(gm_step p b k n)\<^sup>*\<^sup>* g g'"
  shows "dpc (mv g') = DWfiInc e \<and> issued (mv g') = issued (mv g) \<and>
    (cpc (mv g) c = WFill \<longrightarrow> queue_fill (dmp (mv g)) \<noteq> 0 \<longrightarrow> cpc (mv g') c = WFill) \<and>
    (cpc (mv g) c = SPoll r \<longrightarrow> stat_pvalid (dmp (mv g)) = 0 \<longrightarrow> cpc (mv g') c = SPoll r)"
proof -
  note inv = global_ring.reach_inv [OF assms(1)]
  have "asleep_with e (issued (mv g)) c CIdle g" using assms(2) by (simp add: asleep_with_def)
  from asleep_for_ever [OF assms(3) inv this]
  have "dpc (mv g') = DWfiInc e \<and> issued (mv g') = issued (mv g)" by (simp add: asleep_with_def Let_def)
  moreover have "cpc (mv g') c = WFill" if "cpc (mv g) c = WFill" "queue_fill (dmp (mv g)) \<noteq> 0"
    using asleep_for_ever [OF assms(3) inv, of e "issued (mv g)" c WFill] assms(2) that
    by (simp add: asleep_with_def Let_def)
  moreover have "cpc (mv g') c = SPoll r" if "cpc (mv g) c = SPoll r" "stat_pvalid (dmp (mv g)) = 0"
    using asleep_for_ever [OF assms(3) inv, of e "issued (mv g)" c "SPoll r"] assms(2) that
    by (simp add: asleep_with_def Let_def)
  ultimately show ?thesis by blast
qed

section \<open>Runs\<close>

fun gm_move :: "u32 \<Rightarrow> u32 \<Rightarrow> u32 \<Rightarrow> nat \<Rightarrow> dm_action \<Rightarrow> gm_sys \<Rightarrow> gm_sys" where
  "gm_move p b k n D g = dm_main_global p b k g"
| "gm_move p b k n (C c) g = (if c < n then dm_client_global p b k c g else g)"
| "gm_move p b k n (Call c f) g = (if c < n \<and> cpc (mv g) c = CIdle then g\<lparr>mv := cgo c (enter f) (mv g)\<rparr> else g)"
| "gm_move p b k n Dma g = (if completed (mv g) < length (issued (mv g))
     then g\<lparr>mv := (mv g)\<lparr>completed := completed (mv g) + 1\<rparr>\<rparr> else g)"

definition gm_run :: "u32 \<Rightarrow> u32 \<Rightarrow> u32 \<Rightarrow> nat \<Rightarrow> dm_action list \<Rightarrow> gm_sys" where
  "gm_run p b k n ms = fold (gm_move p b k n) ms \<lparr>mv = dm0, dclint = dev0\<rparr>"

lemma gm_move_step: "gm_move p b k n m g = g \<or> gm_step p b k n g (gm_move p b k n m g)"
  by (cases m) (auto intro: gm_step.intros gm_step.gm_dma [of g p b k n, simplified])

lemma gm_run_reach:
  assumes "unat (mover_hart b k) < 64" "n < 2147483648"
  shows "reach (gm_begin b k n) (gm_step p b k n) (gm_run p b k n ms)"
proof (induction ms rule: rev_induct)
  case Nil
  then show ?case using assms by (simp add: gm_run_def reach_start gm_begin_def dm_begin_def dm0_start)
next
  case (snoc m ms)
  have "gm_run p b k n (ms @ [m]) = gm_move p b k n m (gm_run p b k n ms)" by (simp add: gm_run_def)
  then show ?case using snoc gm_move_step [of p b k n m] by (metis reach_step)
qed

text \<open>
  The data mover, core 8 of the cluster with first hart 0, sleeps; a transfer is queued and the client calls
  \<open>dm_wait\<close>, which wakes the mover and waits for the ring to drain.
\<close>

definition asleep_waiting :: "dm_action list" where
  "asleep_waiting = [D, D, D, D, Call 0 (copy_of 8192), C 0, C 0, C 0, C 0, C 0, C 0, Call 0 AwaitIdle, C 0]"

theorem global_mover_never_wakes_witness:
  "cpc (mv (gm_move 0x10020008 0 8 1 D (gm_run 0x10020008 0 8 1 asleep_waiting))) 0 = WFill"
proof -
  let ?g = "gm_run 0x10020008 0 8 1 asleep_waiting" and ?g' = "gm_move 0x10020008 0 8 1 D (gm_run 0x10020008 0 8 1 asleep_waiting)"
  have m: "unat (mover_hart 0 8) < 64" by (simp add: mover_hart_def)
  have "dpc (mv ?g) = DWfiInc False" "cpc (mv ?g) 0 = WFill" "queue_fill (dmp (mv ?g)) \<noteq> 0"
    by (simp_all add: gm_run_def dm0_def asleep_waiting_def copy_of_def task_of_def dm_memcpy_async_def
        dm_main_global_eq [OF m] dm_client_global_def dm_defs client_defs DM_TASK_QUEUE_SIZE_def stat_defs slot_def next_slot_def)
  moreover have "(gm_step 0x10020008 0 8 1)\<^sup>*\<^sup>* ?g ?g'"
    using gm_move_step [of "0x10020008" 0 8 1 D ?g] by (metis r_into_rtranclp rtranclp.rtrancl_refl)
  ultimately show ?thesis using global_mover_never_wakes [OF gm_run_reach [OF m], of 1 "0x10020008" asleep_waiting False ?g' 0] by simp
qed

end
