(* ===== verification/MoverWait.thy ===== *)
theory MoverWait
  imports MoverQueue
begin

text \<open>
  Every \<open>dm_wait\<close> can return: from any state in which the only client is inside the call there is a run of the
  client, the data mover and the DMA engine to its end. The proof follows a schedule in which the
  distance to the return decreases: places of the call, tasks in the ring, way of the data mover, open transfers.
\<close>

section \<open>Distances\<close>

text \<open>
  The places of \<open>dm_wait\<close> that are left; how far the data mover is from counting down the
  fill count, from answering the idle request, and from its sleep when there is nothing to do.
\<close>

fun wait_rank :: "client_pc \<Rightarrow> nat" where
  "wait_rank WWake = 11"
| "wait_rank WIrq = 10"
| "wait_rank WFill = 9"
| "wait_rank WStat = 8"
| "wait_rank (SLock r) = (if r = STAT_WAIT_IDLE then 7 else 0)"
| "wait_rank (SPv0 r) = (if r = STAT_WAIT_IDLE then 6 else 0)"
| "wait_rank (SReq r) = (if r = STAT_WAIT_IDLE then 5 else 0)"
| "wait_rank (SWake r) = (if r = STAT_WAIT_IDLE then 4 else 0)"
| "wait_rank (SIrq r) = (if r = STAT_WAIT_IDLE then 3 else 0)"
| "wait_rank (SPoll r) = (if r = STAT_WAIT_IDLE then 2 else 0)"
| "wait_rank (SUnlock r) = (if r = STAT_WAIT_IDLE then 1 else 0)"
| "wait_rank _ = 0"

fun to_dec :: "dm_pc \<Rightarrow> nat" where
  "to_dec DDec = 1" | "to_dec DBump = 2" | "to_dec DIssue = 3" | "to_dec DBlock = 4" | "to_dec DTop = 5"
| "to_dec (DWfiDec e) = 6" | "to_dec (DClr e) = 7" | "to_dec (DWfi e) = 8" | "to_dec (DWfiInc e) = 9"
| "to_dec (DCheckQ e) = 10" | "to_dec (DCheck e) = 11" | "to_dec DClearQ = 12" | "to_dec (DPvalid r) = 13"
| "to_dec DBusy = 14" | "to_dec DSwitch = 15" | "to_dec DStat = 16" | "to_dec DGone = 0"

fun to_valid :: "dm_pc \<Rightarrow> nat" where
  "to_valid (DPvalid r) = 1" | "to_valid DBusy = 2" | "to_valid DSwitch = 3" | "to_valid DStat = 4"
| "to_valid DTop = 5" | "to_valid (DWfiDec e) = 6" | "to_valid (DClr e) = 7" | "to_valid (DWfi e) = 8"
| "to_valid (DWfiInc e) = 9" | "to_valid (DCheckQ e) = 10" | "to_valid (DCheck e) = 11" | "to_valid _ = 0"

fun to_sleep_rank :: "dm_pc \<Rightarrow> nat" where
  "to_sleep_rank (DWfiInc e) = 1" | "to_sleep_rank (DCheckQ e) = 2" | "to_sleep_rank (DCheck e) = 3"
| "to_sleep_rank DClearQ = 4" | "to_sleep_rank DSwitch = 5" | "to_sleep_rank DStat = 6" | "to_sleep_rank DTop = 7"
| "to_sleep_rank _ = 0"

definition mover_rank :: "dm_sys \<Rightarrow> nat" where
  "mover_rank s = (let c = cpc s 0; q = dpc s; d = dmp s in
     if c \<in> {WWake, WFill} \<and> queue_fill d \<noteq> 0 then to_dec q
     else if c = WWake \<or> c = SWake 1 \<and> stat_pvalid d \<noteq> 0 then to_sleep_rank q
     else if c = WStat then (if q = DClearQ then 1 else 0)
     else if c = SWake 1 then 10 + to_valid q
     else to_valid q)"

fun exiting :: "dm_pc \<Rightarrow> bool" where
  "exiting (DCheck e) = e"
| "exiting (DCheckQ e) = e"
| "exiting (DWfiInc e) = e"
| "exiting (DWfi e) = e"
| "exiting (DClr e) = e"
| "exiting (DWfiDec e) = e"
| "exiting DGone = True"
| "exiting _ = False"

definition in_dm_wait :: "dm_sys \<Rightarrow> bool" where
  "in_dm_wait s \<longleftrightarrow> 0 < wait_rank (cpc s 0) \<and> \<not> exiting (dpc s) \<and> stat_q (dmp s) \<noteq> STAT_EXIT"

definition wait_measure :: "dm_sys \<Rightarrow> nat \<times> nat \<times> nat \<times> nat" where
  "wait_measure s = (wait_rank (cpc s 0), unat (queue_fill (dmp s)), mover_rank s, length (issued s) - completed s)"

definition before :: "(dm_sys \<times> dm_sys) set" where
  "before = inv_image (less_than <*lex*> less_than <*lex*> less_than <*lex*> less_than) wait_measure"

lemma wf_before: "wf before"
  by (simp add: before_def wf_lex_prod)

lemma before_iff:
  "(t, s) \<in> before \<longleftrightarrow> wait_rank (cpc t 0) < wait_rank (cpc s 0) \<or> wait_rank (cpc t 0) = wait_rank (cpc s 0) \<and>
     (unat (queue_fill (dmp t)) < unat (queue_fill (dmp s)) \<or> queue_fill (dmp t) = queue_fill (dmp s) \<and>
       (mover_rank t < mover_rank s \<or> mover_rank t = mover_rank s \<and>
         length (issued t) - completed t < length (issued s) - completed s))"
  by (simp add: before_def wait_measure_def word_unat_eq_iff)

text \<open>The data mover moves while the client stays where it is.\<close>

lemma mover_before:
  assumes "cpc t 0 = cpc s 0" "queue_fill (dmp t) = queue_fill (dmp s)" "mover_rank t < mover_rank s"
  shows "(t, s) \<in> before"
  using assms by (simp add: before_iff)

lemma mover_ranks:
  "cpc s 0 \<in> {WWake, WFill} \<Longrightarrow> queue_fill (dmp s) \<noteq> 0 \<Longrightarrow> mover_rank s = to_dec (dpc s)"
  "cpc s 0 = WWake \<Longrightarrow> queue_fill (dmp s) = 0 \<Longrightarrow> mover_rank s = to_sleep_rank (dpc s)"
  "cpc s 0 = SWake 1 \<Longrightarrow> stat_pvalid (dmp s) \<noteq> 0 \<Longrightarrow> mover_rank s = to_sleep_rank (dpc s)"
  by (auto simp: mover_rank_def Let_def)

lemmas before_defs = before_def wait_measure_def mover_rank_def in_dm_wait_def

text \<open>A place at which the client polls and finds that it has to wait.\<close>

definition blocked :: "dm_sys \<Rightarrow> bool" where
  "blocked s \<longleftrightarrow> cpc s 0 \<in> {WWake, SWake 1} \<and> dm_wfi (dmp s) = 0 \<or>
     cpc s 0 = WFill \<and> queue_fill (dmp s) \<noteq> 0 \<or> cpc s 0 = WStat \<and> stat_q (dmp s) \<noteq> 0 \<or>
     cpc s 0 = SPoll 1 \<and> stat_pvalid (dmp s) = 0"

section \<open>The schedule\<close>

lemma handshakeD:
  assumes "handshake s"
  shows "drained (cpc s 0) \<Longrightarrow> queue_fill (dmp s) = 0" "completed s \<le> length (issued s)"
    and "serving (dpc s) = Some r \<Longrightarrow> awaits r (cpc s 0) \<and> stat_q (dmp s) = r \<and> stat_pvalid (dmp s) = 0"
    and "dpc s \<noteq> DClearQ \<Longrightarrow> stat_q (dmp s) \<noteq> 0 \<Longrightarrow> stat_q (dmp s) \<noteq> STAT_EXIT \<Longrightarrow>
      awaits (stat_q (dmp s)) (cpc s 0) \<and> stat_pvalid (dmp s) = 0"
  using assms unfolding handshake_def Let_def by blast+

text \<open>A client that does not wait for an answer has no request open.\<close>

lemma nothing_asked:
  assumes h: "handshake s" and w: "in_dm_wait s" and c: "\<And>r. \<not> awaits r (cpc s 0) \<or> stat_pvalid (dmp s) \<noteq> 0"
  shows "stat_q (dmp s) = 0 \<or> dpc s = DClearQ" "serving (dpc s) = None"
proof -
  have "stat_q (dmp s) \<noteq> STAT_EXIT" using w by (simp add: in_dm_wait_def)
  then show "stat_q (dmp s) = 0 \<or> dpc s = DClearQ" using handshakeD(4) [OF h] c by blast
  show "serving (dpc s) = None" using handshakeD(3) [OF h] c by (cases "serving (dpc s)") blast+
qed

lemma client_goes_on:
  assumes "mutex (dmp s) = (if holds_mutex (cpc s 0) then 1 else 0)" "in_dm_wait s" "\<not> blocked s"
  shows "(dm_client 0 s, s) \<in> before \<and> (cpc (dm_client 0 s) 0 = CIdle \<or> in_dm_wait (dm_client 0 s))"
  using assms
  by (cases "cpc s 0") (auto simp: before_def wait_measure_def in_dm_wait_def blocked_def client_defs stat_defs split: if_splits)

lemma mover_counts_down:
  assumes "in_dm_wait s" "cpc s 0 \<in> {WWake, WFill}" "queue_fill (dmp s) \<noteq> 0" "\<And>e. dpc s = DWfi e \<Longrightarrow> irq s"
  shows "(dm_main clears s, s) \<in> before \<and> in_dm_wait (dm_main clears s)"
proof -
  have less: "unat (queue_fill (dmp s) - 1) < unat (queue_fill (dmp s))"
    using assms(3) by (simp add: unat_sub_u32 word_unat_eq_iff)
  show ?thesis
  proof (cases "dpc s = DDec")
    case True
    then show ?thesis using less assms(1) by (simp add: before_iff in_dm_wait_def dm_defs)
  next
    case False
    have same: "cpc (dm_main clears s) 0 = cpc s 0" "queue_fill (dmp (dm_main clears s)) = queue_fill (dmp s)"
      using False by (cases "dpc s"; simp add: dm_defs)+
    have "to_dec (dpc (dm_main clears s)) < to_dec (dpc s) \<and> in_dm_wait (dm_main clears s)"
      using False assms by (cases "dpc s") (auto simp: in_dm_wait_def dm_defs stat_defs)
    then show ?thesis
      using mover_before [OF same] mover_ranks(1) [OF assms(2,3)] mover_ranks(1) [of "dm_main clears s"] same assms(2,3)
      by simp
  qed
qed

lemma mover_goes_to_sleep:
  assumes "handshake s" "ring_holds s" "in_dm_wait s" "queue_fill (dmp s) = 0" "\<not> asleep (dpc s)"
    and c: "cpc s 0 = WWake \<or> cpc s 0 = SWake 1 \<and> stat_pvalid (dmp s) \<noteq> 0"
  shows "(dm_main clears s, s) \<in> before \<and> in_dm_wait (dm_main clears s)"
proof -
  let ?t = "dm_main clears s"
  have "\<not> awaits r (cpc s 0) \<or> stat_pvalid (dmp s) \<noteq> 0" for r using c by auto
  then have q: "stat_q (dmp s) = 0 \<or> dpc s = DClearQ" "serving (dpc s) = None" "dpc s \<notin> {DBlock, DIssue, DBump, DDec}"
    using nothing_asked [OF assms(1,3)] ring_holds_quiet [OF assms(2,4)] by blast+
  have same: "cpc ?t 0 = cpc s 0" "queue_fill (dmp ?t) = queue_fill (dmp s)" "stat_pvalid (dmp ?t) = stat_pvalid (dmp s)"
    using q(2,3) by (cases "dpc s"; simp add: dm_defs)+
  have "to_sleep_rank (dpc ?t) < to_sleep_rank (dpc s) \<and> in_dm_wait ?t"
    using q assms(3-5) by (cases "dpc s") (auto simp: in_dm_wait_def dm_defs stat_defs)
  moreover have "mover_rank ?t = to_sleep_rank (dpc ?t)" "mover_rank s = to_sleep_rank (dpc s)"
    using c same assms(4) mover_ranks(2,3) by metis+
  ultimately show ?thesis using mover_before [OF same(1,2)] by simp
qed

lemma mover_answers:
  assumes "ring_holds s" "in_dm_wait s" "cpc s 0 \<in> {SWake 1, SPoll 1}" "stat_pvalid (dmp s) = 0"
    and "stat_q (dmp s) = 1" "dpc s \<noteq> DClearQ" "queue_fill (dmp s) = 0"
    and "completed s = length (issued s)" "\<And>e. dpc s = DWfi e \<Longrightarrow> irq s"
  shows "(dm_main clears s, s) \<in> before \<and> in_dm_wait (dm_main clears s)"
  using assms(2-) ring_holds_quiet [OF assms(1,7)]
  by (cases "dpc s") (auto simp: before_defs dm_defs stat_defs)

lemma mover_clears:
  "in_dm_wait s \<Longrightarrow> cpc s 0 = WStat \<Longrightarrow> dpc s = DClearQ \<Longrightarrow> (dm_main clears s, s) \<in> before \<and> in_dm_wait (dm_main clears s)"
  by (auto simp: before_defs dm_defs stat_defs)

lemma engine_finishes:
  assumes "in_dm_wait s" "completed s < length (issued s)"
  shows "(s\<lparr>completed := completed s + 1\<rparr>, s) \<in> before \<and> in_dm_wait (s\<lparr>completed := completed s + 1\<rparr>)"
proof -
  have "mover_rank (s\<lparr>completed := completed s + 1\<rparr>) = mover_rank s" by (simp add: mover_rank_def)
  moreover have "length (issued s) - (completed s + 1) < length (issued s) - completed s" using assms(2) by simp
  ultimately show ?thesis using assms(1) by (simp add: before_iff in_dm_wait_def)
qed

definition waiting_inv where
  "waiting_inv s \<longleftrightarrow> ring_holds s \<and> handshake s \<and> wakeful s"

text \<open>What the invariants say of a client that waits.\<close>

lemma request_pending:
  assumes "ring_holds s" "handshake s" "cpc s 0 \<in> {SWake 1, SPoll 1}"
  shows "queue_fill (dmp s) = 0" "completed s \<le> length (issued s)"
  using handshakeD(1,2) [OF assms(2)] assms(3) by (auto simp: stat_defs)

lemma wait_step:
  assumes inv: "waiting_inv s" and w: "in_dm_wait s"
  shows "\<exists>t. dm_step 1 clears s t \<and> (cpc t 0 = CIdle \<or> (t, s) \<in> before \<and> in_dm_wait t)"
proof -
  have r: "ring_holds s" and h: "handshake s" and k: "wakeful s" using inv by (auto simp: waiting_inv_def)
  have wfi: "dm_wfi (dmp s) = (if asleep (dpc s) then 1 else 0)"
    and mtx: "mutex (dmp s) = (if holds_mutex (cpc s 0) then 1 else 0)"
    using k by (simp_all add: wakeful_def Let_def)
  note le = handshakeD(2) [OF h]
  have mover: ?thesis if "(dm_main clears s, s) \<in> before \<and> in_dm_wait (dm_main clears s)"
    using that mover_step [of 1 clears s] by blast
  have engine: ?thesis if "completed s \<noteq> length (issued s)"
    using engine_finishes [OF w] dma_step [of s 1 clears] le that by (metis le_neq_implies_less)
  show ?thesis
  proof (cases "blocked s")
    case False
    then show ?thesis using client_goes_on [OF mtx w] client_step [of 0 1 clears s] by auto
  next
    case True
    then consider "cpc s 0 \<in> {WWake, WFill}" "queue_fill (dmp s) \<noteq> 0" "cpc s 0 = WWake \<longrightarrow> \<not> asleep (dpc s)"
      | "cpc s 0 = WWake" "queue_fill (dmp s) = 0" "\<not> asleep (dpc s)"
      | "cpc s 0 = SWake 1" "stat_pvalid (dmp s) \<noteq> 0" "\<not> asleep (dpc s)"
      | "cpc s 0 \<in> {SWake 1, SPoll 1}" "stat_pvalid (dmp s) = 0" "cpc s 0 = SWake 1 \<longrightarrow> \<not> asleep (dpc s)"
      | "cpc s 0 = WStat" "stat_q (dmp s) \<noteq> 0"
      using wfi by (auto simp: blocked_def split: if_splits)
    then show ?thesis
    proof cases
      case 1
      then have "dpc s = DWfi e \<Longrightarrow> irq s" for e using k by (auto simp: wakeful_def Let_def)
      then show ?thesis using mover mover_counts_down [OF w 1(1,2)] by blast
    next
      case 2
      then show ?thesis using mover mover_goes_to_sleep [OF h r w] by blast
    next
      case 3
      then have "queue_fill (dmp s) = 0" using request_pending [OF r h] by simp
      then show ?thesis using mover mover_goes_to_sleep [OF h r w] 3 by blast
    next
      case 4
      then have q: "queue_fill (dmp s) = 0" "stat_q (dmp s) = 1" "dpc s \<noteq> DClearQ" "\<And>e. dpc s = DWfi e \<Longrightarrow> irq s"
        using request_pending [OF r h] k by (auto simp: wakeful_def Let_def)
      then show ?thesis using mover mover_answers [OF r w 4(1,2)] engine by blast
    next
      case 5
      then have "\<not> awaits r (cpc s 0)" for r by simp
      then have "dpc s = DClearQ" using nothing_asked(1) [OF h w] 5(2) by blast
      then show ?thesis using mover mover_clears [OF w 5(1)] by blast
    qed
  qed
qed

text \<open>Any system whose steps decrease the distance returns.\<close>

lemma returns_by_steps:
  assumes "\<And>x. I x \<Longrightarrow> W x \<Longrightarrow> \<exists>y. step x y \<and> (R y \<or> (y, x) \<in> below \<and> W y)" "wf below"
    and "\<And>x y. I x \<Longrightarrow> step x y \<Longrightarrow> I y" "I x" "W x"
  shows "\<exists>y. step\<^sup>*\<^sup>* x y \<and> R y"
  using assms(4,5)
proof (induction x rule: wf_induct_rule [OF assms(2)])
  case (1 x)
  obtain y where y: "step x y" "R y \<or> (y, x) \<in> below \<and> W y" using assms(1) [OF "1.prems"] by blast
  show ?case
  proof (cases "R y")
    case True
    then show ?thesis using y(1) by blast
  next
    case False
    then obtain z where "step\<^sup>*\<^sup>* y z" "R z" using "1.IH" y assms(3) [OF "1.prems"(1) y(1)] by blast
    then show ?thesis using y(1) by (meson converse_rtranclp_into_rtranclp)
  qed
qed

section \<open>Property\<close>

text \<open>
  C12: \<open>dm_wait\<close> does not wait in vain as long as no exit has been requested: with a single client, from every
  reachable state in which the client is inside the call, no exit request is stored in \<open>stat_q\<close> and the data mover is
  not on its way out, there is a run in which the call returns, whether or not the interrupt of the data mover is
  cleared when it wakes up. After an exit request nobody answers, and the call can hang.
\<close>

theorem dm_wait_returns:
  assumes "reach dm_start_state (dm_step 1 clears) s"
    and "0 < wait_rank (cpc s 0)" "\<not> exiting (dpc s)" "stat_q (dmp s) \<noteq> STAT_EXIT"
  shows "\<exists>t. (dm_step 1 clears)\<^sup>*\<^sup>* s t \<and> cpc t 0 = CIdle"
proof (rule returns_by_steps [of waiting_inv in_dm_wait "dm_step 1 clears" "\<lambda>t. cpc t 0 = CIdle", OF wait_step wf_before])
  show "waiting_inv s" using wakes.reach_inv [OF assms(1)] by (simp add: waiting_inv_def)
  show "in_dm_wait s" using assms(2-4) by (simp add: in_dm_wait_def)
  show "waiting_inv t" if "waiting_inv s" "dm_step 1 clears s t" for s t
    using that wakes.inv_step [of s clears t] by (simp add: waiting_inv_def)
qed

theorem dm_wait_returns_witness:
  "\<exists>t. (dm_step 1 True)\<^sup>*\<^sup>* (dm_run 1 True (to_sleep @ [Call 0 AwaitIdle])) t \<and> cpc t 0 = CIdle"
  by (rule dm_wait_returns [OF dm_run_reach]) (simp_all add: dm_run_simps)

end
