(* ===== verification/Matrix.thy ===== *)
theory Matrix
  imports Vector
begin

text \<open>
  What the compute kernels under \<open>tests/\<close> share: vector arithmetic, cores that share a memory, and
  vectors and matrices of 32-bit words in memory. Single precision numbers are bit patterns; the
  operations of the floating point unit are parameters.
\<close>

section \<open>Vector arithmetic\<close>

text \<open>With a vector and with a scalar operand; \<open>f\<close> also gets the old element of the destination.\<close>

definition vop_vv :: "(u32 \<Rightarrow> u32 \<Rightarrow> u32 \<Rightarrow> u32) \<Rightarrow> nat \<Rightarrow> nat \<Rightarrow> nat \<Rightarrow> hart \<Rightarrow> hart" where
  "vop_vv f vd vs1 vs2 h = h\<lparr>hvrf := (\<lambda>k. if 16 * vd \<le> k \<and> k < 16 * vd + hvl h
      then f (hvrf h k) (hvrf h (16 * vs1 + (k - 16 * vd))) (hvrf h (16 * vs2 + (k - 16 * vd)))
      else hvrf h k)\<rparr>"

definition vop_vf :: "(u32 \<Rightarrow> u32 \<Rightarrow> u32 \<Rightarrow> u32) \<Rightarrow> nat \<Rightarrow> u32 \<Rightarrow> nat \<Rightarrow> hart \<Rightarrow> hart" where
  "vop_vf f vd x vs h = h\<lparr>hvrf := (\<lambda>k. if 16 * vd \<le> k \<and> k < 16 * vd + hvl h
      then f (hvrf h k) x (hvrf h (16 * vs + (k - 16 * vd))) else hvrf h k)\<rparr>"

definition vfmul_vf :: "(u32 \<Rightarrow> u32 \<Rightarrow> u32) \<Rightarrow> nat \<Rightarrow> u32 \<Rightarrow> nat \<Rightarrow> hart \<Rightarrow> hart" where
  "vfmul_vf fmul = vop_vf (\<lambda>d x y. fmul y x)"

definition vfmacc_vf :: "(u32 \<Rightarrow> u32 \<Rightarrow> u32 \<Rightarrow> u32) \<Rightarrow> nat \<Rightarrow> u32 \<Rightarrow> nat \<Rightarrow> hart \<Rightarrow> hart" where
  "vfmacc_vf fmacc = vop_vf fmacc"

text \<open>Element \<open>i\<close> of the group at register \<open>v\<close>.\<close>

definition grp :: "hart \<Rightarrow> nat \<Rightarrow> nat \<Rightarrow> u32" where
  "grp h v i = hvrf h (16 * v + i)"

lemma vop_vf_simps [simp]: "hmem (vop_vf f d x s h) = hmem h" "hvl (vop_vf f d x s h) = hvl h"
  by (simp_all add: vop_vf_def)

lemma vop_vv_simps [simp]:
  "hmem (vop_vv f d s t h) = hmem h" "hvl (vop_vv f d s t h) = hvl h"
  by (simp_all add: vop_vv_def)

lemma vle_grp:
  "i < hvl h \<Longrightarrow> grp (vle32 v x h) v i = load32 (hmem h) (x + 4 * of_nat i)"
  "i < hvl h \<Longrightarrow> hvl h \<le> 16 * l \<Longrightarrow> w + l \<le> v \<or> v + l \<le> w \<Longrightarrow> grp (vle32 v x h) w i = grp h w i"
  by (auto simp: grp_def vle32_def)

lemma vop_vf_grp:
  "i < hvl h \<Longrightarrow> grp (vop_vf f v x s h) v i = f (grp h v i) x (grp h s i)"
  "i < hvl h \<Longrightarrow> hvl h \<le> 16 * l \<Longrightarrow> w + l \<le> v \<or> v + l \<le> w \<Longrightarrow> grp (vop_vf f v x s h) w i = grp h w i"
  by (auto simp: grp_def vop_vf_def)

lemma vop_vv_grp: "i < hvl h \<Longrightarrow> grp (vop_vv f v x y h) v i = f (grp h v i) (grp h x i) (grp h y i)"
  by (simp add: grp_def vop_vv_def)

section \<open>Cores on a shared memory\<close>

text \<open>
  The calls that all cores make between two barriers, one core after the other; a core is a \<open>hart\<close>
  whose memory is the shared one. \<open>None\<close> is a call that does not end.
\<close>

fun run_cores :: "(u32 \<Rightarrow> hart \<Rightarrow> hart option) \<Rightarrow> u32 \<Rightarrow> hart list \<Rightarrow> mem \<Rightarrow> (hart list \<times> mem) option" where
  "run_cores call cid [] m = Some ([], m)"
| "run_cores call cid (h # hs) m =
     Option.bind (call cid (h\<lparr>hmem := m\<rparr>)) (\<lambda>h.
       map_option (\<lambda>(hs, m). (h # hs, m)) (run_cores call (cid + 1) hs (hmem h)))"

lemma run_cores_result:
  assumes "\<And>cid D h. cid < n \<Longrightarrow> W D (hmem h) \<Longrightarrow>
    \<exists>h'. call (of_nat cid) h = Some h' \<and> W (\<lambda>i j. D i j \<or> S cid i j) (hmem h')"
  shows "cid + length hs = n \<Longrightarrow> W D m \<Longrightarrow> \<exists>hs' m'. run_cores call (of_nat cid) hs m = Some (hs', m') \<and>
    length hs' = length hs \<and> W (\<lambda>i j. D i j \<or> (\<exists>k. cid \<le> k \<and> k < n \<and> S k i j)) m'"
proof (induction hs arbitrary: cid D m)
  case Nil
  then have "(\<lambda>i j. D i j \<or> (\<exists>k. cid \<le> k \<and> k < n \<and> S k i j)) = D" by (intro ext) auto
  then show ?case using Nil by simp
next
  case (Cons h hs)
  have "W D (hmem (h\<lparr>hmem := m\<rparr>))" "cid < n" using Cons.prems by simp_all
  then obtain h1 where h1: "call (of_nat cid) (h\<lparr>hmem := m\<rparr>) = Some h1" "W (\<lambda>i j. D i j \<or> S cid i j) (hmem h1)"
    using assms by blast
  have "Suc cid + length hs = n" using Cons.prems(1) by simp
  from Cons.IH [OF this h1(2)] obtain hs' m' where r: "run_cores call (of_nat cid + 1) hs (hmem h1) = Some (hs', m')"
    "length hs' = length hs" "W (\<lambda>i j. (D i j \<or> S cid i j) \<or> (\<exists>k. Suc cid \<le> k \<and> k < n \<and> S k i j)) m'"
    by (auto simp: add.commute)
  have "(\<lambda>i j. (D i j \<or> S cid i j) \<or> (\<exists>k. Suc cid \<le> k \<and> k < n \<and> S k i j)) =
      (\<lambda>i j. D i j \<or> (\<exists>k. cid \<le> k \<and> k < n \<and> S k i j))"
    using \<open>cid < n\<close> by (intro ext) (auto simp: Suc_le_eq dest: le_neq_implies_less)
  then show ?case using h1(1) r by simp
qed

text \<open>The elements of all cores.\<close>

lemma shares: "0 < q \<Longrightarrow> (\<exists>k<n. k * q \<le> j \<and> j < k * q + q) \<longleftrightarrow> j < n * (q :: nat)"
proof
  assume q: "0 < q" "j < n * q"
  have "j div q < n" using q(2) by (simp add: less_mult_imp_div_less)
  moreover have "j div q * q \<le> j" by simp
  moreover have "j < j div q * q + q" using q(1) by (metis add.commute div_mod_decomp mod_less_divisor nat_add_left_cancel_less)
  ultimately show "\<exists>k<n. k * q \<le> j \<and> j < k * q + q" by blast
next
  assume "\<exists>k<n. k * q \<le> j \<and> j < k * q + q"
  then obtain k where k: "k < n" "j < k * q + q" by blast
  have "Suc k * q \<le> n * q" using k(1) by (intro mult_le_mono1) simp
  then show "j < n * q" using k(2) by simp
qed

section \<open>Sums of products\<close>

text \<open>The first product and the further ones in order.\<close>

definition partial :: "(u32 \<Rightarrow> u32 \<Rightarrow> u32) \<Rightarrow> (u32 \<Rightarrow> u32 \<Rightarrow> u32 \<Rightarrow> u32) \<Rightarrow> (nat \<Rightarrow> u32) \<Rightarrow> (nat \<Rightarrow> u32) \<Rightarrow> nat \<Rightarrow> u32" where
  "partial fmul fmacc x y n = foldl (\<lambda>d q. fmacc d (x q) (y q)) (fmul (y 0) (x 0)) [1..<n]"

lemma partial_1: "partial fmul fmacc x y (Suc 0) = fmul (y 0) (x 0)"
  by (simp add: partial_def)

lemma partial_Suc: "0 < n \<Longrightarrow> partial fmul fmacc x y (Suc n) = fmacc (partial fmul fmacc x y n) (x n) (y n)"
  by (simp add: partial_def)

lemma partial_cong:
  "0 < n \<Longrightarrow> (\<And>q. q < n \<Longrightarrow> x q = x' q \<and> y q = y' q) \<Longrightarrow> partial fmul fmacc x y n = partial fmul fmacc x' y' n"
  unfolding partial_def by (rule foldl_cong) auto

section \<open>Matrices in memory\<close>

text \<open>Element \<open>(i, j)\<close> of the matrix at \<open>x\<close> with rows of \<open>W\<close> words.\<close>

definition cell :: "u32 \<Rightarrow> nat \<Rightarrow> nat \<Rightarrow> nat \<Rightarrow> u32" where
  "cell x W i j = x + 4 * of_nat (i * W + j)"

lemma words_apart:
  assumes "i < j" "j < 1073741824"
  shows "apart32 (x + 4 * of_nat i) (x + 4 * of_nat j)"
proof -
  have "x + 4 * of_nat j - (x + 4 * of_nat i) = (of_nat (4 * (j - i)) :: u32)"
    using assms by (simp add: of_nat_diff algebra_simps)
  then have d: "unat (x + 4 * of_nat j - (x + 4 * of_nat i)) = 4 * (j - i)"
    using assms by (simp add: unat_of_nat_u32 del: of_nat_mult)
  then have "x + 4 * of_nat i \<noteq> x + 4 * of_nat j" using assms by auto
  from unat_diff_swap [OF this] show ?thesis unfolding apart32_def using d assms by linarith
qed

lemma cell_below: "i < M \<Longrightarrow> j < P \<Longrightarrow> i * P + j < M * (P :: nat)"
proof -
  assume "i < M" "j < P"
  then have "Suc i * P \<le> M * P" by (intro mult_le_mono1) simp
  then show ?thesis using \<open>j < P\<close> by simp
qed

lemma cells_apart:
  assumes "i < M" "j < P" "i' < M" "j' < P" "M * P \<le> 1073741824" "i' \<noteq> i \<or> j' \<noteq> j"
  shows "apart32 (cell x P i' j') (cell x P i j)"
proof -
  have "(i * P + j) div P = i" "(i' * P + j') div P = i'" "(i * P + j) mod P = j" "(i' * P + j') mod P = j'"
    using assms(2,4) by auto
  then have "i * P + j \<noteq> i' * P + j'" using assms(6) by metis
  then show ?thesis
    using words_apart [of "i * P + j" "i' * P + j'" x] words_apart [of "i' * P + j'" "i * P + j" x]
      cell_below [OF assms(1,2)] cell_below [OF assms(3,4)] assms(5)
    by (auto simp: cell_def apart32_sym nat_neq_iff)
qed

text \<open>
  \<open>m\<close> is \<open>m0\<close> with \<open>v i j\<close> in the elements \<open>D\<close> of the \<open>M\<close> by \<open>P\<close> matrix at \<open>c\<close>.
\<close>

definition written :: "mem \<Rightarrow> u32 \<Rightarrow> nat \<Rightarrow> nat \<Rightarrow> (nat \<Rightarrow> nat \<Rightarrow> u32) \<Rightarrow> (nat \<Rightarrow> nat \<Rightarrow> bool) \<Rightarrow> mem \<Rightarrow> bool" where
  "written m0 c M P v D m \<longleftrightarrow>
     (\<forall>i<M. \<forall>j<P. load32 m (cell c P i j) = (if D i j then v i j else load32 m0 (cell c P i j))) \<and>
     (\<forall>x. (\<forall>i<M. \<forall>j<P. apart32 x (cell c P i j)) \<longrightarrow> load32 m x = load32 m0 x)"

lemma written_cong: "written m0 c M P v D m \<Longrightarrow> (\<And>i j. i < M \<Longrightarrow> j < P \<Longrightarrow> D i j = D' i j) \<Longrightarrow> written m0 c M P v D' m"
  by (simp add: written_def)

lemma written_none: "written m c M P v (\<lambda>_ _. False) m"
  by (simp add: written_def)

lemma written_store32:
  assumes "written m0 c M P v D m" "i < M" "j < P" "M * P \<le> 1073741824"
  shows "written m0 c M P v (\<lambda>i' j'. D i' j' \<or> i' = i \<and> j' = j) (store32 m (cell c P i j) (v i j))"
  unfolding written_def
proof (intro conjI allI impI)
  fix i' j'
  assume "i' < M" "j' < P"
  then show "load32 (store32 m (cell c P i j) (v i j)) (cell c P i' j') =
      (if D i' j' \<or> i' = i \<and> j' = j then v i' j' else load32 m0 (cell c P i' j'))"
    using assms(1) cells_apart [OF assms(2,3) _ _ assms(4), of i' j' c]
    by (cases "i' = i \<and> j' = j") (auto simp: written_def load32_store32_apart)
next
  fix x
  assume "\<forall>i<M. \<forall>j<P. apart32 x (cell c P i j)"
  then show "load32 (store32 m (cell c P i j) (v i j)) x = load32 m0 x"
    using assms(1-3) by (simp add: written_def load32_store32_apart)
qed

lemma written_store_words:
  "written m0 c M P v D m \<Longrightarrow> i < M \<Longrightarrow> p + length ws \<le> P \<Longrightarrow> M * P \<le> 1073741824 \<Longrightarrow>
   (\<And>q. q < length ws \<Longrightarrow> ws ! q = v i (p + q)) \<Longrightarrow>
   written m0 c M P v (\<lambda>i' j. D i' j \<or> i' = i \<and> p \<le> j \<and> j < p + length ws) (store_words m (cell c P i p) ws)"
proof (induction ws arbitrary: m D p)
  case Nil
  then show ?case by (auto elim!: written_cong)
next
  case (Cons w ws)
  have w: "w = v i p" using Cons.prems(5) [of 0] by simp
  have tl: "ws ! q = v i (Suc p + q)" if "q < length ws" for q using Cons.prems(5) [of "Suc q"] that by simp
  have step: "cell c P i p + 4 = cell c P i (Suc p)" by (simp add: cell_def algebra_simps)
  have "written m0 c M P v (\<lambda>i' j. D i' j \<or> i' = i \<and> j = p) (store32 m (cell c P i p) w)"
    unfolding w using Cons.prems by (intro written_store32) auto
  from Cons.IH [OF this Cons.prems(2) _ Cons.prems(4) tl]
  show ?case using Cons.prems(3) by (auto simp: step elim!: written_cong)
qed

lemma apart32_below: "unat x + 4 \<le> unat y \<Longrightarrow> unat y + 4 \<le> 4294967296 \<Longrightarrow> apart32 x y"
  by (auto simp: apart32_def unat_sub_u32)

lemma unat_cell:
  assumes "i < M" "j < P" "unat x + 4 * (M * P) \<le> 4294967296"
  shows "unat (cell x P i j) = unat x + 4 * (i * P + j)"
proof -
  have "i * P + j < M * P" using assms(1,2) by (rule cell_below)
  then have "unat x + 4 * (i * P + j) < 4294967296" using assms(3) by simp
  moreover have "cell x P i j = of_nat (unat x + 4 * (i * P + j))" by (simp add: cell_def)
  ultimately show ?thesis by (simp only: unat_of_nat_u32)
qed

lemma vse32_grp: "hmem (vse32 v x h) = store_words (hmem h) x (map (grp h v) [0..<hvl h])"
  by (simp add: vse32_def grp_def [abs_def])

section \<open>Operands of a product\<close>

text \<open>The \<open>M\<close> by \<open>P\<close> matrix at \<open>c\<close> has distinct words, none of them in an operand.\<close>

definition operands_apart :: "u32 \<Rightarrow> u32 \<Rightarrow> u32 \<Rightarrow> nat \<Rightarrow> nat \<Rightarrow> nat \<Rightarrow> bool" where
  "operands_apart c a b M N P \<longleftrightarrow> M * P \<le> 1073741824 \<and> (\<forall>i<M. \<forall>j<P.
     (\<forall>i'<M. \<forall>n<N. apart32 (cell a N i' n) (cell c P i j)) \<and> (\<forall>n<N. \<forall>j'<P. apart32 (cell b P n j') (cell c P i j)))"

lemma operands_kept:
  assumes "operands_apart c a b M N P" "written m0 c M P v D m"
  shows "i < M \<Longrightarrow> n < N \<Longrightarrow> load32 m (cell a N i n) = load32 m0 (cell a N i n)"
    "n < N \<Longrightarrow> j < P \<Longrightarrow> load32 m (cell b P n j) = load32 m0 (cell b P n j)"
  using assms by (simp_all add: operands_apart_def written_def)

lemma operands_below_apart:
  assumes "unat a + 4 * (M * N) \<le> unat c" "unat b + 4 * (N * P) \<le> unat c" "unat c + 4 * (M * P) \<le> 4294967296"
  shows "operands_apart c a b M N P"
  unfolding operands_apart_def
proof (intro conjI allI impI)
  show "M * P \<le> 1073741824" using assms(3) by simp
next
  fix i j i' n assume x: "i < M" "j < P" "i' < M" "n < N"
  show "apart32 (cell a N i' n) (cell c P i j)"
    using assms cell_below [OF x(1,2)] cell_below [OF x(3,4)] unat_cell [OF x(1,2), of c] unat_cell [OF x(3,4), of a]
    by (intro apart32_below) auto
next
  fix i j n j' assume x: "i < M" "j < P" "n < N" "j' < P"
  show "apart32 (cell b P n j') (cell c P i j)"
    using assms cell_below [OF x(1,2)] cell_below [OF x(3,4)] unat_cell [OF x(1,2), of c] unat_cell [OF x(3,4), of b]
    by (intro apart32_below) auto
qed

definition ones_hart :: hart where
  "ones_hart = \<lparr>hmem = (\<lambda>_. 1), hvl = 0, hvrf = (\<lambda>_. 0)\<rparr>"

lemma load32_ones: "load32 (\<lambda>_. 1) x = 0x1010101"
  by (simp add: load32_def word_of_bytes_def)

end
