(* ===== verification/Idotp.thy ===== *)
theory Idotp
  imports Matrix
begin

text \<open>
  The integer dot product of \<open>tests/idotp-32b\<close>: the vector kernels of \<open>kernel/idotp.c\<close> and the
  parallel computation of \<open>main.c\<close>, in which every core takes one block of each round and core 0
  adds up the partial results. Pointers are addresses in bytes, vector state is that of theory
  \<open>Vector\<close>.
\<close>

section \<open>Vector arithmetic\<close>

definition vmul_vv :: "nat \<Rightarrow> nat \<Rightarrow> nat \<Rightarrow> hart \<Rightarrow> hart" where
  "vmul_vv = vop_vv (\<lambda>d x y. x * y)"

definition vmacc_vv :: "nat \<Rightarrow> nat \<Rightarrow> nat \<Rightarrow> hart \<Rightarrow> hart" where
  "vmacc_vv = vop_vv (\<lambda>d x y. d + x * y)"

text \<open>\<open>vredsum.vs vd, vs2, vs1\<close>: element 0 of \<open>vs1\<close> and the active elements of \<open>vs2\<close>.\<close>

definition vredsum_vs :: "nat \<Rightarrow> nat \<Rightarrow> nat \<Rightarrow> hart \<Rightarrow> hart" where
  "vredsum_vs vd vs2 vs1 h = (if 0 < hvl h
     then h\<lparr>hvrf := (hvrf h)(16 * vd := hvrf h (16 * vs1) + sum_list (map (\<lambda>i. hvrf h (16 * vs2 + i)) [0..<hvl h]))\<rparr>
     else h)"

definition vmv_x_s :: "nat \<Rightarrow> hart \<Rightarrow> u32" where
  "vmv_x_s vs h = hvrf h (16 * vs)"

section \<open>The kernels\<close>

text \<open>
  The loop is entered with the counter already decremented once; \<open>iter\<close> is unsigned, so it
  wraps when it is zero on entry.
\<close>

function idotp_loop :: "u32 \<Rightarrow> u32 \<Rightarrow> u32 \<Rightarrow> u32 \<Rightarrow> hart \<Rightarrow> hart" where
  "idotp_loop offset a b iter h =
     (let a = a + 4 * offset; h = vle32 8 a h;
          b = b + 4 * offset; h = vle32 16 b h;
          iter = iter - 1;
          h = vmacc_vv 24 8 16 h
      in if 0 < iter then idotp_loop offset a b iter h else h)"
  by pat_completeness auto

lemma unat_pred_less: "0 < (k :: u32) \<Longrightarrow> unat (k - 1) < unat k"
  by (simp add: unat_sub_u32 word_less_nat_alt)

lemma unat_pred_twice: "0 < (iter :: u32) - 1 \<Longrightarrow> unat (iter - 2) < unat (iter - 1)"
  using unat_pred_less [of "iter - 1"] by simp

termination idotp_loop
  by (relation "measure (\<lambda>(offset, a, b, iter, h). unat (iter - 1))") (auto intro: unat_pred_twice)

declare idotp_loop.simps [simp del]

text \<open>The kernels differ in \<open>LMUL\<close> and in the instruction that multiplies the first chunk.\<close>

definition idotp_v32b :: "nat \<Rightarrow> (nat \<Rightarrow> nat \<Rightarrow> nat \<Rightarrow> hart \<Rightarrow> hart) \<Rightarrow> u32 \<Rightarrow> u32 \<Rightarrow> u32 \<Rightarrow> nat \<Rightarrow> u32 \<Rightarrow>
    hart \<Rightarrow> u32 \<times> hart" where
  "idotp_v32b lmul first a b offset avl rounds h =
     (let iter = rounds;
          h = vsetvli lmul avl h;
          h = vle32 8 a h;
          iter = iter - 1;
          h = vle32 16 b h;
          h = first 24 8 16 h;
          h = idotp_loop offset a b iter h;
          h = vredsum_vs 0 24 0 h
      in (vmv_x_s 0 h, h))"

definition idotp_v32b_lmul8 :: "u32 \<Rightarrow> u32 \<Rightarrow> u32 \<Rightarrow> nat \<Rightarrow> u32 \<Rightarrow> hart \<Rightarrow> u32 \<times> hart" where
  "idotp_v32b_lmul8 = idotp_v32b 8 vmul_vv"

definition idotp_v32b_lmul4 :: "u32 \<Rightarrow> u32 \<Rightarrow> u32 \<Rightarrow> nat \<Rightarrow> u32 \<Rightarrow> hart \<Rightarrow> u32 \<times> hart" where
  "idotp_v32b_lmul4 = idotp_v32b 4 vmul_vv"

definition idotp_v32b_lmul2 :: "u32 \<Rightarrow> u32 \<Rightarrow> u32 \<Rightarrow> nat \<Rightarrow> u32 \<Rightarrow> hart \<Rightarrow> u32 \<times> hart" where
  "idotp_v32b_lmul2 = idotp_v32b 2 vmul_vv"

text \<open>This one multiplies the first chunk with \<open>vfmul.vv\<close>; \<open>fmul\<close> is the product of two single
  precision bit patterns.\<close>

definition idotp_v32b_lmul1 :: "(u32 \<Rightarrow> u32 \<Rightarrow> u32) \<Rightarrow> u32 \<Rightarrow> u32 \<Rightarrow> u32 \<Rightarrow> nat \<Rightarrow> u32 \<Rightarrow> hart \<Rightarrow> u32 \<times> hart" where
  "idotp_v32b_lmul1 fmul = idotp_v32b 1 (vop_vv (\<lambda>d x y. fmul x y))"

section \<open>The parallel computation\<close>

definition Interleave :: u32 where "Interleave = 512"
definition max_vlen :: u32 where "max_vlen = 512"
definition lmul :: u32 where "lmul = Interleave * 8 div max_vlen"

definition elem_per_round :: "u32 \<Rightarrow> u32" where
  "elem_per_round num_cores = Interleave * num_cores div 4"

definition rounds :: "u32 \<Rightarrow> u32 \<Rightarrow> u32" where
  "rounds M num_cores =
     (if elem_per_round num_cores < M then (M + elem_per_round num_cores - 1) div elem_per_round num_cores else 1)"

definition dim :: "u32 \<Rightarrow> u32" where
  "dim num_cores = elem_per_round num_cores div num_cores"

text \<open>
  What core \<open>cid\<close> computes; the smaller kernels are chosen for smaller \<open>lmul\<close>, which is a constant
  and not 0, so that the last branch of the code, a return, is never taken.
\<close>

definition core_dotp :: "(u32 \<Rightarrow> u32 \<Rightarrow> u32) \<Rightarrow> u32 \<Rightarrow> u32 \<Rightarrow> u32 \<Rightarrow> u32 \<Rightarrow> u32 \<Rightarrow> hart \<Rightarrow> u32 \<times> hart" where
  "core_dotp fmul num_cores A B M cid h =
     (let epr = elem_per_round num_cores;
          d = dim num_cores;
          rs = rounds M num_cores;
          a_int = A + 4 * (d * cid);
          b_int = B + 4 * (d * cid)
      in if 8 \<le> lmul then idotp_v32b_lmul8 a_int b_int epr (unat d) rs h
         else if 4 \<le> lmul then idotp_v32b_lmul4 a_int b_int epr (unat d) rs h
         else if 2 \<le> lmul then idotp_v32b_lmul2 a_int b_int epr (unat d) rs h
         else idotp_v32b_lmul1 fmul a_int b_int epr (unat d) rs h)"

text \<open>
  One turn of the measuring loop. The barriers separate the kernels from the final reduction of core 0,
  and that from the next turn; the list holds the vector state of each core.
\<close>

definition iteration :: "(u32 \<Rightarrow> u32 \<Rightarrow> u32) \<Rightarrow> u32 \<Rightarrow> u32 \<Rightarrow> u32 \<Rightarrow> hart list \<times> u32 list \<Rightarrow> hart list \<times> u32 list" where
  "iteration fmul A B M x = (case x of (hs, result) \<Rightarrow>
     let n = length hs;
         outs = map (\<lambda>(cid, h). core_dotp fmul (of_nat n) A B M (of_nat cid) h) (enumerate 0 hs);
         result = map fst outs;
         acc = fold (\<lambda>i acc. acc + result ! i) [1..<n] (result ! 0)
     in (map snd outs, result[0 := acc]))"

definition measure_iter :: nat where "measure_iter = 2"

definition idotp_main :: "(u32 \<Rightarrow> u32 \<Rightarrow> u32) \<Rightarrow> u32 \<Rightarrow> u32 \<Rightarrow> u32 \<Rightarrow> hart list \<times> u32 list \<Rightarrow> hart list \<times> u32 list" where
  "idotp_main fmul A B M x = (iteration fmul A B M ^^ measure_iter) x"

section \<open>What the kernels compute\<close>

lemma vredsum_simps [simp]: "hmem (vredsum_vs d s t h) = hmem h" "hvl (vredsum_vs d s t h) = hvl h"
  by (simp_all add: vredsum_vs_def)

text \<open>Element \<open>i\<close> of the chunk at \<open>a\<close>.\<close>

definition elem :: "mem \<Rightarrow> u32 \<Rightarrow> nat \<Rightarrow> u32" where
  "elem m a i = load32 m (a + 4 * of_nat i)"

lemma loaded_product:
  assumes "hvl h \<le> 128" "i < hvl h"
  shows "hvrf (vop_vv f 24 8 16 (vle32 16 b (vle32 8 a h))) (16 * 24 + i) =
    f (hvrf h (16 * 24 + i)) (elem (hmem h) a i) (elem (hmem h) b i)"
  using assms by (simp add: vop_vv_def vle32_def elem_def)

lemma loaded_low:
  "hvrf (vop_vv f 24 8 16 (vle32 16 b (vle32 8 a h))) 0 = hvrf h 0"
  by (simp add: vop_vv_def vle32_def)

definition turns :: "u32 \<Rightarrow> nat" where
  "turns iter = (if iter = 0 then 4294967296 else unat iter)"

lemma turns_Suc:
  assumes "0 < iter - 1"
  shows "turns iter = Suc (turns (iter - 1))"
proof -
  have u: "unat (iter - 1) = (if unat iter = 0 then 4294967295 else unat iter - 1)"
    by (simp add: unat_sub_u32)
  have "unat (iter - 1) \<noteq> 0" using assms by (simp add: word_less_nat_alt)
  moreover have "iter = 0 \<longleftrightarrow> unat iter = 0" "iter - 1 = 0 \<longleftrightarrow> unat (iter - 1) = 0" by (simp_all only: unat_eq_zero)
  ultimately show ?thesis using u by (simp add: turns_def split: if_splits)
qed

lemma loop_result:
  assumes "hvl h \<le> 128" "i < hvl h"
  shows "hvrf (idotp_loop offset a b iter h) (16 * 24 + i) = hvrf h (16 * 24 + i) +
      (\<Sum>k<turns iter. elem (hmem h) (a + 4 * of_nat (Suc k) * offset) i * elem (hmem h) (b + 4 * of_nat (Suc k) * offset) i)
    \<and> hvrf (idotp_loop offset a b iter h) 0 = hvrf h 0 \<and> hmem (idotp_loop offset a b iter h) = hmem h
    \<and> hvl (idotp_loop offset a b iter h) = hvl h"
  using assms
proof (induction offset a b iter h rule: idotp_loop.induct)
  case (1 offset a b iter h)
  let ?h = "vmacc_vv 24 8 16 (vle32 16 (b + 4 * offset) (vle32 8 (a + 4 * offset) h))"
  let ?p = "\<lambda>k. elem (hmem h) (a + 4 * of_nat (Suc k) * offset) i * elem (hmem h) (b + 4 * of_nat (Suc k) * offset) i"
  have h: "hmem ?h = hmem h" "hvl ?h = hvl h" "hvrf ?h 0 = hvrf h 0"
    "hvrf ?h (16 * 24 + i) = hvrf h (16 * 24 + i) + ?p 0"
    using loaded_product [OF 1(2,3)] loaded_low by (simp_all add: vmacc_vv_def)
  show ?case
  proof (cases "0 < iter - 1")
    case True
    have u: "idotp_loop offset a b iter h = idotp_loop offset (a + 4 * offset) (b + 4 * offset) (iter - 1) ?h"
      using True by (subst idotp_loop.simps) (simp add: Let_def)
    have sh: "elem m (x + 4 * offset + 4 * of_nat (Suc k) * offset) i = elem m (x + 4 * of_nat (Suc (Suc k)) * offset) i" for m x k
      by (simp add: algebra_simps)
    have sum: "(\<Sum>k<turns iter. ?p k) = ?p 0 + (\<Sum>k<turns (iter - 1). ?p (Suc k))"
      unfolding turns_Suc [OF True] by (rule sum.lessThan_Suc_shift)
    show ?thesis
      unfolding sum using 1(1) [OF refl refl refl refl refl refl True] 1(2,3) unfolding u sh h
      by (simp only: add.assoc simp_thms)
  next
    case False
    then have "idotp_loop offset a b iter h = ?h" by (subst idotp_loop.simps) (simp add: Let_def)
    moreover have "iter = 1" using False by (simp add: word_gt_0)
    then have "turns iter = 1" by (simp add: turns_def)
    ultimately show ?thesis using h by simp
  qed
qed


lemma first_result:
  assumes "hvl h \<le> 128" "i < hvl h"
  shows "hvrf (vmul_vv 24 8 16 (vle32 16 b (vle32 8 a h))) (16 * 24 + i) = elem (hmem h) a i * elem (hmem h) b i"
  using loaded_product [OF assms] by (simp add: vmul_vv_def)

text \<open>The dot product of \<open>n\<close> chunks of \<open>len\<close> elements, \<open>offset\<close> elements apart.\<close>

definition chunks_dotp :: "mem \<Rightarrow> u32 \<Rightarrow> u32 \<Rightarrow> u32 \<Rightarrow> nat \<Rightarrow> nat \<Rightarrow> u32" where
  "chunks_dotp m a b offset len n =
     (\<Sum>k<n. \<Sum>i<len. elem m (a + 4 * of_nat k * offset) i * elem m (b + 4 * of_nat k * offset) i)"

lemma idotp_result:
  assumes "avl \<le> 16 * lm" "lm \<le> 8" "0 < avl"
  shows "case idotp_v32b lm vmul_vv a b offset avl rs h of (red, h') \<Rightarrow>
    red = hvrf h 0 + chunks_dotp (hmem h) a b offset avl (Suc (turns (rs - 1))) \<and> hmem h' = hmem h \<and> hvrf h' 0 = red"
proof -
  define h1 where "h1 = vmul_vv 24 8 16 (vle32 16 b (vle32 8 a (vsetvli lm avl h)))"
  define h2 where "h2 = idotp_loop offset a b (rs - 1) h1"
  have h1: "hmem h1 = hmem h" "hvl h1 = avl" "hvrf h1 0 = hvrf h 0"
    using assms(1) loaded_low by (simp_all add: h1_def vmul_vv_def)
  have e1: "hvrf h1 (16 * 24 + i) = elem (hmem h) a i * elem (hmem h) b i" if "i < avl" for i
    using first_result [of "vsetvli lm avl h" i b a] that assms by (simp add: h1_def)
  let ?q = "\<lambda>k i. elem (hmem h) (a + 4 * of_nat k * offset) i * elem (hmem h) (b + 4 * of_nat k * offset) i"
  have e2: "hvrf h2 (16 * 24 + i) = (\<Sum>k<Suc (turns (rs - 1)). ?q k i)" if "i < avl" for i
    using loop_result [of h1 i offset a b "rs - 1"] that assms(1,2) e1 [OF that] h1
    unfolding sum.lessThan_Suc_shift h2_def by simp
  have h2: "hmem h2 = hmem h" "hvl h2 = avl" "hvrf h2 0 = hvrf h 0"
    using loop_result [of h1 0 offset a b "rs - 1"] assms h1 by (simp_all add: h2_def)
  have "(\<Sum>i\<leftarrow>[0..<avl]. hvrf h2 (16 * 24 + i)) = (\<Sum>i<avl. \<Sum>k<Suc (turns (rs - 1)). ?q k i)"
    using e2 by (simp add: interv_sum_list_conv_sum_set_nat atLeast0LessThan)
  also have "\<dots> = chunks_dotp (hmem h) a b offset avl (Suc (turns (rs - 1)))"
    unfolding chunks_dotp_def by (rule sum.swap)
  finally have sum: "(\<Sum>i\<leftarrow>[0..<avl]. hvrf h2 (16 * 24 + i)) = chunks_dotp (hmem h) a b offset avl (Suc (turns (rs - 1)))" .
  have "idotp_v32b lm vmul_vv a b offset avl rs h = (vmv_x_s 0 (vredsum_vs 0 24 0 h2), vredsum_vs 0 24 0 h2)"
    by (simp add: idotp_v32b_def Let_def h1_def h2_def)
  then show ?thesis using h2 sum assms(3) by (simp add: vmv_x_s_def vredsum_vs_def)
qed


section \<open>The whole program\<close>

text \<open>The sizes for \<open>N\<close> cores, as long as \<open>Interleave * num_cores\<close> does not wrap.\<close>

lemma lmul_8: "lmul = 8"
  by (simp add: lmul_def Interleave_def max_vlen_def)

lemma epr_nat:
  assumes "512 * N < 4294967296"
  shows "unat (elem_per_round (of_nat N)) = 128 * N"
proof -
  have "unat (512 * of_nat N :: u32) = 512 * N"
    using assms by (simp add: unat_word_ariths unat_of_nat_u32)
  then show ?thesis by (simp add: elem_per_round_def Interleave_def unat_div)
qed

lemma epr_word: "512 * N < 4294967296 \<Longrightarrow> elem_per_round (of_nat N) = of_nat (128 * N)"
  using epr_nat [of N] unat_of_nat_u32 [of "128 * N"] by (simp add: word_unat_eq_iff del: of_nat_mult)

lemma dim_128:
  assumes "512 * N < 4294967296" "0 < N"
  shows "dim (of_nat N) = 128"
proof -
  have "unat (dim (of_nat N)) = 128"
    using epr_nat [OF assms(1)] assms by (simp add: dim_def unat_div unat_of_nat_u32)
  then show ?thesis by (simp add: word_unat_eq_iff)
qed

lemma rounds_exact:
  assumes "512 * N < 4294967296" "0 < N" "2 \<le> q" "Suc q * (128 * N) \<le> 4294967296" "unat M = q * (128 * N)"
  shows "rounds M (of_nat N) = of_nat q"
proof -
  let ?e = "elem_per_round (of_nat N)"
  note e = epr_nat [OF assms(1)]
  obtain d where d: "128 * N = Suc d" using assms(2) gr0_implies_Suc [of "128 * N"] by auto
  have "unat (M + ?e - 1) = q * Suc d + d"
  proof -
    have "M + ?e - 1 = M + of_nat d" unfolding epr_word [OF assms(1)] d by simp
    moreover have "unat (of_nat d :: u32) = d" using assms(4) d by (simp add: unat_of_nat_u32)
    moreover have "q * Suc d + d < 4294967296" using assms(4) d by simp
    ultimately show ?thesis using assms(5) d by (simp only: unat_add_u32) simp
  qed
  moreover have "(q * Suc d + d) div Suc d = q" by (subst add.commute, subst div_mult_self1) simp_all
  ultimately have "unat ((M + ?e - 1) div ?e) = q" using e d by (simp add: unat_div)
  moreover have "?e < M" using e assms(2,3,5) by (simp add: word_less_nat_alt)
  ultimately show ?thesis 
    using unat_of_nat_u32 [of q] unat_u32_less [of "(M + ?e - 1) div ?e"] by (simp add: rounds_def word_unat_eq_iff)
qed

lemma rounds_small: "M \<le> elem_per_round N \<Longrightarrow> rounds M N = 1"
  by (simp add: rounds_def flip: not_le)

lemma core_dotp_result:
  assumes "512 * N < 4294967296" "0 < N"
  shows "case core_dotp fmul (of_nat N) A B M (of_nat cid) h of (red, h') \<Rightarrow>
    red = hvrf h 0 + chunks_dotp (hmem h) (A + 4 * of_nat (128 * cid)) (B + 4 * of_nat (128 * cid))
      (of_nat (128 * N)) 128 (Suc (turns (rounds M (of_nat N) - 1))) \<and> hmem h' = hmem h \<and> hvrf h' 0 = red"
proof -
  have c: "core_dotp fmul (of_nat N) A B M (of_nat cid) h = idotp_v32b 8 vmul_vv (A + 4 * of_nat (128 * cid))
      (B + 4 * of_nat (128 * cid)) (of_nat (128 * N)) 128 (rounds M (of_nat N)) h"
    by (simp add: core_dotp_def lmul_8 dim_128 [OF assms] epr_word [OF assms(1)] idotp_v32b_lmul8_def Let_def)
  show ?thesis unfolding c by (rule idotp_result) simp_all
qed

text \<open>Element \<open>j\<close> of the product vector, and the part of core \<open>cid\<close>.\<close>

definition product :: "mem \<Rightarrow> u32 \<Rightarrow> u32 \<Rightarrow> nat \<Rightarrow> u32" where
  "product m A B j = elem m A j * elem m B j"

lemma chunk_product:
  "elem m (A + 4 * of_nat (128 * c) + 4 * of_nat k * of_nat e) i * elem m (B + 4 * of_nat (128 * c) + 4 * of_nat k * of_nat e) i =
    product m A B (k * e + (c * 128 + i))"
  by (simp add: product_def elem_def algebra_simps)

lemma chunks_product:
  "chunks_dotp m (A + 4 * of_nat (128 * c)) (B + 4 * of_nat (128 * c)) (of_nat e) 128 n =
    (\<Sum>k<n. \<Sum>i<128. product m A B (k * e + (c * 128 + i)))"
  by (simp only: chunks_dotp_def chunk_product)

lemma sum_parts:
  "(\<Sum>c<N. chunks_dotp m (A + 4 * of_nat (128 * c)) (B + 4 * of_nat (128 * c)) (of_nat (128 * N)) 128 q) =
    (\<Sum>j<q * (128 * N). product m A B j)"
proof -
  let ?e = "128 * N"
  have blocks: "(\<Sum>c<n. \<Sum>i<len. f (c * len + i)) = (\<Sum>j<n * len. f j)" for n len and f :: "nat \<Rightarrow> u32"
  proof -
    have "(\<Sum>i<len. f (c * len + i)) = sum f {c * len..<c * len + len}" for c
      using sum.shift_bounds_nat_ivl [of f 0 "c * len" len] by (simp add: atLeast0LessThan add.commute)
    then show ?thesis using sum.nat_group [of f len n] by simp
  qed
  have "(\<Sum>c<N. \<Sum>k<q. \<Sum>i<128. product m A B (k * ?e + (c * 128 + i))) =
      (\<Sum>k<q. \<Sum>c<N. \<Sum>i<128. product m A B (k * ?e + (c * 128 + i)))" by (rule sum.swap)
  also have "\<dots> = (\<Sum>k<q. \<Sum>j<?e. product m A B (k * ?e + j))"
  proof (rule sum.cong [OF refl])
    show "(\<Sum>c<N. \<Sum>i<128. product m A B (k * ?e + (c * 128 + i))) = (\<Sum>j<?e. product m A B (k * ?e + j))" for k
      using blocks [where n = N and len = 128 and f = "\<lambda>j. product m A B (k * ?e + j)"]
      by (simp only: mult.commute [of 128 N])
  qed
  also have "\<dots> = (\<Sum>j<q * ?e. product m A B j)" by (rule blocks)
  finally show ?thesis by (simp only: chunks_product)
qed

lemma fold_sum: "xs \<noteq> [] \<Longrightarrow> fold (\<lambda>i acc. acc + xs ! i) [1..<length xs] (xs ! 0) = sum_list (xs :: u32 list)"
proof -
  assume xs: "xs \<noteq> []"
  have f: "fold (\<lambda>i acc. acc + xs ! i) is a = a + (\<Sum>i\<leftarrow>is. xs ! i)" for "is" a
    by (induction "is" arbitrary: a) (simp_all add: add.assoc)
  have "[0..<length xs] = 0 # [1..<length xs]" using xs by (simp add: upt_conv_Cons)
  then have "map ((!) xs) [0..<length xs] = xs ! 0 # map ((!) xs) [1..<length xs]" by simp
  then have "xs = xs ! 0 # map ((!) xs) [1..<length xs]" by (simp only: map_nth)
  then show ?thesis unfolding f by (metis sum_list.Cons)
qed

definition seeds :: "hart list \<Rightarrow> u32" where
  "seeds hs = (\<Sum>h\<leftarrow>hs. hvrf h 0)"

lemma iteration_result:
  assumes "hs \<noteq> []" "\<forall>h\<in>set hs. hmem h = m" "2 \<le> q" "512 * length hs < 4294967296"
    and "Suc q * (128 * length hs) \<le> 4294967296" "unat M = q * (128 * length hs)"
  shows "case iteration fmul A B M (hs, res) of (hs', res') \<Rightarrow>
    length hs' = length hs \<and> (\<forall>h\<in>set hs'. hmem h = m) \<and> seeds hs' = res' ! 0 \<and>
    res' ! 0 = seeds hs + (\<Sum>j<unat M. product m A B j)"
proof -
  let ?N = "length hs"
  let ?core = "\<lambda>c. core_dotp fmul (of_nat ?N) A B M (of_nat c) (hs ! c)"
  let ?part = "\<lambda>c. chunks_dotp m (A + 4 * of_nat (128 * c)) (B + 4 * of_nat (128 * c)) (of_nat (128 * ?N)) 128 q"
  have N: "0 < ?N" using assms(1) by simp
  have "q * 1 \<le> q * (128 * ?N)" using N by (intro mult_le_mono2) (simp add: Suc_le_eq)
  also have "\<dots> < 4294967296" using assms(6) unat_u32_less [of M] by simp
  finally have u: "unat (of_nat q :: u32) = q" by (simp add: unat_of_nat_u32)
  then have "unat ((of_nat q :: u32) - 1) = q - 1" using assms(3) by (simp add: unat_sub_u32)
  then have "Suc (turns (of_nat q - 1)) = q" using assms(3) by (auto simp: turns_def)
  then have t: "Suc (turns (rounds M (of_nat ?N) - 1)) = q"
    by (simp only: rounds_exact [OF assms(4) N assms(3,5,6)])
  have core: "fst (?core c) = hvrf (hs ! c) 0 + ?part c" "hmem (snd (?core c)) = m" "hvrf (snd (?core c)) 0 = fst (?core c)"
    if "c < ?N" for c
    using core_dotp_result [OF assms(4) N, where fmul = fmul and A = A and B = B and M = M and cid = c and h = "hs ! c"]
      that assms(2) unfolding t by (auto split: prod.splits)
  define outs where "outs = map (\<lambda>(cid, h). core_dotp fmul (of_nat ?N) A B M (of_nat cid) h) (enumerate 0 hs)"
  have len: "length outs = ?N" and outs: "c < ?N \<Longrightarrow> outs ! c = ?core c" for c
    by (simp_all add: outs_def nth_enumerate_eq)
  have sums: "sum_list (map g outs) = (\<Sum>c<?N. g (?core c))" for g :: "u32 \<times> hart \<Rightarrow> u32"
    using len outs by (simp add: sum_list_sum_nth atLeast0LessThan)
  have total: "sum_list (map fst outs) = seeds hs + (\<Sum>j<unat M. product m A B j)"
    unfolding sums assms(6) sum_parts [symmetric] seeds_def
    by (simp add: core sum.distrib sum_list_sum_nth atLeast0LessThan)
  have seeds': "seeds (map snd outs) = sum_list (map fst outs)"
    unfolding seeds_def map_map sums by (simp add: sums core)
  have mem: "\<forall>h\<in>set (map snd outs). hmem h = m"
    using core(2) by (simp add: all_set_conv_all_nth len outs)
  have "iteration fmul A B M (hs, res) =
      (map snd outs, (map fst outs)[0 := fold (\<lambda>i acc. acc + map fst outs ! i) [1..<?N] (map fst outs ! 0)])"
    by (simp add: iteration_def Let_def outs_def)
  also have "fold (\<lambda>i acc. acc + map fst outs ! i) [1..<?N] (map fst outs ! 0) = sum_list (map fst outs)"
  proof -
    have "map fst outs \<noteq> []" using N len by auto
    from fold_sum [OF this] show ?thesis by (simp only: length_map len)
  qed
  finally show ?thesis using total seeds' mem len N by simp
qed

section \<open>Properties\<close>

text \<open>
  C21: what the parallel dot product computes: for any number of cores and any
  problem size that is a whole number of rounds of all cores, at least two, after the two measured turns the result is twice the
  sequential sum of all products modulo \<open>2 ^ 32\<close>, plus the sum of what element 0 of the register \<open>v0\<close> of every core held
  before. Both come from \<open>v0\<close>, which no kernel clears; the program checks for the factor two. The bounds
  keep the sizes the program computes from wrapping.
\<close>

theorem idotp_computes_dot_product:
  assumes "hs \<noteq> []" "\<forall>h\<in>set hs. hmem h = m" "2 \<le> q" "512 * length hs < 4294967296"
    and "Suc q * (128 * length hs) \<le> 4294967296" "unat M = q * (128 * length hs)"
  shows "snd (idotp_main fmul A B M (hs, res)) ! 0 = (\<Sum>h\<leftarrow>hs. hvrf h 0) +
    of_nat measure_iter * (\<Sum>j<unat M. load32 m (A + 4 * of_nat j) * load32 m (B + 4 * of_nat j))"
proof -
  obtain hs1 r1 where i1: "iteration fmul A B M (hs, res) = (hs1, r1)" by fastforce
  note r1 = iteration_result [OF assms, where fmul = fmul and A = A and B = B and res = res, unfolded i1, simplified]
  have "hs1 \<noteq> []" using r1 assms(1) by auto
  then have "case iteration fmul A B M (hs1, r1) of (hs2, r2) \<Rightarrow> r2 ! 0 = seeds hs1 + (\<Sum>j<unat M. product m A B j)"
    using iteration_result [where hs = hs1 and m = m and q = q and fmul = fmul and A = A and B = B and M = M and res = r1]
      r1 assms(3-6) by (auto split: prod.splits)
  then show ?thesis
    using i1 r1 by (auto simp: idotp_main_def measure_iter_def numeral_2_eq_2 product_def elem_def seeds_def distrib_right
        split: prod.splits)
qed

text \<open>
  A problem that fits into one round is not computed: the counter of the kernel is 0 before its
  loop and wraps, so each core goes on through \<open>2 ^ 32\<close> further chunks behind its own.
\<close>

theorem idotp_single_round_overruns:
  assumes "512 * N < 4294967296" "0 < N" "unat M \<le> 128 * N"
  shows "fst (core_dotp fmul (of_nat N) A B M (of_nat cid) h) = hvrf h 0 +
    (\<Sum>k<4294967297. \<Sum>i<128. product (hmem h) A B (k * (128 * N) + (cid * 128 + i)))"
proof -
  have "M \<le> elem_per_round (of_nat N)" using assms(3) epr_nat [OF assms(1)] by (simp add: word_le_nat_alt)
  then have t: "Suc (turns (rounds M (of_nat N) - 1)) = 4294967297" by (simp add: rounds_small turns_def)
  show ?thesis
    using core_dotp_result [OF assms(1,2), where fmul = fmul and A = A and B = B and M = M and cid = cid and h = h]
    unfolding t chunks_product by (simp only: split_beta)
qed

definition idotp_hart :: "u32 \<Rightarrow> hart" where
  "idotp_hart v = \<lparr>hmem = (\<lambda>_. 1), hvl = 0, hvrf = (\<lambda>_. v)\<rparr>"

theorem idotp_computes_dot_product_witness:
  "snd (idotp_main (*) 0 0 512 ([idotp_hart 5, idotp_hart 7], [])) ! 0 = 12 + 2 * (512 * 0x1010101 * 0x1010101)"
  using idotp_computes_dot_product [of "[idotp_hart 5, idotp_hart 7]" "\<lambda>_. 1" 2 512 "(*)" 0 0 "[]"]
  by (simp add: idotp_hart_def measure_iter_def load32_ones)

theorem idotp_single_round_overruns_witness:
  "fst (core_dotp (*) (of_nat 2) 0 0 100 (of_nat 1) (idotp_hart 5)) = 5 + 128 * 0x1010101 * 0x1010101"
  using idotp_single_round_overruns [of 2 100 "(*)" 0 0 1 "idotp_hart 5"]
  by (simp add: idotp_hart_def product_def elem_def load32_ones)

end
