(* ===== verification/Matmul.thy ===== *)
theory Matmul
  imports Matrix
begin

text \<open>
  The matrix product of \<open>tests/fmatmul-32b/kernel/fmatmul.c\<close>: three software-pipelined kernels that work
  on 2, 4 or 8 rows at a time. Single precision numbers are bit patterns of 32 bits; \<open>fmul\<close>
  and \<open>fmacc\<close>, the product and the fused multiply and add of the floating point unit, are parameters.
  Pointers are addresses in bytes, indices are 32-bit words.
\<close>

section \<open>The kernels\<close>

text \<open>
  The kernels differ in the number of rows \<open>R\<close>, the length \<open>LM\<close> of a register group, and the groups
  \<open>v0\<close>, \<open>v1\<close> for the rows of \<open>b\<close>; row \<open>k\<close> is accumulated in the group at \<open>LM * k\<close>, and \<open>ts ! k\<close> is
  the scalar \<open>t\<close> with number \<open>k\<close>. \<open>mm_rows\<close> is the sequence of \<open>R\<close> products, each followed by the load of the next
  scalar of its row.
\<close>

record kernel =
  nrows :: nat
  lm :: nat
  vb0 :: nat
  vb1 :: nat

definition mm_rows :: "kernel \<Rightarrow> (nat \<Rightarrow> u32 \<Rightarrow> nat \<Rightarrow> hart \<Rightarrow> hart) \<Rightarrow> nat \<Rightarrow> u32 \<Rightarrow> u32 \<Rightarrow>
    u32 list \<times> hart \<Rightarrow> u32 list \<times> hart" where
  "mm_rows K op vb a N x =
     fold (\<lambda>k (ts, h). (ts[k := load32 (hmem h) (a + 4 * (of_nat k * N))], op (lm K * k) (ts ! k) vb h))
       [0..<nrows K] x"

text \<open>The inner loop; \<open>b\<close> is \<open>b__\<close>, \<open>a\<close> is \<open>a_\<close>. \<open>None\<close> is a loop that does not end.\<close>

partial_function (option) mm_loop :: "(u32 \<Rightarrow> u32 \<Rightarrow> u32) \<Rightarrow> (u32 \<Rightarrow> u32 \<Rightarrow> u32 \<Rightarrow> u32) \<Rightarrow> kernel \<Rightarrow>
    u32 \<Rightarrow> u32 \<Rightarrow> u32 \<Rightarrow> u32 \<Rightarrow> u32 \<Rightarrow> u32 list \<times> hart \<Rightarrow> (u32 list \<times> hart) option" where
  "mm_loop fmul fmacc K a N P n b x =
     (if n < N then
        let n = n + 1;
            x = (fst x, vle32 (vb1 K) b (snd x));
            b = b + 4 * P;
            x = mm_rows K (if n = 1 then vfmul_vf fmul else vfmacc_vf fmacc) (vb0 K) (a + 4 * n) N x;
            n = n + 1
        in if n = N then Some x
           else
             let x = (fst x, vle32 (vb0 K) b (snd x));
                 b = b + 4 * P;
                 x = mm_rows K (vfmacc_vf fmacc) (vb1 K) (a + 4 * n) N x
             in mm_loop fmul fmacc K a N P n b x
      else Some x)"

definition mm_finish :: "(u32 \<Rightarrow> u32 \<Rightarrow> u32 \<Rightarrow> u32) \<Rightarrow> kernel \<Rightarrow> u32 \<Rightarrow> u32 \<Rightarrow> u32 list \<times> hart \<Rightarrow> hart" where
  "mm_finish fmacc K c P x = (case x of (ts, h) \<Rightarrow>
     fold (\<lambda>k h. vse32 (lm K * k) (c + 4 * (of_nat k * P)) (vfmacc_vf fmacc (lm K * k) (ts ! k) (vb1 K) h))
       [0..<nrows K] h)"

text \<open>The body of the loop over \<open>m\<close>; \<open>b\<close> is \<open>b_\<close> and \<open>c\<close> is \<open>c_\<close>.\<close>

definition mm_block :: "(u32 \<Rightarrow> u32 \<Rightarrow> u32) \<Rightarrow> (u32 \<Rightarrow> u32 \<Rightarrow> u32 \<Rightarrow> u32) \<Rightarrow> kernel \<Rightarrow>
    u32 \<Rightarrow> u32 \<Rightarrow> u32 \<Rightarrow> u32 \<Rightarrow> u32 \<Rightarrow> u32 \<Rightarrow> hart \<Rightarrow> hart option" where
  "mm_block fmul fmacc K c a b N P m h =
     (let a = a + 4 * (m * N);
          h = vle32 (vb0 K) b h;
          c = c + 4 * (m * P);
          ts = map (\<lambda>k. load32 (hmem h) (a + 4 * (of_nat k * N))) [0..<nrows K]
      in map_option (mm_finish fmacc K c P) (mm_loop fmul fmacc K a N P 0 (b + 4 * P) (ts, h)))"

partial_function (option) mm_rowblocks :: "(u32 \<Rightarrow> u32 \<Rightarrow> u32) \<Rightarrow> (u32 \<Rightarrow> u32 \<Rightarrow> u32 \<Rightarrow> u32) \<Rightarrow> kernel \<Rightarrow>
    u32 \<Rightarrow> u32 \<Rightarrow> u32 \<Rightarrow> u32 \<Rightarrow> u32 \<Rightarrow> u32 \<Rightarrow> u32 \<Rightarrow> hart \<Rightarrow> hart option" where
  "mm_rowblocks fmul fmacc K c a b N P m_end m h =
     (if m < m_end then
        Option.bind (mm_block fmul fmacc K c a b N P m h)
          (\<lambda>h. mm_rowblocks fmul fmacc K c a b N P m_end (m + of_nat (nrows K)) h)
      else Some h)"

partial_function (option) mm_columns :: "(u32 \<Rightarrow> u32 \<Rightarrow> u32) \<Rightarrow> (u32 \<Rightarrow> u32 \<Rightarrow> u32 \<Rightarrow> u32) \<Rightarrow> kernel \<Rightarrow>
    u32 \<Rightarrow> u32 \<Rightarrow> u32 \<Rightarrow> u32 \<Rightarrow> u32 \<Rightarrow> u32 \<Rightarrow> u32 \<Rightarrow> u32 \<Rightarrow> u32 \<Rightarrow> hart \<Rightarrow> hart option" where
  "mm_columns fmul fmacc K c a b m_start m_end N P p_end p h =
     (if p < p_end then
        let h = vsetvli (lm K) (unat (p_end - p)) h;
            gvl = hvl h
        in Option.bind (mm_rowblocks fmul fmacc K (c + 4 * p) a (b + 4 * p) N P m_end m_start h)
             (\<lambda>h. mm_columns fmul fmacc K c a b m_start m_end N P p_end (p + of_nat gvl) h)
      else Some h)"

definition matmul_2xVL where
  "matmul_2xVL fmul fmacc c a b m_start m_end N P p_start p_end h =
     mm_columns fmul fmacc \<lparr>nrows = 2, lm = 8, vb0 = 16, vb1 = 24\<rparr> c a b m_start m_end N P p_end p_start h"

definition matmul_4xVL where
  "matmul_4xVL fmul fmacc c a b m_start m_end N P p_start p_end h =
     mm_columns fmul fmacc \<lparr>nrows = 4, lm = 4, vb0 = 16, vb1 = 20\<rparr> c a b m_start m_end N P p_end p_start h"

definition matmul_8xVL where
  "matmul_8xVL fmul fmacc c a b m_start m_end N P p_start p_end h =
     mm_columns fmul fmacc \<lparr>nrows = 8, lm = 2, vb0 = 18, vb1 = 20\<rparr> c a b m_start m_end N P p_end p_start h"

definition matmul where
  "matmul fmul fmacc c a b M N P h =
     (if M \<le> 4 then matmul_2xVL fmul fmacc c a b 0 M N P 0 P h
      else if M \<le> 8 then matmul_4xVL fmul fmacc c a b 0 M N P 0 P h
      else matmul_8xVL fmul fmacc c a b 0 M N P 0 P h)"

section \<open>The program\<close>

text \<open>
  \<open>main.c\<close> gives core \<open>cid\<close> the rows from \<open>M / num_cores * cid\<close> on and measures two turns with a
  barrier behind each. A kernel size other than 2, 4 and 8 is the return value -2.
\<close>

definition kernel_of where
  "kernel_of fmul fmacc kernel_size =
     (if kernel_size = 2 then Some (matmul_2xVL fmul fmacc)
      else if kernel_size = 4 then Some (matmul_4xVL fmul fmacc)
      else if kernel_size = (8 :: nat) then Some (matmul_8xVL fmul fmacc)
      else None)"

definition fmatmul_turn where
  "fmatmul_turn mm A B C M N K hs m =
     (let num_cores = of_nat (length hs) :: u32
      in run_cores (\<lambda>cid. mm C A B (M div num_cores * cid) (M div num_cores * (cid + 1)) K N 0 N) 0 hs m)"

definition fmatmul_main where
  "fmatmul_main fmul fmacc kernel_size A B C M N K hs m =
     (case kernel_of fmul fmacc kernel_size of
        None \<Rightarrow> Inl (-2 :: int)
      | Some mm \<Rightarrow> Inr (Option.bind (fmatmul_turn mm A B C M N K hs m)
          (\<lambda>(hs, m). fmatmul_turn mm A B C M N K hs m)))"

section \<open>One sequence of products\<close>

definition good :: "kernel \<Rightarrow> bool" where
  "good K \<longleftrightarrow> lm K * nrows K = 16 \<and> 16 \<le> vb0 K \<and> vb0 K + lm K \<le> vb1 K"

lemma goods:
  "good \<lparr>nrows = 2, lm = 8, vb0 = 16, vb1 = 24\<rparr>" "good \<lparr>nrows = 4, lm = 4, vb0 = 16, vb1 = 20\<rparr>"
  "good \<lparr>nrows = 8, lm = 2, vb0 = 18, vb1 = 20\<rparr>"
  by (simp_all add: good_def)

text \<open>Element \<open>i\<close> of the accumulator of row \<open>k\<close>.\<close>

definition acc :: "kernel \<Rightarrow> hart \<Rightarrow> nat \<Rightarrow> nat \<Rightarrow> u32" where
  "acc K h k i = hvrf h (16 * (lm K * k) + i)"

lemma row_below: "k < nrows K \<Longrightarrow> good K \<Longrightarrow> lm K * k + lm K \<le> 16"
proof -
  assume k: "k < nrows K" and K: "good K"
  have "lm K * Suc k \<le> lm K * nrows K" using k by (intro mult_le_mono2) simp
  then show ?thesis using K by (simp add: good_def)
qed

lemma row_order: "j < k \<Longrightarrow> lm K * j + lm K \<le> lm K * k"
proof -
  assume "j < k"
  then have "lm K * Suc j \<le> lm K * k" by (intro mult_le_mono2) simp
  then show ?thesis by simp
qed

lemma vop_acc:
  assumes vl: "hvl h \<le> 16 * lm K" and i: "i < hvl h"
  shows "acc K (vop_vf f (lm K * r) x vb h) k i = (if k = r then f (acc K h k i) x (grp h vb i) else acc K h k i)"
proof -
  consider "k = r" | "k < r" | "r < k" by linarith
  then show "acc K (vop_vf f (lm K * r) x vb h) k i = (if k = r then f (acc K h k i) x (grp h vb i) else acc K h k i)"
  proof cases
    case 1
    then show ?thesis using i by (simp add: acc_def grp_def vop_vf_def)
  next
    case 2
    then show ?thesis using row_order [OF 2, of K] i vl by (simp add: acc_def vop_vf_def)
  next
    case 3
    then show ?thesis using row_order [OF 3, of K] i vl by (simp add: acc_def vop_vf_def)
  qed
qed

lemma vop_grp:
  assumes "good K" "hvl h \<le> 16 * lm K" "r < nrows K" "16 \<le> v"
  shows "grp (vop_vf f (lm K * r) x vb h) v i = grp h v i"
  using row_below [OF assms(3,1)] assms(2,4) by (simp add: grp_def vop_vf_def)

text \<open>The scalars of column \<open>a\<close>.\<close>

definition column :: "kernel \<Rightarrow> mem \<Rightarrow> u32 \<Rightarrow> u32 \<Rightarrow> u32 list" where
  "column K m a N = map (\<lambda>k. load32 m (a + 4 * (of_nat k * N))) [0..<nrows K]"

lemma mm_rows_result:
  assumes K: "good K" and vl: "hvl h \<le> 16 * lm K" and vb: "16 \<le> vb" and len: "length ts = nrows K"
  shows "case mm_rows K (vop_vf f) vb a N (ts, h) of (ts', h') \<Rightarrow>
    ts' = column K (hmem h) a N \<and> hmem h' = hmem h \<and> hvl h' = hvl h \<and>
    (\<forall>k<nrows K. \<forall>i<hvl h. acc K h' k i = f (acc K h k i) (ts ! k) (grp h vb i)) \<and>
    (\<forall>v\<ge>16. \<forall>i<hvl h. grp h' v i = grp h v i)"
proof -
  let ?load = "\<lambda>k. load32 (hmem h) (a + 4 * (of_nat k * N))"
  let ?run = "\<lambda>r. fold (\<lambda>k (ts, h). (ts[k := load32 (hmem h) (a + 4 * (of_nat k * N))], vop_vf f (lm K * k) (ts ! k) vb h)) [0..<r] (ts, h)"
  have "case ?run r of (ts', h') \<Rightarrow> ts' = map ?load [0..<r] @ drop r ts \<and> hmem h' = hmem h \<and> hvl h' = hvl h \<and>
      (\<forall>k<nrows K. \<forall>i<hvl h. acc K h' k i = (if k < r then f (acc K h k i) (ts ! k) (grp h vb i) else acc K h k i)) \<and>
      (\<forall>v\<ge>16. \<forall>i<hvl h. grp h' v i = grp h v i)" if "r \<le> nrows K" for r
    using that
  proof (induction r)
    case (Suc r)
    obtain ts' h' where run: "?run r = (ts', h')" by fastforce
    have r: "r < nrows K" "r < length ts" using Suc.prems len by simp_all
    have IH: "ts' = map ?load [0..<r] @ drop r ts" "hmem h' = hmem h" "hvl h' = hvl h"
      "\<And>k i. k < nrows K \<Longrightarrow> i < hvl h \<Longrightarrow> acc K h' k i = (if k < r then f (acc K h k i) (ts ! k) (grp h vb i) else acc K h k i)"
      "\<And>v i. 16 \<le> v \<Longrightarrow> i < hvl h \<Longrightarrow> grp h' v i = grp h v i"
      using Suc run by auto
    have "ts' ! r = ts ! r" "ts'[r := ?load r] = map ?load [0..<Suc r] @ drop (Suc r) ts"
      using r by (simp_all add: IH(1) nth_append list_update_append Cons_nth_drop_Suc [symmetric])
    then show ?case
      using run vop_acc [where h = h' and r = r] vop_grp [OF K, where h = h' and r = r] vl vb r IH
      by (auto simp: less_Suc_eq)
  qed simp
  from this [of "nrows K"] show ?thesis using len by (simp add: mm_rows_def column_def split_def)
qed


section \<open>The inner loop\<close>

lemma vle_acc:
  assumes "good K" "hvl h \<le> 16 * lm K" "k < nrows K" "i < hvl h" "16 \<le> v"
  shows "acc K (vle32 v x h) k i = acc K h k i"
  using row_below [OF assms(3,1)] assms(2,4,5) by (simp add: acc_def vle32_def)

text \<open>Row \<open>n\<close> of \<open>b\<close>, and the sum over the first \<open>n\<close> columns for row \<open>k\<close>, in the order of the columns.\<close>

definition brow :: "mem \<Rightarrow> u32 \<Rightarrow> u32 \<Rightarrow> nat \<Rightarrow> nat \<Rightarrow> u32" where
  "brow m b P n i = load32 m (b + 4 * (of_nat n * P) + 4 * of_nat i)"

definition scal :: "mem \<Rightarrow> u32 \<Rightarrow> u32 \<Rightarrow> nat \<Rightarrow> nat \<Rightarrow> u32" where
  "scal m a N k n = load32 m (a + 4 * of_nat n + 4 * (of_nat k * N))"

lemma column_scal: "k < nrows K \<Longrightarrow> column K m (a + 4 * of_nat n) N ! k = scal m a N k n"
  by (simp add: column_def scal_def)

lemma length_column [simp]: "length (column K m a N) = nrows K"
  by (simp add: column_def)

text \<open>At the head of the loop, with \<open>n = 2 * q\<close>.\<close>

definition loop_head :: "(u32 \<Rightarrow> u32 \<Rightarrow> u32) \<Rightarrow> (u32 \<Rightarrow> u32 \<Rightarrow> u32 \<Rightarrow> u32) \<Rightarrow> kernel \<Rightarrow> mem \<Rightarrow> nat \<Rightarrow>
    u32 \<Rightarrow> u32 \<Rightarrow> u32 \<Rightarrow> u32 \<Rightarrow> nat \<Rightarrow> u32 list \<Rightarrow> hart \<Rightarrow> bool" where
  "loop_head fmul fmacc K m vl a b N P n ts h \<longleftrightarrow> hmem h = m \<and> hvl h = vl \<and> ts = column K m (a + 4 * of_nat n) N \<and>
     (\<forall>i<vl. grp h (vb0 K) i = brow m b P n i) \<and>
     (0 < n \<longrightarrow> (\<forall>k<nrows K. \<forall>i<vl. acc K h k i = partial fmul fmacc (scal m a N k) (\<lambda>q. brow m b P q i) n))"

text \<open>Behind the loop the last product is still to come.\<close>

definition loop_tail :: "(u32 \<Rightarrow> u32 \<Rightarrow> u32) \<Rightarrow> (u32 \<Rightarrow> u32 \<Rightarrow> u32 \<Rightarrow> u32) \<Rightarrow> kernel \<Rightarrow> mem \<Rightarrow> nat \<Rightarrow>
    u32 \<Rightarrow> u32 \<Rightarrow> u32 \<Rightarrow> u32 \<Rightarrow> nat \<Rightarrow> u32 list \<Rightarrow> hart \<Rightarrow> bool" where
  "loop_tail fmul fmacc K m vl a b N P n ts h \<longleftrightarrow> hmem h = m \<and> hvl h = vl \<and> ts = column K m (a + 4 * of_nat n) N \<and>
     (\<forall>i<vl. grp h (vb1 K) i = brow m b P n i) \<and>
     (\<forall>k<nrows K. \<forall>i<vl. acc K h k i = partial fmul fmacc (scal m a N k) (\<lambda>q. brow m b P q i) n)"

lemma first_half:
  assumes K: "good K" and vl: "vl \<le> 16 * lm K" and head: "loop_head fmul fmacc K m vl a b N P n ts h"
  shows "case mm_rows K (if n = 0 then vfmul_vf fmul else vfmacc_vf fmacc) (vb0 K) (a + 4 * of_nat (Suc n)) N
      (ts, vle32 (vb1 K) (b + 4 * (of_nat (Suc n) * P)) h) of (ts', h') \<Rightarrow>
    loop_tail fmul fmacc K m vl a b N P (Suc n) ts' h'"
proof -
  let ?h = "vle32 (vb1 K) (b + 4 * (of_nat (Suc n) * P)) h"
  let ?f = "if n = 0 then (\<lambda>d x y. fmul y x) else fmacc"
  have op: "(if n = 0 then vfmul_vf fmul else vfmacc_vf fmacc) = vop_vf ?f"
    by (simp add: vfmul_vf_def vfmacc_vf_def)
  have hd: "hmem h = m" "hvl h = vl" "ts = column K m (a + 4 * of_nat n) N" "\<And>i. i < vl \<Longrightarrow> grp h (vb0 K) i = brow m b P n i"
    "\<And>k i. 0 < n \<Longrightarrow> k < nrows K \<Longrightarrow> i < vl \<Longrightarrow> acc K h k i = partial fmul fmacc (scal m a N k) (\<lambda>q. brow m b P q i) n"
    using head by (auto simp: loop_head_def)
  have vb: "16 \<le> vb0 K" "16 \<le> vb1 K" "vb0 K + lm K \<le> vb1 K" using K by (auto simp: good_def)
  have g: "grp ?h (vb0 K) i = brow m b P n i" "grp ?h (vb1 K) i = brow m b P (Suc n) i" if "i < vl" for i
    using vle_grp(2) [of i h "lm K" "vb0 K" "vb1 K"] vle_grp(1) [of i h "vb1 K"] that vl vb hd
    by (simp_all add: brow_def)
  have ac: "acc K ?h k i = acc K h k i" if "k < nrows K" "i < vl" for k i
    using vle_acc [OF K] vl hd(2) that vb(2) by simp
  obtain ts' h' where run: "mm_rows K (vop_vf ?f) (vb0 K) (a + 4 * of_nat (Suc n)) N (ts, ?h) = (ts', h')" by fastforce
  have "length ts = nrows K" by (simp add: hd(3))
  then have res: "ts' = column K m (a + 4 * of_nat (Suc n)) N" "hmem h' = m" "hvl h' = vl"
    "\<And>k i. k < nrows K \<Longrightarrow> i < vl \<Longrightarrow> acc K h' k i = ?f (acc K h k i) (scal m a N k n) (brow m b P n i)"
    "\<And>i. i < vl \<Longrightarrow> grp h' (vb1 K) i = brow m b P (Suc n) i"
    using mm_rows_result [OF K, where h = ?h and vb = "vb0 K" and ts = ts and f = ?f and a = "a + 4 * of_nat (Suc n)" and N = N] vl vb run hd(1,2) g ac
    by (auto simp: hd(3) column_scal)
  have "?f (acc K h k i) (scal m a N k n) (brow m b P n i) =
      partial fmul fmacc (scal m a N k) (\<lambda>q. brow m b P q i) (Suc n)" if "k < nrows K" "i < vl" for k i
    using hd(5) [OF _ that] by (cases "n = 0") (simp_all add: partial_1 partial_Suc)
  then show ?thesis unfolding op run using res by (simp add: loop_tail_def)
qed

lemma second_half:
  assumes K: "good K" and vl: "vl \<le> 16 * lm K" and tail: "loop_tail fmul fmacc K m vl a b N P n ts h" and n: "0 < n"
  shows "case mm_rows K (vfmacc_vf fmacc) (vb1 K) (a + 4 * of_nat (Suc n)) N
      (ts, vle32 (vb0 K) (b + 4 * (of_nat (Suc n) * P)) h) of (ts', h') \<Rightarrow>
    loop_head fmul fmacc K m vl a b N P (Suc n) ts' h'"
proof -
  let ?h = "vle32 (vb0 K) (b + 4 * (of_nat (Suc n) * P)) h"
  have hd: "hmem h = m" "hvl h = vl" "ts = column K m (a + 4 * of_nat n) N" "\<And>i. i < vl \<Longrightarrow> grp h (vb1 K) i = brow m b P n i"
    "\<And>k i. k < nrows K \<Longrightarrow> i < vl \<Longrightarrow> acc K h k i = partial fmul fmacc (scal m a N k) (\<lambda>q. brow m b P q i) n"
    using tail by (auto simp: loop_tail_def)
  have vb: "16 \<le> vb0 K" "16 \<le> vb1 K" "vb0 K + lm K \<le> vb1 K" using K by (auto simp: good_def)
  have g: "grp ?h (vb1 K) i = brow m b P n i" "grp ?h (vb0 K) i = brow m b P (Suc n) i" if "i < vl" for i
    using vle_grp(2) [of i h "lm K" "vb1 K" "vb0 K"] vle_grp(1) [of i h "vb0 K"] that vl vb hd
    by (simp_all add: brow_def)
  have ac: "acc K ?h k i = acc K h k i" if "k < nrows K" "i < vl" for k i
    using vle_acc [OF K] vl hd(2) that vb(1) by simp
  obtain ts' h' where run: "mm_rows K (vop_vf fmacc) (vb1 K) (a + 4 * of_nat (Suc n)) N (ts, ?h) = (ts', h')" by fastforce
  have "length ts = nrows K" by (simp add: hd(3))
  then have "ts' = column K m (a + 4 * of_nat (Suc n)) N" "hmem h' = m" "hvl h' = vl"
    "\<And>k i. k < nrows K \<Longrightarrow> i < vl \<Longrightarrow> acc K h' k i = fmacc (acc K h k i) (scal m a N k n) (brow m b P n i)"
    "\<And>i. i < vl \<Longrightarrow> grp h' (vb0 K) i = brow m b P (Suc n) i"
    using mm_rows_result [OF K, where h = ?h and vb = "vb1 K" and ts = ts and f = fmacc and a = "a + 4 * of_nat (Suc n)" and N = N] vl vb run hd(1,2) g ac
    by (auto simp: hd(3) column_scal)
  then show ?thesis unfolding vfmacc_vf_def run using hd(5) n by (simp add: loop_head_def partial_Suc)
qed

lemma mm_loop_result:
  assumes K: "good K" and vl: "vl \<le> 16 * lm K" and N: "unat N = 2 * Q"
  shows "q < Q \<Longrightarrow> loop_head fmul fmacc K m vl a b N P (2 * q) ts h \<Longrightarrow>
    \<exists>ts' h'. mm_loop fmul fmacc K a N P (of_nat (2 * q)) (b + 4 * (of_nat (Suc (2 * q)) * P)) (ts, h) = Some (ts', h') \<and>
      loop_tail fmul fmacc K m vl a b N P (unat N - 1) ts' h'"
proof (induction "Q - q" arbitrary: q ts h)
  case (Suc d)
  have bnd: "2 * q + 2 \<le> 2 * Q" "2 * Q < 4294967296" using Suc.prems(1) N unat_u32_less [of N] by simp_all
  then have u: "unat (of_nat (2 * q) :: u32) = 2 * q" "unat (of_nat (Suc (2 * q)) :: u32) = Suc (2 * q)"
    "unat (of_nat (Suc (Suc (2 * q))) :: u32) = Suc (Suc (2 * q))"
    by (simp_all add: unat_of_nat_u32 del: of_nat_Suc of_nat_mult)
  have n1: "(of_nat (2 * q) + 1 :: u32) = of_nat (Suc (2 * q))" "(of_nat (Suc (2 * q)) + 1 :: u32) = of_nat (Suc (Suc (2 * q)))"
    by simp_all
  have less: "(of_nat (2 * q) :: u32) < N" using u bnd N by (simp add: word_less_nat_alt del: of_nat_mult)
  have first: "(of_nat (Suc (2 * q)) :: u32) = 1 \<longleftrightarrow> 2 * q = 0"
    using u(2) by (simp add: word_unat_eq_iff del: of_nat_mult of_nat_Suc)
  have last: "(of_nat (Suc (Suc (2 * q))) :: u32) = N \<longleftrightarrow> Suc q = Q"
    using u(3) N by (auto simp: word_unat_eq_iff simp del: of_nat_mult of_nat_Suc)
  have b1: "b + 4 * (of_nat (Suc n) * P) + 4 * P = b + 4 * (of_nat (Suc (Suc n)) * P)" for n
    by (simp add: algebra_simps)
  obtain ts1 h1 where r1: "mm_rows K (if 2 * q = 0 then vfmul_vf fmul else vfmacc_vf fmacc) (vb0 K)
      (a + 4 * of_nat (Suc (2 * q))) N (ts, vle32 (vb1 K) (b + 4 * (of_nat (Suc (2 * q)) * P)) h) = (ts1, h1)" by fastforce
  have t1: "loop_tail fmul fmacc K m vl a b N P (Suc (2 * q)) ts1 h1"
    using first_half [OF K vl Suc.prems(2)] r1 by simp
  show ?case
  proof (cases "Suc q = Q")
    case True
    then have "mm_loop fmul fmacc K a N P (of_nat (2 * q)) (b + 4 * (of_nat (Suc (2 * q)) * P)) (ts, h) = Some (ts1, h1)"
      using less last by (subst mm_loop.simps) (simp only: n1 first r1 Let_def fst_conv snd_conv if_True simp_thms)
    moreover have "unat N - 1 = Suc (2 * q)" using True N by simp
    ultimately show ?thesis using t1 by simp
  next
    case False
    obtain ts2 h2 where r2: "mm_rows K (vfmacc_vf fmacc) (vb1 K) (a + 4 * of_nat (Suc (Suc (2 * q)))) N
        (ts1, vle32 (vb0 K) (b + 4 * (of_nat (Suc (Suc (2 * q))) * P)) h1) = (ts2, h2)" by fastforce
    have "loop_head fmul fmacc K m vl a b N P (Suc (Suc (2 * q))) ts2 h2"
      using second_half [OF K vl t1] r2 by simp
    then have h2: "loop_head fmul fmacc K m vl a b N P (2 * Suc q) ts2 h2" by simp
    have "mm_loop fmul fmacc K a N P (of_nat (2 * q)) (b + 4 * (of_nat (Suc (2 * q)) * P)) (ts, h) =
        mm_loop fmul fmacc K a N P (of_nat (Suc (Suc (2 * q)))) (b + 4 * (of_nat (Suc (Suc (Suc (2 * q)))) * P)) (ts2, h2)"
      using less last False
      by (subst mm_loop.simps) (simp only: n1 first r1 r2 b1 Let_def fst_conv snd_conv if_True if_False simp_thms)
    then show ?thesis using Suc.hyps(1) [of "Suc q" ts2 h2] Suc.hyps(2) Suc.prems(1) False h2 by simp
  qed
qed simp


section \<open>A block of rows\<close>

lemma vse32_row: "hmem (vse32 (lm K * d) x h) = store_words (hmem h) x (map (acc K h d) [0..<hvl h])"
  "acc K (vse32 v x h) = acc K h" "grp (vse32 v x h) = grp h"
  by (simp_all add: vse32_def acc_def [abs_def] grp_def [abs_def])

lemma mm_finish_result:
  assumes K: "good K" and vl: "vl \<le> 16 * lm K" and n: "0 < n"
    and tail: "loop_tail fmul fmacc K m vl a b N P n ts h"
    and w: "written m0 C M (unat P) v D m" and r: "r + nrows K \<le> M" and p: "p + vl \<le> unat P"
    and sz: "M * unat P \<le> 1073741824" and c: "c = cell C (unat P) r p"
    and v: "\<And>k i. k < nrows K \<Longrightarrow> i < vl \<Longrightarrow>
      v (r + k) (p + i) = partial fmul fmacc (scal m a N k) (\<lambda>q. brow m b P q i) (Suc n)"
  shows "written m0 C M (unat P) v (\<lambda>i j. D i j \<or> r \<le> i \<and> i < r + nrows K \<and> p \<le> j \<and> j < p + vl)
      (hmem (mm_finish fmacc K c P (ts, h))) \<and> hvl (mm_finish fmacc K c P (ts, h)) = vl"
proof -
  let ?run = "\<lambda>d. fold (\<lambda>k h. vse32 (lm K * k) (c + 4 * (of_nat k * P)) (vfmacc_vf fmacc (lm K * k) (ts ! k) (vb1 K) h)) [0..<d] h"
  have vb: "16 \<le> vb1 K" using K by (simp add: good_def)
  have "written m0 C M (unat P) v (\<lambda>i j. D i j \<or> r \<le> i \<and> i < r + d \<and> p \<le> j \<and> j < p + vl) (hmem (?run d)) \<and>
      hvl (?run d) = vl \<and> (\<forall>k<nrows K. \<forall>i<vl. d \<le> k \<longrightarrow> acc K (?run d) k i = acc K h k i) \<and>
      (\<forall>i<vl. grp (?run d) (vb1 K) i = grp h (vb1 K) i)" if "d \<le> nrows K" for d
    using that
  proof (induction d)
    case 0
    then show ?case using w tail by (auto simp: loop_tail_def elim!: written_cong)
  next
    case (Suc d)
    let ?h = "?run d" and ?g = "vfmacc_vf fmacc (lm K * d) (ts ! d) (vb1 K) (?run d)"
    have d: "d < nrows K" using Suc.prems by simp
    have IH: "written m0 C M (unat P) v (\<lambda>i j. D i j \<or> r \<le> i \<and> i < r + d \<and> p \<le> j \<and> j < p + vl) (hmem ?h)"
      "hvl ?h = vl" "\<And>k i. k < nrows K \<Longrightarrow> i < vl \<Longrightarrow> d \<le> k \<Longrightarrow> acc K ?h k i = acc K h k i"
      "\<And>i. i < vl \<Longrightarrow> grp ?h (vb1 K) i = grp h (vb1 K) i"
      using Suc by auto
    have g: "hmem ?g = hmem ?h" "hvl ?g = vl" "grp ?g (vb1 K) i = grp h (vb1 K) i"
      "acc K ?g k i = (if k = d then fmacc (acc K ?h k i) (ts ! d) (grp ?h (vb1 K) i) else acc K ?h k i)" if "i < vl" for i k
      using vop_acc [where K = K and h = ?h and r = d] vop_grp [OF K, where h = ?h and r = d] IH(2,4) vl vb d that
      by (simp_all add: vfmacc_vf_def)
    have val: "acc K ?g d i = v (r + d) (p + i)" if "i < vl" for i
      using g(4) [OF that, of d] IH(3) [OF d that] IH(4) [OF that] v [OF d that] tail d that n
      by (simp add: loop_tail_def column_scal partial_Suc)
    have at: "c + 4 * (of_nat d * P) = cell C (unat P) (r + d) p"
      by (simp add: c cell_def algebra_simps)
    have "written m0 C M (unat P) v (\<lambda>i j. (D i j \<or> r \<le> i \<and> i < r + d \<and> p \<le> j \<and> j < p + vl) \<or>
        i = r + d \<and> p \<le> j \<and> j < p + length (map (acc K ?g d) [0..<vl]))
        (store_words (hmem ?h) (cell C (unat P) (r + d) p) (map (acc K ?g d) [0..<vl]))"
      by (rule written_store_words [OF IH(1) _ _ sz]) (use r d p val in simp_all)
    moreover have "hmem ?g = hmem ?h" "hvl ?g = vl" using IH(2) by (simp_all add: vfmacc_vf_def)
    ultimately have "written m0 C M (unat P) v (\<lambda>i j. D i j \<or> r \<le> i \<and> i < r + Suc d \<and> p \<le> j \<and> j < p + vl)
        (hmem (vse32 (lm K * d) (cell C (unat P) (r + d) p) ?g))"
      by (auto simp: vse32_row elim!: written_cong)
    then show ?case using g IH(2,3) \<open>hvl ?g = vl\<close> by (simp add: at vse32_row)
  qed
  from this [of "nrows K"] show ?thesis by (simp add: mm_finish_def)
qed


text \<open>Element \<open>(i, j)\<close> of the product, with the terms added in the order of the inner index.\<close>

definition dot :: "(u32 \<Rightarrow> u32 \<Rightarrow> u32) \<Rightarrow> (u32 \<Rightarrow> u32 \<Rightarrow> u32 \<Rightarrow> u32) \<Rightarrow> mem \<Rightarrow> u32 \<Rightarrow> u32 \<Rightarrow> nat \<Rightarrow> nat \<Rightarrow> nat \<Rightarrow> nat \<Rightarrow> u32" where
  "dot fmul fmacc m a b N P i j =
     partial fmul fmacc (\<lambda>n. load32 m (cell a N i n)) (\<lambda>n. load32 m (cell b P n j)) N"

lemma mm_block_result:
  assumes K: "good K" and vl: "vl \<le> 16 * lm K" "hvl h = vl" and N: "unat N = 2 * Q" "0 < Q"
    and o: "operands_apart c a b M (unat N) (unat P)"
    and w: "written m0 c M (unat P) (dot fmul fmacc m0 a b (unat N) (unat P)) D (hmem h)"
    and r: "unat r + nrows K \<le> M" and p: "unat p + vl \<le> unat P"
  shows "\<exists>h'. mm_block fmul fmacc K (c + 4 * p) a (b + 4 * p) N P r h = Some h' \<and> hvl h' = vl \<and>
    written m0 c M (unat P) (dot fmul fmacc m0 a b (unat N) (unat P))
      (\<lambda>i j. D i j \<or> unat r \<le> i \<and> i < unat r + nrows K \<and> unat p \<le> j \<and> j < unat p + vl) (hmem h')"
proof -
  let ?m = "hmem h" and ?h = "vle32 (vb0 K) (b + 4 * p) h" and ?ts = "column K (hmem h) (a + 4 * (r * N)) N"
  have head: "loop_head fmul fmacc K ?m vl (a + 4 * (r * N)) (b + 4 * p) N P 0 ?ts ?h"
    using vl by (simp add: loop_head_def vle_grp brow_def)
  obtain ts h' where run: "mm_loop fmul fmacc K (a + 4 * (r * N)) N P 0 (b + 4 * p + 4 * P) (?ts, ?h) = Some (ts, h')"
    and tail: "loop_tail fmul fmacc K ?m vl (a + 4 * (r * N)) (b + 4 * p) N P (unat N - 1) ts h'"
    using mm_loop_result [OF K vl(1) N, where fmul = fmul and fmacc = fmacc and m = ?m and a = "a + 4 * (r * N)"
        and b = "b + 4 * p" and P = P and ts = ?ts and h = ?h] head by auto
  have val: "dot fmul fmacc m0 a b (unat N) (unat P) (unat r + k) (unat p + i) =
      partial fmul fmacc (scal ?m (a + 4 * (r * N)) N k) (\<lambda>q. brow ?m (b + 4 * p) P q i) (Suc (unat N - 1))"
    if "k < nrows K" "i < vl" for k i
  proof -
    have "scal ?m (a + 4 * (r * N)) N k n = load32 ?m (cell a (unat N) (unat r + k) n)" for n
      by (simp add: scal_def cell_def algebra_simps)
    moreover have "brow ?m (b + 4 * p) P q i = load32 ?m (cell b (unat P) q (unat p + i))" for q
      by (simp add: brow_def cell_def algebra_simps)
    ultimately show ?thesis
      using operands_kept [OF o w] r p that N unfolding dot_def by (auto intro!: partial_cong)
  qed
  have "mm_block fmul fmacc K (c + 4 * p) a (b + 4 * p) N P r h =
      Some (mm_finish fmacc K (c + 4 * p + 4 * (r * P)) P (ts, h'))"
    using run by (simp add: mm_block_def column_def)
  moreover have "c + 4 * p + 4 * (r * P) = cell c (unat P) (unat r) (unat p)"
    by (simp add: cell_def algebra_simps)
  moreover have "hmem h' = ?m" using tail by (simp add: loop_tail_def)
  ultimately show ?thesis
    using mm_finish_result [OF K vl(1) _ tail w r p _ _ val] N o
    by (simp add: operands_apart_def)
qed


section \<open>All blocks and all columns\<close>

text \<open>The rows and columns whose elements a call computes.\<close>

definition tile :: "nat \<Rightarrow> nat \<Rightarrow> nat \<Rightarrow> nat \<Rightarrow> nat \<Rightarrow> nat \<Rightarrow> bool" where
  "tile r r' p p' i j \<longleftrightarrow> r \<le> i \<and> i < r' \<and> p \<le> j \<and> j < p'"

lemma mm_rowblocks_result:
  assumes K: "good K" and vl: "vl \<le> 16 * lm K" and N: "unat N = 2 * Q" "0 < Q"
    and o: "operands_apart c a b M (unat N) (unat P)" and p: "unat p + vl \<le> unat P" and M: "M < 4294967296"
  shows "unat m_end \<le> unat r + d * nrows K \<Longrightarrow> unat r + d * nrows K < unat m_end + nrows K \<Longrightarrow>
    unat r + d * nrows K \<le> M \<Longrightarrow> hvl h = vl \<Longrightarrow>
    written m0 c M (unat P) (dot fmul fmacc m0 a b (unat N) (unat P)) D (hmem h) \<Longrightarrow>
    \<exists>h'. mm_rowblocks fmul fmacc K (c + 4 * p) a (b + 4 * p) N P m_end r h = Some h' \<and> hvl h' = vl \<and>
      written m0 c M (unat P) (dot fmul fmacc m0 a b (unat N) (unat P))
        (\<lambda>i j. D i j \<or> tile (unat r) (unat r + d * nrows K) (unat p) (unat p + vl) i j) (hmem h')"
proof (induction d arbitrary: r D h)
  case 0
  then show ?case
    by (subst mm_rowblocks.simps) (auto simp: word_less_nat_alt tile_def elim!: written_cong)
next
  case (Suc d)
  have fit: "unat r + nrows K \<le> M" using Suc.prems(3) by simp
  have less: "r < m_end" using Suc.prems(2) by (simp add: word_less_nat_alt)
  have next': "unat (r + of_nat (nrows K)) = unat r + nrows K"
    using fit M by (simp add: unat_add_u32 unat_of_nat)
  obtain h1 where h1: "mm_block fmul fmacc K (c + 4 * p) a (b + 4 * p) N P r h = Some h1" "hvl h1 = vl"
    "written m0 c M (unat P) (dot fmul fmacc m0 a b (unat N) (unat P))
      (\<lambda>i j. D i j \<or> unat r \<le> i \<and> i < unat r + nrows K \<and> unat p \<le> j \<and> j < unat p + vl) (hmem h1)"
    using mm_block_result [OF K vl Suc.prems(4) N o Suc.prems(5) fit p] by auto
  have "unat m_end \<le> unat (r + of_nat (nrows K)) + d * nrows K"
    "unat (r + of_nat (nrows K)) + d * nrows K < unat m_end + nrows K"
    "unat (r + of_nat (nrows K)) + d * nrows K \<le> M"
    using Suc.prems(1-3) next' by simp_all
  from Suc.IH [OF this h1(2,3)]
  obtain h' where h': "mm_rowblocks fmul fmacc K (c + 4 * p) a (b + 4 * p) N P m_end (r + of_nat (nrows K)) h1 = Some h'"
    "hvl h' = vl" "written m0 c M (unat P) (dot fmul fmacc m0 a b (unat N) (unat P))
      (\<lambda>i j. (D i j \<or> unat r \<le> i \<and> i < unat r + nrows K \<and> unat p \<le> j \<and> j < unat p + vl) \<or>
        tile (unat (r + of_nat (nrows K))) (unat (r + of_nat (nrows K)) + d * nrows K) (unat p) (unat p + vl) i j) (hmem h')"
    by auto
  have "mm_rowblocks fmul fmacc K (c + 4 * p) a (b + 4 * p) N P m_end r h = Some h'"
    using less h1(1) h'(1) by (subst mm_rowblocks.simps) simp
  moreover have "written m0 c M (unat P) (dot fmul fmacc m0 a b (unat N) (unat P))
      (\<lambda>i j. D i j \<or> tile (unat r) (unat r + Suc d * nrows K) (unat p) (unat p + vl) i j) (hmem h')"
    using h'(3) by (rule written_cong) (auto simp: tile_def next')
  ultimately show ?case using h'(2) by simp
qed

lemma mm_columns_result:
  assumes K: "good K" and N: "unat N = 2 * Q" "0 < Q" and o: "operands_apart c a b M (unat N) (unat P)"
    and M: "M < 4294967296" and r: "unat m_end \<le> unat m_start + d * nrows K"
      "unat m_start + d * nrows K < unat m_end + nrows K" "unat m_start + d * nrows K \<le> M" and pe: "p_end \<le> P"
  shows "p \<le> p_end \<Longrightarrow> written m0 c M (unat P) (dot fmul fmacc m0 a b (unat N) (unat P)) D (hmem h) \<Longrightarrow>
    \<exists>h'. mm_columns fmul fmacc K c a b m_start m_end N P p_end p h = Some h' \<and>
      written m0 c M (unat P) (dot fmul fmacc m0 a b (unat N) (unat P))
        (\<lambda>i j. D i j \<or> tile (unat m_start) (unat m_start + d * nrows K) (unat p) (unat p_end) i j) (hmem h')"
proof (induction "unat p_end - unat p" arbitrary: p D h rule: less_induct)
  case less
  show ?case
  proof (cases "p < p_end")
    case False
    then show ?thesis using less.prems
      by (subst mm_columns.simps) (auto simp: word_less_nat_alt tile_def elim!: written_cong)
  next
    case True
    let ?h = "vsetvli (lm K) (unat (p_end - p)) h"
    let ?vl = "hvl ?h"
    have pos: "0 < lm K" using K by (cases "lm K") (auto simp: good_def)
    have u: "unat (p_end - p) = unat p_end - unat p" using True by (simp add: unat_sub_u32 word_less_nat_alt)
    have vl: "?vl \<le> 16 * lm K" "0 < ?vl" "unat p + ?vl \<le> unat p_end"
      using pos True by (auto simp: u word_less_nat_alt)
    have next': "unat (p + of_nat ?vl) = unat p + ?vl"
      using vl(3) unat_u32_less [of p_end] by (simp add: unat_add_u32 unat_of_nat del: vsetvli_simps)
    have "unat p + ?vl \<le> unat P" using vl(3) pe by (simp add: word_le_nat_alt)
    from mm_rowblocks_result [OF K vl(1) N o this M r refl, of m0 fmul fmacc D] less.prems(2)
    obtain h1 where h1: "mm_rowblocks fmul fmacc K (c + 4 * p) a (b + 4 * p) N P m_end m_start ?h = Some h1"
      "written m0 c M (unat P) (dot fmul fmacc m0 a b (unat N) (unat P))
        (\<lambda>i j. D i j \<or> tile (unat m_start) (unat m_start + d * nrows K) (unat p) (unat p + ?vl) i j) (hmem h1)" by auto
    have "unat p_end - unat (p + of_nat ?vl) < unat p_end - unat p" "p + of_nat ?vl \<le> p_end"
      using vl next' by (simp_all add: word_le_nat_alt del: vsetvli_simps)
    from less.hyps [OF this h1(2)]
    obtain h' where h': "mm_columns fmul fmacc K c a b m_start m_end N P p_end (p + of_nat ?vl) h1 = Some h'"
      "written m0 c M (unat P) (dot fmul fmacc m0 a b (unat N) (unat P))
        (\<lambda>i j. (D i j \<or> tile (unat m_start) (unat m_start + d * nrows K) (unat p) (unat p + ?vl) i j) \<or>
          tile (unat m_start) (unat m_start + d * nrows K) (unat (p + of_nat ?vl)) (unat p_end) i j) (hmem h')" by blast
    have "mm_columns fmul fmacc K c a b m_start m_end N P p_end p h = Some h'"
      using True h1(1) h'(1) by (subst mm_columns.simps) (simp add: Let_def del: vsetvli_simps)
    moreover have "written m0 c M (unat P) (dot fmul fmacc m0 a b (unat N) (unat P))
        (\<lambda>i j. D i j \<or> tile (unat m_start) (unat m_start + d * nrows K) (unat p) (unat p_end) i j) (hmem h')"
      using h'(2) by (rule written_cong) (use vl in \<open>auto simp: tile_def next' simp del: vsetvli_simps\<close>)
    ultimately show ?thesis by simp
  qed
qed


section \<open>Properties\<close>

definition row_blocks :: "nat \<Rightarrow> u32 \<Rightarrow> u32 \<Rightarrow> nat" where
  "row_blocks R m_start m_end = (unat m_end - unat m_start + R - 1) div R"

lemma row_blocks_bounds:
  assumes "m_start \<le> m_end" "0 < R"
  shows "unat m_end \<le> unat m_start + row_blocks R m_start m_end * R"
    "unat m_start + row_blocks R m_start m_end * R < unat m_end + R"
proof -
  let ?x = "unat m_end - unat m_start"
  have "(?x + R - 1) div R * R + (?x + R - 1) mod R = ?x + R - 1" by simp
  moreover have "(?x + R - 1) mod R < R" using assms(2) by simp
  moreover have "unat m_start \<le> unat m_end" using assms(1) by (simp add: word_le_nat_alt)
  ultimately show "unat m_end \<le> unat m_start + row_blocks R m_start m_end * R"
    "unat m_start + row_blocks R m_start m_end * R < unat m_end + R"
    unfolding row_blocks_def using assms(2) by linarith+
qed

lemma row_blocks_exact: "unat e = unat s + R * k \<Longrightarrow> 0 < R \<Longrightarrow> row_blocks R s e * R = R * k"
proof -
  assume e: "unat e = unat s + R * k" and R: "0 < R"
  then have "unat e - unat s + R - 1 = (R - 1) + k * R" by (simp add: mult.commute)
  then have "row_blocks R s e = (R - 1 + k * R) div R" by (simp only: row_blocks_def)
  then show ?thesis using R div_mult_self1 [of R "R - 1" k] by (simp del: div_mult_self1 div_mult_self1_is_m)
qed

lemma kernel_result:
  assumes "kernel_of fmul fmacc R = Some mm" "even (unat N)" "0 < N" "operands_apart c a b M (unat N) (unat P)"
    and "M < 4294967296" "m_start \<le> m_end" "unat m_start + row_blocks R m_start m_end * R \<le> M" "p_start \<le> p_end" "p_end \<le> P"
    and w: "written m0 c M (unat P) (dot fmul fmacc m0 a b (unat N) (unat P)) D (hmem h)"
  shows "\<exists>h'. mm c a b m_start m_end N P p_start p_end h = Some h' \<and>
    written m0 c M (unat P) (dot fmul fmacc m0 a b (unat N) (unat P))
      (\<lambda>i j. D i j \<or> tile (unat m_start) (unat m_start + row_blocks R m_start m_end * R) (unat p_start) (unat p_end) i j)
      (hmem h')"
proof -
  have N: "unat N = 2 * (unat N div 2)" "0 < unat N div 2"
    using assms(2,3) by (auto simp: word_less_nat_alt elim!: evenE)
  have "\<exists>K. good K \<and> nrows K = R \<and> (\<forall>h. mm c a b m_start m_end N P p_start p_end h =
      mm_columns fmul fmacc K c a b m_start m_end N P p_end p_start h)"
    using assms(1) goods
    by (auto simp: kernel_of_def matmul_2xVL_def matmul_4xVL_def matmul_8xVL_def split: if_splits)
  then obtain K where K: "good K" "nrows K = R" "mm c a b m_start m_end N P p_start p_end h =
      mm_columns fmul fmacc K c a b m_start m_end N P p_end p_start h" by blast
  have "0 < R" using K by (cases R) (auto simp: good_def)
  note b = row_blocks_bounds [OF assms(6) this]
  show ?thesis unfolding K(3)
    using mm_columns_result [where d = "row_blocks R m_start m_end" and p = p_start, OF K(1) N assms(4,5) _ _ _ assms(9,8) w]
      b assms(7) by (simp add: K(2))
qed

lemma cores_result:
  assumes k: "kernel_of fmul fmacc R = Some mm" and K: "even (unat K)" "0 < K" and o: "operands_apart C A B M (unat K) (unat N)"
    and M: "M < 4294967296" and q: "M = length hs * q" "R dvd q" "0 < q"
    and w: "written m0 C M (unat N) (dot fmul fmacc m0 A B (unat K) (unat N)) D m"
  shows "\<exists>hs' m'. run_cores (\<lambda>cid. mm C A B (of_nat q * cid) (of_nat q * (cid + 1)) K N 0 N) 0 hs m = Some (hs', m') \<and>
    length hs' = length hs \<and> written m0 C M (unat N) (dot fmul fmacc m0 A B (unat K) (unat N)) (\<lambda>_ _. True) m'"
proof -
  let ?W = "written m0 C M (unat N) (dot fmul fmacc m0 A B (unat K) (unat N))"
  let ?S = "\<lambda>k. tile (k * q) (k * q + q) 0 (unat N)"
  let ?call = "\<lambda>cid. mm C A B (of_nat q * cid) (of_nat q * (cid + 1)) K N 0 N"
  have step: "\<exists>h'. mm C A B (of_nat q * of_nat cid) (of_nat q * (of_nat cid + 1)) K N 0 N h = Some h' \<and>
      ?W (\<lambda>i j. D i j \<or> ?S cid i j) (hmem h')" if "cid < length hs" "?W D (hmem h)" for cid D h
  proof -
    let ?s = "of_nat q * of_nat cid :: u32" and ?e = "of_nat q * (of_nat cid + 1) :: u32"
    have le: "Suc cid * q \<le> M" unfolding q(1) using that(1) by (intro mult_le_mono1) simp
    have e: "?s = of_nat (cid * q)" "?e = of_nat (Suc cid * q)" by (simp_all add: algebra_simps)
    have u: "unat ?s = cid * q" "unat ?e = Suc cid * q"
      unfolding e using le M by (intro unat_of_nat_u32; simp)+
    have "0 < R" using k by (auto simp: kernel_of_def split: if_splits)
    then have blocks: "row_blocks R ?s ?e * R = q"
      using q(2) u by (auto intro!: row_blocks_exact elim!: dvdE)
    have "?s \<le> ?e" using u by (simp add: word_le_nat_alt)
    from kernel_result [where p_start = 0 and p_end = N and h = h, OF k K o M this _ _ _ that(2)] u blocks le
    show ?thesis by auto
  qed
  from run_cores_result [where W = ?W and S = ?S and call = ?call and n = "length hs" and cid = 0 and hs = hs, OF step _ w]
  obtain hs' m' where r: "run_cores ?call 0 hs m = Some (hs', m')"
    "length hs' = length hs" "?W (\<lambda>i j. D i j \<or> (\<exists>k. 0 \<le> k \<and> k < length hs \<and> ?S k i j)) m'" by auto
  have "\<exists>k < length hs. k * q \<le> i \<and> i < k * q + q" if "i < M" for i
    using shares [OF q(3), of "length hs" i] that q(1) by simp
  then have "?W (\<lambda>_ _. True) m'" using written_cong [OF r(3)] by (simp add: tile_def)
  then show ?thesis using r by blast
qed

text \<open>
  C22: the matrix program computes the matrix product. When \<open>K\<close> is even and not zero and every core gets a
  whole number of row blocks, both turns end, for each of the three kernels and any number of cores, and every
  element of the result is \<open>fmul\<close> of the first pair followed by \<open>fmacc\<close> with the further pairs in order (\<open>dot\<close>),
  which is what the plain triple loop computes: the software pipeline neither loses nor reorders a term. No
  word apart from the result changes (\<open>written\<close>).
\<close>

theorem fmatmul_computes_product:
  assumes "kernel_size \<in> {2, 4, 8}" "hs \<noteq> []" "length hs * kernel_size dvd unat M" "0 < M"
    and "even (unat K)" "0 < K" "operands_apart C A B (unat M) (unat K) (unat N)"
  shows "\<exists>hs' m'. fmatmul_main fmul fmacc kernel_size A B C M N K hs m = Inr (Some (hs', m')) \<and>
    written m C (unat M) (unat N) (dot fmul fmacc m A B (unat K) (unat N)) (\<lambda>_ _. True) m'"
proof -
  obtain mm where mm: "kernel_of fmul fmacc kernel_size = Some mm" using assms(1) by (auto simp: kernel_of_def)
  obtain d where "unat M = length hs * kernel_size * d" using assms(3) by (auto elim!: dvdE)
  then obtain q where M: "unat M = length hs * q" "kernel_size dvd q" by (metis dvd_triv_left mult.assoc)
  have q: "0 < q" "length hs \<le> unat M" "q \<le> unat M"
    using M(1) assms(2,4) by (auto simp: word_less_nat_alt Suc_le_eq intro!: gr0I)
  have "M = of_nat (length hs * q)" using M(1) by (rule u32_eqI)
  then have per: "M div of_nat (length hs) = of_nat q"
    using M(1) assms(2) of_nat_div_u32 [of "length hs * q" "length hs"] unat_u32_less [of M]
      le_less_trans [OF q(2) unat_u32_less] by simp
  have turn: "\<exists>hs'' m''. fmatmul_turn mm A B C M N K hs' m' = Some (hs'', m'') \<and> length hs'' = length hs \<and>
      written m C (unat M) (unat N) (dot fmul fmacc m A B (unat K) (unat N)) (\<lambda>_ _. True) m''"
    if "length hs' = length hs" "written m C (unat M) (unat N) (dot fmul fmacc m A B (unat K) (unat N)) D m'" for hs' m' D
    using cores_result [where hs = hs', OF mm assms(5-7) unat_u32_less _ M(2) q(1) that(2)] that(1) M(1)
    by (simp add: fmatmul_turn_def per)
  obtain hs1 m1 where t1: "fmatmul_turn mm A B C M N K hs m = Some (hs1, m1)" "length hs1 = length hs"
    "written m C (unat M) (unat N) (dot fmul fmacc m A B (unat K) (unat N)) (\<lambda>_ _. True) m1"
    using turn [OF refl written_none] by blast
  from turn [OF t1(2,3)] obtain hs2 m2 where t2: "fmatmul_turn mm A B C M N K hs1 m1 = Some (hs2, m2)"
    "written m C (unat M) (unat N) (dot fmul fmacc m A B (unat K) (unat N)) (\<lambda>_ _. True) m2" by blast
  then show ?thesis using mm t1(1) t2 by (simp add: fmatmul_main_def)
qed


text \<open>
  When the rows of a core are not a whole number of blocks, the kernel computes the rest of the last
  block too: rows of the next core, or behind the last core rows beyond the matrix.
\<close>

theorem fmatmul_rows_overrun:
  assumes "kernel_of fmul fmacc R = Some mm" "even (unat N)" "0 < N" "operands_apart c a b M (unat N) (unat P)"
    and "M < 4294967296" "m_start \<le> m_end" "unat m_start + row_blocks R m_start m_end * R \<le> M"
    and "unat m_end < unat m_start + row_blocks R m_start m_end * R" "j < unat P"
  shows "\<exists>h'. mm c a b m_start m_end N P 0 P h = Some h' \<and>
    load32 (hmem h') (cell c (unat P) (unat m_end) j) = dot fmul fmacc (hmem h) a b (unat N) (unat P) (unat m_end) j"
proof -
  from kernel_result [OF assms(1-7) _ _ written_none, of 0 P h]
  obtain h' where h': "mm c a b m_start m_end N P 0 P h = Some h'"
    "written (hmem h) c M (unat P) (dot fmul fmacc (hmem h) a b (unat N) (unat P))
      (\<lambda>i j. False \<or> tile (unat m_start) (unat m_start + row_blocks R m_start m_end * R) 0 (unat P) i j) (hmem h')" by auto
  have "unat m_start \<le> unat m_end" using assms(6) by (simp add: word_le_nat_alt)
  then have "load32 (hmem h') (cell c (unat P) (unat m_end) j) = dot fmul fmacc (hmem h) a b (unat N) (unat P) (unat m_end) j"
    using h'(2) assms(7-9) by (simp add: written_def tile_def)
  then show ?thesis using h'(1) by blast
qed

section \<open>Examples\<close>

text \<open>Two cores with one block of 2 rows each, and numbers that are integers.\<close>

theorem fmatmul_computes_product_witness:
  "\<exists>hs' m'. fmatmul_main (*) (\<lambda>d x y. d + x * y) 2 0x10000 0x14000 0x20000 4 40 2 [ones_hart, ones_hart] (\<lambda>_. 1)
      = Inr (Some (hs', m')) \<and> load32 m' (cell 0x20000 40 3 39) = 2 * (0x1010101 * 0x1010101)"
proof -
  have "operands_apart 0x20000 0x10000 0x14000 4 2 40" by (rule operands_below_apart) simp_all
  then show ?thesis
    using fmatmul_computes_product [of 2 "[ones_hart, ones_hart]" 4 2 "0x20000" "0x10000" "0x14000" 40 "(*)" "\<lambda>d x y. d + x * y" "\<lambda>_. 1"]
    by (auto simp: written_def dot_def partial_def load32_ones upt_rec)
qed

text \<open>
  The problem of 32 by 32 with 16 cores and blocks of 4 rows: the last core starts at row 30 and also
  writes rows 32 and 33, which the matrix does not have.
\<close>

theorem fmatmul_rows_overrun_witness:
  "\<exists>h'. matmul_4xVL (*) (\<lambda>d x y. d + x * y) 0x20000 0x10000 0x14000 (32 div 16 * 15) (32 div 16 * 16) 32 32 0 32 ones_hart = Some h' \<and>
     load32 (hmem h') (cell 0x20000 32 32 0) = 32 * (0x1010101 * 0x1010101)"
proof -
  have "operands_apart 0x20000 0x10000 0x14000 34 32 32" by (rule operands_below_apart) simp_all
  then show ?thesis
    using fmatmul_rows_overrun [of "(*)" "\<lambda>d x y. d + x * y" 4 "matmul_4xVL (*) (\<lambda>d x y. d + x * y)" 32 "0x20000" "0x10000" "0x14000"
        34 32 30 32 0 ones_hart]
    by (auto simp: kernel_of_def row_blocks_def dot_def partial_def ones_hart_def load32_ones upt_rec)
qed

end
