(* ===== verification/Gemv.thy ===== *)
theory Gemv
  imports Matrix
begin

text \<open>
  The products of a matrix with a vector of \<open>tests/gemv\<close> and \<open>tests/gemv-opt\<close>. The matrix is stored column
  by column, \<open>M\<close> words each; a core computes \<open>M_core\<close> elements of the result, in chunks of one register
  group. The second program is a rewrite of the first: each core starts at another column. Single
  precision numbers are bit patterns, the operations of the floating point unit are parameters.
\<close>

section \<open>The first program\<close>

text \<open>The loop over pairs of columns: the even ones go to the group at \<open>v4\<close>, the odd ones to \<open>v12\<close>.\<close>

function gemv_cols :: "(u32 \<Rightarrow> u32 \<Rightarrow> u32) \<Rightarrow> (u32 \<Rightarrow> u32 \<Rightarrow> u32 \<Rightarrow> u32) \<Rightarrow> int \<Rightarrow> int \<Rightarrow> int \<Rightarrow> u32 \<Rightarrow> u32 \<Rightarrow>
    hart \<Rightarrow> hart" where
  "gemv_cols fmul fmacc M N col a b h =
     (if col < N then
        let op = (if col = 0 then vfmul_vf fmul else vfmacc_vf fmacc);
            h = vle32 0 a h;
            a = a + 4 * of_int M;
            h = op 4 (load32 (hmem h) b) 0 h;
            b = b + 4;
            h = vle32 8 a h;
            a = a + 4 * of_int M;
            h = op 12 (load32 (hmem h) b) 8 h;
            b = b + 4
        in gemv_cols fmul fmacc M N (col + 2) a b h
      else h)"
  by pat_completeness auto

termination gemv_cols
  by (relation "measure (\<lambda>(fmul, fmacc, M, N, col, a, b, h). nat (N - col))") auto

declare gemv_cols.simps [simp del]

text \<open>The loop over the chunks; \<open>a'\<close> is \<open>a_\<close> and \<open>c\<close> is \<open>c_\<close>.\<close>

function gemv_chunks :: "(u32 \<Rightarrow> u32 \<Rightarrow> u32) \<Rightarrow> (u32 \<Rightarrow> u32 \<Rightarrow> u32 \<Rightarrow> u32) \<Rightarrow> (u32 \<Rightarrow> u32 \<Rightarrow> u32) \<Rightarrow> u32 \<Rightarrow> u32 \<Rightarrow> int \<Rightarrow> int \<Rightarrow>
    u32 \<Rightarrow> u32 \<Rightarrow> u32 \<Rightarrow> hart \<Rightarrow> hart" where
  "gemv_chunks fmul fmacc fadd a b M N a' c avl h =
     (let h = vsetvli 4 (unat avl) h;
          vl = of_nat (hvl h);
          h = gemv_cols fmul fmacc M N 0 a' b h;
          h = vop_vv (\<lambda>d x y. fadd x y) 12 12 4 h;
          h = vse32 12 c h;
          avl = avl - vl;
          c = c + 4 * vl;
          a' = a + 4 * avl
      in if 0 < avl then gemv_chunks fmul fmacc fadd a b M N a' c avl h else h)"
  by pat_completeness auto

lemma chunk_less:
  "0 < avl - of_nat (min (unat avl) (16 * l)) \<Longrightarrow> 0 < l \<Longrightarrow> unat (avl - of_nat (min (unat avl) (16 * l))) < unat (avl :: u32)"
proof -
  let ?vl = "min (unat avl) (16 * l)"
  assume a: "0 < avl - of_nat ?vl" "0 < l"
  have "unat (of_nat ?vl :: u32) = ?vl"
    by (rule unat_of_nat_u32) (use unat_u32_less [of avl] in simp)
  then have "unat (avl - of_nat ?vl) = unat avl - ?vl" by (simp add: unat_sub_u32)
  moreover have "0 < unat avl" using a(1) by (auto simp: word_less_nat_alt intro!: gr0I)
  ultimately show ?thesis using a(2) by simp
qed

termination gemv_chunks
  by (relation "measure (\<lambda>(fmul, fmacc, fadd, a, b, M, N, a', c, avl, h). unat avl)")
    (use chunk_less [where l = 4] in auto)

declare gemv_chunks.simps [simp del]

definition gemv_v32b_m4 where
  "gemv_v32b_m4 fmul fmacc fadd a b c M M_core N h = gemv_chunks fmul fmacc fadd a b M N a c (of_int M_core) h"

text \<open>
  \<open>main\<close>: core \<open>cid\<close> gets \<open>M / num_cores\<close> elements, and three turns are made. The sizes, unsigned in
  the layer, become the \<open>int\<close> arguments of the kernel.
\<close>

definition gemv_core :: "(u32 \<Rightarrow> u32 \<Rightarrow> u32) \<Rightarrow> (u32 \<Rightarrow> u32 \<Rightarrow> u32 \<Rightarrow> u32) \<Rightarrow> (u32 \<Rightarrow> u32 \<Rightarrow> u32) \<Rightarrow> u32 \<Rightarrow> u32 \<Rightarrow> u32 \<Rightarrow>
    u32 \<Rightarrow> u32 \<Rightarrow> u32 \<Rightarrow> u32 \<Rightarrow> hart \<Rightarrow> hart option" where
  "gemv_core fmul fmacc fadd A B R M N m_core cid h =
     (let a_core = A + 4 * (m_core * cid);
          result_core = R + 4 * (m_core * cid)
      in Some (gemv_v32b_m4 fmul fmacc fadd a_core B result_core (sint M) (sint m_core) (sint N) h))"

fun turns :: "nat \<Rightarrow> (u32 \<Rightarrow> hart \<Rightarrow> hart option) \<Rightarrow> hart list \<Rightarrow> mem \<Rightarrow> (hart list \<times> mem) option" where
  "turns 0 call hs m = Some (hs, m)"
| "turns (Suc k) call hs m = Option.bind (run_cores call 0 hs m) (\<lambda>(hs, m). turns k call hs m)"

definition gemv_main where
  "gemv_main fmul fmacc fadd A B R M N hs m =
     (let m_core = M div of_nat (length hs) in turns 3 (gemv_core fmul fmacc fadd A B R M N m_core) hs m)"

section \<open>The second program\<close>

definition vmv_v_i :: "nat \<Rightarrow> u32 \<Rightarrow> hart \<Rightarrow> hart" where
  "vmv_v_i vd x h = h\<lparr>hvrf := (\<lambda>k. if 16 * vd \<le> k \<and> k < 16 * vd + hvl h then x else hvrf h k)\<rparr>"

text \<open>A loop over \<open>n\<close> columns.\<close>

fun opt_cols :: "(u32 \<Rightarrow> u32 \<Rightarrow> u32 \<Rightarrow> u32) \<Rightarrow> u32 \<Rightarrow> nat \<Rightarrow> u32 \<Rightarrow> u32 \<Rightarrow> hart \<Rightarrow> hart" where
  "opt_cols fmacc M 0 a_p b_p h = h"
| "opt_cols fmacc M (Suc n) a_p b_p h =
     (let h = vle32 0 a_p h;
          h = vfmacc_vf fmacc 4 (load32 (hmem h) b_p) 0 h
      in opt_cols fmacc M n (a_p + 4 * M) (b_p + 4) h)"

partial_function (option) opt_chunks :: "(u32 \<Rightarrow> u32 \<Rightarrow> u32 \<Rightarrow> u32) \<Rightarrow> nat \<Rightarrow> u32 \<Rightarrow> u32 \<Rightarrow> u32 \<Rightarrow> u32 \<Rightarrow> u32 \<Rightarrow> u32 \<Rightarrow>
    u32 \<Rightarrow> u32 \<Rightarrow> u32 \<Rightarrow> u32 \<Rightarrow> u32 \<Rightarrow> u32 \<Rightarrow> u32 \<Rightarrow> hart \<Rightarrow> hart option" where
  "opt_chunks fmacc l a b c a_offset b_offset M N N_comp avl row_off a_p b_p c_p h =
     (if 0 < avl then
        let h = vsetvli l (unat avl) h;
            vl = of_nat (hvl h);
            h = vmv_v_i 4 0 h;
            h = opt_cols fmacc M (unat N) a_p b_p h;
            a_p = a + 4 * row_off;
            b_p = b;
            h = opt_cols fmacc M (unat N_comp) a_p b_p h;
            h = vse32 4 c_p h;
            avl = avl - vl;
            row_off = row_off + vl;
            a_p = a_offset + 4 * row_off;
            b_p = b_offset;
            c_p = c + 4 * row_off
        in opt_chunks fmacc l a b c a_offset b_offset M N N_comp avl row_off a_p b_p c_p h
      else Some h)"

text \<open>\<open>gemv_v32b_m4\<close>, \<open>gemv_v32b_m2\<close>, \<open>gemv_v32b_m1\<close> are the kernels for \<open>l = 4, 2, 1\<close>.\<close>

definition gemv_opt_v32b where
  "gemv_opt_v32b l fmacc a b c a_offset b_offset M N M_core N_comp h =
     opt_chunks fmacc l a b c a_offset b_offset M N N_comp M_core 0 a_offset b_offset c h"

text \<open>The parameters that \<open>main\<close> computes, for elements of 32 bits.\<close>

definition elem_width :: u32 where "elem_width = 4 * 8"
definition lmul_m1_elem :: u32 where "lmul_m1_elem = 512 div elem_width"
definition l2_block_size :: u32 where "l2_block_size = 512 * 16"
definition l2_block_elem :: u32 where "l2_block_elem = l2_block_size div elem_width"

definition choose_lmul :: "u32 \<Rightarrow> nat option" where
  "choose_lmul m_core =
     (let lmul_max = m_core div lmul_m1_elem
      in if 8 \<le> lmul_max then Some 4
         else if 4 \<le> lmul_max then Some 4
         else if 2 \<le> lmul_max then Some 2
         else if lmul_max = 1 then Some 1
         else None)"

definition col_shift :: "u32 \<Rightarrow> u32 \<Rightarrow> u32 \<Rightarrow> u32" where
  "col_shift M N cid =
     (let l2_block_bytes = l2_block_size div 8;
          col_bytes = M * 4;
          l2_block_cols = (l2_block_bytes + col_bytes - 1) div col_bytes
      in (cid * l2_block_cols) mod N)"

definition gemv_opt_core where
  "gemv_opt_core l fmacc A B R M N m_core cid h =
     (let a_core = A + 4 * (m_core * cid);
          b_core = B;
          r_core = R + 4 * (m_core * cid);
          shift = col_shift M N cid;
          a_offset = a_core + 4 * (shift * M);
          b_offset = b_core + 4 * shift;
          n_core = N - shift;
          comp_size = shift
      in gemv_opt_v32b l fmacc a_core b_core r_core a_offset b_offset M n_core m_core comp_size h)"

definition gemv_opt_main where
  "gemv_opt_main fmacc A B R M N hs m =
     (let m_core = M div of_nat (length hs)
      in case choose_lmul m_core of
           None \<Rightarrow> Inl (-1 :: int)
         | Some l \<Rightarrow>
             if m_core * N < l2_block_elem then Inl (-1)
             else Inr (turns 3 (gemv_opt_core l fmacc A B R M N m_core) hs m))"

section \<open>The second program computes rotated sums\<close>

lemma vmv_v_i_simps [simp]: "hmem (vmv_v_i v x h) = hmem h" "hvl (vmv_v_i v x h) = hvl h"
  "i < hvl h \<Longrightarrow> grp (vmv_v_i v x h) v i = x"
  by (simp_all add: vmv_v_i_def grp_def)

lemma opt_cols_simps [simp]: "hmem (opt_cols fmacc M n a b h) = hmem h" "hvl (opt_cols fmacc M n a b h) = hvl h"
  by (induction n arbitrary: a b h) (simp_all add: vfmacc_vf_def Let_def)

text \<open>The sum over the columns in \<open>qs\<close> for row \<open>r\<close> of the matrix at \<open>a\<close>, from \<open>z\<close> on.\<close>

definition col_sum :: "(u32 \<Rightarrow> u32 \<Rightarrow> u32 \<Rightarrow> u32) \<Rightarrow> mem \<Rightarrow> u32 \<Rightarrow> u32 \<Rightarrow> nat \<Rightarrow> nat \<Rightarrow> u32 \<Rightarrow> nat list \<Rightarrow> u32" where
  "col_sum fmacc m a b M r = foldl (\<lambda>d q. fmacc d (load32 m (b + 4 * of_nat q)) (load32 m (cell a M q r)))"

lemma opt_cols_result:
  assumes "l \<le> 4" "hvl h \<le> 16 * l" "i < hvl h"
  shows "grp (opt_cols fmacc M n (a + 4 * (of_nat s * M) + 4 * of_nat r) (b + 4 * of_nat s) h) 4 i =
    col_sum fmacc (hmem h) a b (unat M) (r + i) (grp h 4 i) [s..<s + n]"
  using assms
proof (induction n arbitrary: s h)
  case (Suc n)
  let ?a = "a + 4 * (of_nat s * M) + 4 * of_nat r" and ?b = "b + 4 * of_nat s"
  let ?h = "vfmacc_vf fmacc 4 (load32 (hmem h) ?b) 0 (vle32 0 ?a h)"
  have next': "?a + 4 * M = a + 4 * (of_nat (Suc s) * M) + 4 * of_nat r" "?b + 4 = b + 4 * of_nat (Suc s)"
    by (simp_all add: algebra_simps)
  have at: "?a + 4 * of_nat i = cell a (unat M) s (r + i)" by (simp add: cell_def algebra_simps)
  have h: "hmem ?h = hmem h" "hvl ?h = hvl h" by (simp_all add: vfmacc_vf_def)
  have g: "grp ?h 4 i = fmacc (grp h 4 i) (load32 (hmem h) ?b) (load32 (hmem h) (cell a (unat M) s (r + i)))"
    using Suc.prems vop_vf_grp(1) [where h = "vle32 0 ?a h" and v = 4] vle_grp(1) [of i h 0 ?a]
      vle_grp(2) [of i h 4 4 0 ?a] by (simp add: vfmacc_vf_def at)
  have upt: "[s..<s + Suc n] = s # [Suc s..<Suc s + n]" by (simp add: upt_conv_Cons del: upt_Suc)
  show ?case unfolding upt
    using Suc.IH [of ?h "Suc s"] Suc.prems g
    by (simp add: next' h col_sum_def Let_def del: upt_Suc of_nat_Suc)
qed (simp add: col_sum_def)

text \<open>Element \<open>r\<close> of the result when the columns from \<open>s\<close> on come first.\<close>

definition opt_ref :: "(u32 \<Rightarrow> u32 \<Rightarrow> u32 \<Rightarrow> u32) \<Rightarrow> mem \<Rightarrow> u32 \<Rightarrow> u32 \<Rightarrow> nat \<Rightarrow> nat \<Rightarrow> nat \<Rightarrow> nat \<Rightarrow> u32" where
  "opt_ref fmacc m a b M N s r = col_sum fmacc m a b M r 0 ([s..<N] @ [0..<s])"

lemma opt_ref_kept:
  assumes "operands_apart c b a 1 N M" "written m0 c 1 M v D m" "r < M" "s \<le> N"
  shows "opt_ref fmacc m a b M N s r = opt_ref fmacc m0 a b M N s r"
  unfolding opt_ref_def col_sum_def
proof (rule foldl_cong)
  fix d q assume "q \<in> set ([s..<N] @ [0..<s])"
  then have "q < N" using assms(4) by auto
  then show "fmacc d (load32 m (b + 4 * of_nat q)) (load32 m (cell a M q r)) =
      fmacc d (load32 m0 (b + 4 * of_nat q)) (load32 m0 (cell a M q r))"
    using operands_kept(1) [OF assms(1,2), of 0 q] operands_kept(2) [OF assms(1,2), of q r] assms(3)
    by (simp add: cell_def)
qed simp_all

text \<open>Both loops over the columns of one chunk.\<close>

lemma opt_chunk_value:
  assumes "0 < l" "l \<le> 4" "hvl h \<le> 16 * l" "i < hvl h" "s \<le> N"
  shows "grp (opt_cols fmacc M (unat s) (a + 4 * of_nat r) b
      (opt_cols fmacc M (unat (N - s)) (a + 4 * (s * M) + 4 * of_nat r) (b + 4 * s) (vmv_v_i 4 0 h))) 4 i =
    opt_ref fmacc (hmem h) a b (unat M) (unat N) (unat s) (r + i)"
proof -
  let ?h = "vmv_v_i 4 0 h"
  let ?h1 = "opt_cols fmacc M (unat (N - s)) (a + 4 * (s * M) + 4 * of_nat r) (b + 4 * s) ?h"
  have "unat s + unat (N - s) = unat N" using assms(5) by (simp add: unat_sub_u32 word_le_nat_alt)
  then have first: "grp ?h1 4 i = col_sum fmacc (hmem h) a b (unat M) (r + i) 0 [unat s..<unat N]"
    using opt_cols_result [where s = "unat s" and h = ?h and n = "unat (N - s)" and a = a and b = b and M = M and r = r and i = i,
        OF assms(2)] assms(3,4) by simp
  show ?thesis
    using opt_cols_result [where s = 0 and h = ?h1 and n = "unat s" and a = a and b = b and M = M and r = r and i = i,
        OF assms(2)] assms(3,4) by (simp add: first opt_ref_def col_sum_def)
qed


lemma opt_chunks_result:
  assumes l: "0 < l" "l \<le> 4" and o: "operands_apart c b a 1 (unat N) (unat M)" and s: "s \<le> N"
    and Mc: "r + Mc \<le> unat M" and v: "\<And>j. r \<le> j \<Longrightarrow> j < r + Mc \<Longrightarrow> v j = opt_ref fmacc m0 a b (unat M) (unat N) (unat s) j"
  shows "d + unat avl = Mc \<Longrightarrow> written m0 c 1 (unat M) (\<lambda>_. v) D (hmem h) \<Longrightarrow>
    \<exists>h'. opt_chunks fmacc l (a + 4 * of_nat r) b (c + 4 * of_nat r) (a + 4 * of_nat r + 4 * (s * M)) (b + 4 * s) M (N - s) s
        avl (of_nat d) (a + 4 * of_nat r + 4 * (s * M) + 4 * of_nat d) (b + 4 * s) (c + 4 * of_nat r + 4 * of_nat d) h = Some h' \<and>
      written m0 c 1 (unat M) (\<lambda>_. v) (\<lambda>i j. D i j \<or> r + d \<le> j \<and> j < r + Mc) (hmem h')"
proof (induction "unat avl" arbitrary: avl d D h rule: less_induct)
  case less
  show ?case
  proof (cases "0 < avl")
    case False
    then show ?thesis using less.prems by (subst opt_chunks.simps) (auto simp: word_less_nat_alt elim!: written_cong)
  next
    case True
    let ?vl = "min (unat avl) (16 * l)"
    let ?h = "vsetvli l (unat avl) h"
    let ?a = "a + 4 * of_nat r"
    let ?h1 = "opt_cols fmacc M (unat (N - s)) (?a + 4 * (s * M) + 4 * of_nat d) (b + 4 * s) (vmv_v_i 4 0 ?h)"
    let ?h2 = "vse32 4 (c + 4 * of_nat r + 4 * of_nat d) (opt_cols fmacc M (unat s) (?a + 4 * of_nat d) b ?h1)"
    have vl: "0 < ?vl" "r + d + ?vl \<le> unat M" "?vl \<le> unat avl"
      using True l less.prems(1) Mc by (auto simp: word_less_nat_alt)
    have u: "unat (avl - of_nat ?vl) = unat avl - ?vl"
      using unat_u32_less [of avl] by (subst unat_sub_u32) (simp add: unat_of_nat_u32)
    have "grp (opt_cols fmacc M (unat s) (?a + 4 * of_nat d) b ?h1) 4 i = v (r + d + i)" if "i < ?vl" for i
      using opt_chunk_value [where h = ?h and r = "r + d" and i = i and a = a and b = b and M = M and fmacc = fmacc, OF l _ _ s]
        that v [of "r + d + i"] vl(2) less.prems(1) opt_ref_kept [OF o less.prems(2)] s Mc
      by (simp add: algebra_simps word_le_nat_alt)
    then have "written m0 c 1 (unat M) (\<lambda>_. v) (\<lambda>i j. D i j \<or> i = 0 \<and> r + d \<le> j \<and> j < r + d + ?vl) (hmem ?h2)"
      using written_store_words [OF less.prems(2), of 0 "r + d" "map (grp (opt_cols fmacc M (unat s) (?a + 4 * of_nat d) b ?h1) 4) [0..<?vl]"]
        vl(2) o by (simp add: vse32_grp cell_def operands_apart_def algebra_simps)
    then have w: "written m0 c 1 (unat M) (\<lambda>_. v) (\<lambda>i j. D i j \<or> r + d \<le> j \<and> j < r + d + ?vl) (hmem ?h2)"
      by (rule written_cong) simp
    have "unat (avl - of_nat ?vl) < unat avl" "(d + ?vl) + unat (avl - of_nat ?vl) = Mc"
      using vl less.prems(1) u by simp_all
    from less.hyps [OF this w] obtain h' where h': "opt_chunks fmacc l ?a b (c + 4 * of_nat r) (?a + 4 * (s * M)) (b + 4 * s) M (N - s) s
        (avl - of_nat ?vl) (of_nat (d + ?vl)) (?a + 4 * (s * M) + 4 * of_nat (d + ?vl)) (b + 4 * s)
        (c + 4 * of_nat r + 4 * of_nat (d + ?vl)) ?h2 = Some h'"
      "written m0 c 1 (unat M) (\<lambda>_. v) (\<lambda>i j. (D i j \<or> r + d \<le> j \<and> j < r + d + ?vl) \<or> r + (d + ?vl) \<le> j \<and> j < r + Mc) (hmem h')"
      by blast
    have "written m0 c 1 (unat M) (\<lambda>_. v) (\<lambda>i j. D i j \<or> r + d \<le> j \<and> j < r + Mc) (hmem h')"
      using h'(2) by (rule written_cong) (use vl less.prems(1) in auto)
    then show ?thesis using h'(1) True by (subst opt_chunks.simps) (simp add: Let_def)
  qed
qed


section \<open>The first program computes rows in another order\<close>

lemma gemv_cols_simps [simp]:
  "hmem (gemv_cols fmul fmacc M N col a b h) = hmem h \<and> hvl (gemv_cols fmul fmacc M N col a b h) = hvl h"
proof (induction fmul fmacc M N col a b h rule: gemv_cols.induct)
  case (1 fmul fmacc M N col a b h)
  then show ?case by (subst (1 2) gemv_cols.simps) (simp add: Let_def vfmul_vf_def vfmacc_vf_def)
qed

text \<open>Column \<open>k\<close> times element \<open>k\<close> of \<open>b\<close>, summed over the even or the odd columns.\<close>

definition half_sum :: "(u32 \<Rightarrow> u32 \<Rightarrow> u32) \<Rightarrow> (u32 \<Rightarrow> u32 \<Rightarrow> u32 \<Rightarrow> u32) \<Rightarrow> mem \<Rightarrow> u32 \<Rightarrow> u32 \<Rightarrow> nat \<Rightarrow> nat \<Rightarrow> nat \<Rightarrow> nat \<Rightarrow> u32" where
  "half_sum fmul fmacc m a b M r p =
     partial fmul fmacc (\<lambda>k. load32 m (b + 4 * of_nat (2 * k + p))) (\<lambda>k. load32 m (cell a M (2 * k + p) r))"

definition gemv_ref :: "(u32 \<Rightarrow> u32 \<Rightarrow> u32) \<Rightarrow> (u32 \<Rightarrow> u32 \<Rightarrow> u32 \<Rightarrow> u32) \<Rightarrow> (u32 \<Rightarrow> u32 \<Rightarrow> u32) \<Rightarrow> mem \<Rightarrow> u32 \<Rightarrow> u32 \<Rightarrow> nat \<Rightarrow>
    nat \<Rightarrow> nat \<Rightarrow> u32" where
  "gemv_ref fmul fmacc fadd m a b M Q r = fadd (half_sum fmul fmacc m a b M r 1 Q) (half_sum fmul fmacc m a b M r 0 Q)"

lemma half_sum_Suc:
  "(0 < q \<Longrightarrow> d = half_sum fmul fmacc m a b M r p q) \<Longrightarrow> half_sum fmul fmacc m a b M r p (Suc q) =
    (if q = 0 then (\<lambda>d x y. fmul y x) else fmacc) d (load32 m (b + 4 * of_nat (2 * q + p))) (load32 m (cell a M (2 * q + p) r))"
  by (cases "q = 0") (simp_all add: half_sum_def partial_1 partial_Suc)

lemma gemv_cols_result:
  assumes "hvl h \<le> 64" "i < hvl h" "q < Q" "0 \<le> M"
    and "0 < q \<Longrightarrow> grp h 4 i = half_sum fmul fmacc (hmem h) a b (nat M) (r + i) 0 q"
    and "0 < q \<Longrightarrow> grp h 12 i = half_sum fmul fmacc (hmem h) a b (nat M) (r + i) 1 q"
  shows "grp (gemv_cols fmul fmacc M (2 * int Q) (2 * int q) (a + 4 * (of_nat (2 * q) * of_int M) + 4 * of_nat r)
      (b + 4 * of_nat (2 * q)) h) 4 i = half_sum fmul fmacc (hmem h) a b (nat M) (r + i) 0 Q \<and>
    grp (gemv_cols fmul fmacc M (2 * int Q) (2 * int q) (a + 4 * (of_nat (2 * q) * of_int M) + 4 * of_nat r)
      (b + 4 * of_nat (2 * q)) h) 12 i = half_sum fmul fmacc (hmem h) a b (nat M) (r + i) 1 Q"
  using assms
proof (induction "Q - q" arbitrary: q h)
  case (Suc d)
  let ?a = "\<lambda>k. a + 4 * (of_nat k * of_int M) + 4 * of_nat r" and ?b = "\<lambda>k. b + 4 * of_nat k"
  let ?op = "if q = 0 then vfmul_vf fmul else vfmacc_vf fmacc"
  let ?f = "if q = 0 then (\<lambda>d x y. fmul y x) else fmacc"
  have op: "?op = vop_vf ?f" by (simp add: vfmul_vf_def vfmacc_vf_def)
  let ?h1 = "vop_vf ?f 4 (load32 (hmem h) (?b (2 * q))) 0 (vle32 0 (?a (2 * q)) h)"
  let ?h2 = "vop_vf ?f 12 (load32 (hmem h) (?b (Suc (2 * q)))) 8 (vle32 8 (?a (Suc (2 * q))) ?h1)"
  have next': "?a k + 4 * of_int M = ?a (Suc k)" "?b k + 4 = ?b (Suc k)" for k
    by (simp_all add: algebra_simps)
  have "2 * int (Suc q) = 2 * int q + 2" "2 * int q < 2 * int Q" "2 * int q = 0 \<longleftrightarrow> q = 0" using Suc.prems(3) by simp_all
  then have step: "gemv_cols fmul fmacc M (2 * int Q) (2 * int q) (?a (2 * q)) (?b (2 * q)) h =
      gemv_cols fmul fmacc M (2 * int Q) (2 * int (Suc q)) (?a (2 * Suc q)) (?b (2 * Suc q)) ?h2"
    by (subst gemv_cols.simps) (simp add: Let_def op next' del: of_nat_Suc of_nat_mult)
  have at: "?a k + 4 * of_nat i = cell a (nat M) k (r + i)" for k
    using Suc.prems(4) by (simp add: cell_def algebra_simps)
  have g1: "grp ?h1 4 i = ?f (grp h 4 i) (load32 (hmem h) (?b (2 * q))) (load32 (hmem h) (cell a (nat M) (2 * q) (r + i)))"
    "grp ?h1 12 i = grp h 12 i"
    using Suc.prems(1,2) by (simp_all add: vop_vf_grp(1) vop_vf_grp(2) [where l = 4] vle_grp(1) vle_grp(2) [where l = 4] at [symmetric])
  have g2: "grp ?h2 4 i = grp ?h1 4 i"
    "grp ?h2 12 i = ?f (grp h 12 i) (load32 (hmem h) (?b (Suc (2 * q)))) (load32 (hmem h) (cell a (nat M) (Suc (2 * q)) (r + i)))"
    using Suc.prems(1,2)
    by (simp_all add: vop_vf_grp(1) [of i _ _ 12] vop_vf_grp(2) [where l = 4] vle_grp(1) vle_grp(2) [where l = 4] at [symmetric])
  have s: "grp ?h2 4 i = half_sum fmul fmacc (hmem h) a b (nat M) (r + i) 0 (Suc q)"
    "grp ?h2 12 i = half_sum fmul fmacc (hmem h) a b (nat M) (r + i) 1 (Suc q)"
    unfolding g2 g1
    by (subst half_sum_Suc [where d = "grp h 4 i"], erule Suc.prems(5), simp)
      (subst half_sum_Suc [where d = "grp h 12 i"], erule Suc.prems(6), simp)
  show ?case
  proof (cases "Suc q = Q")
    case True
    then show ?thesis unfolding step using s by (subst (1 2) gemv_cols.simps) simp
  next
    case False
    then show ?thesis unfolding step
      using Suc.hyps(1) [of "Suc q" ?h2] Suc.hyps(2) Suc.prems(1-4) s by simp
  qed
qed simp


lemma gemv_ref_kept:
  assumes "operands_apart c b a 1 (2 * Q) M" "written m0 c 1 M v D m" "r < M" "0 < Q"
  shows "gemv_ref fmul fmacc fadd m a b M Q r = gemv_ref fmul fmacc fadd m0 a b M Q r"
proof -
  have "half_sum fmul fmacc m a b M r p Q = half_sum fmul fmacc m0 a b M r p Q" if "p < 2" for p
    unfolding half_sum_def
  proof (rule partial_cong [OF assms(4)])
    fix q assume "q < Q"
    then have "2 * q + p < 2 * Q" using that by simp
    then show "load32 m (b + 4 * of_nat (2 * q + p)) = load32 m0 (b + 4 * of_nat (2 * q + p)) \<and>
        load32 m (cell a M (2 * q + p) r) = load32 m0 (cell a M (2 * q + p) r)"
      using operands_kept(1) [OF assms(1,2), of 0 "2 * q + p"] operands_kept(2) [OF assms(1,2), of "2 * q + p" r] assms(3)
      by (simp add: cell_def)
  qed
  then show ?thesis by (simp add: gemv_ref_def)
qed

text \<open>
  The row of \<open>a\<close> that ends up in element \<open>i\<close> of the result of a core: behind a chunk, \<open>a_\<close> is set to the
  number of elements still to do instead of the number done.
\<close>

definition src_row :: "nat \<Rightarrow> nat \<Rightarrow> nat" where
  "src_row M_core i = (if i < 64 then i else M_core - 64 * (i div 64) + i mod 64)"

lemma src_row_chunk:
  assumes "64 dvd d" "i < 64" "d + i < Mc"
  shows "src_row Mc (d + i) = (if d = 0 then 0 else Mc - d) + i" "src_row Mc (d + i) < Mc"
proof -
  obtain k where d: "d = 64 * k" using assms(1) by (elim dvdE)
  then show "src_row Mc (d + i) = (if d = 0 then 0 else Mc - d) + i" "src_row Mc (d + i) < Mc"
    using assms(2,3) by (cases "k = 0"; simp add: src_row_def)+
qed

lemma src_row_id_iff: "(\<forall>i<Mc. src_row Mc i = i) \<longleftrightarrow> Mc \<le> 64 \<or> Mc = 128"
proof
  assume id: "\<forall>i<Mc. src_row Mc i = i"
  show "Mc \<le> 64 \<or> Mc = 128" using id [rule_format, of 64] by (cases "64 < Mc") (auto simp: src_row_def)
next
  assume Mc: "Mc \<le> 64 \<or> Mc = 128"
  show "\<forall>i<Mc. src_row Mc i = i"
  proof (intro allI impI)
    fix i assume i: "i < Mc"
    show "src_row Mc i = i"
    proof (cases "i < 64")
      case False
      then have "Mc = 128" "i div 64 = 1" using i Mc by (simp_all add: div_nat_eqI)
      then show ?thesis using False i by (simp add: src_row_def modulo_nat_def)
    qed (simp add: src_row_def)
  qed
qed

lemma gemv_chunks_result:
  assumes Q: "0 < Q" and o: "operands_apart c b a 1 (2 * Q) M" and Mc: "r + Mc \<le> M"
    and v: "\<And>j. j < Mc \<Longrightarrow> v (r + j) = gemv_ref fmul fmacc fadd m0 a b M Q (r + src_row Mc j)"
  shows "d + unat avl = Mc \<Longrightarrow> 0 < avl \<Longrightarrow> 64 dvd d \<Longrightarrow> written m0 c 1 M (\<lambda>_. v) D (hmem h) \<Longrightarrow>
    written m0 c 1 M (\<lambda>_. v) (\<lambda>i j. D i j \<or> r + d \<le> j \<and> j < r + Mc)
      (hmem (gemv_chunks fmul fmacc fadd (a + 4 * of_nat r) b (int M) (2 * int Q)
        (a + 4 * of_nat r + 4 * of_nat (if d = 0 then 0 else Mc - d)) (c + 4 * of_nat r + 4 * of_nat d) avl h))"
proof (induction "unat avl" arbitrary: avl d D h rule: less_induct)
  case less
  let ?vl = "min (unat avl) 64" and ?s = "if d = 0 then 0 else Mc - d"
  let ?h = "vsetvli 4 (unat avl) h"
  let ?h1 = "gemv_cols fmul fmacc (int M) (2 * int Q) 0 (a + 4 * of_nat r + 4 * of_nat ?s) b ?h"
  let ?h2 = "vse32 12 (c + 4 * of_nat r + 4 * of_nat d) (vop_vv (\<lambda>d x y. fadd x y) 12 12 4 ?h1)"
  have vl: "0 < ?vl" "r + d + ?vl \<le> M" using less.prems(1,2) Mc by (auto simp: word_less_nat_alt)
  have u: "unat (avl - of_nat ?vl) = unat avl - ?vl"
    using unat_u32_less [of avl] by (subst unat_sub_u32) (simp add: unat_of_nat_u32)
  have val: "fadd (grp ?h1 12 i) (grp ?h1 4 i) = v (r + d + i)" if i: "i < ?vl" for i
  proof -
    have "d + i < Mc" using i less.prems(1) by simp
    note src = src_row_chunk [OF less.prems(3) _ this] v [OF this]
    have "grp ?h1 4 i = half_sum fmul fmacc (hmem h) a b M (r + ?s + i) 0 Q" "grp ?h1 12 i = half_sum fmul fmacc (hmem h) a b M (r + ?s + i) 1 Q"
      using gemv_cols_result [where q = 0 and Q = Q and h = ?h and i = i and M = "int M" and a = a and b = b and r = "r + ?s"] i Q
      by (simp_all add: algebra_simps)
    then show ?thesis
      using src i Mc gemv_ref_kept [OF o less.prems(4) _ Q, of "r + src_row Mc (d + i)"]
      by (simp add: gemv_ref_def add.assoc)
  qed
  have "written m0 c 1 M (\<lambda>_. v) (\<lambda>i j. D i j \<or> i = 0 \<and> r + d \<le> j \<and> j < r + d + ?vl) (hmem ?h2)"
    using written_store_words [OF less.prems(4), of 0 "r + d" "map (grp (vop_vv (\<lambda>d x y. fadd x y) 12 12 4 ?h1) 12) [0..<?vl]"]
      vl(2) o val by (simp add: vse32_grp vop_vv_grp cell_def operands_apart_def algebra_simps)
  then have w: "written m0 c 1 M (\<lambda>_. v) (\<lambda>i j. D i j \<or> r + d \<le> j \<and> j < r + d + ?vl) (hmem ?h2)"
    by (rule written_cong) simp
  let ?next = "gemv_chunks fmul fmacc fadd (a + 4 * of_nat r) b (int M) (2 * int Q) (a + 4 * of_nat r + 4 * (avl - of_nat ?vl))
      (c + 4 * of_nat r + 4 * of_nat (d + ?vl)) (avl - of_nat ?vl) ?h2"
  have run: "gemv_chunks fmul fmacc fadd (a + 4 * of_nat r) b (int M) (2 * int Q) (a + 4 * of_nat r + 4 * of_nat ?s)
      (c + 4 * of_nat r + 4 * of_nat d) avl h = (if 0 < avl - of_nat ?vl then ?next else ?h2)"
    by (subst gemv_chunks.simps) (simp add: Let_def algebra_simps)
  show ?case
  proof (cases "0 < avl - of_nat ?vl")
    case False
    then have "unat avl = ?vl" using u by (simp add: word_less_nat_alt)
    then have "written m0 c 1 M (\<lambda>_. v) (\<lambda>i j. D i j \<or> r + d \<le> j \<and> j < r + Mc) (hmem ?h2)"
      using less.prems(1) by (intro written_cong [OF w]) auto
    then show ?thesis using False by (simp only: run if_False)
  next
    case True
    then have full: "?vl = 64" using u by (auto simp: word_less_nat_alt)
    have mc: "Mc - (d + ?vl) = unat (avl - of_nat ?vl)" "d + ?vl \<noteq> 0" using less.prems(1) u vl(1) by simp_all
    have s: "of_nat (if d + ?vl = 0 then 0 else Mc - (d + ?vl)) = avl - of_nat ?vl"
      unfolding mc(1) using mc(2) by (simp only: if_False) simp
    have "unat (avl - of_nat ?vl) < unat avl" "d + ?vl + unat (avl - of_nat ?vl) = Mc" "64 dvd d + ?vl"
      using vl(1) u less.prems(1,3) full by simp_all
    from less.hyps [OF this(1,2) True this(3) w, unfolded s]
    have "written m0 c 1 M (\<lambda>_. v) (\<lambda>i j. D i j \<or> r + d \<le> j \<and> j < r + Mc) (hmem ?next)"
      by (rule written_cong) (use less.prems(1) vl in auto)
    then show ?thesis using True by (simp only: run if_True)
  qed
qed


section \<open>The programs\<close>

text \<open>Turns of the cores in which core \<open>k\<close> writes the elements \<open>S k\<close>.\<close>

lemma turns_result:
  assumes step: "\<And>cid D h. cid < n \<Longrightarrow> W D (hmem h) \<Longrightarrow>
    \<exists>h'. call (of_nat cid) h = Some h' \<and> W (\<lambda>i j. D i j \<or> S cid i j) (hmem h')"
  shows "length hs = n \<Longrightarrow> W D m \<Longrightarrow> \<exists>hs' m'. turns (Suc k) call hs m = Some (hs', m') \<and>
    W (\<lambda>i j. D i j \<or> (\<exists>cid<n. S cid i j)) m'"
proof (induction k arbitrary: D hs m)
  case (0 D hs m)
  then show ?case using run_cores_result [where W = W and call = call and S = S and cid = 0 and hs = hs, OF step _ 0(2)] by auto
next
  case (Suc k D hs m)
  obtain hs1 m1 where r: "run_cores call 0 hs m = Some (hs1, m1)" "length hs1 = n" "W (\<lambda>i j. D i j \<or> (\<exists>cid<n. S cid i j)) m1"
    using run_cores_result [where W = W and call = call and S = S and cid = 0 and hs = hs, OF step _ Suc.prems(2)] Suc.prems(1)
    by auto
  have "(\<lambda>i j. (D i j \<or> (\<exists>cid<n. S cid i j)) \<or> (\<exists>cid<n. S cid i j)) = (\<lambda>i j. D i j \<or> (\<exists>cid<n. S cid i j))"
    by (intro ext) blast
  then show ?case using Suc.IH [OF r(2,3)] r(1) by simp
qed

lemma share_div: "k * q \<le> j \<Longrightarrow> j < k * q + q \<Longrightarrow> j div q = k \<and> j mod q = j - k * (q :: nat)"
proof -
  assume a: "k * q \<le> j" "j < k * q + q"
  then have "j div q = k" by (intro div_nat_eqI) (simp_all add: mult.commute)
  then show ?thesis by (auto simp: minus_div_mult_eq_mod [symmetric])
qed


lemma share_le: "cid < n \<Longrightarrow> n = length hs \<Longrightarrow> cid * (M div length hs) + M div length hs \<le> (M :: nat)"
proof -
  assume "cid < n" "n = length hs"
  then have "Suc cid * (M div length hs) \<le> length hs * (M div length hs)" by (intro mult_le_mono1) simp
  also have "\<dots> \<le> M" by simp
  finally show ?thesis by simp
qed

lemma m_core_nat: "hs \<noteq> [] \<Longrightarrow> length hs \<le> unat M \<Longrightarrow> M div of_nat (length hs) = (of_nat (unat M div length hs) :: u32)"
  using of_nat_div_u32 [of "unat M" "length hs"] unat_u32_less [of M] by simp

definition gemv_rows :: "(u32 \<Rightarrow> u32 \<Rightarrow> u32) \<Rightarrow> (u32 \<Rightarrow> u32 \<Rightarrow> u32 \<Rightarrow> u32) \<Rightarrow> (u32 \<Rightarrow> u32 \<Rightarrow> u32) \<Rightarrow> mem \<Rightarrow> u32 \<Rightarrow> u32 \<Rightarrow> nat \<Rightarrow> nat \<Rightarrow>
    nat \<Rightarrow> nat \<Rightarrow> u32" where
  "gemv_rows fmul fmacc fadd m A B M Q mc j = gemv_ref fmul fmacc fadd m A B M Q (j div mc * mc + src_row mc (j mod mc))"

lemma sint_small: "unat (x :: u32) < 2147483648 \<Longrightarrow> sint x = int (unat x)"
proof -
  assume "unat x < 2147483648"
  moreover have "sint x = sint (of_nat (unat x) :: u32)" by (rule arg_cong [OF u32_eqI [OF refl]])
  ultimately show ?thesis by (simp only: sint_of_nat_u32)
qed

lemma gemv_core_result:
  assumes "0 < Q" "unat N = 2 * Q" "unat N < 2147483648" "unat M < 1073741824" "operands_apart R B A 1 (unat N) (unat M)"
    and "0 < mc" "cid * mc + mc \<le> unat M" and w: "written m0 R 1 (unat M) (\<lambda>_. gemv_rows fmul fmacc fadd m0 A B (unat M) Q mc) D (hmem h)"
  shows "\<exists>h'. gemv_core fmul fmacc fadd A B R M N (of_nat mc) (of_nat cid) h = Some h' \<and>
    written m0 R 1 (unat M) (\<lambda>_. gemv_rows fmul fmacc fadd m0 A B (unat M) Q mc) (\<lambda>i j. D i j \<or> (cid * mc \<le> j \<and> j < cid * mc + mc)) (hmem h')"
proof -
  have mc: "unat (of_nat mc :: u32) = mc" using assms(4,7) by simp
  have ints: "sint M = int (unat M)" "sint N = 2 * int Q" "of_int (sint (of_nat mc :: u32)) = (of_nat mc :: u32)"
    using sint_small [of M] sint_small [of N] assms(2-4) by simp_all
  have at: "(of_nat mc * of_nat cid :: u32) = of_nat (cid * mc)" by (simp add: mult.commute)
  have row: "gemv_rows fmul fmacc fadd m0 A B (unat M) Q mc (cid * mc + j) =
      gemv_ref fmul fmacc fadd m0 A B (unat M) Q (cid * mc + src_row mc j)" if "j < mc" for j
    using share_div [of cid mc "cid * mc + j"] that by (simp add: gemv_rows_def)
  have pos: "(0 :: u32) < of_nat mc" using mc assms(6) by (simp add: word_less_nat_alt)
  have "0 + unat (of_nat mc :: u32) = mc" "64 dvd (0 :: nat)" by (simp_all add: mc)
  from gemv_chunks_result [OF assms(1) assms(5) [unfolded assms(2)] assms(7) row this(1) pos this(2) w]
  show ?thesis unfolding gemv_core_def gemv_v32b_m4_def Let_def ints at by simp
qed

lemma opt_core_result:
  assumes "0 < l" "l \<le> 4" "0 < N" "operands_apart R B A 1 (unat N) (unat M)" "cid * mc + mc \<le> unat M"
    and w: "written m0 R 1 (unat M) (\<lambda>_ j. opt_ref fmacc m0 A B (unat M) (unat N) (unat (col_shift M N (of_nat (j div mc)))) j) D (hmem h)"
  shows "\<exists>h'. gemv_opt_core l fmacc A B R M N (of_nat mc) (of_nat cid) h = Some h' \<and>
    written m0 R 1 (unat M) (\<lambda>_ j. opt_ref fmacc m0 A B (unat M) (unat N) (unat (col_shift M N (of_nat (j div mc)))) j)
      (\<lambda>i j. D i j \<or> (cid * mc \<le> j \<and> j < cid * mc + mc)) (hmem h')"
proof -
  have mc: "0 + unat (of_nat mc :: u32) = mc" using assms(5) unat_u32_less [of M] by simp
  have at: "(of_nat mc * of_nat cid :: u32) = of_nat (cid * mc)" by (simp add: mult.commute)
  have "N \<noteq> 0" using assms(3) by auto
  then have shift: "col_shift M N (of_nat cid) \<le> N"
    by (simp add: col_shift_def Let_def word_le_nat_alt unat_mod less_imp_le unat_gt_0)
  have row: "opt_ref fmacc m0 A B (unat M) (unat N) (unat (col_shift M N (of_nat (j div mc)))) j =
      opt_ref fmacc m0 A B (unat M) (unat N) (unat (col_shift M N (of_nat cid))) j" if "cid * mc \<le> j" "j < cid * mc + mc" for j
    using share_div [OF that] by simp
  from opt_chunks_result [OF assms(1,2,4) shift assms(5) row mc w]
  show ?thesis unfolding gemv_opt_core_def gemv_opt_v32b_def Let_def at by simp
qed

lemma choose_lmul_some: "m_core div lmul_m1_elem \<noteq> 0 \<Longrightarrow> \<exists>l. choose_lmul m_core = Some l \<and> 0 < l \<and> l \<le> 4"
proof -
  let ?y = "m_core div lmul_m1_elem"
  assume "?y \<noteq> 0"
  then have "2 \<le> ?y \<or> ?y = 1" by (auto simp: word_le_nat_alt word_unat_eq_iff)
  then show ?thesis unfolding choose_lmul_def Let_def by auto
qed

text \<open>
  C23: the rewritten program multiplies every row that it gives to a core, which are the first \<open>cores * (M div cores)\<close>
  of the \<open>M\<close> rows, all of them exactly if the number of cores divides \<open>M\<close>: element \<open>j\<close> is the sum over the columns in
  the order in which the core that owns it visits them, beginning with the column its shift names. It ends, for every
  number of cores and every size that passes its checks, and no word apart from these elements changes.
\<close>

theorem gemv_opt_computes_product:
  assumes "hs \<noteq> []" "16 * length hs \<le> unat M" "256 \<le> unat M div length hs * unat N" "unat N * unat M \<le> 1073741824"
    and "operands_apart R B A 1 (unat N) (unat M)"
  shows "\<exists>hs' m'. gemv_opt_main fmacc A B R M N hs m = Inr (Some (hs', m')) \<and>
    written m R 1 (unat M) (\<lambda>_ j. opt_ref fmacc m A B (unat M) (unat N)
        (unat (col_shift M N (of_nat (j div (unat M div length hs))))) j)
      (\<lambda>_ j. j < length hs * (unat M div length hs)) m'"
proof -
  define mc where "mc = unat M div length hs"
  let ?W = "written m R 1 (unat M) (\<lambda>_ j. opt_ref fmacc m A B (unat M) (unat N) (unat (col_shift M N (of_nat (j div mc)))) j)"
  have core: "M div of_nat (length hs) = of_nat mc" unfolding mc_def by (rule m_core_nat) (use assms(1,2) in simp_all)
  have big: "16 \<le> mc" unfolding mc_def using assms(1,2) by (simp add: div_le_mono less_eq_div_iff_mult_less_eq)
  have N: "0 < N" using assms(3) by (auto simp: word_less_nat_alt intro!: gr0I)
  have "mc \<le> unat M" by (simp add: mc_def)
  then have u: "unat (of_nat mc :: u32) = mc" using unat_u32_less [of M] by simp
  have "mc * unat N \<le> unat M * unat N" using \<open>mc \<le> unat M\<close> by (rule mult_le_mono1)
  then have "mc * unat N \<le> 1073741824" using assms(4) by (simp only: mult.commute le_trans)
  then have "mc * unat N < 4294967296" by simp
  then have "unat (of_nat mc * N) = mc * unat N" by (simp add: unat_word_ariths u)
  then have size: "\<not> of_nat mc * N < l2_block_elem"
    using assms(3) by (simp add: word_less_nat_alt mc_def l2_block_elem_def l2_block_size_def elem_width_def)
  have "of_nat mc div lmul_m1_elem \<noteq> 0"
    using big u by (simp add: lmul_m1_elem_def elem_width_def word_unat_eq_iff unat_div)
  then obtain l where l: "choose_lmul (of_nat mc) = Some l" "0 < l" "l \<le> 4" using choose_lmul_some by blast
  have step: "\<exists>h'. gemv_opt_core l fmacc A B R M N (of_nat mc) (of_nat cid) h = Some h' \<and>
      ?W (\<lambda>i j. D i j \<or> (cid * mc \<le> j \<and> j < cid * mc + mc)) (hmem h')" if "cid < length hs" "?W D (hmem h)" for cid D h
    using opt_core_result [OF l(2,3) N assms(5) _ that(2)] share_le [OF that(1) refl, of "unat M"] by (simp add: mc_def)
  obtain hs' m' where r: "turns 3 (gemv_opt_core l fmacc A B R M N (of_nat mc)) hs m = Some (hs', m')"
    "?W (\<lambda>i j. False \<or> (\<exists>k<length hs. k * mc \<le> j \<and> j < k * mc + mc)) m'"
    using turns_result [where W = ?W and k = 2 and S = "\<lambda>k i j. k * mc \<le> j \<and> j < k * mc + mc"
        and call = "gemv_opt_core l fmacc A B R M N (of_nat mc)" and n = "length hs" and hs = hs and m = m and D = "\<lambda>_ _. False", OF step refl written_none] by auto
  have "?W (\<lambda>_ j. j < length hs * mc) m'"
    using r(2) by (rule written_cong) (use shares [of mc "length hs"] big in auto)
  then show ?thesis using r(1) l(1) size unfolding gemv_opt_main_def Let_def core mc_def [symmetric] by simp
qed

text \<open>
  C40: the first program puts into element \<open>j\<close> of the result, for every \<open>j\<close> that is given to a core, the product of
  the row that \<open>src_row\<close> names in the share of that core, for every
  number of cores and every even number of columns, and changes nothing else. By the lemma \<open>src_row_id_iff\<close> this is row \<open>j\<close>
  itself for all \<open>j\<close> exactly if a core has at most 64 elements or has 128.
\<close>

theorem gemv_computes_rows:
  assumes "hs \<noteq> []" "length hs \<le> unat M" "unat M < 1073741824" "0 < Q" "unat N = 2 * Q" "unat N < 2147483648"
    and "operands_apart R B A 1 (unat N) (unat M)"
  shows "\<exists>hs' m'. gemv_main fmul fmacc fadd A B R M N hs m = Some (hs', m') \<and>
    written m R 1 (unat M) (\<lambda>_. gemv_rows fmul fmacc fadd m A B (unat M) Q (unat M div length hs))
      (\<lambda>_ j. j < length hs * (unat M div length hs)) m'"
proof -
  define mc where "mc = unat M div length hs"
  let ?W = "written m R 1 (unat M) (\<lambda>_. gemv_rows fmul fmacc fadd m A B (unat M) Q mc)"
  have core: "M div of_nat (length hs) = of_nat mc" unfolding mc_def by (rule m_core_nat) (use assms(1,2) in simp_all)
  have pos: "0 < mc" unfolding mc_def using assms(1,2) by (simp add: div_greater_zero_iff)
  have step: "\<exists>h'. gemv_core fmul fmacc fadd A B R M N (of_nat mc) (of_nat cid) h = Some h' \<and>
      ?W (\<lambda>i j. D i j \<or> (cid * mc \<le> j \<and> j < cid * mc + mc)) (hmem h')" if "cid < length hs" "?W D (hmem h)" for cid D h
    using gemv_core_result [OF assms(4,5,6,3,7) pos _ that(2)] share_le [OF that(1) refl, of "unat M"] by (simp add: mc_def)
  obtain hs' m' where r: "turns 3 (gemv_core fmul fmacc fadd A B R M N (of_nat mc)) hs m = Some (hs', m')"
    "?W (\<lambda>i j. False \<or> (\<exists>k<length hs. k * mc \<le> j \<and> j < k * mc + mc)) m'"
    using turns_result [where W = ?W and k = 2 and S = "\<lambda>k i j. k * mc \<le> j \<and> j < k * mc + mc"
        and call = "gemv_core fmul fmacc fadd A B R M N (of_nat mc)" and n = "length hs" and hs = hs and m = m and D = "\<lambda>_ _. False", OF step refl written_none] by auto
  have "?W (\<lambda>_ j. j < length hs * mc) m'"
    using r(2) by (rule written_cong) (use shares [of mc "length hs"] pos in auto)
  then show ?thesis using r(1) unfolding gemv_main_def Let_def core mc_def [symmetric] by simp
qed


section \<open>Examples\<close>

theorem gemv_opt_computes_product_witness:
  "\<exists>hs' m'. gemv_opt_main (\<lambda>d x y. d + x * y) 0x10000 0x18000 0x20000 64 16 (replicate 4 ones_hart) (\<lambda>_. 1) = Inr (Some (hs', m')) \<and>
     load32 m' (cell 0x20000 64 0 63) = 16 * (0x1010101 * 0x1010101)"
proof -
  have "operands_apart 0x20000 0x18000 0x10000 1 16 64" by (rule operands_below_apart) simp_all
  then show ?thesis
    using gemv_opt_computes_product [of "replicate 4 ones_hart" 64 16 "0x20000" "0x18000" "0x10000" "\<lambda>d x y. d + x * y" "\<lambda>_. 1"]
    by (auto simp: written_def opt_ref_def col_sum_def col_shift_def l2_block_size_def load32_ones upt_rec)
qed

text \<open>The problem of 1024 by 128 of the test list on 4 cores: element 64 is the product of row 192.\<close>

theorem gemv_computes_rows_witness:
  "\<exists>hs' m'. gemv_main (*) (\<lambda>d x y. d + x * y) (+) 0x100000 0x190000 0x200000 1024 128 (replicate 4 ones_hart) (\<lambda>_. 1) = Some (hs', m') \<and>
     load32 m' (cell 0x200000 1024 0 64) = gemv_ref (*) (\<lambda>d x y. d + x * y) (+) (\<lambda>_. 1) 0x100000 0x190000 1024 64 192"
proof -
  have "operands_apart 0x200000 0x190000 0x100000 1 128 1024" by (rule operands_below_apart) simp_all
  then show ?thesis
    using gemv_computes_rows [of "replicate 4 ones_hart" 1024 64 128 "0x200000" "0x190000" "0x100000" "(*)" "\<lambda>d x y. d + x * y" "(+)" "\<lambda>_. 1"]
    by (auto simp: written_def gemv_rows_def src_row_def)
qed

end
