(* ===== verification/Spec2Isabelle.thy ===== *)
theory Spec2Isabelle
  imports DataMove PageAlloc LList SpinLock RlcCorrect Barrier Peripheral Interrupt OpenMP MoverQueue
    Schedule Dma Boot Console Elf
    McsConc ListConc AllocConc DispatchConc EuOrder EuReturns OmpSession GlobalEu GlobalMover MoverWait Idotp Matmul Gemv
begin
text \<open>
  CachePool: the runtime of a RISC-V cluster whose L1 memory is a shared cache, the RLC packet
  kernel that runs on it, and the parts of its simulation test bench written in C and C++.
  This library is a model of that code in HOL with the theorems that make it correct. Every
  definition is a translation of code under \<open>src/\<close>; definitions carry the names of the C
  functions and types they translate.

  \<^bold>\<open>The program.\<close> The test bench reads an ELF file into the simulated memory
  (\<open>src/hardware/tb/dpi/elfloader.cpp\<close>) and passes boot data
  (\<open>src/hardware/bootrom/bootdata*.cc\<close>) to the cores. On every core the start-up code builds a team
  structure (\<open>snRuntime/src/platforms/shared/start.c\<close>, \<open>team.c\<close>) and the allocators of
  \<open>alloc.c\<close>. Programs then use locks (\<open>snrt.h\<close>, \<open>tests/benchmark/*.c\<close>), barriers
  (\<open>barrier.c\<close>), copy routines (\<open>memcpy.c\<close>), the DMA engine (\<open>dma.c\<close>), the cache controller
  (\<open>l1cache.c\<close>), counters (\<open>perf_cnt.c\<close>), interrupts (\<open>interrupt.c\<close>) and the console
  (\<open>putchar.c\<close>, with \<open>uartdpi.c\<close> on the side of the test bench). Two services run on top: the data
  mover core (\<open>dm.c\<close>) with its task ring, and the OpenMP runtime, where core 0 hands parallel
  regions to the other cores through the event unit (\<open>omp/eu.c\<close>) and compiled code calls
  \<open>omp/kmp.c\<close> for work sharing, described by the schedules of \<open>interface.h\<close>. The RLC kernel
  (\<open>tests/multi_producer_single_consumer_double_linked_list\<close>) is the application: cores take
  packages from a table, queue them in linked lists of pages and copy them to their target.

  \<^bold>\<open>How the code is represented.\<close> Machine integers are words of their width, so arithmetic wraps as
  in C; where the code computes with \<open>int\<close>, the word is read with \<open>sint\<close>. Structures are records;
  structures that the code reaches through raw pointers (pages, list nodes, copy buffers) live in
  the byte memory of \<open>Memory\<close>, so aliasing is visible. Device accesses are recorded in order, and
  what a device answers is an argument. Errors, undefined behaviour and failing assertions are
  \<open>None\<close> or an error value. A loop that waits for a device runs over the finite list of answers
  the device gives, and its result is \<open>None\<close> when the list ends before the loop does; theorems
  about such loops say exactly which answers make them return. Concurrent code is a step
  relation: one step is one shared access of one hart, and a theorem about the system holds in
  every state that \<open>reach\<close> (theory \<open>Prelude\<close>) derives, for every interleaving. The memory is
  sequentially consistent. The structures of the runtime in cluster memory (event unit, data mover,
  cluster barrier) are shared by the cores that have their address, as the code takes them to be;
  where a build keeps that memory private to each core, because it also holds the stacks, they are not, and
  \<open>Barrier\<close> and \<open>Boot\<close> say what then happens to the barrier and to the published pointers. Fields such as the counts of passed barriers or the history of executed
  tasks observe a run; no step depends on them.

  \<^bold>\<open>Theories.\<close>
  \<^item> \<open>Prelude\<close>: integer types, \<open>reach\<close>, the locale \<open>inductive_invariant\<close> that every concurrent
    component interprets, facts on words. \<open>Memory\<close>: byte memory, loads and stores, frames.
    \<open>Vector\<close>: the vector instructions that the copy routines use.
  \<^item> \<open>DataMove\<close>: \<open>kernel/data_move_vec.c\<close>, \<open>memcpy.c\<close>, \<open>snrt_memset\<close>. All word-wise and vectorised
    routines equal the byte loop and touch nothing but the target.
  \<^item> \<open>Node\<close>, \<open>PageAlloc\<close> (\<open>kernel/mm.c\<close>), \<open>LList\<close> (\<open>kernel/llist.c\<close>): the page pool hands no page
    out twice and fails exactly when all pages are held; the linked list is a FIFO queue
    (an interpretation of the locale of \<open>FifoQueue\<close>).
  \<^item> \<open>Critical\<close>: calls of the shape lock, body, unlock, where the body is a sequence of single accesses.
    In every interleaving of any number of harts the calls behave as if made one after the other in
    the order in which they got the lock (\<open>serialised\<close>, proved in the locale of \<open>SpinLock\<close>, for every lock
    that interprets it). \<open>ListConc\<close>, \<open>AllocConc\<close>, \<open>ClintConc\<close>, \<open>DispatchConc\<close> give the bodies of
    \<open>kernel/llist.c\<close>, \<open>kernel/mm.c\<close>, \<open>interrupt.c\<close> and \<open>kmp.c\<close> access by access, show that a body in one
    piece is the operation of \<open>LList\<close>, \<open>PageAlloc\<close>, \<open>Interrupt\<close> and \<open>Kmp\<close>, and carry the results there over
    to concurrent callers. \<open>ClintConc\<close> also shows what an interrupt inside the mutex does.
  \<^item> \<open>Rlc\<close>, \<open>RlcFrames\<close>, \<open>RlcSystem\<close>, \<open>RlcCorrect\<close>: \<open>kernel/rlc.c\<close> with any number of cores. The
    invariant of the system, delivery of every packet on the sent list, completeness when the
    system drains, and three ways in which the kernel does not reach its goal.
  \<^item> \<open>SpinLock\<close>: all test-and-set locks, mutual exclusion for any number of harts. \<open>McsLock\<close>,
    \<open>McsSystem\<close>: the queue lock of \<open>tests/benchmark/mcs_lock.c\<close>, its protocol for one lock and the
    system of harts, exclusion in order of arrival and no lost hand-over. \<open>McsLine\<close>, \<open>McsConc\<close>: calls of any body
    under the queue lock, and the list operations built with \<open>USE_MCS_LOCK\<close>: they behave as if made one after the
    other in the order in which they reached the tail of the lock. \<open>Barrier\<close>: the software barriers, separation
    of the rounds and progress.
  \<^item> \<open>RtAlloc\<close> (\<open>alloc.c\<close>), \<open>Registers\<close> (\<open>cachepool_peripheral.h\<close>), \<open>Team\<close> (\<open>team.c\<close>,
    \<open>start.c\<close>), \<open>Boot\<close> (boot data, core 0 in \<open>snrt_omp_bootstrap\<close>): disjoint aligned blocks, what
    every core knows of the cluster, and the memory layout after start-up.
  \<^item> \<open>Peripheral\<close> (\<open>l1cache.c\<close>, \<open>perf_cnt.c\<close>, \<open>benchmark.c\<close>), \<open>Interrupt\<close> (\<open>interrupt.c\<close>), \<open>Dma\<close>
    (\<open>dma.c\<close>), \<open>Console\<close> (\<open>putchar.c\<close>, \<open>printf.c\<close>, \<open>uartdpi.c\<close>): what reaches the devices, in
    which order, and when the waiting loops end.
  \<^item> \<open>EventUnit\<close> (\<open>eu.c\<close>): with a clear of the cluster interrupt that works, every member of the team runs every
    region once, and the calls are never stuck; \<open>EuReturns\<close>: a number that every state-changing access then decreases. The
    shipped clear misses its register. \<open>EuOrder\<close>: what the event unit promises with either clear (regions in order, on members
    only, once on the master) and what the shipped one does: regions repeated and skipped, an \<open>eu_exit\<close> that hangs.
  \<^item> \<open>Kmp\<close> (\<open>kmp.c\<close>, \<open>omp.c\<close>), \<open>Schedule\<close> (\<open>interface.h\<close>): the static and dynamic schedules cover the
    iterations. \<open>OpenMP\<close>: the composition with the event unit: a work-shared loop as the task of a region.
  \<^item> \<open>OmpSession\<close> (\<open>snrt.h\<close>): event unit and data mover together, from the bootstrap to \<open>__snrt_omp_destroy\<close>:
    the session ends at the last barrier on every core, and what happens when the data mover is awake.
  \<^item> \<open>GlobalClint\<close>, \<open>GlobalEu\<close>: the build with \<open>EU_USE_GLOBAL_CLINT\<close>: which interrupts \<open>wake_workers\<close> sets, and that
    the workers, which poll a write-only register, never wake up.
  \<^item> \<open>DataMover\<close>, \<open>MoverQueue\<close> (\<open>dm.c\<close>): with one client the ring refines a FIFO queue of tasks
    and \<open>dm_wait\<close> returns only when all transfers have finished; with several clients a task can
    be lost. \<open>MoverWait\<close>: from any state inside \<open>dm_wait\<close> there is a run in which the call returns, by a distance that
    decreases. \<open>GlobalMover\<close>: the same system built with \<open>DM_USE_GLOBAL_CLINT\<close>, whose data mover never wakes up.
  \<^item> \<open>Elf\<close> (\<open>elfloader.cpp\<close>, the loop of \<open>tb_cachepool.sv\<close>): the image stored into the DRAM is the loadable segments that
    have bytes in the file.
  \<^item> \<open>Idotp\<close> (\<open>tests/idotp-32b\<close>): the vectorised dot product on all cores gives the sequential sum,
    once per turn, on top of what the accumulators held.
    \<open>Matmul\<close> (\<open>tests/fmatmul-32b\<close>): the three software-pipelined kernels and the rows each core takes; the result is
    the product with the terms in their order, for any operations of the floating point unit. \<open>Gemv\<close>
    (\<open>tests/gemv\<close>, \<open>tests/gemv-opt\<close>): which row the first program multiplies for each element, and that its rewrite
    multiplies every row that is given to a core. \<open>Matrix\<close> holds what the compute kernels share. The cores of these programs write different
    elements and read only the operands, so a turn between two barriers is taken core after core.

  \<^bold>\<open>Bounds.\<close> Hypotheses on sizes come from the code's own integers: sums of sizes and addresses
  below \<open>2 ^ 32\<close>, barrier participants below \<open>2 ^ 32\<close>, fewer than 32 cores in the event unit (one
  bit each of a 32-bit wake-up mask), fewer than \<open>2 ^ 31\<close> data mover clients (the fill count is
  read as \<open>int\<close>), DMA identifiers less than \<open>2 ^ 31\<close> apart, 1360-byte packets and 1024 pages in the
  RLC kernel, four slots in the task ring, hart ids below 32 where \<open>wake_workers\<close> shifts by them and below 64 where they index the
  two writable interrupt registers, harts below \<open>MCS_MAX_HARTS\<close> for the queue lock, problem sizes of the dot product that its 32-bit arithmetic holds,
  matrices whose words have distinct addresses and an even inner dimension. No definition uses fuel.

  \<^bold>\<open>Where the code falls short\<close> of what it means to do, the theorem states what happens: packets
  stranded or never acknowledged (\<open>RlcCorrect\<close>), a cluster interrupt whose clear goes to the
  barrier register (\<open>Interrupt\<close>) and the repeated and skipped regions and the hanging \<open>eu_exit\<close> that follow (\<open>EuOrder\<close>), calls
  that take the write-only set register for a CLINT in memory (\<open>Interrupt\<close>, \<open>ClintConc\<close>, \<open>GlobalEu\<close>, \<open>GlobalMover\<close>), a
  partition boundary changed without a flush (\<open>Peripheral\<close>), wrong blocks of
  the static schedule for increments other than 1, repeated calls for 8 to 11 arguments and a
  restarted dynamic loop (\<open>Kmp\<close>), lost tasks and requests of the data mover (\<open>MoverQueue\<close>), a \<open>dm_exit\<close> that waits for
  a data mover that has left (\<open>OmpSession\<close>), a wrapping size
  check of the ELF loader (\<open>Elf\<close>), harts beyond the tables of the queue lock (\<open>McsSystem\<close>), an interrupt handler that waits for
  a mutex its own hart holds (\<open>ClintConc\<close>), a loop counter that wraps for problems of one round (\<open>Idotp\<close>), rows
  computed beyond the share of a core (\<open>Matmul\<close>), rows multiplied in the wrong order (\<open>Gemv\<close>).

  \<^bold>\<open>Not modelled.\<close> The start-up assembly (\<open>start.S\<close>, \<open>start_snitch.S\<close>, \<open>bootrom.S\<close>): not C; what it passes
  to \<open>_snrt_init_team\<close> is an argument. The hardware barrier, which is a load from a device register.

  The constant team structure that \<open>OMPSTATIC_NUMTHREADS\<close> selects in \<open>omp.h\<close>.
  The vendored \<open>printf.c\<close> and \<open>encoding.h\<close>: third-party; the constants used are inlined. The
  SystemVerilog description, apart from the interrupt registers behind \<open>clint_p\<close>, which \<open>Interrupt\<close> takes from the register
  description, and the loading loop of the test bench. The printing of several harts at once, which share \<open>tohost\<close>. Debug and trace macros, which print. The other floating point kernels under
  \<open>tests/\<close> (dot product, transform, half precision) and the cache tests: stand-alone programs with vector
  assembly on which nothing else depends. The generated data headers, a parameter where used.
  Weak memory ordering: the atomics are taken as sequentially consistent.
\<close>
end
